(* ===== verification/Prelude.thy ===== *)
theory Prelude
  imports Main "HOL-Library.Word" "HOL-Library.Multiset"
begin

text \<open>
  What every component of the development shares.

  \<^item> \<open>fault\<close> and \<open>result\<close>: the ways the C++ program can leave its defined behaviour (an access
    outside an object, a null dereference, a failed \<open>assert\<close>, a call of \<open>exit\<close>, \<open>std::terminate\<close>) are values, and
    \<open>bindE\<close> sequences operations so that the first fault ends the computation.
  \<^item> Memory: a C array is the list of its elements. \<open>read_at\<close> and \<open>write_at\<close> are \<open>memcpy\<close> out of
    and into such an object and fault when the range leaves it; \<open>cstr\<close> reads the C string that
    starts a buffer and faults when the buffer holds no terminating NUL.
  \<^item> Machine integers: \<open>size_t_of_int\<close> is the implicit conversion of an \<open>int\<close> to \<open>size_t\<close>;
    \<open>le_bytes\<close> and \<open>le_val\<close> are the little-endian object representation of an unsigned value.
  \<^item> \<open>swap\<close>: \<open>std::swap\<close> of two elements of a vector.

  A byte is an Isabelle \<open>char\<close> (a type of exactly 256 values), so a C string is a \<open>string\<close>.
\<close>

named_theorems buf_simps \<open>equations that evaluate reads and writes of byte buffers\<close>
named_theorems fault_elims \<open>inversion of successful computations\<close>

subsection \<open>Faults as values\<close>

datatype fault = OutOfBounds | NullDeref | AssertFailed | ProcessExit int | Terminate

type_synonym 'a result = "fault + 'a"
type_synonym byte = char
type_synonym int32 = "32 word"

definition bindE :: "'e + 'a \<Rightarrow> ('a \<Rightarrow> 'e + 'b) \<Rightarrow> 'e + 'b" where
  "bindE m f = (case m of Inl e \<Rightarrow> Inl e | Inr x \<Rightarrow> f x)"

definition assertE :: "bool \<Rightarrow> unit result" where
  "assertE b = (if b then Inr () else Inl AssertFailed)"

lemma bindE_Inl [simp]: "bindE (Inl e) f = Inl e"
  by (simp add: bindE_def)

lemma bindE_Inr [simp]: "bindE (Inr x) f = f x"
  by (simp add: bindE_def)

lemma bindE_eq_Inr [fault_elims]: "bindE m f = Inr y \<longleftrightarrow> (\<exists>x. m = Inr x \<and> f x = Inr y)"
  by (cases m) auto

lemma bindE_eq_Inl: "bindE m f = Inl e \<longleftrightarrow> m = Inl e \<or> (\<exists>x. m = Inr x \<and> f x = Inl e)"
  by (cases m) auto

lemma bindE_assoc: "bindE (bindE m f) g = bindE m (\<lambda>x. bindE (f x) g)"
  by (cases m) auto

lemma bindE_cong [fundef_cong]:
  "m = m' \<Longrightarrow> (\<And>x. m' = Inr x \<Longrightarrow> f x = f' x) \<Longrightarrow> bindE m f = bindE m' f'"
  by (cases m') auto

lemma assertE_simps [simp]:
  "assertE True = Inr ()" "assertE False = Inl AssertFailed"
  by (simp_all add: assertE_def)

lemma assertE_eq_Inr [fault_elims]: "assertE b = Inr u \<longleftrightarrow> b"
  by (simp add: assertE_def)

text \<open>\<open>foldE\<close> runs a loop body over a list; \<open>succeeds m Q\<close>: no error, and the result satisfies \<open>Q\<close>.\<close>

fun foldE :: "('a \<Rightarrow> 's \<Rightarrow> 'e + 's) \<Rightarrow> 'a list \<Rightarrow> 's \<Rightarrow> 'e + 's" where
  "foldE f [] s = Inr s"
| "foldE f (x # xs) s = bindE (f x s) (foldE f xs)"

definition succeeds :: "'e + 'a \<Rightarrow> ('a \<Rightarrow> bool) \<Rightarrow> bool" where
  "succeeds m Q = (case m of Inl _ \<Rightarrow> False | Inr x \<Rightarrow> Q x)"

lemma succeeds_simps [simp]:
  "succeeds (Inr x) Q = Q x" "succeeds (Inl e) Q = False"
  "succeeds (bindE m f) Q = succeeds m (\<lambda>x. succeeds (f x) Q)"
  by (simp_all add: succeeds_def bindE_def split: sum.splits)

lemma succeeds_mono: "succeeds m P \<Longrightarrow> (\<And>x. P x \<Longrightarrow> Q x) \<Longrightarrow> succeeds m Q"
  by (simp add: succeeds_def split: sum.splits)

lemma succeeds_Inr: "succeeds m Q \<longleftrightarrow> (\<exists>x. m = Inr x \<and> Q x)"
  by (cases m) auto

lemma succeeds_foldE:
  assumes "I s" and "\<And>x s. x \<in> set xs \<Longrightarrow> I s \<Longrightarrow> succeeds (f x s) I"
  shows "succeeds (foldE f xs s) I"
  using assms
proof (induction xs arbitrary: s)
  case (Cons x xs)
  have "succeeds (f x s) I" using Cons.prems by simp
  then have "succeeds (f x s) (\<lambda>s'. succeeds (foldE f xs s') I)"
    by (rule succeeds_mono) (rule Cons.IH, simp_all add: Cons.prems(2))
  then show ?case by simp
qed simp

subsection \<open>Objects as lists: memcpy\<close>

definition read_at :: "nat \<Rightarrow> nat \<Rightarrow> 'a list \<Rightarrow> 'a list result" where
  "read_at off n buf =
     (if off + n \<le> length buf then Inr (take n (drop off buf)) else Inl OutOfBounds)"

definition write_at :: "nat \<Rightarrow> 'a list \<Rightarrow> 'a list \<Rightarrow> 'a list result" where
  "write_at off src buf =
     (if off + length src \<le> length buf
      then Inr (take off buf @ src @ drop (off + length src) buf) else Inl OutOfBounds)"

lemma write_at_Inr [buf_simps]:
  "off + length src \<le> length buf \<Longrightarrow>
   write_at off src buf = Inr (take off buf @ src @ drop (off + length src) buf)"
  by (simp add: write_at_def)

lemma write_at_Inl [buf_simps]:
  "length buf < off + length src \<Longrightarrow> write_at off src buf = Inl OutOfBounds"
  by (simp add: write_at_def)

lemma read_at_Inr [buf_simps]:
  "off + n \<le> length buf \<Longrightarrow> read_at off n buf = Inr (take n (drop off buf))"
  by (simp add: read_at_def)

lemma read_at_Inl [buf_simps]: "length buf < off + n \<Longrightarrow> read_at off n buf = Inl OutOfBounds"
  by (simp add: read_at_def)

lemma read_at_eq_Inr [fault_elims]:
  "read_at off n buf = Inr xs \<longleftrightarrow> off + n \<le> length buf \<and> xs = take n (drop off buf)"
  by (auto simp: read_at_def)

lemma write_at_eq_Inr [fault_elims]:
  "write_at off src buf = Inr buf' \<longleftrightarrow>
   off + length src \<le> length buf \<and> buf' = take off buf @ src @ drop (off + length src) buf"
  by (auto simp: write_at_def)

lemma length_write_at: "write_at off src buf = Inr buf' \<Longrightarrow> length buf' = length buf"
  by (auto simp: write_at_eq_Inr)

lemma write_at_read_back:
  "write_at off src buf = Inr buf' \<Longrightarrow> take (length src) (drop off buf') = src"
  by (auto simp: write_at_eq_Inr)

lemma write_at_before:
  "write_at off src buf = Inr buf' \<Longrightarrow> take off buf' = take off buf"
  by (auto simp: write_at_eq_Inr)

subsection \<open>C strings\<close>

abbreviation NUL :: byte where "NUL \<equiv> CHR 0x00"

text \<open>\<open>cstr buf\<close>: the characters before the first NUL, as \<open>strlen\<close> and \<open>strcpy\<close> read them.\<close>

fun cstr :: "byte list \<Rightarrow> string result" where
  "cstr [] = Inl OutOfBounds"
| "cstr (c # cs) = (if c = NUL then Inr [] else bindE (cstr cs) (\<lambda>s. Inr (c # s)))"

abbreviation until_nul :: "byte list \<Rightarrow> string" where
  "until_nul s \<equiv> takeWhile (\<lambda>c. c \<noteq> NUL) s"

abbreviation no_nul :: "byte list \<Rightarrow> bool" where "no_nul s \<equiv> NUL \<notin> set s"

lemma cstr_append_NUL [buf_simps]: "no_nul s \<Longrightarrow> cstr (s @ NUL # rest) = Inr s"
  by (induction s) auto

lemma cstr_c_str: "cstr (s @ [NUL]) = Inr (until_nul s)"
  by (induction s) auto

lemma cstr_until_nul: "NUL \<in> set p \<Longrightarrow> cstr p = Inr (until_nul p)"
  by (induction p) auto

lemma no_nul_until_nul [simp]: "no_nul (until_nul s)"
  by (auto dest: set_takeWhileD)

lemma until_nul_id: "no_nul s \<Longrightarrow> until_nul s = s"
  by (induction s) auto

lemma cstr_Inl_iff: "cstr buf = Inl e \<longleftrightarrow> e = OutOfBounds \<and> no_nul buf"
  by (induction buf) (auto simp: bindE_eq_Inl)

lemma cstr_Inr_decomp: "cstr buf = Inr s \<Longrightarrow> no_nul s \<and> (\<exists>rest. buf = s @ NUL # rest)"
  by (induction buf arbitrary: s) (fastforce simp: bindE_eq_Inr split: if_splits)+

lemma cstr_append: "cstr xs = Inr s \<Longrightarrow> cstr (xs @ ys) = Inr s"
  by (induction xs arbitrary: s) (auto simp: bindE_eq_Inr split: if_splits)

subsection \<open>Machine integers\<close>

text \<open>The implicit conversion \<open>int \<rightarrow> size_t\<close> on a 64-bit target: a negative value becomes huge.\<close>

definition size_t_of_int :: "int32 \<Rightarrow> nat" where
  "size_t_of_int w = unat (scast w :: 64 word)"

lemma uint_scast64: "uint (scast (w::int32) :: 64 word) = sint w mod 18446744073709551616"
  unfolding scast_eq uint_word_of_int by simp

lemma sint32_bounds: "- 2147483648 \<le> sint (w::int32)" "sint (w::int32) < 2147483648"
  using sint_ge [of w] sint_lt [of w] by simp_all

lemma size_t_of_int_eq: "size_t_of_int w = nat (sint w mod 18446744073709551616)"
  by (simp add: size_t_of_int_def unat_eq_nat_uint uint_scast64)

lemma size_t_of_int_nonneg: "0 \<le> sint w \<Longrightarrow> size_t_of_int w = nat (sint w)"
  using sint32_bounds(2) [of w] by (simp add: size_t_of_int_eq)

lemma size_t_of_int_neg: 
  assumes "sint w < 0" shows "2 ^ 63 \<le> size_t_of_int w"
proof -
  have "sint w mod 18446744073709551616 = (sint w + 18446744073709551616) mod 18446744073709551616" by simp
  also have "\<dots> = sint w + 18446744073709551616"
    using assms sint32_bounds(1) [of w] by (intro mod_pos_pos_trivial) auto
  finally show ?thesis
    using sint32_bounds(1) [of w] by (simp add: size_t_of_int_eq)
qed

primrec le_bytes :: "nat \<Rightarrow> nat \<Rightarrow> byte list" where
  "le_bytes 0 x = []"
| "le_bytes (Suc n) x = char_of x # le_bytes n (x div 256)"

primrec le_val :: "byte list \<Rightarrow> nat" where
  "le_val [] = 0"
| "le_val (c # cs) = of_char c + 256 * le_val cs"

lemma length_le_bytes [simp]: "length (le_bytes n x) = n"
  by (induction n arbitrary: x) auto

lemma le_val_le_bytes: "le_val (le_bytes n x) = x mod 256 ^ n"
  by (induction n arbitrary: x) (auto simp: mod_mult2_eq add.commute)

lemma le_val_less: "le_val cs < 256 ^ length cs"
proof (induction cs)
  case (Cons c cs)
  have "of_char c < (256::nat)" by (rule nat_of_char_less_256)
  moreover have "256 * le_val cs + 256 \<le> 256 * 256 ^ length cs"
    using Cons by (simp flip: mult_Suc_right)
  ultimately have "of_char c + 256 * le_val cs < 256 * 256 ^ length cs"
    by linarith
  then show ?case by simp
qed simp

lemma char_of_step: "char_of (of_char c + 256 * n) = c" for n :: nat
  by (metis char_of_char char_of_mod_256 mod_mult_self2)

lemma le_bytes_le_val: "length cs = n \<Longrightarrow> le_bytes n (le_val cs) = cs"
  by (induction cs arbitrary: n) (auto simp: char_of_step)

definition bytes_of_int :: "int32 \<Rightarrow> byte list" where
  "bytes_of_int w = le_bytes 4 (unat w)"

definition int_of_bytes :: "byte list \<Rightarrow> int32" where
  "int_of_bytes bs = word_of_nat (le_val bs)"

definition bytes_of_ushort :: "16 word \<Rightarrow> byte list" where
  "bytes_of_ushort w = le_bytes 2 (unat w)"

definition ushort_of_bytes :: "byte list \<Rightarrow> 16 word" where
  "ushort_of_bytes bs = word_of_nat (le_val bs)"

lemma length_bytes_of [simp]:
  "length (bytes_of_int w) = 4" "length (bytes_of_ushort v) = 2"
  by (simp_all add: bytes_of_int_def bytes_of_ushort_def)

lemma int_of_bytes_of_int [simp]: "int_of_bytes (bytes_of_int w) = w"
  using unsigned_less [of w, where ?'a = nat]
  by (simp add: int_of_bytes_def bytes_of_int_def le_val_le_bytes)

lemma ushort_of_bytes_of_ushort [simp]: "ushort_of_bytes (bytes_of_ushort w) = w"
  using unsigned_less [of w, where ?'a = nat]
  by (simp add: ushort_of_bytes_def bytes_of_ushort_def le_val_le_bytes)

subsection \<open>std::swap on a vector\<close>

definition swap :: "'a list \<Rightarrow> nat \<Rightarrow> nat \<Rightarrow> 'a list" where
  "swap xs i j = xs[i := xs ! j, j := xs ! i]"

lemma length_swap [simp]: "length (swap xs i j) = length xs"
  by (simp add: swap_def)

lemma mset_swap_eq: "i < length xs \<Longrightarrow> j < length xs \<Longrightarrow> mset (swap xs i j) = mset xs"
  by (simp add: swap_def mset_swap)

lemma nth_swap:
  "i < length xs \<Longrightarrow> j < length xs \<Longrightarrow> k < length xs \<Longrightarrow>
   swap xs i j ! k = (if k = i then xs ! j else if k = j then xs ! i else xs ! k)"
  by (auto simp: swap_def nth_list_update)

subsection \<open>Multisets of lists\<close>

lemma mset_concat_update:
  "i < length xs \<Longrightarrow> mset (concat (map f (xs[i := y]))) + mset (f (xs ! i)) = mset (concat (map f xs)) + mset (f y)"
proof (induction xs arbitrary: i)
  case (Cons x xs)
  show ?case
  proof (cases i)
    case (Suc j)
    with Cons.IH [of j] Cons.prems show ?thesis by (simp add: ac_simps)
  qed (simp add: ac_simps)
qed simp

lemma sum_list_map_update:
  "i < length xs \<Longrightarrow> (\<Sum>x\<leftarrow>xs[i := y]. f x) + f (xs ! i) = (\<Sum>x\<leftarrow>xs. f x) + (f y :: 'a::comm_monoid_add)"
proof (induction xs arbitrary: i)
  case (Cons x xs)
  show ?case
  proof (cases i)
    case (Suc j)
    with Cons.IH [of j] Cons.prems show ?thesis by (simp add: ac_simps)
  qed (simp add: ac_simps)
qed simp

lemma sum_list_map_same:
  "i < length xs \<Longrightarrow> f y = f (xs ! i) \<Longrightarrow> (\<Sum>x\<leftarrow>xs[i := y]. f x) = (\<Sum>x\<leftarrow>xs. (f x :: 'a::cancel_comm_monoid_add))"
  using sum_list_map_update [of i xs f y] by simp

lemma in_sum_list_iff: "(i \<in># (\<Sum>x\<leftarrow>xs. f x)) \<longleftrightarrow> (\<exists>x \<in> set xs. i \<in># f x)"
  by (induction xs) auto

end
