(* ===== verification/RpcTypes.thy ===== *)
theory RpcTypes
  imports Prelude
begin

text \<open>
  \<open>include/common/RpcTypes.hh\<close> and \<open>include/common/Defines.hh\<close>: the packet types and their
  object representation.

  The representation is the one the build has: x86-64 Linux, where \<open>unsigned short\<close> has 2 bytes,
  \<open>int\<close> 4 bytes, little-endian, and \<open>RpcHeader\<close> has 3 bytes of padding between \<open>need_return\<close> and
  \<open>seqno\<close>. Padding bytes have no value in the C++ object, so they are a parameter (\<open>pad\<close>) of
  \<open>header_bytes\<close>; reading a header ignores them.
\<close>

section \<open>Constants\<close>

definition MAX_FILE_DESCRIPTORS :: int where "MAX_FILE_DESCRIPTORS = 65536"
definition MAX_REQUESTS :: nat where "MAX_REQUESTS = 1024"
definition TICK_INTERVAL :: int where "TICK_INTERVAL = 1"
definition MAX_BUFFER :: nat where "MAX_BUFFER = 1024"

definition RPC_MAGIC_NUMBER :: "16 word" where "RPC_MAGIC_NUMBER = 0xabcd"
definition RPC_VERSION :: "16 word" where "RPC_VERSION = 1"
definition MAX_RPC_NAME_SIZE :: nat where "MAX_RPC_NAME_SIZE = 32"
definition MAX_RPC_PARAMS_SIZE :: nat where "MAX_RPC_PARAMS_SIZE = 480"
definition MAX_RPC_RETURN_VALUE :: nat where "MAX_RPC_RETURN_VALUE = 480"
definition INT_TYPE :: string where "INT_TYPE = ''int''"
definition FLOAT_TYPE :: string where "FLOAT_TYPE = ''float''"
definition STRING_TYPE :: string where "STRING_TYPE = ''string''"

lemmas rpc_consts = MAX_FILE_DESCRIPTORS_def MAX_REQUESTS_def MAX_BUFFER_def
  MAX_RPC_NAME_SIZE_def MAX_RPC_PARAMS_SIZE_def MAX_RPC_RETURN_VALUE_def

lemmas type_names = INT_TYPE_def FLOAT_TYPE_def STRING_TYPE_def

section \<open>Packets\<close>

record RpcHeader =
  magic :: "16 word"
  version :: "16 word"
  need_return :: bool
  seqno :: int32
  body_length :: int32
  servicename :: "byte list"

record RpcBody =
  parameters :: "byte list"

record RpcMessage =
  header :: RpcHeader
  body :: RpcBody

record RpcResult =
  result_seqno :: int32
  return_buffer :: "byte list"

text \<open>The constructor \<open>RpcMessage()\<close>.\<close>

definition RpcMessage_init :: RpcMessage where
  "RpcMessage_init =
     \<lparr>header = \<lparr>magic = RPC_MAGIC_NUMBER, version = RPC_VERSION, need_return = False,
        seqno = 0, body_length = 0, servicename = replicate MAX_RPC_NAME_SIZE NUL\<rparr>,
      body = \<lparr>parameters = replicate MAX_RPC_PARAMS_SIZE NUL\<rparr>\<rparr>"

text \<open>The arrays inside the structs have their declared sizes.\<close>

definition wf_header :: "RpcHeader \<Rightarrow> bool" where
  "wf_header h \<longleftrightarrow> length (servicename h) = MAX_RPC_NAME_SIZE"

definition wf_message :: "RpcMessage \<Rightarrow> bool" where
  "wf_message m \<longleftrightarrow> wf_header (header m) \<and> length (parameters (body m)) = MAX_RPC_PARAMS_SIZE"

definition wf_result :: "RpcResult \<Rightarrow> bool" where
  "wf_result r \<longleftrightarrow> length (return_buffer r) = MAX_RPC_RETURN_VALUE"

lemma wf_RpcMessage_init [simp]: "wf_message RpcMessage_init"
  by (simp add: wf_message_def wf_header_def RpcMessage_init_def)

section \<open>Object representation\<close>

definition sizeof_RpcHeader :: nat where "sizeof_RpcHeader = 48"
definition sizeof_RpcResult :: nat where "sizeof_RpcResult = 484"

text \<open>\<open>memcpy\<close> out of an \<open>RpcHeader\<close> object whose padding holds \<open>pad\<close>.\<close>

definition header_bytes :: "byte list \<Rightarrow> RpcHeader \<Rightarrow> byte list" where
  "header_bytes pad h =
     bytes_of_ushort (magic h) @ bytes_of_ushort (version h) @
     [if need_return h then CHR 0x01 else NUL] @ pad @
     bytes_of_int (seqno h) @ bytes_of_int (body_length h) @ servicename h"

text \<open>\<open>memcpy\<close> (or \<open>recv\<close>) of 48 bytes into an \<open>RpcHeader\<close> object.\<close>

definition header_of_bytes :: "byte list \<Rightarrow> RpcHeader" where
  "header_of_bytes bs =
     \<lparr>magic = ushort_of_bytes (take 2 bs),
      version = ushort_of_bytes (take 2 (drop 2 bs)),
      need_return = (bs ! 4 \<noteq> NUL),
      seqno = int_of_bytes (take 4 (drop 8 bs)),
      body_length = int_of_bytes (take 4 (drop 12 bs)),
      servicename = take 32 (drop 16 bs)\<rparr>"

definition result_bytes :: "RpcResult \<Rightarrow> byte list" where
  "result_bytes r = bytes_of_int (result_seqno r) @ return_buffer r"

definition result_of_bytes :: "byte list \<Rightarrow> RpcResult" where
  "result_of_bytes bs =
     \<lparr>result_seqno = int_of_bytes (take 4 bs), return_buffer = drop 4 bs\<rparr>"

lemma length_header_bytes:
  "wf_header h \<Longrightarrow> length pad = 3 \<Longrightarrow> length (header_bytes pad h) = sizeof_RpcHeader"
  by (simp add: wf_header_def header_bytes_def sizeof_RpcHeader_def rpc_consts)

lemma length_result_bytes: "wf_result r \<Longrightarrow> length (result_bytes r) = sizeof_RpcResult"
  by (simp add: wf_result_def result_bytes_def sizeof_RpcResult_def rpc_consts)

lemma header_of_header_bytes:
  assumes "wf_header h" "length pad = 3"
  shows "header_of_bytes (header_bytes pad h) = h"
proof -
  obtain p0 p1 p2 where pad: "pad = [p0, p1, p2]"
    using assms(2) by (auto simp: length_Suc_conv numeral_3_eq_3)
  obtain m0 m1 where m: "bytes_of_ushort (magic h) = [m0, m1]"
    by (simp add: bytes_of_ushort_def numeral_2_eq_2)
  obtain v0 v1 where v: "bytes_of_ushort (version h) = [v0, v1]"
    by (simp add: bytes_of_ushort_def numeral_2_eq_2)
  have "ushort_of_bytes [m0, m1] = magic h" "ushort_of_bytes [v0, v1] = version h"
    unfolding m [symmetric] v [symmetric] by simp_all
  with assms(1) pad m v show ?thesis
    by (simp add: header_bytes_def header_of_bytes_def wf_header_def rpc_consts)
qed

lemma result_of_result_bytes: "result_of_bytes (result_bytes r) = r"
  by (simp add: result_bytes_def result_of_bytes_def)

lemma wf_header_of_bytes: "48 \<le> length bs \<Longrightarrow> wf_header (header_of_bytes bs)"
  by (simp add: wf_header_def header_of_bytes_def rpc_consts)

end
