(* ===== verification/Effects.thy ===== *)
theory Effects
  imports RpcTypes
begin

text \<open>
  The effects of the program on its environment, as a trace of calls: every component with
  effects extends the record \<open>world\<close>, and \<open>emit\<close> appends one call. What the environment answers
  (the bytes \<open>recv\<close> delivers, the descriptor \<open>accept\<close> returns, the events \<open>epoll_wait\<close> reports) is
  an argument of the operation that asks. A log call is recorded with its format string and
  arguments; what the logger does with them is the theory \<open>Logger\<close>.
\<close>

unbundle bit_operations_syntax

type_synonym u32 = "32 word"

datatype log_arg = LInt int | LStr string

datatype epoll_op = EPOLL_CTL_ADD | EPOLL_CTL_MOD | EPOLL_CTL_DEL

datatype io =
    LogDev string "log_arg list"
  | LogErr string "log_arg list"
  | SetNonblocking int
  | EpollCtl epoll_op int u32
  | EpollWait "(int \<times> u32) list"
  | Socket
  | Bind int string int
  | Listen int int
  | Connect int string int
  | SetSockBuf int
  | Accept int
  | Recv int nat
  | Send int "byte list"
  | Close int
  | HttpInit
  | HttpPost string string
  | HttpGet string
  | HttpCleanup

record world =
  trace :: "io list"

definition emit :: "io \<Rightarrow> 'a world_scheme \<Rightarrow> 'a world_scheme" where
  "emit x w = w\<lparr>trace := trace w @ [x]\<rparr>"

lemma trace_emit [simp]: "trace (emit x w) = trace w @ [x]"
  by (simp add: emit_def)

lemma emit_more [simp]: "world.more (emit x w) = world.more w"
  by (simp add: emit_def)

section \<open>What the kernel was last asked\<close>

definition EPOLLIN :: u32 where "EPOLLIN = 0x001"
definition EPOLLOUT :: u32 where "EPOLLOUT = 0x004"
definition EPOLLERR :: u32 where "EPOLLERR = 0x008"
definition EPOLLHUP :: u32 where "EPOLLHUP = 0x010"
definition EPOLLRDHUP :: u32 where "EPOLLRDHUP = 0x2000"
definition EPOLLONESHOT :: u32 where "EPOLLONESHOT = 0x40000000"
definition EPOLLET :: u32 where "EPOLLET = 0x80000000"

text \<open>
  The interest list of \<open>epoll\<close>, read off the trace with the documented meaning of \<open>epoll_ctl(2)\<close>
  and \<open>epoll_wait(2)\<close>: a descriptor maps to its mask and to whether it is enabled. \<open>ADD\<close> of a
  registered descriptor and \<open>MOD\<close> or \<open>DEL\<close> of an unregistered one fail and change nothing
  (\<open>CtrlEvent\<close> ignores the error); \<open>close(2)\<close> removes the descriptor; reporting an event of a
  descriptor whose mask has \<open>EPOLLONESHOT\<close> disables it until the next \<open>MOD\<close>.
\<close>

type_synonym interest_map = "int \<Rightarrow> (u32 \<times> bool) option"

fun interest_step :: "io \<Rightarrow> interest_map \<Rightarrow> interest_map" where
  "interest_step (EpollCtl EPOLL_CTL_ADD fd ev) m = (if m fd = None then m(fd := Some (ev, True)) else m)"
| "interest_step (EpollCtl EPOLL_CTL_MOD fd ev) m = (if m fd = None then m else m(fd := Some (ev, True)))"
| "interest_step (EpollCtl EPOLL_CTL_DEL fd ev) m = m(fd := None)"
| "interest_step (Close fd) m = m(fd := None)"
| "interest_step (EpollWait evs) m =
     (\<lambda>fd. case m fd of None \<Rightarrow> None
        | Some (ev, en) \<Rightarrow> Some (ev, en \<and> (ev AND EPOLLONESHOT = 0 \<or> fd \<notin> fst ` set evs)))"
| "interest_step _ m = m"

definition interest :: "io list \<Rightarrow> interest_map" where
  "interest tr = fold interest_step tr (\<lambda>_. None)"

definition armed :: "io list \<Rightarrow> int \<Rightarrow> u32 option" where
  "armed tr fd = (case interest tr fd of Some (ev, True) \<Rightarrow> Some ev | _ \<Rightarrow> None)"

lemma interest_Nil [simp]: "interest [] = (\<lambda>_. None)"
  by (simp add: interest_def)

lemma interest_append [simp]: "interest (tr @ xs) = fold interest_step xs (interest tr)"
  by (simp add: interest_def)

lemma armed_registered: "armed tr fd = Some ev \<Longrightarrow> interest tr fd = Some (ev, True)"
  by (auto simp: armed_def split: option.splits bool.splits prod.splits)

end
