(* ===== verification/Interfaces.thy ===== *)
theory Interfaces
  imports Prelude
begin

text \<open>
  The contracts between components, as locales: the operations the client calls and the laws the
  provider promises. Each is interpreted on the model's own definitions in the theory of the
  component that provides it.

  \<^item> \<open>id_allocator\<close>: what \<open>RpcServiceBase\<close> and \<open>CallbacksHandler\<close> rely on in \<open>Guid\<close>.
  \<^item> \<open>bounded_fifo\<close>: what \<open>ThreadPool\<close> relies on in \<open>SafeQueue\<close>.
  \<^item> \<open>handler_table\<close>: what \<open>ServerTransport\<close> relies on in \<open>EventHandlerManager\<close>.
\<close>

section \<open>Allocating call identifiers\<close>

datatype id_op = Get | Recycle int

text \<open>
  A client that keeps the list of the ids it holds: it recycles only ids of that list.
\<close>

fun id_run :: "('s \<Rightarrow> int \<times> 's) \<Rightarrow> (int \<Rightarrow> 's \<Rightarrow> 's) \<Rightarrow> int list \<Rightarrow> 's \<Rightarrow> id_op list \<Rightarrow> int list \<times> 's" where
  "id_run get recycle held s [] = (held, s)"
| "id_run get recycle held s (Get # ops) =
     (case get s of (i, s') \<Rightarrow> id_run get recycle (if i = -1 then held else i # held) s' ops)"
| "id_run get recycle held s (Recycle i # ops) =
     (if i \<in> set held then id_run get recycle (remove1 i held) (recycle i s) ops
      else id_run get recycle held s ops)"

lemma id_run_append:
  "id_run get recycle held s (xs @ ys) =
     (case id_run get recycle held s xs of (held', s') \<Rightarrow> id_run get recycle held' s' ys)"
  by (induction get recycle held s xs rule: id_run.induct) (auto split: prod.splits)

locale id_allocator =
  fixes get :: "'s \<Rightarrow> int \<times> 's"
    and recycle :: "int \<Rightarrow> 's \<Rightarrow> 's"
    and live :: "'s \<Rightarrow> int set"
    and ok :: "'s \<Rightarrow> bool"
    and cap :: int
  assumes get_ok: "ok s \<Longrightarrow> get s = (i, s') \<Longrightarrow> ok s'"
    and get_full: "ok s \<Longrightarrow> get s = (-1, s') \<Longrightarrow> s' = s \<and> live s = {1..cap}"
    and get_fresh: "ok s \<Longrightarrow> get s = (i, s') \<Longrightarrow> i \<noteq> -1 \<Longrightarrow>
      i \<notin> live s \<and> live s' = insert i (live s)"
    and live_bounds: "ok s \<Longrightarrow> live s \<subseteq> {1..cap}"
    and recycle_ok: "ok s \<Longrightarrow> i \<in> live s \<Longrightarrow> ok (recycle i s)"
    and live_recycle: "ok s \<Longrightarrow> i \<in> live s \<Longrightarrow> live (recycle i s) = live s - {i}"
begin

lemma finite_live: "ok s \<Longrightarrow> finite (live s)"
  using live_bounds by (meson finite_atLeastAtMost_int finite_subset)

lemma run_exclusive:
  "ok s \<Longrightarrow> distinct held \<Longrightarrow> set held = live s \<Longrightarrow> id_run get recycle held s ops = (held', s') \<Longrightarrow>
   ok s' \<and> distinct held' \<and> set held' = live s'"
proof (induction ops arbitrary: held s)
  case (Cons op ops)
  show ?case
  proof (cases op)
    case Get
    obtain i s1 where g: "get s = (i, s1)" by fastforce
    show ?thesis
    proof (cases "i = -1")
      case True
      then have "s1 = s" using get_full Cons.prems(1) g by blast
      with True show ?thesis using Cons.IH [OF Cons.prems(1-3)] Cons.prems(4) Get g by simp
    next
      case False
      from get_fresh [OF Cons.prems(1) g False] Cons.prems(2,3)
      have "distinct (i # held)" "set (i # held) = live s1" by auto
      moreover have "id_run get recycle (i # held) s1 ops = (held', s')"
        using Cons.prems(4) Get g False by simp
      ultimately show ?thesis using Cons.IH get_ok [OF Cons.prems(1) g] by blast
    qed
  next
    case (Recycle i)
    show ?thesis
    proof (cases "i \<in> set held")
      case True
      then have i: "i \<in> live s" using Cons.prems(3) by simp
      have "distinct (remove1 i held)" "set (remove1 i held) = live (recycle i s)"
        using Cons.prems(2,3) live_recycle [OF Cons.prems(1) i] by auto
      moreover have "id_run get recycle (remove1 i held) (recycle i s) ops = (held', s')"
        using Cons.prems(4) Recycle True by simp
      ultimately show ?thesis using Cons.IH recycle_ok [OF Cons.prems(1) i] by blast
    next
      case False
      with Cons Recycle show ?thesis by simp
    qed
  qed
qed simp

lemma alloc_bounds: "ok s \<Longrightarrow> get s = (i, s') \<Longrightarrow> i \<noteq> -1 \<Longrightarrow> 1 \<le> i \<and> i \<le> cap"
  using get_fresh get_ok live_bounds by (metis atLeastAtMost_iff insertI1 subsetD)

end

section \<open>A table of handlers per descriptor and event\<close>

locale handler_table =
  fixes attach :: "int \<Rightarrow> int \<Rightarrow> 'h \<Rightarrow> 't \<Rightarrow> 't result"
    and detach :: "int \<Rightarrow> 't \<Rightarrow> 't result"
    and look :: "'t \<Rightarrow> int \<Rightarrow> int \<Rightarrow> 'h option"
    and event :: "int \<Rightarrow> bool"
    and cap :: int
  assumes attach_ok: "0 \<le> fd \<Longrightarrow> fd < cap \<Longrightarrow> event ty \<Longrightarrow> \<exists>t'. attach fd ty h t = Inr t'"
    and attach_fault: "fd < 0 \<or> cap \<le> fd \<Longrightarrow> event ty \<Longrightarrow> attach fd ty h t = Inl OutOfBounds"
    and attach_look: "attach fd ty h t = Inr t' \<Longrightarrow> event ty \<Longrightarrow> event ty' \<Longrightarrow>
      look t' fd' ty' = (if fd' = fd \<and> ty' = ty then Some h else look t fd' ty')"
    and detach_ok: "0 \<le> fd \<Longrightarrow> fd < cap \<Longrightarrow> \<exists>t'. detach fd t = Inr t'"
    and detach_look: "detach fd t = Inr t' \<Longrightarrow> event ty \<Longrightarrow>
      look t' fd' ty = (if fd' = fd then None else look t fd' ty)"
begin

text \<open>Registering three handlers of a connection, as \<open>ServerTransport::HandleReadEvent\<close> does.\<close>

lemma attach3_ok:
  assumes "0 \<le> fd" "fd < cap" "event a" "event b" "event c"
  shows "\<exists>t'. bindE (attach fd a h1 t) (\<lambda>t. bindE (attach fd b h2 t) (attach fd c h3)) = Inr t'"
  using assms attach_ok by (metis bindE_Inr)

lemma attach3_look:
  assumes "bindE (attach fd a h1 t) (\<lambda>t. bindE (attach fd b h2 t) (attach fd c h3)) = Inr t'"
    and "event a" "event b" "event c" "distinct [a, b, c]" "event ty"
  shows "look t' fd' ty =
    (if fd' \<noteq> fd then look t fd' ty else if ty = a then Some h1 else if ty = b then Some h2
     else if ty = c then Some h3 else look t fd' ty)"
proof -
  from assms(1) obtain t1 t2 where
    t: "attach fd a h1 t = Inr t1" "attach fd b h2 t1 = Inr t2" "attach fd c h3 t2 = Inr t'"
    by (auto simp: bindE_eq_Inr)
  show ?thesis
    using attach_look [OF t(1) assms(2) assms(6)] attach_look [OF t(2) assms(3) assms(6)]
      attach_look [OF t(3) assms(4) assms(6)] assms(5) by auto
qed

lemma detach_attach3:
  assumes "bindE (attach fd a h1 t) (\<lambda>t. bindE (attach fd b h2 t) (attach fd c h3)) = Inr t1"
    and "detach fd t1 = Inr t'" "event a" "event b" "event c" "event ty"
    and "\<And>ty. event ty \<Longrightarrow> look t fd ty = None"
  shows "look t' fd' ty = look t fd' ty"
proof -
  from assms(1) obtain u v where
    t: "attach fd a h1 t = Inr u" "attach fd b h2 u = Inr v" "attach fd c h3 v = Inr t1"
    by (auto simp: bindE_eq_Inr)
  show ?thesis
    using detach_look [OF assms(2,6), of fd'] attach_look [OF t(1) assms(3,6), of fd']
      attach_look [OF t(2) assms(4,6), of fd'] attach_look [OF t(3) assms(5,6), of fd'] assms(6,7)
    by auto
qed

end

section \<open>A bounded first-in first-out queue\<close>

datatype 'a fifo_op = Enq 'a | Deq

text \<open>Runs a sequence of operations and collects the accepted and the removed elements.\<close>

fun fifo_run :: "('a \<Rightarrow> 'q \<Rightarrow> bool \<times> 'q) \<Rightarrow> ('q \<Rightarrow> 'a option \<times> 'q) \<Rightarrow> 'q \<Rightarrow> 'a fifo_op list \<Rightarrow>
    'a list \<times> 'a list \<times> 'q" where
  "fifo_run enq deq s [] = ([], [], s)"
| "fifo_run enq deq s (Enq x # ops) =
     (case enq x s of (b, s') \<Rightarrow> case fifo_run enq deq s' ops of (acc, rem, s'') \<Rightarrow>
       (if b then x # acc else acc, rem, s''))"
| "fifo_run enq deq s (Deq # ops) =
     (case deq s of (r, s') \<Rightarrow> case fifo_run enq deq s' ops of (acc, rem, s'') \<Rightarrow>
       (acc, case r of None \<Rightarrow> rem | Some x \<Rightarrow> x # rem, s''))"

locale bounded_fifo =
  fixes enq :: "'a \<Rightarrow> 'q \<Rightarrow> bool \<times> 'q"
    and deq :: "'q \<Rightarrow> 'a option \<times> 'q"
    and contents :: "'q \<Rightarrow> 'a list"
    and cap :: "'q \<Rightarrow> nat"
  assumes enq_accept: "length (contents s) < cap s \<Longrightarrow>
      fst (enq x s) \<and> contents (snd (enq x s)) = contents s @ [x]"
    and enq_reject: "cap s \<le> length (contents s) \<Longrightarrow> enq x s = (False, s)"
    and enq_cap: "cap (snd (enq x s)) = cap s"
    and deq_empty: "contents s = [] \<Longrightarrow> deq s = (None, s)"
    and deq_front: "contents s = x # xs \<Longrightarrow> fst (deq s) = Some x \<and> contents (snd (deq s)) = xs"
    and deq_cap: "cap (snd (deq s)) = cap s"
begin

lemma run_fifo:
  "fifo_run enq deq s ops = (acc, rem, s') \<Longrightarrow> contents s @ acc = rem @ contents s'"
proof (induction ops arbitrary: s acc rem s')
  case (Cons op ops)
  show ?case
  proof (cases op)
    case (Enq x)
    obtain b s1 where e: "enq x s = (b, s1)" by fastforce
    obtain acc1 rem1 s2 where r: "fifo_run enq deq s1 ops = (acc1, rem1, s2)" by (cases "fifo_run enq deq s1 ops")
    note IH = Cons.IH [OF r]
    show ?thesis
      using Cons.prems IH enq_accept [of s x] enq_reject [of s x]
      by (cases "length (contents s) < cap s") (auto simp: Enq e r)
  next
    case Deq
    obtain o1 s1 where e: "deq s = (o1, s1)" by fastforce
    obtain acc1 rem1 s2 where r: "fifo_run enq deq s1 ops = (acc1, rem1, s2)" by (cases "fifo_run enq deq s1 ops")
    note IH = Cons.IH [OF r]
    show ?thesis
      using Cons.prems IH deq_empty [of s] deq_front [of s]
      by (cases "contents s") (auto simp: Deq e r)
  qed
qed simp

lemma run_bound:
  "fifo_run enq deq s ops = (acc, rem, s') \<Longrightarrow> length (contents s) \<le> cap s \<Longrightarrow>
   length (contents s') \<le> cap s' \<and> cap s' = cap s"
proof (induction ops arbitrary: s acc rem s')
  case (Cons op ops)
  show ?case
  proof (cases op)
    case (Enq x)
    obtain b s1 where e: "enq x s = (b, s1)" by fastforce
    obtain acc1 rem1 s2 where r: "fifo_run enq deq s1 ops = (acc1, rem1, s2)" by (cases "fifo_run enq deq s1 ops")
    have "length (contents s1) \<le> cap s1 \<and> cap s1 = cap s"
      using Cons.prems(2) enq_accept [of s x] enq_reject [of s x] enq_cap [of x s]
      by (cases "length (contents s) < cap s") (auto simp: e)
    with Cons.IH [OF r] Cons.prems(1) show ?thesis by (auto simp: Enq e r)
  next
    case Deq
    obtain o1 s1 where e: "deq s = (o1, s1)" by fastforce
    obtain acc1 rem1 s2 where r: "fifo_run enq deq s1 ops = (acc1, rem1, s2)" by (cases "fifo_run enq deq s1 ops")
    have "length (contents s1) \<le> cap s1 \<and> cap s1 = cap s"
      using Cons.prems(2) deq_empty [of s] deq_front [of s] deq_cap [of s]
      by (cases "contents s") (auto simp: e)
    with Cons.IH [OF r] Cons.prems(1) show ?thesis by (auto simp: Deq e r)
  qed
qed simp

end

end
