(* ===== verification/EventHandler.thy ===== *)
theory EventHandler
  imports Effects Interfaces
begin

text \<open>
  \<open>include/runtime/handlemodel\<close>, \<open>source/runtime/handlemodel\<close>: the event handler interface, the
  manager that keeps one handler per descriptor and event, and the client's router.

  A handler object is an identifier of type \<open>'h\<close>; its virtual methods are the record \<open>vtable\<close>.
  The array \<open>_list\<close> of \<open>MAX_EVENT_HANDLERS\<close> pointers is a function on indices; an index outside
  the array is a fault. \<open>EventType\<close> values are the \<open>int\<close>s of the source, since \<open>Dispatch\<close> casts
  arbitrary bit sets to the enum.
\<close>

unbundle bit_operations_syntax

section \<open>Event types\<close>

definition READ_EVENT :: int where "READ_EVENT = 0x01"
definition WRITE_EVENT :: int where "WRITE_EVENT = 0x02"
definition CLOSE_EVENT :: int where "CLOSE_EVENT = 0x04"
definition MAX_EVENT :: int where "MAX_EVENT = 0xff"

lemmas event_types = READ_EVENT_def WRITE_EVENT_def CLOSE_EVENT_def

definition EventTypeToEventId :: "int \<Rightarrow> int" where
  "EventTypeToEventId Type = [-1, 0, 1, 1, 2, 2, 2, 2] ! nat (Type AND 7)"

definition GetEventId :: "int \<Rightarrow> int \<Rightarrow> int" where
  "GetEventId Fd Type = push_bit 2 Fd OR EventTypeToEventId Type"

section \<open>Handlers\<close>

record 's vtable =
  HandleReadEvent :: "int \<Rightarrow> 's \<Rightarrow> 's result"
  HandleWriteEvent :: "int \<Rightarrow> 's \<Rightarrow> 's result"
  HandleCloseEvent :: "int \<Rightarrow> 's \<Rightarrow> 's result"

text \<open>The empty virtual methods of the base class.\<close>

definition EventHandler_default :: "'s vtable" where
  "EventHandler_default = \<lparr>HandleReadEvent = (\<lambda>Fd s. Inr s),
     HandleWriteEvent = (\<lambda>Fd s. Inr s), HandleCloseEvent = (\<lambda>Fd s. Inr s)\<rparr>"

definition EventHandler_HandleEvent :: "'s vtable \<Rightarrow> int \<Rightarrow> int \<Rightarrow> 's \<Rightarrow> 's result" where
  "EventHandler_HandleEvent h Fd Type s =
     (if Type = CLOSE_EVENT then HandleCloseEvent h Fd s
      else if Type = READ_EVENT then HandleReadEvent h Fd s
      else if Type = WRITE_EVENT then HandleWriteEvent h Fd s
      else Inr s)"

record 'h EventHandlerRouter =
  Readhdl :: "'h option"
  Writehdl :: "'h option"
  Closehdl :: "'h option"

definition EventHandlerRouter_init :: "'h EventHandlerRouter" where
  "EventHandlerRouter_init = \<lparr>Readhdl = None, Writehdl = None, Closehdl = None\<rparr>"

definition deref :: "'h option \<Rightarrow> 'h result" where
  "deref p = (case p of None \<Rightarrow> Inl NullDeref | Some h \<Rightarrow> Inr h)"

definition EventHandlerRouter_HandleEvent ::
  "('h \<Rightarrow> 's vtable) \<Rightarrow> 'h EventHandlerRouter \<Rightarrow> int \<Rightarrow> int \<Rightarrow> 's \<Rightarrow> 's result" where
  "EventHandlerRouter_HandleEvent vt r Fd Type s =
     (if Type = CLOSE_EVENT then bindE (deref (Closehdl r)) (\<lambda>h. HandleCloseEvent (vt h) Fd s)
      else if Type = READ_EVENT then bindE (deref (Readhdl r)) (\<lambda>h. HandleReadEvent (vt h) Fd s)
      else if Type = WRITE_EVENT then bindE (deref (Writehdl r)) (\<lambda>h. HandleWriteEvent (vt h) Fd s)
      else Inr s)"

section \<open>The manager\<close>

definition MAX_EVENT_HANDLERS :: int where
  "MAX_EVENT_HANDLERS = push_bit 2 MAX_FILE_DESCRIPTORS"

type_synonym 'h handler_array = "int \<Rightarrow> 'h option"

definition EventHandlerManager_init :: "'h handler_array" where
  "EventHandlerManager_init = (\<lambda>_. None)"

definition list_get :: "'h handler_array \<Rightarrow> int \<Rightarrow> 'h option result" where
  "list_get l i = (if 0 \<le> i \<and> i < MAX_EVENT_HANDLERS then Inr (l i) else Inl OutOfBounds)"

definition list_set :: "int \<Rightarrow> 'h option \<Rightarrow> 'h handler_array \<Rightarrow> 'h handler_array result" where
  "list_set i h l = (if 0 \<le> i \<and> i < MAX_EVENT_HANDLERS then Inr (l(i := h)) else Inl OutOfBounds)"

definition SetEventHandler :: "int \<Rightarrow> int \<Rightarrow> 'h option \<Rightarrow> 'h handler_array \<Rightarrow> 'h handler_array result" where
  "SetEventHandler Fd Type Handler l =
     bindE (if Type AND READ_EVENT \<noteq> 0 then list_set (push_bit 2 Fd) Handler l else Inr l) (\<lambda>l.
     bindE (if Type AND WRITE_EVENT \<noteq> 0 then list_set (push_bit 2 Fd OR 1) Handler l else Inr l) (\<lambda>l.
       if Type AND CLOSE_EVENT \<noteq> 0 then list_set (push_bit 2 Fd OR 2) Handler l else Inr l))"

definition AttachEventHandler :: "int \<Rightarrow> int \<Rightarrow> 'h option \<Rightarrow> 'h handler_array \<Rightarrow> 'h handler_array result" where
  "AttachEventHandler Fd Type Handler l =
     (if Handler \<noteq> None then SetEventHandler Fd Type Handler l else Inr l)"

definition DetachEventHandler :: "int \<Rightarrow> int \<Rightarrow> 'h handler_array \<Rightarrow> 'h handler_array result" where
  "DetachEventHandler Fd Type l = SetEventHandler Fd Type None l"

text \<open>
  \<open>HandleEvent\<close> of the manager: \<open>l\<close> is its array, \<open>s\<close> the state the handlers work on.
\<close>

definition EventHandlerManager_HandleEvent ::
  "('h \<Rightarrow> ('a world_scheme) vtable) \<Rightarrow> 'h handler_array \<Rightarrow> int \<Rightarrow> int \<Rightarrow>
   'a world_scheme \<Rightarrow> ('a world_scheme) result" where
  "EventHandlerManager_HandleEvent vt l Fd Type s =
     (if Type = 0 then Inr s
      else bindE (list_get l (GetEventId Fd Type)) (\<lambda>p.
        case p of
          Some Handler \<Rightarrow> EventHandler_HandleEvent (vt Handler) Fd Type s
        | None \<Rightarrow> Inr (emit (LogDev ''EventHandlerManager::HandleEvent: Warning! Get EventHandler for fd=[%d], Type=[%d] failed!\<newline>''
            [LInt Fd, LInt Type]) s)))"

section \<open>Lemmas\<close>

lemma push2: "push_bit 2 (x::int) = 4 * x"
  by (simp add: push_bit_eq_mult)

lemma push2_or: "4 * (x::int) OR 1 = 4 * x + 1" "4 * (x::int) OR 2 = 4 * x + 2"
proof -
  have d: "push_bit 2 x AND 1 = 0" "push_bit 2 x AND 2 = 0"
    by (rule bit_eqI; auto simp: bit_simps bit_1_iff; fail)+
  from d [THEN disjunctive_add_eq_or]
  show "4 * (x::int) OR 1 = 4 * x + 1" "4 * (x::int) OR 2 = 4 * x + 2"
    by (simp_all add: push2)
qed

lemma MAX_EVENT_HANDLERS_eq: "MAX_EVENT_HANDLERS = 262144"
  by (simp add: MAX_EVENT_HANDLERS_def MAX_FILE_DESCRIPTORS_def push_bit_eq_mult)

text \<open>The three events of a descriptor and their slots.\<close>

definition is_event :: "int \<Rightarrow> bool" where
  "is_event ty \<longleftrightarrow> ty = READ_EVENT \<or> ty = WRITE_EVENT \<or> ty = CLOSE_EVENT"

lemma GetEventId_slot:
  "GetEventId Fd READ_EVENT = 4 * Fd" "GetEventId Fd WRITE_EVENT = 4 * Fd + 1"
  "GetEventId Fd CLOSE_EVENT = 4 * Fd + 2"
  by (simp_all add: GetEventId_def EventTypeToEventId_def event_types push2_or push2)

lemma GetEventId_inj:
  assumes "is_event ty" "is_event ty'" "GetEventId fd ty = GetEventId fd' ty'"
  shows "fd = fd' \<and> ty = ty'"
  using assms unfolding is_event_def by (elim disjE) (simp_all add: GetEventId_slot, presburger+)

lemma SetEventHandler_single:
  assumes "is_event ty"
  shows "SetEventHandler Fd ty h l = list_set (GetEventId Fd ty) h l"
  using assms unfolding is_event_def
  by (elim disjE)
    (simp_all add: SetEventHandler_def GetEventId_slot push2_or push2,
     simp_all add: event_types bindE_def split: sum.split)

lemma SetEventHandler_all:
  "SetEventHandler Fd (READ_EVENT OR WRITE_EVENT OR CLOSE_EVENT) h l =
     bindE (list_set (4 * Fd) h l) (\<lambda>l. bindE (list_set (4 * Fd + 1) h l) (list_set (4 * Fd + 2) h))"
  by (simp add: SetEventHandler_def push2_or push2 event_types)

definition handler_of :: "'h handler_array \<Rightarrow> int \<Rightarrow> int \<Rightarrow> 'h option" where
  "handler_of l Fd ty = l (GetEventId Fd ty)"

interpretation handlers: handler_table "\<lambda>fd ty h. AttachEventHandler fd ty (Some h)"
  "\<lambda>fd. DetachEventHandler fd (READ_EVENT OR WRITE_EVENT OR CLOSE_EVENT)"
  handler_of is_event MAX_FILE_DESCRIPTORS
proof (unfold_locales, goal_cases)
  case (1 fd ty h t)
  then show ?case
    by (auto simp: AttachEventHandler_def SetEventHandler_single list_set_def MAX_EVENT_HANDLERS_eq
        MAX_FILE_DESCRIPTORS_def is_event_def GetEventId_slot)
next
  case (2 fd ty h t)
  then show ?case
    by (auto simp: AttachEventHandler_def SetEventHandler_single list_set_def MAX_EVENT_HANDLERS_eq
        MAX_FILE_DESCRIPTORS_def is_event_def GetEventId_slot)
next
  case (3 fd ty h t t' ty' fd')
  then have "(GetEventId fd' ty' = GetEventId fd ty) = (fd' = fd \<and> ty' = ty)"
    using GetEventId_inj by blast
  with 3 show ?case
    by (simp add: AttachEventHandler_def SetEventHandler_single list_set_def handler_of_def
        split: if_split_asm) auto
next
  case (4 fd t)
  then show ?case
    by (simp add: DetachEventHandler_def SetEventHandler_all list_set_def MAX_EVENT_HANDLERS_eq
        MAX_FILE_DESCRIPTORS_def)
next
  case (5 fd t t' ty fd')
  have "4 * fd' \<noteq> 4 * fd + 1" "4 * fd' \<noteq> 4 * fd + 2" "4 * fd' + 1 \<noteq> 4 * fd"
    "4 * fd' + 2 \<noteq> 4 * fd" "4 * fd' + 1 \<noteq> 4 * fd + 2" "4 * fd' + 2 \<noteq> 4 * fd + 1" by presburger+
  with 5 show ?case
    by (auto simp: DetachEventHandler_def SetEventHandler_all list_set_def handler_of_def
        bindE_eq_Inr is_event_def GetEventId_slot split: if_splits)
qed

section \<open>The order of events\<close>

text \<open>The three events, ordered by the id \<open>EventTypeToEventId\<close> gives them: read, write, close.\<close>

datatype event_kind = KRead | KWrite | KClose

fun kind_id :: "event_kind \<Rightarrow> int" where
  "kind_id KRead = 0"
| "kind_id KWrite = 1"
| "kind_id KClose = 2"

fun kind_bit :: "event_kind \<Rightarrow> int" where
  "kind_bit KRead = READ_EVENT"
| "kind_bit KWrite = WRITE_EVENT"
| "kind_bit KClose = CLOSE_EVENT"

instantiation event_kind :: linorder
begin

definition less_eq_event_kind :: "event_kind \<Rightarrow> event_kind \<Rightarrow> bool" where
  "less_eq_event_kind a b \<longleftrightarrow> kind_id a \<le> kind_id b"

definition less_event_kind :: "event_kind \<Rightarrow> event_kind \<Rightarrow> bool" where
  "less_event_kind a b \<longleftrightarrow> kind_id a < kind_id b"

instance
proof
  fix a b :: event_kind
  show "a \<le> b \<Longrightarrow> b \<le> a \<Longrightarrow> a = b"
    by (cases a; cases b) (simp_all add: less_eq_event_kind_def)
qed (auto simp: less_eq_event_kind_def less_event_kind_def)

end

definition kinds_of :: "int \<Rightarrow> event_kind list" where
  "kinds_of Type = filter (\<lambda>k. Type AND kind_bit k \<noteq> 0) [KRead, KWrite, KClose]"

lemma low3: "(Type::int) AND 7 \<in> {0, 1, 2, 3, 4, 5, 6, 7}"
proof -
  have "Type AND 7 = Type mod 8" using take_bit_eq_mask [of 3 Type] take_bit_eq_mod [of 3 Type]
    by (simp add: mask_eq_exp_minus_1)
  moreover have "0 \<le> Type mod 8" "Type mod 8 < 8" by simp_all
  ultimately show ?thesis by auto
qed

lemma kinds_of_low3: "kinds_of Type = kinds_of (Type AND 7)"
  by (simp add: kinds_of_def event_types and.assoc)

section \<open>Properties\<close>

text \<open>
  \<open>EventTypeToEventId\<close> returns the id of the most urgent event in the bit set, close before
  write before read, and -1 for a set without any of the three.
\<close>

theorem EventTypeToEventId_priority:
  "EventTypeToEventId Type =
     (if kinds_of Type = [] then -1 else kind_id (Max (set (kinds_of Type))))"
proof -
  have "EventTypeToEventId Type = EventTypeToEventId (Type AND 7)"
    by (simp add: EventTypeToEventId_def and.assoc)
  moreover have "EventTypeToEventId r = (if kinds_of r = [] then -1 else kind_id (Max (set (kinds_of r))))"
    if "r \<in> {0, 1, 2, 3, 4, 5, 6, 7}" for r
    using that
    by (elim insertE; simp add: EventTypeToEventId_def kinds_of_def event_types max_def
        less_eq_event_kind_def)
  ultimately show ?thesis using low3 [of Type] kinds_of_low3 [of Type] by metis
qed

text \<open>
  Attaching a handler for one event of a descriptor in range succeeds, routes exactly that
  event of that descriptor to the handler, and changes the routing of no other event.
\<close>

theorem attach_routes:
  assumes "0 \<le> Fd" "Fd < 65536" "is_event ty"
  shows "\<exists>l'. AttachEventHandler Fd ty (Some h) l = Inr l' \<and>
    (\<forall>Fd' ty' s. is_event ty' \<longrightarrow> EventHandlerManager_HandleEvent vt l' Fd' ty' s =
      (if Fd' = Fd \<and> ty' = ty then EventHandler_HandleEvent (vt h) Fd ty s
       else EventHandlerManager_HandleEvent vt l Fd' ty' s))"
proof -
  obtain l' where l': "AttachEventHandler Fd ty (Some h) l = Inr l'"
    using handlers.attach_ok [OF assms(1) _ assms(3), of h l] assms(2)
    by (auto simp: MAX_FILE_DESCRIPTORS_def)
  have "list_get l' (GetEventId Fd' ty') =
      (if Fd' = Fd \<and> ty' = ty then Inr (Some h) else list_get l (GetEventId Fd' ty'))"
    if "is_event ty'" for Fd' ty'
    using handlers.attach_look [OF l' assms(3) that, of Fd'] assms
    by (auto simp: handler_of_def list_get_def MAX_EVENT_HANDLERS_eq is_event_def GetEventId_slot)
  moreover have "ty' \<noteq> 0" if "is_event ty'" for ty'
    using that by (auto simp: is_event_def event_types)
  ultimately show ?thesis
    using l' by (auto simp: EventHandlerManager_HandleEvent_def)
qed

theorem attach_routes_witness:
  "\<exists>l'. AttachEventHandler 5 READ_EVENT (Some ''reader'') EventHandlerManager_init = Inr l' \<and>
    EventHandlerManager_HandleEvent (\<lambda>_. EventHandler_default) l' 5 READ_EVENT \<lparr>trace = []\<rparr> =
      EventHandler_HandleEvent EventHandler_default 5 READ_EVENT \<lparr>trace = []\<rparr>"
  using attach_routes [of 5 READ_EVENT "''reader''" EventHandlerManager_init "\<lambda>_. EventHandler_default :: world vtable"]
  by (auto simp: is_event_def)

text \<open>
  After all events of a descriptor are detached (as on close), an event for it runs no handler
  and only logs, and the routing of every other descriptor is as before.
\<close>

theorem detach_unroutes:
  assumes "0 \<le> Fd" "Fd < 65536"
  shows "\<exists>l'. DetachEventHandler Fd (READ_EVENT OR WRITE_EVENT OR CLOSE_EVENT) l = Inr l' \<and>
    (\<forall>Fd' ty s. is_event ty \<longrightarrow> EventHandlerManager_HandleEvent vt l' Fd' ty s =
      (if Fd' = Fd then Inr (emit (LogDev ''EventHandlerManager::HandleEvent: Warning! Get EventHandler for fd=[%d], Type=[%d] failed!\<newline>''
         [LInt Fd, LInt ty]) s)
       else EventHandlerManager_HandleEvent vt l Fd' ty s))"
proof -
  obtain l' where l': "DetachEventHandler Fd (READ_EVENT OR WRITE_EVENT OR CLOSE_EVENT) l = Inr l'"
    using handlers.detach_ok [OF assms(1), of l] assms(2) by (auto simp: MAX_FILE_DESCRIPTORS_def)
  have "list_get l' (GetEventId Fd' ty) =
      (if Fd' = Fd then Inr None else list_get l (GetEventId Fd' ty))" if "is_event ty" for Fd' ty
    using handlers.detach_look [OF l' that, of Fd'] assms that
    by (auto simp: handler_of_def list_get_def MAX_EVENT_HANDLERS_eq is_event_def GetEventId_slot)
  moreover have "ty \<noteq> 0" if "is_event ty" for ty
    using that by (auto simp: is_event_def event_types)
  ultimately show ?thesis
    using l' by (auto simp: EventHandlerManager_HandleEvent_def)
qed

theorem detach_unroutes_witness:
  "\<exists>l'. DetachEventHandler 5 (READ_EVENT OR WRITE_EVENT OR CLOSE_EVENT) (\<lambda>_. Some ''h'') = Inr l' \<and>
    EventHandlerManager_HandleEvent (\<lambda>_. EventHandler_default) l' 5 READ_EVENT \<lparr>trace = []\<rparr> =
      Inr (emit (LogDev ''EventHandlerManager::HandleEvent: Warning! Get EventHandler for fd=[%d], Type=[%d] failed!\<newline>''
         [LInt 5, LInt READ_EVENT]) \<lparr>trace = []\<rparr>)"
  using detach_unroutes [of 5 "\<lambda>_. Some ''h''" "\<lambda>_. EventHandler_default :: world vtable"]
  by (auto simp: is_event_def)

end
