(* ===== verification/Poller.thy ===== *)
theory Poller
  imports EventHandler
begin

text \<open>
  \<open>include/runtime/iomodel/Poller.hh\<close>, \<open>source/runtime/iomodel/Poller.cc\<close>: the wrapper of \<open>epoll\<close>.

  The masks are built from the flags of \<open>sys/epoll.h\<close> on Linux. The state is \<open>ExtraFlags\<close> and the trace of
  calls; \<open>Epollfd\<close> and the event buffer have no further role. \<open>Dispatch\<close> gets the events that
  \<open>epoll_wait\<close> stored and the answers of \<open>getsockopt(SO_ERROR)\<close> as arguments and returns the tasks:
  the pairs of descriptor and \<open>EventType\<close> that each closure captures.
\<close>

type_synonym task = "int \<times> int"

section \<open>Flags\<close>

definition EPOLL_FLAGS_IN :: u32 where
  "EPOLL_FLAGS_IN = EPOLLIN OR EPOLLERR OR EPOLLRDHUP"
definition EPOLL_FLAGS_IN_ONESHOT :: u32 where
  "EPOLL_FLAGS_IN_ONESHOT = EPOLLIN OR EPOLLERR OR EPOLLRDHUP OR EPOLLONESHOT"
definition EPOLL_FLAGS_INOUT :: u32 where
  "EPOLL_FLAGS_INOUT = EPOLLIN OR EPOLLOUT OR EPOLLERR OR EPOLLRDHUP"
definition EPOLL_FLAGS_INOUT_ONESHOT :: u32 where
  "EPOLL_FLAGS_INOUT_ONESHOT = EPOLLIN OR EPOLLOUT OR EPOLLERR OR EPOLLRDHUP OR EPOLLONESHOT"

lemmas epoll_bits = EPOLLIN_def EPOLLOUT_def EPOLLERR_def EPOLLRDHUP_def EPOLLONESHOT_def EPOLLET_def
lemmas epoll_flags = EPOLL_FLAGS_IN_def EPOLL_FLAGS_IN_ONESHOT_def EPOLL_FLAGS_INOUT_def
  EPOLL_FLAGS_INOUT_ONESHOT_def

section \<open>The poller\<close>

definition MAX_EVENTS :: int where "MAX_EVENTS = 10240"

record poller = world +
  ExtraFlags :: u32

text \<open>\<open>Epollfd\<close> is what \<open>epoll_create\<close> returned.\<close>

definition Poller_init :: "int \<Rightarrow> bool \<Rightarrow> poller result" where
  "Poller_init Epollfd et = bindE (assertE (Epollfd > 0)) (\<lambda>_.
     Inr \<lparr>trace = [], ExtraFlags = (if et then EPOLLET else 0)\<rparr>)"

text \<open>The destructor; the buffer of events it frees is not part of the state.\<close>

definition Poller_destroy :: "int \<Rightarrow> 'a world_scheme \<Rightarrow> 'a world_scheme" where
  "Poller_destroy Epollfd w = (if Epollfd > 0 then emit (Close Epollfd) w else w)"

definition CtrlEvent :: "int \<Rightarrow> u32 \<Rightarrow> epoll_op \<Rightarrow> 'a poller_scheme \<Rightarrow> 'a poller_scheme" where
  "CtrlEvent Fd InEvents Operation p = emit (EpollCtl Operation Fd (InEvents OR ExtraFlags p)) p"

definition setnonblocking :: "int \<Rightarrow> 'a world_scheme \<Rightarrow> 'a world_scheme" where
  "setnonblocking fd w = emit (SetNonblocking fd) w"

definition AddEvent :: "int \<Rightarrow> u32 \<Rightarrow> 'a poller_scheme \<Rightarrow> 'a poller_scheme" where
  "AddEvent Fd InEvents p = CtrlEvent Fd InEvents EPOLL_CTL_ADD (setnonblocking Fd p)"

definition DelEvent :: "int \<Rightarrow> u32 \<Rightarrow> 'a poller_scheme \<Rightarrow> 'a poller_scheme" where
  "DelEvent Fd InEvents p = CtrlEvent Fd InEvents EPOLL_CTL_DEL p"

definition ModEvent :: "int \<Rightarrow> u32 \<Rightarrow> 'a poller_scheme \<Rightarrow> 'a poller_scheme" where
  "ModEvent Fd InEvents p = CtrlEvent Fd InEvents EPOLL_CTL_MOD p"

text \<open>
  The body of the loop of \<open>Dispatch\<close> for one event; \<open>so_error\<close> is the text that \<open>getsockopt\<close> stores,
  or \<open>None\<close> when it fails.
\<close>

definition Dispatch_event ::
  "(int \<Rightarrow> string option) \<Rightarrow> int \<times> u32 \<Rightarrow> 'a world_scheme \<Rightarrow> (task \<times> 'a world_scheme) result" where
  "Dispatch_event so_error ev w =
     (let (Sockfd, EventType) = ev in
      if EventType AND EPOLLERR \<noteq> 0 then
        let w = emit (LogDev ''Poller::Dispatch: Got an error from fd [%d]\<newline>'' [LInt Sockfd]) w in
        case so_error Sockfd of
          None \<Rightarrow> Inr ((Sockfd, 0), emit (LogDev ''Poller::Dispatch: Get socket option failed\<newline>'' []) w)
        | Some errors \<Rightarrow>
            Inr ((Sockfd, 0), emit (LogDev ''Poller::Dispatch: Errormsg is %s\<newline>'' [LStr errors]) w)
      else if EventType AND EPOLLRDHUP \<noteq> 0 then Inr ((Sockfd, CLOSE_EVENT OR 0), w)
      else if EventType AND EPOLLIN \<noteq> 0 then Inr ((Sockfd, 0 OR READ_EVENT), w)
      else if EventType AND EPOLLOUT \<noteq> 0 then Inr ((Sockfd, 0 OR WRITE_EVENT), w)
      else Inl (ProcessExit 1))"

fun Dispatch_loop ::
  "(int \<Rightarrow> string option) \<Rightarrow> (int \<times> u32) list \<Rightarrow> 'a world_scheme \<Rightarrow> (task list \<times> 'a world_scheme) result" where
  "Dispatch_loop so_error [] w = Inr ([], w)"
| "Dispatch_loop so_error (ev # evs) w =
     bindE (Dispatch_event so_error ev w) (\<lambda>(t, w).
       bindE (Dispatch_loop so_error evs w) (\<lambda>(ts, w). Inr (t # ts, w)))"

text \<open>A failed \<open>epoll_wait\<close> (-1) is the empty list of events.\<close>

definition Dispatch ::
  "(int \<Rightarrow> string option) \<Rightarrow> (int \<times> u32) list \<Rightarrow> 'a world_scheme \<Rightarrow> (task list \<times> 'a world_scheme) result" where
  "Dispatch so_error evs w = Dispatch_loop so_error evs (emit (EpollWait evs) w)"

section \<open>Lemmas\<close>

lemma ExtraFlags_ctl [simp]:
  "ExtraFlags (emit x p) = ExtraFlags p" "ExtraFlags (AddEvent fd ev p) = ExtraFlags p"
  "ExtraFlags (ModEvent fd ev p) = ExtraFlags p" "ExtraFlags (DelEvent fd ev p) = ExtraFlags p"
  by (simp_all add: emit_def AddEvent_def ModEvent_def DelEvent_def CtrlEvent_def setnonblocking_def)

lemma poller_more_ctl [simp]:
  "poller.more (emit x p) = poller.more p" "poller.more (AddEvent fd ev p) = poller.more p"
  "poller.more (ModEvent fd ev p) = poller.more p" "poller.more (DelEvent fd ev p) = poller.more p"
  by (simp_all add: emit_def AddEvent_def ModEvent_def DelEvent_def CtrlEvent_def setnonblocking_def)

lemma trace_ctl [simp]:
  "trace (AddEvent fd ev p) =
     trace p @ [SetNonblocking fd, EpollCtl EPOLL_CTL_ADD fd (ev OR ExtraFlags p)]"
  "trace (ModEvent fd ev p) = trace p @ [EpollCtl EPOLL_CTL_MOD fd (ev OR ExtraFlags p)]"
  "trace (DelEvent fd ev p) = trace p @ [EpollCtl EPOLL_CTL_DEL fd (ev OR ExtraFlags p)]"
  by (simp_all add: AddEvent_def ModEvent_def DelEvent_def CtrlEvent_def setnonblocking_def)

text \<open>The event type a reported event mask stands for; \<open>None\<close> when \<open>Dispatch\<close> ends the process.\<close>

definition type_of_mask :: "u32 \<Rightarrow> int option" where
  "type_of_mask m =
     (if m AND EPOLLERR \<noteq> 0 then Some 0
      else if m AND EPOLLRDHUP \<noteq> 0 then Some CLOSE_EVENT
      else if m AND EPOLLIN \<noteq> 0 then Some READ_EVENT
      else if m AND EPOLLOUT \<noteq> 0 then Some WRITE_EVENT
      else None)"

lemma Dispatch_event_type:
  "type_of_mask m = None \<Longrightarrow> Dispatch_event so_error (fd, m) w = Inl (ProcessExit 1)"
  "type_of_mask m = Some ty \<Longrightarrow> \<exists>w'. Dispatch_event so_error (fd, m) w = Inr ((fd, ty), w')"
  by (auto simp: type_of_mask_def Dispatch_event_def Let_def split: if_splits option.splits)

lemma Dispatch_event_interest:
  "Dispatch_event so_error ev w = Inr (t, w') \<Longrightarrow>
   interest (trace w') = interest (trace w) \<and> world.more w' = world.more w"
  by (auto simp: Dispatch_event_def Let_def split: if_splits option.splits prod.splits)

lemma Dispatch_loop_interest:
  "Dispatch_loop so_error evs w = Inr (ts, w') \<Longrightarrow>
   interest (trace w') = interest (trace w) \<and> world.more w' = world.more w"
proof (induction evs arbitrary: w ts)
  case (Cons ev evs)
  then obtain t w1 ts1 where "Dispatch_event so_error ev w = Inr (t, w1)"
    "Dispatch_loop so_error evs w1 = Inr (ts1, w')"
    by (auto simp: bindE_eq_Inr)
  with Cons.IH Dispatch_event_interest show ?case by metis
qed simp

lemma Dispatch_interest:
  "Dispatch so_error evs w = Inr (ts, w') \<Longrightarrow>
   interest (trace w') = interest_step (EpollWait evs) (interest (trace w)) \<and>
   world.more w' = world.more w"
  unfolding Dispatch_def by (drule Dispatch_loop_interest) simp

lemma Dispatch_loop_tasks:
  "if \<exists>ev \<in> set evs. type_of_mask (snd ev) = None
   then Dispatch_loop so_error evs w = Inl (ProcessExit 1)
   else \<exists>w'. Dispatch_loop so_error evs w = Inr (map (\<lambda>(fd, m). (fd, the (type_of_mask m))) evs, w')"
proof (induction evs arbitrary: w)
  case (Cons ev evs)
  obtain fd m where ev: "ev = (fd, m)" by fastforce
  show ?case
  proof (cases "type_of_mask m")
    case None
    then show ?thesis by (simp add: ev Dispatch_event_type(1))
  next
    case (Some ty)
    then obtain w1 where "Dispatch_event so_error (fd, m) w = Inr ((fd, ty), w1)"
      using Dispatch_event_type(2) by blast
    with Cons.IH [of w1] Some show ?thesis by (auto simp: ev split: if_splits)
  qed
qed simp

lemma type_of_mask_range: "type_of_mask m = Some ty \<Longrightarrow> ty = 0 \<or> is_event ty"
  by (auto simp: type_of_mask_def is_event_def split: if_splits)

section \<open>Properties\<close>

text \<open>
  \<open>Dispatch\<close> makes one task per reported event, in the order of the events, with the event type
  chosen by the priority error, hang-up, input, output; it ends the process with status 1 exactly
  when some event has none of these four bits.
\<close>

theorem Dispatch_tasks:
  "if \<exists>ev \<in> set evs. type_of_mask (snd ev) = None
   then Dispatch so_error evs w = Inl (ProcessExit 1)
   else \<exists>w'. Dispatch so_error evs w = Inr (map (\<lambda>(fd, m). (fd, the (type_of_mask m))) evs, w')"
  unfolding Dispatch_def by (rule Dispatch_loop_tasks)

end
