(* ===== verification/Serializer.thy ===== *)
theory Serializer
  imports RpcTypes
begin

text \<open>
  \<open>source/serialization/Serializer.cc\<close> and \<open>source/common/RpcUtils.cc\<close>,
  \<open>include/common/RpcUtils.hh\<close>: whole messages and typed parameters as bytes.

  A pointer into a buffer is the pair of the buffer and an offset. A function that fills a buffer
  returns the new buffer and its \<open>int\<close> result. Protocol Buffers is not part of the repository: its
  \<open>SerializeAsString\<close> and \<open>ParseFromString\<close> are the parameters \<open>ser\<close> and \<open>parse\<close>.

  Lemmas: round trips for messages and for sequences of typed parameters, the exact conditions
  under which packing leaves the 480-byte buffers.
\<close>

section \<open>Typed parameters\<close>

text \<open>
  \<open>In\<close> is the memory \<open>In\<close> points to: 4 bytes for a number, a NUL-terminated buffer for a string.
\<close>

definition Serialize_param :: "byte list \<Rightarrow> byte list \<Rightarrow> nat \<Rightarrow> string \<Rightarrow> (byte list \<times> int) result" where
  "Serialize_param In Out off InType =
     (if InType = INT_TYPE then
        bindE (read_at 0 4 In) (\<lambda>v. bindE (write_at off v Out) (\<lambda>Out'. Inr (Out', 4)))
      else if InType = FLOAT_TYPE then
        bindE (read_at 0 4 In) (\<lambda>v. bindE (write_at off v Out) (\<lambda>Out'. Inr (Out', 4)))
      else if InType = STRING_TYPE then
        bindE (cstr In) (\<lambda>s. bindE (write_at off (s @ [NUL]) Out)
          (\<lambda>Out'. Inr (Out', int (length s) + 1)))
      else Inr (Out, -1))"

definition Deserialize_param :: "byte list \<Rightarrow> nat \<Rightarrow> byte list \<Rightarrow> string \<Rightarrow> (byte list \<times> int) result" where
  "Deserialize_param In off Out OutType =
     (if OutType = INT_TYPE then
        bindE (read_at off 4 In) (\<lambda>v. bindE (write_at 0 v Out) (\<lambda>Out'. Inr (Out', 4)))
      else if OutType = FLOAT_TYPE then
        bindE (read_at off 4 In) (\<lambda>v. bindE (write_at 0 v Out) (\<lambda>Out'. Inr (Out', 4)))
      else if OutType = STRING_TYPE then
        bindE (cstr (drop off In)) (\<lambda>s. bindE (write_at 0 (s @ [NUL]) Out)
          (\<lambda>Out'. Inr (Out', int (length s) + 1)))
      else Inr (Out, -1))"

text \<open>The overloads of \<open>PackParam\<close>; a \<open>float\<close> is its 32 bits.\<close>

datatype pack_arg = PInt int32 | PFloat int32 | PCString "byte list" | PString string

fun PackParam1 :: "byte list \<Rightarrow> nat \<Rightarrow> pack_arg \<Rightarrow> (byte list \<times> int) result" where
  "PackParam1 Out off (PInt v) = Serialize_param (bytes_of_int v) Out off ''int''"
| "PackParam1 Out off (PFloat v) = Serialize_param (bytes_of_int v) Out off ''float''"
| "PackParam1 Out off (PCString p) = Serialize_param p Out off ''string''"
| "PackParam1 Out off (PString s) = Serialize_param (s @ [NUL]) Out off ''string''"

text \<open>The variadic template. No overload returns -1, so \<open>Out + Offset\<close> moves forward.\<close>

fun PackParam :: "byte list \<Rightarrow> nat \<Rightarrow> pack_arg list \<Rightarrow> (byte list \<times> int) result" where
  "PackParam Out off [] = Inr (Out, 0)"
| "PackParam Out off (a # as) =
     bindE (PackParam1 Out off a) (\<lambda>(Out1, Offset).
       bindE (PackParam Out1 (off + nat Offset) as) (\<lambda>(Out2, n). Inr (Out2, Offset + n)))"

text \<open>
  The variadic \<open>ParseParam\<close>: a list of type names and output objects. A type name that
  \<open>Deserialize\<close> does not know gives the offset -1; the model stops there, before the start of the
  buffer.
\<close>

fun ParseParam :: "byte list \<Rightarrow> nat \<Rightarrow> (string \<times> byte list) list \<Rightarrow> byte list list result" where
  "ParseParam In off [] = Inr []"
| "ParseParam In off ((ty, Out) # rest) =
     bindE (Deserialize_param In off Out ty) (\<lambda>(Out', Offset).
       if int off + Offset < 0 then Inl OutOfBounds
       else bindE (ParseParam In (nat (int off + Offset)) rest) (\<lambda>outs. Inr (Out' # outs)))"

section \<open>Protocol Buffers messages in a C string\<close>

definition PackProtoStruct :: "('m \<Rightarrow> string) \<Rightarrow> byte list \<Rightarrow> 'm \<Rightarrow> (byte list \<times> int) result" where
  "PackProtoStruct ser Out In = PackParam Out 0 [PString (ser In)]"

text \<open>
  \<open>data\<close> is the uninitialised local buffer \<open>char data[4096]\<close>. \<open>ParseFromString(data)\<close> builds its
  \<open>std::string\<close> from the C string in \<open>data\<close>.
\<close>

definition ParseProtoStruct :: "byte list \<Rightarrow> (string \<Rightarrow> 'm) \<Rightarrow> byte list \<Rightarrow> 'm result" where
  "ParseProtoStruct data parse In =
     bindE (ParseParam In 0 [(''string'', data)]) (\<lambda>outs. bindE (cstr (outs ! 0)) (\<lambda>s. Inr (parse s)))"

text \<open>\<open>res\<close> is the uninitialised local \<open>RpcResult\<close>.\<close>

definition ToRpcResult :: "('m \<Rightarrow> string) \<Rightarrow> RpcResult \<Rightarrow> 'm \<Rightarrow> RpcResult result" where
  "ToRpcResult ser res output =
     bindE (PackProtoStruct ser (return_buffer res) output) (\<lambda>(buf, size).
       bindE (assertE (size < int MAX_RPC_RETURN_VALUE)) (\<lambda>_.
         Inr (res\<lparr>return_buffer := buf\<rparr>)))"

section \<open>Whole messages\<close>

definition Serialize_message :: "byte list \<Rightarrow> RpcMessage \<Rightarrow> byte list \<Rightarrow> (byte list \<times> int32) result" where
  "Serialize_message pad In Out =
     bindE (write_at 0 (header_bytes pad (header In)) Out) (\<lambda>Out1.
     bindE (read_at 0 (size_t_of_int (body_length (header In))) (parameters (body In))) (\<lambda>b.
     bindE (write_at sizeof_RpcHeader b Out1) (\<lambda>Out2.
       Inr (Out2, word_of_nat sizeof_RpcHeader + body_length (header In)))))"

definition Deserialize_message :: "byte list \<Rightarrow> RpcMessage \<Rightarrow> (RpcMessage \<times> int32) result" where
  "Deserialize_message In Out =
     bindE (read_at 0 sizeof_RpcHeader In) (\<lambda>hb.
     let h = header_of_bytes hb in
     bindE (read_at sizeof_RpcHeader (size_t_of_int (body_length h)) In) (\<lambda>b.
     bindE (write_at 0 b (parameters (body Out))) (\<lambda>ps.
       Inr (Out\<lparr>header := h, body := \<lparr>parameters = ps\<rparr>\<rparr>,
            word_of_nat sizeof_RpcHeader + body_length h))))"

section \<open>Lemmas\<close>

lemma PackParam_string [buf_simps]:
  assumes "no_nul s"
  shows "PackParam Out off [PString s] =
    bindE (write_at off (s @ [NUL]) Out) (\<lambda>Out'. Inr (Out', int (length s) + 1))"
  using assms
  by (cases "write_at off (s @ [NUL]) Out")
    (simp_all add: Serialize_param_def type_names buf_simps)

lemma PackProtoStruct_fits:
  assumes "no_nul (ser m)" "length (ser m) < length Out"
  shows "PackProtoStruct ser Out m =
    Inr (ser m @ NUL # drop (Suc (length (ser m))) Out, int (length (ser m)) + 1)"
  unfolding PackProtoStruct_def using assms by (subst PackParam_string) (simp_all add: buf_simps)

lemma PackProtoStruct_overflows:
  assumes "no_nul (ser m)" "length Out \<le> length (ser m)"
  shows "PackProtoStruct ser Out m = Inl OutOfBounds"
  unfolding PackProtoStruct_def using assms by (subst PackParam_string) (simp_all add: buf_simps)

lemma ParseProtoStruct_cstr:
  assumes "no_nul s" "length s < length data"
  shows "ParseProtoStruct data parse (s @ NUL # rest) = Inr (parse s)"
  using assms
  by (simp add: ParseProtoStruct_def Deserialize_param_def type_names buf_simps)

lemma ParseProtoStruct_unterminated:
  "no_nul In \<Longrightarrow> ParseProtoStruct data parse In = Inl OutOfBounds"
  using cstr_Inl_iff [of In OutOfBounds]
  by (simp add: ParseProtoStruct_def Deserialize_param_def type_names)

text \<open>The typed parameters a client passes come back in the same order (\<open>out_of\<close>).\<close>

fun type_of_arg :: "pack_arg \<Rightarrow> string" where
  "type_of_arg (PInt v) = ''int''"
| "type_of_arg (PFloat v) = ''float''"
| "type_of_arg (PCString p) = ''string''"
| "type_of_arg (PString s) = ''string''"

text \<open>The bytes one argument occupies, and those it leaves at the start of its output object.\<close>

fun arg_bytes :: "pack_arg \<Rightarrow> byte list" where
  "arg_bytes (PInt v) = bytes_of_int v"
| "arg_bytes (PFloat v) = bytes_of_int v"
| "arg_bytes (PCString p) = until_nul p @ [NUL]"
| "arg_bytes (PString s) = until_nul s @ [NUL]"

fun arg_ok :: "pack_arg \<Rightarrow> bool" where
  "arg_ok (PCString p) \<longleftrightarrow> NUL \<in> set p"
| "arg_ok _ \<longleftrightarrow> True"

lemma PackParam1_eq:
  assumes "arg_ok a"
  shows "PackParam1 Out off a =
    bindE (write_at off (arg_bytes a) Out) (\<lambda>Out'. Inr (Out', int (length (arg_bytes a))))"
  using assms
  by (cases a) (simp_all add: Serialize_param_def type_names read_at_def cstr_until_nul cstr_c_str
      add.commute)

lemma Deserialize_arg:
  assumes "drop off In = arg_bytes a @ rest" "length (arg_bytes a) \<le> length Out"
  shows "Deserialize_param In off Out (type_of_arg a) =
    Inr (arg_bytes a @ drop (length (arg_bytes a)) Out, int (length (arg_bytes a)))"
proof -
  have ne: "length (arg_bytes a) \<noteq> 0" by (cases a) auto
  have "length In - off = length (arg_bytes a) + length rest"
    unfolding length_drop [symmetric] assms(1) by simp
  with ne have len: "off + length (arg_bytes a) \<le> length In" by linarith
  show ?thesis
    using assms len
    by (cases a) (simp_all add: Deserialize_param_def type_names buf_simps)
qed

lemma PackParam_layout:
  "list_all arg_ok as \<Longrightarrow> off + length (concat (map arg_bytes as)) \<le> length Out \<Longrightarrow>
   PackParam Out off as =
     Inr (take off Out @ concat (map arg_bytes as) @ drop (off + length (concat (map arg_bytes as))) Out,
          int (length (concat (map arg_bytes as))))"
proof (induction as arbitrary: Out off)
  case (Cons a as)
  then show ?case
    by (simp add: PackParam1_eq buf_simps ac_simps)
qed simp

lemma ParseParam_layout:
  "drop off In = concat (map arg_bytes as) @ rest \<Longrightarrow>
   list_all2 (\<lambda>a Out. length (arg_bytes a) \<le> length Out) as outs \<Longrightarrow>
   ParseParam In off (zip (map type_of_arg as) outs) =
     Inr (map2 (\<lambda>a Out. arg_bytes a @ drop (length (arg_bytes a)) Out) as outs)"
proof (induction as arbitrary: off outs)
  case (Cons a as)
  from Cons.prems(2) obtain Out outs' where outs: "outs = Out # outs'"
    "length (arg_bytes a) \<le> length Out"
    "list_all2 (\<lambda>a Out. length (arg_bytes a) \<le> length Out) as outs'"
    by (auto simp: list_all2_Cons1)
  have d: "drop off In = arg_bytes a @ (concat (map arg_bytes as) @ rest)"
    using Cons.prems(1) by simp
  then have "drop (off + length (arg_bytes a)) In = concat (map arg_bytes as) @ rest"
    by (metis add.commute append_eq_conv_conj drop_drop)
  from Cons.IH [OF this outs(3)] Deserialize_arg [OF d outs(2)] show ?case
    by (simp add: outs(1) nat_int_add)
qed simp

section \<open>Properties\<close>

text \<open>
  A message that the client serialises is read back unchanged: for a body length within the
  480-byte body and a buffer large enough, \<open>Deserialize\<close> after \<open>Serialize\<close> restores the whole header
  and the first \<open>body_length\<close> bytes of the body, and both report 48 + \<open>body_length\<close> bytes.
\<close>

theorem message_roundtrip:
  assumes "wf_message m" "wf_message old" "length pad = 3"
    and "0 \<le> sint (body_length (header m))" "sint (body_length (header m)) \<le> 480"
    and "48 + nat (sint (body_length (header m))) \<le> length Out"
  shows "\<exists>buf. Serialize_message pad m Out = Inr (buf, 48 + body_length (header m)) \<and>
    Deserialize_message buf old = Inr (\<lparr>header = header m,
      body = \<lparr>parameters = take (nat (sint (body_length (header m)))) (parameters (body m)) @
        drop (nat (sint (body_length (header m)))) (parameters (body old))\<rparr>\<rparr>,
      48 + body_length (header m))"
proof -
  define n where "n = nat (sint (body_length (header m)))"
  have sz: "size_t_of_int (body_length (header m)) = n"
    using assms(4) by (simp add: size_t_of_int_nonneg n_def)
  have n: "n \<le> 480" using assms(5) by (simp add: n_def)
  have hl: "length (header_bytes pad (header m)) = 48"
    using assms(1,3) length_header_bytes by (simp add: wf_message_def sizeof_RpcHeader_def)
  have pl: "length (parameters (body m)) = 480" "length (parameters (body old)) = 480"
    using assms(1,2) by (simp_all add: wf_message_def rpc_consts)
  have hh: "header_of_bytes (header_bytes pad (header m)) = header m"
    using assms(1,3) by (simp add: wf_message_def header_of_header_bytes)
  show ?thesis
    using assms(6) n pl(2) unfolding n_def [symmetric]
    by (cases old) (simp add: Serialize_message_def Deserialize_message_def sz hl pl(1) hh buf_simps
        sizeof_RpcHeader_def Let_def)
qed

theorem message_roundtrip_witness:
  "\<exists>buf. Serialize_message [NUL, NUL, NUL]
      (RpcMessage_init\<lparr>header := (header RpcMessage_init)\<lparr>body_length := 5\<rparr>\<rparr>) (replicate 1024 NUL) =
      Inr (buf, 48 + body_length (header (RpcMessage_init\<lparr>header := (header RpcMessage_init)\<lparr>body_length := 5\<rparr>\<rparr>))) \<and>
    Deserialize_message buf RpcMessage_init =
      Inr (\<lparr>header = header (RpcMessage_init\<lparr>header := (header RpcMessage_init)\<lparr>body_length := 5\<rparr>\<rparr>),
      body = \<lparr>parameters = take (nat (sint (body_length (header (RpcMessage_init\<lparr>header := (header RpcMessage_init)\<lparr>body_length := 5\<rparr>\<rparr>)))))
          (parameters (body (RpcMessage_init\<lparr>header := (header RpcMessage_init)\<lparr>body_length := 5\<rparr>\<rparr>))) @
        drop (nat (sint (body_length (header (RpcMessage_init\<lparr>header := (header RpcMessage_init)\<lparr>body_length := 5\<rparr>\<rparr>)))))
          (parameters (body RpcMessage_init))\<rparr>\<rparr>,
      48 + body_length (header (RpcMessage_init\<lparr>header := (header RpcMessage_init)\<lparr>body_length := 5\<rparr>\<rparr>)))"
  by (rule message_roundtrip)
    (simp_all add: RpcMessage_init_def wf_message_def wf_header_def rpc_consts)

text \<open>
  Parameters of any types packed one after the other are parsed back one by one: each output
  object starts with the bytes of its argument (a string up to its first NUL, with the
  terminator) and keeps its other bytes.
\<close>

theorem params_roundtrip:
  assumes "list_all arg_ok as"
    and "length (concat (map arg_bytes as)) \<le> length Out"
    and "list_all2 (\<lambda>a out. length (arg_bytes a) \<le> length out) as outs"
  shows "\<exists>buf. PackParam Out 0 as = Inr (buf, int (length (concat (map arg_bytes as)))) \<and>
    ParseParam buf 0 (zip (map type_of_arg as) outs) =
      Inr (map2 (\<lambda>a out. arg_bytes a @ drop (length (arg_bytes a)) out) as outs)"
  using PackParam_layout [of as 0 Out] assms
    ParseParam_layout [of 0 _ as "drop (length (concat (map arg_bytes as))) Out" outs]
  by simp

theorem params_roundtrip_witness:
  "\<exists>buf. PackParam (replicate 16 NUL) 0 [PInt 7, PString ''ab''] =
      Inr (buf, int (length (concat (map arg_bytes [PInt 7, PString ''ab''])))) \<and>
    ParseParam buf 0 (zip (map type_of_arg [PInt 7, PString ''ab'']) [replicate 4 NUL, replicate 9 NUL]) =
      Inr (map2 (\<lambda>a out. arg_bytes a @ drop (length (arg_bytes a)) out) [PInt 7, PString ''ab'']
        [replicate 4 NUL, replicate 9 NUL])"
  by (rule params_roundtrip) simp_all

text \<open>
  C35. The return path through the 480-byte buffer, for every message: if the C string in the
  serialised bytes (up to the first NUL) has at most 478 characters, the peer parses exactly that
  string; with 479 characters the buffer still holds it but the \<open>assert\<close> stops the server; with
  more, \<open>strcpy\<close> has already left the buffer before the \<open>assert\<close> is reached.
\<close>

theorem result_buffer_limits:
  assumes "wf_result res" "length data = 4096"
  shows "let s = until_nul (ser m) in
    if length s \<le> 478
    then \<exists>r. ToRpcResult ser res m = Inr r \<and> wf_result r \<and>
      ParseProtoStruct data parse (return_buffer r) = Inr (parse s)
    else ToRpcResult ser res m = Inl (if length s = 479 then AssertFailed else OutOfBounds)"
proof -
  define s where "s = until_nul (ser m)"
  have nn: "no_nul s" by (simp add: s_def)
  have pack: "PackProtoStruct ser (return_buffer res) m =
      bindE (write_at 0 (s @ [NUL]) (return_buffer res)) (\<lambda>b. Inr (b, int (length s) + 1))"
    unfolding PackProtoStruct_def
    by (cases "write_at 0 (s @ [NUL]) (return_buffer res)")
      (simp_all add: Serialize_param_def type_names cstr_c_str s_def)
  have len: "length (return_buffer res) = 480" using assms(1) by (simp add: wf_result_def rpc_consts)
  show ?thesis
    using nn assms(2) unfolding s_def [symmetric] Let_def
    by (auto simp: ToRpcResult_def pack write_at_def len rpc_consts wf_result_def
        ParseProtoStruct_cstr)
qed

theorem result_buffer_limits_witness:
  "let s = until_nul (''ok'' @ [NUL]) in
   if length s \<le> 478
   then \<exists>r. ToRpcResult (\<lambda>m. m @ [NUL]) \<lparr>result_seqno = 0, return_buffer = replicate 480 NUL\<rparr> ''ok'' = Inr r \<and>
     wf_result r \<and> ParseProtoStruct (replicate 4096 NUL) (\<lambda>s. s) (return_buffer r) =
       Inr s
   else ToRpcResult (\<lambda>m. m @ [NUL]) \<lparr>result_seqno = 0, return_buffer = replicate 480 NUL\<rparr> ''ok'' =
     Inl (if length s = 479 then AssertFailed else OutOfBounds)"
  by (rule result_buffer_limits) (simp_all add: wf_result_def rpc_consts)

end
