(* ===== verification/RpcEventHandler.thy ===== *)
theory RpcEventHandler
  imports Poller Serializer
begin

text \<open>
  \<open>include/server/RpcEventHandler.hh\<close>, \<open>source/server/RpcEventHandler.cc\<close> and
  \<open>RpcServer::FileDescriptorEventDone\<close> of \<open>source/server/RpcServer.cc\<close>: the return value pipe, the
  request handler and the result sender.

  \<open>server\<close> is the state of one \<open>RpcServer\<close> object with its members: the array of result queues
  (\<open>ReturnValuePipe\<close>), the dictionary of services, the handler array and listening descriptor of the
  transport, the flags of its poller, and the state \<open>app\<close> of the registered services. The virtual
  call \<open>Service->Handle\<close> is the parameter \<open>Handle\<close>. The results of \<open>recv\<close> and \<open>send\<close> are arguments.

  \<open>Message.header.servicename\<close> is converted to \<open>std::string\<close>; a name that fills its array without
  a NUL is read past the end, which is the fault \<open>OutOfBounds\<close>. The uninitialised local \<open>Result\<close> is
  assigned before use, so it has no counterpart.
\<close>

section \<open>The server's state\<close>

datatype server_obj = TheTransport | TheReceiver | TheSender

record ('svc, 'app) server = poller +
  return_values :: "int \<Rightarrow> RpcResult list"
  dictionary :: "string \<Rightarrow> 'svc option"
  handler_list :: "server_obj handler_array"
  listenfd :: int
  app :: 'app

datatype recv_result = RecvErr int | RecvOk "byte list"
datatype send_result = SendErr int | SendOk nat

definition EAGAIN :: int where "EAGAIN = 11"
definition EWOULDBLOCK :: int where "EWOULDBLOCK = 11"

text \<open>\<open>recv\<close> never delivers more than it was asked for.\<close>

definition recv_fits :: "nat \<Rightarrow> recv_result \<Rightarrow> bool" where
  "recv_fits n r = (case r of RecvErr e \<Rightarrow> True | RecvOk d \<Rightarrow> length d \<le> n)"

section \<open>ReturnValuePipe\<close>

definition pipe_at :: "int \<Rightarrow> ('svc, 'app) server \<Rightarrow> RpcResult list result" where
  "pipe_at fd s =
     (if 0 \<le> fd \<and> fd < MAX_FILE_DESCRIPTORS then Inr (return_values s fd) else Inl OutOfBounds)"

definition Pipe_Empty :: "int \<Rightarrow> ('svc, 'app) server \<Rightarrow> bool result" where
  "Pipe_Empty fd s = bindE (pipe_at fd s) (\<lambda>rs. Inr (rs = []))"

definition Pipe_Read :: "int \<Rightarrow> ('svc, 'app) server \<Rightarrow> (RpcResult \<times> ('svc, 'app) server) result" where
  "Pipe_Read fd s = bindE (pipe_at fd s) (\<lambda>rs. bindE (assertE (rs \<noteq> [])) (\<lambda>_.
     Inr (hd rs, s\<lparr>return_values := (return_values s)(fd := tl rs)\<rparr>)))"

definition Pipe_Write :: "int \<Rightarrow> RpcResult \<Rightarrow> ('svc, 'app) server \<Rightarrow> ('svc, 'app) server result" where
  "Pipe_Write fd r s = bindE (pipe_at fd s) (\<lambda>rs.
     Inr (s\<lparr>return_values := (return_values s)(fd := rs @ [r])\<rparr>))"

section \<open>FileDescriptorEventDone\<close>

definition FileDescriptorEventDone :: "int \<Rightarrow> ('svc, 'app) server \<Rightarrow> ('svc, 'app) server result" where
  "FileDescriptorEventDone fd s = bindE (Pipe_Empty fd s) (\<lambda>e.
     if e then Inr (ModEvent fd EPOLL_FLAGS_IN_ONESHOT s)
     else Inr (ModEvent fd EPOLL_FLAGS_INOUT_ONESHOT s))"

section \<open>RpcRequestHandler\<close>

definition AddProxy :: "string \<Rightarrow> 'svc \<Rightarrow> ('svc, 'app) server \<Rightarrow> ('svc, 'app) server" where
  "AddProxy ServiceName Service s =
     (if dictionary s ServiceName = None
      then s\<lparr>dictionary := (dictionary s)(ServiceName := Some Service)\<rparr> else s)"

text \<open>The part after both reads: checks, call of the service, hand-over of the result.\<close>

definition handle_message ::
  "('svc \<Rightarrow> RpcMessage \<Rightarrow> 'app \<Rightarrow> (RpcResult \<times> 'app) result) \<Rightarrow> int \<Rightarrow> RpcMessage \<Rightarrow>
   ('svc, 'app) server \<Rightarrow> ('svc, 'app) server result" where
  "handle_message Handle connfd Message s =
     (let s = emit (LogDev ''RpcRequestHandler::HandleReadEvent: get rpc request from %d\<newline>'' [LInt connfd]) s in
      if magic (header Message) \<noteq> RPC_MAGIC_NUMBER then
        Inr (emit (LogDev ''RpcRequestHandler::HandleReadEvent: magic number does not match, [%d] excepted but [%d] received\<newline>''
          [LInt (uint RPC_MAGIC_NUMBER), LInt (uint (magic (header Message)))]) s)
      else if version (header Message) \<noteq> RPC_VERSION then
        Inr (emit (LogDev ''RpcRequestHandler::HandleReadEvent: version does not match, [%d] excepted but [%d] received\<newline>''
          [LInt (uint RPC_VERSION), LInt (uint (version (header Message)))]) s)
      else bindE (cstr (servicename (header Message))) (\<lambda>name.
        case dictionary s name of
          None \<Rightarrow>
            Inr (emit (LogDev ''RpcRequestHandler::HandleReadEvent: Warning! Service [%s] not found\<newline>''
              [LStr name]) s)
        | Some Service \<Rightarrow>
            bindE (Handle Service Message (app s)) (\<lambda>(Result, app').
              let s = s\<lparr>app := app'\<rparr>;
                  Result = Result\<lparr>result_seqno := seqno (header Message)\<rparr>
              in bindE (if need_return (header Message) then Pipe_Write connfd Result s else Inr s)
                   (FileDescriptorEventDone connfd))))"

text \<open>
  The whole handler; \<open>r1\<close> and \<open>r2\<close> are the outcomes of the reads of header and body. The body is
  received into the 480-byte array, whatever length the header announces. A failed second read is
  -1, which equals the announced length only if that is -1.
\<close>

definition RequestHandler_HandleReadEvent ::
  "('svc \<Rightarrow> RpcMessage \<Rightarrow> 'app \<Rightarrow> (RpcResult \<times> 'app) result) \<Rightarrow> recv_result \<Rightarrow> recv_result \<Rightarrow>
   int \<Rightarrow> ('svc, 'app) server \<Rightarrow> ('svc, 'app) server result" where
  "RequestHandler_HandleReadEvent Handle r1 r2 connfd s =
     (let s = emit (Recv connfd sizeof_RpcHeader) s in
      case r1 of
        RecvErr errno \<Rightarrow> if errno \<noteq> EAGAIN then Inl (ProcessExit 1) else Inr s
      | RecvOk hb \<Rightarrow>
          if length hb \<noteq> sizeof_RpcHeader then
            Inr (emit (LogErr ''RpcRequestHandler::HandleReadEvent: Bad packet\<newline>'' []) s)
          else
            let h = header_of_bytes hb;
                s = emit (Recv connfd (size_t_of_int (body_length h))) s;
                (recv_bytes, d) = (case r2 of RecvErr e \<Rightarrow> (-1, []) | RecvOk d \<Rightarrow> (int (length d), d))
            in bindE (write_at 0 d (parameters (body RpcMessage_init))) (\<lambda>ps.
                 if recv_bytes \<noteq> sint (body_length h) then
                   Inr (emit (LogErr ''RpcRequestHandler::HandleReadEvent: Bad packet\<newline>'' []) s)
                 else handle_message Handle connfd \<lparr>header = h, body = \<lparr>parameters = ps\<rparr>\<rparr> s))"

section \<open>RpcResultSender\<close>

definition ResultSender_HandleWriteEvent ::
  "send_result \<Rightarrow> int \<Rightarrow> ('svc, 'app) server \<Rightarrow> ('svc, 'app) server result" where
  "ResultSender_HandleWriteEvent r connfd s =
     bindE (Pipe_Read connfd s) (\<lambda>(Result, s).
       let s = emit (Send connfd (result_bytes Result)) s in
       bindE (case r of
           SendOk n \<Rightarrow> Inr s
         | SendErr errno \<Rightarrow>
             if errno = EAGAIN \<or> errno = EWOULDBLOCK then
               Inr (emit (LogDev ''Socket buffer full, try again later\<newline>'' []) s)
             else Inl AssertFailed)
         (FileDescriptorEventDone connfd))"

section \<open>Lemmas\<close>

lemma server_fields_ctl [simp]:
  fixes s :: "('svc, 'app) server"
  shows
    "return_values (emit x s) = return_values s" "dictionary (emit x s) = dictionary s"
    "handler_list (emit x s) = handler_list s" "listenfd (emit x s) = listenfd s"
    "app (emit x s) = app s"
    "return_values (ModEvent fd ev s) = return_values s" "dictionary (ModEvent fd ev s) = dictionary s"
    "handler_list (ModEvent fd ev s) = handler_list s" "listenfd (ModEvent fd ev s) = listenfd s"
    "app (ModEvent fd ev s) = app s"
    "return_values (AddEvent fd ev s) = return_values s" "dictionary (AddEvent fd ev s) = dictionary s"
    "handler_list (AddEvent fd ev s) = handler_list s" "listenfd (AddEvent fd ev s) = listenfd s"
    "app (AddEvent fd ev s) = app s"
    "return_values (DelEvent fd ev s) = return_values s" "dictionary (DelEvent fd ev s) = dictionary s"
    "handler_list (DelEvent fd ev s) = handler_list s" "listenfd (DelEvent fd ev s) = listenfd s"
    "app (DelEvent fd ev s) = app s"
  by (simp_all add: emit_def AddEvent_def ModEvent_def DelEvent_def CtrlEvent_def setnonblocking_def)

text \<open>The mask a descriptor is re-armed with after a handler has finished.\<close>

definition rearm_mask :: "RpcResult list \<Rightarrow> u32" where
  "rearm_mask rs = (if rs = [] then EPOLL_FLAGS_IN_ONESHOT else EPOLL_FLAGS_INOUT_ONESHOT)"

abbreviation valid_fd :: "int \<Rightarrow> bool" where
  "valid_fd fd \<equiv> 0 \<le> fd \<and> fd < MAX_FILE_DESCRIPTORS"

lemma FileDescriptorEventDone_eq:
  "FileDescriptorEventDone fd s =
     (if valid_fd fd then Inr (ModEvent fd (rearm_mask (return_values s fd)) s) else Inl OutOfBounds)"
  by (simp add: FileDescriptorEventDone_def Pipe_Empty_def pipe_at_def rearm_mask_def)

lemma Pipe_Write_eq:
  "Pipe_Write fd r s =
     (if valid_fd fd then Inr (s\<lparr>return_values := (return_values s)(fd := return_values s fd @ [r])\<rparr>)
      else Inl OutOfBounds)"
  by (simp add: Pipe_Write_def pipe_at_def)

text \<open>A message the handler passes on to a service, and the service it names.\<close>

definition service_for :: "RpcMessage \<Rightarrow> ('svc, 'app) server \<Rightarrow> 'svc option" where
  "service_for Message s =
     (if magic (header Message) = RPC_MAGIC_NUMBER \<and> version (header Message) = RPC_VERSION
      then case cstr (servicename (header Message)) of Inl e \<Rightarrow> None | Inr name \<Rightarrow> dictionary s name
      else None)"

text \<open>The state after a served request: the service's new state, the result queued, re-armed.\<close>

definition served :: "int \<Rightarrow> RpcMessage \<Rightarrow> RpcResult \<Rightarrow> 'app \<Rightarrow> ('svc, 'app) server \<Rightarrow> ('svc, 'app) server" where
  "served connfd Message Result app' s =
     (let rv = (if need_return (header Message)
                then (return_values s)(connfd := return_values s connfd @
                  [Result\<lparr>result_seqno := seqno (header Message)\<rparr>])
                else return_values s)
      in ModEvent connfd (rearm_mask (rv connfd))
           (emit (LogDev ''RpcRequestHandler::HandleReadEvent: get rpc request from %d\<newline>'' [LInt connfd])
             s\<lparr>app := app', return_values := rv\<rparr>))"

lemma handle_message_served:
  assumes "service_for Message s = Some svc" "Handle svc Message (app s) = Inr (Result, app')"
    and "valid_fd connfd"
  shows "handle_message Handle connfd Message s = Inr (served connfd Message Result app' s)"
  using assms
  by (auto simp: handle_message_def service_for_def served_def Let_def FileDescriptorEventDone_eq
      Pipe_Write_eq emit_def split: if_splits sum.splits)

text \<open>A message that is not passed on leaves everything but the log as it was.\<close>

definition same_but_log :: "('svc, 'app) server \<Rightarrow> ('svc, 'app) server \<Rightarrow> bool" where
  "same_but_log s s' \<longleftrightarrow> interest (trace s') = interest (trace s) \<and> poller.more s' = poller.more s \<and>
     ExtraFlags s' = ExtraFlags s"

lemma same_but_log_refl [simp]: "same_but_log s s"
  by (simp add: same_but_log_def)

lemma same_but_log_trans: "same_but_log a b \<Longrightarrow> same_but_log b c \<Longrightarrow> same_but_log a c"
  by (simp add: same_but_log_def)

lemma same_but_log_emit [simp]:
  "same_but_log s (emit (LogDev f as) s)" "same_but_log s (emit (LogErr f as) s)"
  "same_but_log s (emit (Recv fd n) s)"
  by (simp_all add: same_but_log_def)

lemma handle_message_refused:
  assumes "service_for Message s = None" "handle_message Handle connfd Message s = Inr s'"
  shows "same_but_log s s'"
  using assms
  by (auto simp: handle_message_def service_for_def Let_def same_but_log_def bindE_eq_Inr
      split: if_splits sum.splits option.splits)

text \<open>The message that two complete reads deliver.\<close>

definition request_of :: "recv_result \<Rightarrow> recv_result \<Rightarrow> RpcMessage option" where
  "request_of r1 r2 =
     (case r1 of RecvErr e \<Rightarrow> None
      | RecvOk hb \<Rightarrow>
          if length hb \<noteq> sizeof_RpcHeader then None
          else let h = header_of_bytes hb;
                   (n, d) = (case r2 of RecvErr e \<Rightarrow> (-1, []) | RecvOk d \<Rightarrow> (int (length d), d))
               in if n = sint (body_length h) \<and> length d \<le> MAX_RPC_PARAMS_SIZE
                  then Some \<lparr>header = h, body = \<lparr>parameters =
                    d @ drop (length d) (replicate MAX_RPC_PARAMS_SIZE NUL)\<rparr>\<rparr>
                  else None)"

definition recv_trace :: "int \<Rightarrow> recv_result \<Rightarrow> ('svc, 'app) server \<Rightarrow> ('svc, 'app) server" where
  "recv_trace connfd r1 s =
     (case r1 of RecvErr e \<Rightarrow> emit (Recv connfd sizeof_RpcHeader) s
      | RecvOk hb \<Rightarrow> emit (Recv connfd (size_t_of_int (body_length (header_of_bytes hb))))
          (emit (Recv connfd sizeof_RpcHeader) s))"

lemma recv_trace_same [simp]: "same_but_log s (recv_trace connfd r1 s)"
  by (auto simp: recv_trace_def same_but_log_def split: recv_result.split)

lemma recv_trace_fields [simp]:
  "app (recv_trace connfd r1 s) = app s" "return_values (recv_trace connfd r1 s) = return_values s"
  "dictionary (recv_trace connfd r1 s) = dictionary s" "interest (trace (recv_trace connfd r1 s)) = interest (trace s)"
  "ExtraFlags (recv_trace connfd r1 s) = ExtraFlags s"
  by (auto simp: recv_trace_def split: recv_result.split)

lemma init_parameters: "parameters (body RpcMessage_init) = replicate 480 NUL"
  by (simp add: RpcMessage_init_def rpc_consts)

lemma HandleReadEvent_request:
  "request_of r1 r2 = Some m \<Longrightarrow>
   RequestHandler_HandleReadEvent Handle r1 r2 connfd s = handle_message Handle connfd m (recv_trace connfd r1 s)"
  by (auto simp: request_of_def RequestHandler_HandleReadEvent_def Let_def recv_trace_def
      init_parameters rpc_consts buf_simps split: recv_result.splits if_splits)

lemma HandleReadEvent_no_request:
  "request_of r1 r2 = None \<Longrightarrow> RequestHandler_HandleReadEvent Handle r1 r2 connfd s = Inr s' \<Longrightarrow>
   same_but_log s s'"
  by (auto simp: request_of_def RequestHandler_HandleReadEvent_def Let_def init_parameters rpc_consts
      write_at_def same_but_log_def split: recv_result.splits if_splits)

lemma service_for_recv_trace [simp]: "service_for m (recv_trace connfd r1 s) = service_for m s"
  by (simp add: service_for_def split: sum.split)

text \<open>A concrete server with one service on connection 5, and a request for it.\<close>

definition demo_server :: "(nat, nat) server" where
  "demo_server = \<lparr>trace = [EpollCtl EPOLL_CTL_ADD 5 EPOLL_FLAGS_IN_ONESHOT, EpollWait [(5, EPOLLIN)]],
     ExtraFlags = EPOLLET, return_values = (\<lambda>_. []),
     dictionary = (\<lambda>_. None)(''KVGetter'' := Some 0), handler_list = EventHandlerManager_init,
     listenfd = 4, app = 0\<rparr>"

definition demo_header :: RpcHeader where
  "demo_header = \<lparr>magic = RPC_MAGIC_NUMBER, version = RPC_VERSION, need_return = True, seqno = 7,
     body_length = 0, servicename = ''KVGetter'' @ replicate 24 NUL\<rparr>"

definition demo_message :: RpcMessage where
  "demo_message = \<lparr>header = demo_header, body = \<lparr>parameters = replicate 480 NUL\<rparr>\<rparr>"

definition demo_recv :: recv_result where
  "demo_recv = RecvOk (header_bytes [NUL, NUL, NUL] demo_header)"

definition demo_result :: RpcResult where
  "demo_result = \<lparr>result_seqno = 0, return_buffer = replicate 480 NUL\<rparr>"

definition demo_Handle :: "nat \<Rightarrow> RpcMessage \<Rightarrow> nat \<Rightarrow> (RpcResult \<times> nat) result" where
  "demo_Handle svc m a = Inr (demo_result, Suc a)"

lemma demo_header_bytes:
  "length (header_bytes [NUL, NUL, NUL] demo_header) = 48"
  "header_of_bytes (header_bytes [NUL, NUL, NUL] demo_header) = demo_header"
  by (simp_all add: length_header_bytes [unfolded sizeof_RpcHeader_def] header_of_header_bytes
      wf_header_def demo_header_def rpc_consts)

lemma demo_request: "request_of demo_recv (RecvOk []) = Some demo_message"
  by (simp add: request_of_def demo_recv_def demo_header_bytes sizeof_RpcHeader_def demo_message_def
      Let_def rpc_consts) (simp add: demo_header_def)

lemma demo_service: "service_for demo_message demo_server = Some 0"
proof -
  have "cstr (replicate 24 NUL) = Inr []" by (simp add: numeral_eq_Suc)
  then show ?thesis
    by (simp add: service_for_def demo_message_def demo_header_def demo_server_def)
qed

lemma demo_interest: "interest (trace demo_server) 5 = Some (EPOLL_FLAGS_IN_ONESHOT, False)"
  by (simp add: demo_server_def epoll_flags interest_def EPOLLIN_def EPOLLERR_def EPOLLRDHUP_def
      EPOLLONESHOT_def)

section \<open>Properties\<close>

text \<open>
  A complete request for a registered service is served: the service is called once with the
  received message, its new state is kept, a result carrying the request's sequence number is
  appended to the connection's queue exactly when the header asks for one, no other connection's
  queue changes, and the connection is armed again, for output too iff a result waits.
\<close>

theorem request_is_served:
  fixes s :: "('svc, 'app) server"
  assumes "request_of r1 r2 = Some m" "service_for m s = Some svc"
    and "Handle svc m (app s) = Inr (res, app')" "valid_fd fd" "interest (trace s) fd \<noteq> None"
  shows "\<exists>s'. RequestHandler_HandleReadEvent Handle r1 r2 fd s = Inr s' \<and> app s' = app' \<and>
    return_values s' = (if need_return (header m)
      then (return_values s)(fd := return_values s fd @ [res\<lparr>result_seqno := seqno (header m)\<rparr>])
      else return_values s) \<and>
    armed (trace s') fd = Some (rearm_mask (return_values s' fd) OR ExtraFlags s) \<and>
    (\<forall>fd'. fd' \<noteq> fd \<longrightarrow> interest (trace s') fd' = interest (trace s) fd') \<and>
    handler_list s' = handler_list s \<and> dictionary s' = dictionary s"
proof -
  let ?s' = "served fd m res app' (recv_trace fd r1 s)"
  have "RequestHandler_HandleReadEvent Handle r1 r2 fd s = Inr ?s'"
    unfolding HandleReadEvent_request [OF assms(1)]
    using assms(2-4) by (intro handle_message_served) auto
  moreover have "handler_list ?s' = handler_list s" "dictionary ?s' = dictionary s"
    by (auto simp: served_def Let_def emit_def recv_trace_def split: recv_result.split)
  ultimately show ?thesis
    using assms(5) by (auto simp: served_def Let_def armed_def emit_def)
qed

theorem request_is_served_witness:
  "\<exists>s'. RequestHandler_HandleReadEvent demo_Handle demo_recv (RecvOk []) 5 demo_server = Inr s' \<and>
    app s' = Suc 0 \<and> return_values s' 5 = [demo_result\<lparr>result_seqno := 7\<rparr>] \<and>
    armed (trace s') 5 = Some (EPOLL_FLAGS_INOUT_ONESHOT OR EPOLLET)"
proof -
  have "demo_Handle 0 demo_message (app demo_server) = Inr (demo_result, Suc 0)"
    by (simp add: demo_Handle_def demo_server_def)
  moreover have "valid_fd 5" by (simp add: rpc_consts)
  moreover have "interest (trace demo_server) 5 \<noteq> None" by (simp add: demo_interest)
  ultimately obtain s' where s': "RequestHandler_HandleReadEvent demo_Handle demo_recv (RecvOk []) 5 demo_server = Inr s'"
    "app s' = Suc 0" "return_values s' = (if need_return (header demo_message)
      then (return_values demo_server)(5 := return_values demo_server 5 @ [demo_result\<lparr>result_seqno := seqno (header demo_message)\<rparr>])
      else return_values demo_server)"
    "armed (trace s') 5 = Some (rearm_mask (return_values s' 5) OR ExtraFlags demo_server)"
    using request_is_served [OF demo_request demo_service, of demo_Handle demo_result "Suc 0" 5] by blast
  have d: "return_values demo_server = (\<lambda>_. [])" "ExtraFlags demo_server = EPOLLET"
    "need_return (header demo_message)" "seqno (header demo_message) = 7"
    by (simp_all add: demo_server_def demo_message_def demo_header_def)
  show ?thesis
    using s' by (intro exI [of _ s']) (simp add: d rearm_mask_def)
qed

text \<open>
  Every other outcome of the read leaves the server as it was, up to the log: a short or failed
  read, a wrong magic number or version, an unknown service. In particular the one-shot
  registration is not renewed, so a descriptor that was disabled by the event stays disabled.
\<close>

theorem refused_request_not_rearmed:
  fixes s :: "('svc, 'app) server"
  assumes "RequestHandler_HandleReadEvent Handle r1 r2 fd s = Inr s'"
    and "\<And>m. request_of r1 r2 = Some m \<Longrightarrow> service_for m s = None"
  shows "armed (trace s') fd = armed (trace s) fd \<and> return_values s' = return_values s \<and>
    app s' = app s \<and> dictionary s' = dictionary s \<and> handler_list s' = handler_list s"
proof -
  have "same_but_log s s'"
  proof (cases "request_of r1 r2")
    case None
    then show ?thesis using assms(1) HandleReadEvent_no_request by blast
  next
    case (Some m)
    then have "same_but_log (recv_trace fd r1 s) s'"
      using assms by (intro handle_message_refused [of m]) (auto simp: HandleReadEvent_request [OF Some])
    then show ?thesis by (rule same_but_log_trans [OF recv_trace_same])
  qed
  then show ?thesis by (cases s; cases s') (simp add: same_but_log_def armed_def)
qed

theorem refused_request_not_rearmed_witness:
  "armed (trace (emit (LogErr ''RpcRequestHandler::HandleReadEvent: Bad packet\<newline>'' []) (emit (Recv 5 48) demo_server))) 5 =
     armed (trace demo_server) 5 \<and>
   return_values (emit (LogErr ''RpcRequestHandler::HandleReadEvent: Bad packet\<newline>'' []) (emit (Recv 5 48) demo_server)) =
     return_values demo_server \<and>
   app (emit (LogErr ''RpcRequestHandler::HandleReadEvent: Bad packet\<newline>'' []) (emit (Recv 5 48) demo_server)) = app demo_server \<and>
   dictionary (emit (LogErr ''RpcRequestHandler::HandleReadEvent: Bad packet\<newline>'' []) (emit (Recv 5 48) demo_server)) =
     dictionary demo_server \<and>
   handler_list (emit (LogErr ''RpcRequestHandler::HandleReadEvent: Bad packet\<newline>'' []) (emit (Recv 5 48) demo_server)) =
     handler_list demo_server"
  by (rule refused_request_not_rearmed [of demo_Handle "RecvOk ''short''" "RecvOk []"])
    (simp_all add: RequestHandler_HandleReadEvent_def request_of_def sizeof_RpcHeader_def Let_def)

text \<open>
  The announced body length is not checked against the size of the body: when the header
  announces more than 480 bytes and the peer sends them, the read leaves the message object.
\<close>

theorem long_body_overflows:
  assumes "length hb = 48" "recv_fits (size_t_of_int (body_length (header_of_bytes hb))) (RecvOk d)"
    and "480 < length d"
  shows "RequestHandler_HandleReadEvent Handle (RecvOk hb) (RecvOk d) fd s = Inl OutOfBounds"
  using assms
  by (simp add: RequestHandler_HandleReadEvent_def Let_def init_parameters write_at_def
      sizeof_RpcHeader_def)

theorem long_body_overflows_witness:
  "RequestHandler_HandleReadEvent demo_Handle
     (RecvOk (header_bytes [NUL, NUL, NUL] (demo_header\<lparr>body_length := 500\<rparr>)))
     (RecvOk (replicate 500 CHR ''A'')) 5 demo_server = Inl OutOfBounds"
proof (rule long_body_overflows)
  have wf: "wf_header (demo_header\<lparr>body_length := 500\<rparr>)"
    by (simp add: wf_header_def demo_header_def rpc_consts)
  show "length (header_bytes [NUL, NUL, NUL] (demo_header\<lparr>body_length := 500\<rparr>)) = 48"
    using length_header_bytes [OF wf, of "[NUL, NUL, NUL]"] by (simp add: sizeof_RpcHeader_def)
  show "recv_fits (size_t_of_int (body_length (header_of_bytes
      (header_bytes [NUL, NUL, NUL] (demo_header\<lparr>body_length := 500\<rparr>))))) (RecvOk (replicate 500 CHR ''A''))"
    using wf by (simp add: header_of_header_bytes recv_fits_def size_t_of_int_nonneg)
qed simp

text \<open>
  When the connection can be written, the oldest queued result is sent and removed, whether or
  not the socket buffer was full, and the connection is armed for output again iff more results
  wait; with an empty queue the \<open>assert\<close> of \<open>ReturnValuePipe::Read\<close> fails.
\<close>

theorem oldest_result_is_sent:
  fixes s :: "('svc, 'app) server"
  assumes "valid_fd fd" "interest (trace s) fd \<noteq> None" "\<And>e. r = SendErr e \<Longrightarrow> e = EAGAIN"
  shows "case return_values s fd of
      [] \<Rightarrow> ResultSender_HandleWriteEvent r fd s = Inl AssertFailed
    | x # xs \<Rightarrow> \<exists>s'. ResultSender_HandleWriteEvent r fd s = Inr s' \<and>
        return_values s' = (return_values s)(fd := xs) \<and>
        Send fd (result_bytes x) \<in> set (drop (length (trace s)) (trace s')) \<and>
        armed (trace s') fd = Some (rearm_mask xs OR ExtraFlags s) \<and> app s' = app s"
proof (cases "return_values s fd")
  case Nil
  then show ?thesis using assms(1) by (simp add: ResultSender_HandleWriteEvent_def Pipe_Read_def pipe_at_def)
next
  case (Cons x xs)
  have e: "\<And>e. r = SendErr e \<Longrightarrow> e = EAGAIN" by (rule assms(3))
  show ?thesis
    using assms(1,2) Cons e
    by (cases r) (auto simp: ResultSender_HandleWriteEvent_def Pipe_Read_def pipe_at_def Let_def
        FileDescriptorEventDone_eq armed_def emit_def split: option.splits)
qed

theorem oldest_result_is_sent_witness:
  "case return_values (demo_server\<lparr>return_values := \<lambda>_. [demo_result]\<rparr>) 5 of
      [] \<Rightarrow> ResultSender_HandleWriteEvent (SendOk 484) 5
        (demo_server\<lparr>return_values := \<lambda>_. [demo_result]\<rparr>) = Inl AssertFailed
    | x # xs \<Rightarrow> \<exists>s'. ResultSender_HandleWriteEvent (SendOk 484) 5
        (demo_server\<lparr>return_values := \<lambda>_. [demo_result]\<rparr>) = Inr s' \<and>
        return_values s' = (return_values (demo_server\<lparr>return_values := \<lambda>_. [demo_result]\<rparr>))(5 := xs) \<and>
        Send 5 (result_bytes x) \<in> set (drop (length (trace (demo_server\<lparr>return_values := \<lambda>_. [demo_result]\<rparr>))) (trace s')) \<and>
        armed (trace s') 5 = Some (rearm_mask xs OR ExtraFlags (demo_server\<lparr>return_values := \<lambda>_. [demo_result]\<rparr>)) \<and>
        app s' = app (demo_server\<lparr>return_values := \<lambda>_. [demo_result]\<rparr>)"
  by (rule oldest_result_is_sent) (use demo_interest in \<open>simp_all add: rpc_consts\<close>)

end
