(* ===== verification/ServerTransport.thy ===== *)
theory ServerTransport
  imports RpcEventHandler
begin

text \<open>
  \<open>include/transport/ServerTransport.hh\<close>, \<open>source/transport/ServerTransport.cc\<close>: listening,
  accepting and closing connections, and the virtual dispatch of the server's three handlers.

  What the socket calls answer is in the records \<open>listen_env\<close> and \<open>accept_env\<close>. The constructor's
  arguments \<open>_socket_reader\<close> and \<open>_socket_writer\<close> are the server's own receiver and sender, as
  \<open>RpcServer\<close> passes them.
\<close>

section \<open>Listening\<close>

record listen_env =
  len_socket :: int
  len_bind :: int
  len_listen :: int

definition create_listenfd :: "listen_env \<Rightarrow> string \<Rightarrow> int \<Rightarrow> 'a world_scheme \<Rightarrow> (int \<times> 'a world_scheme) result" where
  "create_listenfd e ip port w =
     (let fd = len_socket e; w = emit Socket w in
      bindE (assertE (fd \<ge> 0)) (\<lambda>_.
      let w = emit (Bind fd ip port) w in
      bindE (assertE (len_bind e \<noteq> -1)) (\<lambda>_.
      let w = emit (Listen fd 5) w in
      bindE (assertE (len_listen e \<noteq> -1)) (\<lambda>_. Inr (fd, w)))))"

definition ServerTransport_Listen ::
  "listen_env \<Rightarrow> string \<Rightarrow> int \<Rightarrow> ('svc, 'app) server \<Rightarrow> ('svc, 'app) server result" where
  "ServerTransport_Listen e ip port s =
     bindE (create_listenfd e ip port s) (\<lambda>(fd, s).
       let s = s\<lparr>listenfd := fd\<rparr> in
       if fd \<ge> 0 then
         bindE (AttachEventHandler fd READ_EVENT (Some TheTransport) (handler_list s)) (\<lambda>l.
           Inr (emit (LogDev ''ServerTransport::Listen: Start listening at ip %s, port %d\<newline>'' [LStr ip, LInt port])
             (AddEvent fd EPOLL_FLAGS_IN_ONESHOT (s\<lparr>handler_list := l\<rparr>))))
       else Inl (ProcessExit 1))"

section \<open>Accepting\<close>

text \<open>\<open>acc_rcvbuf\<close> and \<open>acc_sndbuf\<close>: the error text when the \<open>setsockopt\<close> call fails.\<close>

record accept_env =
  acc_ret :: int
  acc_errno :: int
  acc_rcvbuf :: "string option"
  acc_sndbuf :: "string option"

definition ServerTransport_Accept :: "accept_env \<Rightarrow> ('svc, 'app) server \<Rightarrow> int \<times> ('svc, 'app) server" where
  "ServerTransport_Accept e s =
     (let Connfd = acc_ret e; s = emit (Accept (listenfd s)) s in
      if Connfd < 0 then
        (-1, emit (LogDev ''ServerTransport::Accept: Accept failure, errno is %d\<newline>'' [LInt (acc_errno e)]) s)
      else
        let s = emit (SetSockBuf Connfd) s in
        case acc_rcvbuf e of
          Some msg \<Rightarrow>
            (-1, emit (Close Connfd)
              (emit (LogDev ''ServerTransport::Accept: Failed to set receive buffer size: %s\<newline>'' [LStr msg]) s))
        | None \<Rightarrow>
            let s = emit (SetSockBuf Connfd) s in
            case acc_sndbuf e of
              Some msg \<Rightarrow>
                (-1, emit (Close Connfd)
                  (emit (LogDev ''ServerTransport::Accept: Failed to set send buffer size: %s\<newline>'' [LStr msg]) s))
            | None \<Rightarrow>
                (Connfd, emit (LogDev ''ServerTransport::Accept: Created a connection at fd [%d], buffer size set to %d bytes\<newline>''
                  [LInt Connfd, LInt (1024 * 1024)]) s))"

definition ServerTransport_HandleReadEvent ::
  "accept_env \<Rightarrow> int \<Rightarrow> ('svc, 'app) server \<Rightarrow> ('svc, 'app) server result" where
  "ServerTransport_HandleReadEvent e Fd s =
     (if Fd \<noteq> listenfd s then Inl (ProcessExit 1)
      else
        let (Connfd, s) = ServerTransport_Accept e s in
        bindE (bindE (AttachEventHandler Connfd READ_EVENT (Some TheReceiver) (handler_list s)) (\<lambda>l.
               bindE (AttachEventHandler Connfd WRITE_EVENT (Some TheSender) l)
                     (AttachEventHandler Connfd CLOSE_EVENT (Some TheTransport)))) (\<lambda>l.
          let s = AddEvent Connfd EPOLL_FLAGS_IN_ONESHOT (s\<lparr>handler_list := l\<rparr>) in
          Inr (ModEvent (listenfd s) EPOLL_FLAGS_IN_ONESHOT s)))"

section \<open>Closing\<close>

definition ServerTransport_HandleCloseEvent :: "int \<Rightarrow> ('svc, 'app) server \<Rightarrow> ('svc, 'app) server result" where
  "ServerTransport_HandleCloseEvent Fd s =
     (let s = emit (LogDev ''ServerTransport::HandleCloseEvent Close fd [%d]\<newline>'' [LInt Fd]) s in
      bindE (DetachEventHandler Fd (READ_EVENT OR WRITE_EVENT OR CLOSE_EVENT) (handler_list s)) (\<lambda>l.
        Inr (emit (Close Fd) (DelEvent Fd 0 (s\<lparr>handler_list := l\<rparr>)))))"

section \<open>The handlers of the server\<close>

record server_env =
  en_accept :: accept_env
  en_recv_header :: recv_result
  en_recv_body :: recv_result
  en_send :: send_result

definition server_vtable ::
  "('svc \<Rightarrow> RpcMessage \<Rightarrow> 'app \<Rightarrow> (RpcResult \<times> 'app) result) \<Rightarrow> server_env \<Rightarrow> server_obj \<Rightarrow>
   ('svc, 'app) server vtable" where
  "server_vtable Handle e obj =
     (case obj of
        TheTransport \<Rightarrow> EventHandler_default\<lparr>HandleReadEvent := ServerTransport_HandleReadEvent (en_accept e),
          HandleCloseEvent := ServerTransport_HandleCloseEvent\<rparr>
      | TheReceiver \<Rightarrow> EventHandler_default\<lparr>HandleReadEvent :=
          RequestHandler_HandleReadEvent Handle (en_recv_header e) (en_recv_body e)\<rparr>
      | TheSender \<Rightarrow> EventHandler_default\<lparr>HandleWriteEvent := ResultSender_HandleWriteEvent (en_send e)\<rparr>)"

text \<open>A task made by \<open>Dispatch\<close>: \<open>HandleEvent\<close> of the server's \<open>EventHandlerManager\<close>.\<close>

definition Server_HandleEvent ::
  "('svc \<Rightarrow> RpcMessage \<Rightarrow> 'app \<Rightarrow> (RpcResult \<times> 'app) result) \<Rightarrow> server_env \<Rightarrow> task \<Rightarrow>
   ('svc, 'app) server \<Rightarrow> ('svc, 'app) server result" where
  "Server_HandleEvent Handle e t s =
     (case t of (fd, ty) \<Rightarrow> EventHandlerManager_HandleEvent (server_vtable Handle e) (handler_list s) fd ty s)"

section \<open>Lemmas\<close>

lemma Accept_eq:
  assumes "ServerTransport_Accept e s = (fd, s')"
  shows "(fd = -1 \<or> fd = acc_ret e \<and> 0 \<le> fd \<and> interest (trace s') = interest (trace s)) \<and>
    poller.more s' = poller.more s \<and> ExtraFlags s' = ExtraFlags s"
  using assms
  by (cases "acc_ret e < 0"; cases "acc_rcvbuf e"; cases "acc_sndbuf e")
    (auto simp: ServerTransport_Accept_def Let_def)

lemma Accept_failed:
  assumes "acc_ret e < 0 \<or> acc_rcvbuf e \<noteq> None \<or> acc_sndbuf e \<noteq> None"
  shows "\<exists>s'. ServerTransport_Accept e s = (-1, s')"
proof (cases "acc_ret e < 0")
  case True
  then show ?thesis by (simp add: ServerTransport_Accept_def Let_def)
next
  case False
  with assms show ?thesis
    by (cases "acc_rcvbuf e"; cases "acc_sndbuf e") (simp_all add: ServerTransport_Accept_def Let_def)
qed

lemma server_more_eq:
  fixes s s' :: "('svc, 'app) server"
  assumes "poller.more s' = poller.more s"
  shows "return_values s' = return_values s \<and> dictionary s' = dictionary s \<and>
    handler_list s' = handler_list s \<and> listenfd s' = listenfd s \<and> app s' = app s"
  using assms by (cases s; cases s') simp

lemma Accept_fields:
  assumes "ServerTransport_Accept e s = (fd, s')"
  shows "return_values s' = return_values s" "dictionary s' = dictionary s"
    "handler_list s' = handler_list s" "listenfd s' = listenfd s" "app s' = app s"
    "ExtraFlags s' = ExtraFlags s"
  using server_more_eq [of s' s] Accept_eq [OF assms] by simp_all

lemma Accept_interest:
  assumes "ServerTransport_Accept e s = (fd, s')" "0 \<le> fd"
  shows "interest (trace s') = interest (trace s)" "fd = acc_ret e"
  using Accept_eq [OF assms(1)] assms(2) by auto

lemma attach_invalid:
  "\<not> valid_fd fd \<Longrightarrow> is_event ty \<Longrightarrow> AttachEventHandler fd ty (Some h) l = Inl OutOfBounds"
  using handlers.attach_fault [of fd ty h l] by auto

text \<open>A successful read event on the listening descriptor, in terms of the new connection.\<close>

lemma HandleReadEvent_accepts:
  assumes "ServerTransport_HandleReadEvent e Fd s = Inr s'"
  obtains fd s1 where "Fd = listenfd s" "ServerTransport_Accept e s = (fd, s1)" "valid_fd fd" "fd = acc_ret e"
    "interest (trace s') = interest_step (EpollCtl EPOLL_CTL_MOD (listenfd s) (EPOLL_FLAGS_IN_ONESHOT OR ExtraFlags s))
       (interest_step (EpollCtl EPOLL_CTL_ADD fd (EPOLL_FLAGS_IN_ONESHOT OR ExtraFlags s)) (interest (trace s)))"
    "return_values s' = return_values s" "dictionary s' = dictionary s" "listenfd s' = listenfd s"
    "app s' = app s" "ExtraFlags s' = ExtraFlags s"
    "\<And>fd' ty. is_event ty \<Longrightarrow> handler_of (handler_list s') fd' ty =
      (if fd' \<noteq> fd then handler_of (handler_list s) fd' ty else if ty = READ_EVENT then Some TheReceiver
       else if ty = WRITE_EVENT then Some TheSender else Some TheTransport)"
proof -
  obtain fd s1 where acc: "ServerTransport_Accept e s = (fd, s1)" by fastforce
  have lfd: "Fd = listenfd s"
    using assms by (auto simp: ServerTransport_HandleReadEvent_def split: if_splits)
  with assms acc obtain l where
    att: "bindE (AttachEventHandler fd READ_EVENT (Some TheReceiver) (handler_list s1)) (\<lambda>l.
          bindE (AttachEventHandler fd WRITE_EVENT (Some TheSender) l)
                (AttachEventHandler fd CLOSE_EVENT (Some TheTransport))) = Inr l"
    and s': "s' = ModEvent (listenfd s1) EPOLL_FLAGS_IN_ONESHOT
               (AddEvent fd EPOLL_FLAGS_IN_ONESHOT (s1\<lparr>handler_list := l\<rparr>))"
    by (auto simp: ServerTransport_HandleReadEvent_def Let_def bindE_eq_Inr)
  have v: "valid_fd fd"
  proof (rule ccontr)
    assume "\<not> valid_fd fd"
    then have "AttachEventHandler fd READ_EVENT (Some TheReceiver) (handler_list s1) = Inl OutOfBounds"
      by (rule attach_invalid) (simp add: is_event_def)
    with att show False by simp
  qed
  note I = Accept_interest [OF acc] and F = Accept_fields [OF acc]
  have "handler_of l fd' ty = (if fd' \<noteq> fd then handler_of (handler_list s) fd' ty
      else if ty = READ_EVENT then Some TheReceiver
      else if ty = WRITE_EVENT then Some TheSender else Some TheTransport)" if "is_event ty" for fd' ty
    using handlers.attach3_look [OF att _ _ _ _ that, of fd'] that F
    by (auto simp: is_event_def event_types)
  with that [OF lfd acc v] s' v I F show thesis by simp
qed

lemma HandleReadEvent_ok:
  fixes s :: "('svc, 'app) server"
  assumes "acc_ret e = fd" "acc_rcvbuf e = None" "acc_sndbuf e = None" "valid_fd fd"
  shows "\<exists>s1 s'. ServerTransport_Accept e s = (fd, s1) \<and>
    ServerTransport_HandleReadEvent e (listenfd s) s = Inr s'"
proof -
  have "fst (ServerTransport_Accept e s) = fd"
    using assms by (simp add: ServerTransport_Accept_def Let_def)
  then obtain s1 where acc: "ServerTransport_Accept e s = (fd, s1)" by (metis prod.collapse)
  obtain l where l: "bindE (AttachEventHandler fd READ_EVENT (Some TheReceiver) (handler_list s1)) (\<lambda>l.
      bindE (AttachEventHandler fd WRITE_EVENT (Some TheSender) l)
            (AttachEventHandler fd CLOSE_EVENT (Some TheTransport))) = Inr l"
    using handlers.attach3_ok [of fd READ_EVENT WRITE_EVENT CLOSE_EVENT TheReceiver "handler_list s1" TheSender TheTransport]
      assms(4) by (auto simp: is_event_def)
  have "\<exists>s'. ServerTransport_HandleReadEvent e (listenfd s) s = Inr s'"
    unfolding ServerTransport_HandleReadEvent_def acc Let_def by (simp add: l)
  with acc show ?thesis by blast
qed

lemma HandleCloseEvent_closes:
  assumes "valid_fd Fd"
  obtains s' where "ServerTransport_HandleCloseEvent Fd s = Inr s'"
    "interest (trace s') = (interest (trace s))(Fd := None)" "return_values s' = return_values s"
    "dictionary s' = dictionary s" "listenfd s' = listenfd s" "app s' = app s"
    "ExtraFlags s' = ExtraFlags s"
    "\<And>fd' ty. is_event ty \<Longrightarrow> handler_of (handler_list s') fd' ty =
      (if fd' = Fd then None else handler_of (handler_list s) fd' ty)"
proof -
  obtain l where l: "DetachEventHandler Fd (READ_EVENT OR WRITE_EVENT OR CLOSE_EVENT) (handler_list s) = Inr l"
    using handlers.detach_ok [of Fd "handler_list s"] assms by auto
  show thesis
    by (rule that [of "emit (Close Fd) (DelEvent Fd 0
          (emit (LogDev ''ServerTransport::HandleCloseEvent Close fd [%d]\<newline>'' [LInt Fd]) s\<lparr>handler_list := l\<rparr>))"])
      (use l handlers.detach_look [OF l] in \<open>auto simp: ServerTransport_HandleCloseEvent_def Let_def emit_def\<close>)
qed

definition demo_accept :: accept_env where
  "demo_accept = \<lparr>acc_ret = 6, acc_errno = 0, acc_rcvbuf = None, acc_sndbuf = None\<rparr>"

text \<open>The demo server after its listening descriptor was armed too.\<close>

definition demo_listening :: "(nat, nat) server" where
  "demo_listening = AddEvent 4 EPOLL_FLAGS_IN_ONESHOT (demo_server\<lparr>return_values := \<lambda>_. [demo_result]\<rparr>)"

lemma demo_listening [simp]:
  "listenfd demo_listening = 4" "interest (trace demo_listening) 4 \<noteq> None"
  "interest (trace demo_listening) 6 = None" "return_values demo_listening = (\<lambda>_. [demo_result])"
  "dictionary demo_listening = dictionary demo_server" "app demo_listening = 0"
  by (simp_all add: demo_listening_def) (auto simp: demo_server_def epoll_flags interest_def
      EPOLLIN_def EPOLLERR_def EPOLLRDHUP_def EPOLLONESHOT_def)

section \<open>Properties\<close>

text \<open>
  A read event on the listening descriptor sets a connection up: when \<open>accept\<close> returns a usable
  descriptor that is not registered, its three events are routed to the receiver, the sender and the
  transport, it is armed one-shot for input, the listening descriptor is armed again, and all other
  registrations and routes stay.
\<close>

theorem accept_sets_up_connection:
  fixes s :: "('svc, 'app) server"
  assumes "acc_ret e = fd" "acc_rcvbuf e = None" "acc_sndbuf e = None" "valid_fd fd"
    and "interest (trace s) fd = None" "interest (trace s) (listenfd s) \<noteq> None"
  shows "\<exists>s'. ServerTransport_HandleReadEvent e (listenfd s) s = Inr s' \<and>
    armed (trace s') fd = Some (EPOLL_FLAGS_IN_ONESHOT OR ExtraFlags s) \<and>
    armed (trace s') (listenfd s) = Some (EPOLL_FLAGS_IN_ONESHOT OR ExtraFlags s) \<and>
    (\<forall>fd'. fd' \<noteq> fd \<and> fd' \<noteq> listenfd s \<longrightarrow> interest (trace s') fd' = interest (trace s) fd') \<and>
    (\<forall>fd' ty. is_event ty \<longrightarrow> handler_of (handler_list s') fd' ty =
      (if fd' \<noteq> fd then handler_of (handler_list s) fd' ty else if ty = READ_EVENT then Some TheReceiver
       else if ty = WRITE_EVENT then Some TheSender else Some TheTransport)) \<and>
    return_values s' = return_values s"
proof -
  obtain s1 s' where acc: "ServerTransport_Accept e s = (fd, s1)"
    and s': "ServerTransport_HandleReadEvent e (listenfd s) s = Inr s'"
    using HandleReadEvent_ok [OF assms(1-4)] by blast
  from s' show ?thesis
  proof (cases rule: HandleReadEvent_accepts)
    case (1 fd' s1')
    have "fd' = fd" using acc 1 by simp
    with 1 s' assms(5,6) show ?thesis by (auto simp: armed_def)
  qed
qed

theorem accept_sets_up_connection_witness:
  "\<exists>s'. ServerTransport_HandleReadEvent demo_accept (listenfd demo_listening) demo_listening = Inr s' \<and>
    armed (trace s') 6 = Some (EPOLL_FLAGS_IN_ONESHOT OR ExtraFlags demo_listening)"
proof -
  have fd: "acc_ret demo_accept = 6" "acc_rcvbuf demo_accept = None" "acc_sndbuf demo_accept = None" "valid_fd 6"
    by (simp_all add: demo_accept_def MAX_FILE_DESCRIPTORS_def)
  from accept_sets_up_connection [OF fd, of demo_listening] show ?thesis by auto
qed

text \<open>
  A failed \<open>accept\<close> is not checked: its result -1 is used as a descriptor and the handler array
  is written before its start, whatever the state.
\<close>

theorem failed_accept_out_of_bounds:
  assumes "acc_ret e < 0 \<or> acc_rcvbuf e \<noteq> None \<or> acc_sndbuf e \<noteq> None"
  shows "ServerTransport_HandleReadEvent e (listenfd s) s = Inl OutOfBounds"
proof -
  obtain s1 where acc: "ServerTransport_Accept e s = (-1, s1)"
    using Accept_failed [OF assms] by blast
  have att: "AttachEventHandler (-1) READ_EVENT (Some TheReceiver) (handler_list s1) = Inl OutOfBounds"
    by (rule attach_invalid) (simp_all add: is_event_def)
  show ?thesis unfolding ServerTransport_HandleReadEvent_def acc Let_def by (simp add: att)
qed

theorem failed_accept_out_of_bounds_witness:
  "ServerTransport_HandleReadEvent (demo_accept\<lparr>acc_ret := -1, acc_errno := 24\<rparr>) (listenfd demo_listening) demo_listening
    = Inl OutOfBounds"
  by (rule failed_accept_out_of_bounds) simp

text \<open>
  Closing a connection removes its registration and its routes and no others, and leaves its
  queue of unsent results in place.
\<close>

theorem close_removes_connection:
  fixes s :: "('svc, 'app) server"
  assumes "valid_fd fd"
  shows "\<exists>s'. ServerTransport_HandleCloseEvent fd s = Inr s' \<and>
    interest (trace s') = (interest (trace s))(fd := None) \<and>
    (\<forall>fd' ty. is_event ty \<longrightarrow> handler_of (handler_list s') fd' ty =
      (if fd' = fd then None else handler_of (handler_list s) fd' ty)) \<and>
    return_values s' = return_values s \<and> last (trace s') = Close fd"
proof -
  show ?thesis
  proof (rule HandleCloseEvent_closes [OF assms, of s], goal_cases)
    case (1 s')
    moreover from this(1) have "last (trace s') = Close fd"
      by (auto simp: ServerTransport_HandleCloseEvent_def Let_def bindE_eq_Inr)
    ultimately show ?case by (intro exI [of _ s']) simp
  qed
qed

theorem close_removes_connection_witness:
  "\<exists>s'. ServerTransport_HandleCloseEvent 5 demo_listening = Inr s' \<and> interest (trace s') 5 = None \<and>
    return_values s' 5 = [demo_result]"
proof -
  have "valid_fd 5" by (simp add: MAX_FILE_DESCRIPTORS_def)
  from close_removes_connection [OF this, of demo_listening] show ?thesis by auto
qed

text \<open>
  A reused descriptor inherits the unsent results: after connection \<open>fd\<close> was closed and a new
  connection got the same descriptor, the first response sent to the new peer is the head of the
  results left over from the old peer followed by the new peer's own result.
\<close>

theorem reused_descriptor_first_response:
  fixes s :: "('svc, 'app) server"
  assumes "valid_fd fd" "ServerTransport_HandleCloseEvent fd s = Inr s1"
    and "ServerTransport_HandleReadEvent e (listenfd s1) s1 = Inr s2" "acc_ret e = fd"
    and "request_of r1 r2 = Some m" "need_return (header m)" "service_for m s2 = Some svc"
    and "Handle svc m (app s2) = Inr (res, app')"
    and "RequestHandler_HandleReadEvent Handle r1 r2 fd s2 = Inr s3"
    and "ResultSender_HandleWriteEvent (SendOk n) fd s3 = Inr s4"
  shows "Send fd (result_bytes (hd (return_values s fd @ [res\<lparr>result_seqno := seqno (header m)\<rparr>])))
    \<in> set (drop (length (trace s3)) (trace s4))"
proof -
  from close_removes_connection [OF assms(1), of s] assms(2)
  have q1: "return_values s1 fd = return_values s fd" by auto
  from assms(3) have q2: "return_values s2 fd = return_values s1 fd"
    by (cases rule: HandleReadEvent_accepts) simp
  have "s3 = served fd m res app' (recv_trace fd r1 s2)"
    using assms(9) handle_message_served [of m "recv_trace fd r1 s2" svc Handle res app' fd]
      HandleReadEvent_request [OF assms(5), of Handle fd s2] assms(1,7,8) by simp
  then have q3: "return_values s3 fd = return_values s2 fd @ [res\<lparr>result_seqno := seqno (header m)\<rparr>]"
    using assms(6) by (simp add: served_def Let_def)
  then obtain x xs where x: "return_values s3 fd = x # xs"
    by (metis append_is_Nil_conv neq_Nil_conv)
  then have "Send fd (result_bytes x) \<in> set (drop (length (trace s3)) (trace s4))"
    using assms(1,10)
    by (auto simp: ResultSender_HandleWriteEvent_def Pipe_Read_def pipe_at_def Let_def
        FileDescriptorEventDone_eq)
  moreover have "x = hd (return_values s fd @ [res\<lparr>result_seqno := seqno (header m)\<rparr>])"
    using x q1 q2 q3 by simp
  ultimately show ?thesis by simp
qed

theorem reused_descriptor_first_response_witness:
  "\<exists>s1 s2 s3 s4. ServerTransport_HandleCloseEvent 6 demo_listening = Inr s1 \<and>
    ServerTransport_HandleReadEvent demo_accept (listenfd s1) s1 = Inr s2 \<and>
    RequestHandler_HandleReadEvent demo_Handle demo_recv (RecvOk []) 6 s2 = Inr s3 \<and>
    ResultSender_HandleWriteEvent (SendOk 484) 6 s3 = Inr s4 \<and>
    Send 6 (result_bytes demo_result) \<in> set (drop (length (trace s3)) (trace s4))"
proof -
  obtain s1 where 1: "ServerTransport_HandleCloseEvent 6 demo_listening = Inr s1"
    and v1: "dictionary s1 = dictionary demo_server" "return_values s1 6 = [demo_result]"
    by (rule HandleCloseEvent_closes [of 6 demo_listening]) (simp_all add: MAX_FILE_DESCRIPTORS_def)
  obtain s2 where 2: "ServerTransport_HandleReadEvent demo_accept (listenfd s1) s1 = Inr s2"
    using HandleReadEvent_ok [of demo_accept 6 s1] by (auto simp: demo_accept_def MAX_FILE_DESCRIPTORS_def)
  then have v2: "dictionary s2 = dictionary demo_server" "return_values s2 6 = [demo_result]"
    using v1 by (auto elim: HandleReadEvent_accepts)
  have svc: "service_for demo_message s2 = Some 0"
    using demo_service by (simp only: service_for_def v2)
  have h: "demo_Handle 0 demo_message (app s2) = Inr (demo_result, Suc (app s2))"
    by (simp add: demo_Handle_def)
  define s3 where "s3 = served 6 demo_message demo_result (Suc (app s2)) (recv_trace 6 demo_recv s2)"
  have 3: "RequestHandler_HandleReadEvent demo_Handle demo_recv (RecvOk []) 6 s2 = Inr s3"
    using handle_message_served [of demo_message "recv_trace 6 demo_recv s2" 0 demo_Handle demo_result "Suc (app s2)" 6]
      HandleReadEvent_request [OF demo_request, of demo_Handle 6 s2] svc h
    by (simp add: s3_def MAX_FILE_DESCRIPTORS_def)
  have "return_values s3 6 \<noteq> []" by (simp add: s3_def served_def Let_def v2)
  then obtain s4 where 4: "ResultSender_HandleWriteEvent (SendOk 484) 6 s3 = Inr s4"
    by (auto simp: ResultSender_HandleWriteEvent_def Pipe_Read_def pipe_at_def Let_def
        FileDescriptorEventDone_eq neq_Nil_conv MAX_FILE_DESCRIPTORS_def)
  have "Send 6 (result_bytes demo_result) \<in> set (drop (length (trace s3)) (trace s4))"
    using reused_descriptor_first_response [OF _ 1 2 _ demo_request _ svc h 3 4]
    by (simp add: demo_accept_def demo_message_def demo_header_def MAX_FILE_DESCRIPTORS_def)
  with 1 2 3 4 show ?thesis by blast
qed

end
