(* ===== verification/SafeQueue.thy ===== *)
theory SafeQueue
  imports Interfaces
begin

text \<open>
  \<open>include/runtime/threadmodel/SafeQueue.hh\<close>: the bounded queue shared by the threads of a pool.

  Every operation runs under the mutex \<open>m\<close>. \<open>Dequeue\<close> with \<open>block\<close> gives the mutex up inside
  \<open>c.wait\<close>, so it is two atomic parts: \<open>Dequeue_enter\<close> up to the wait (\<open>None\<close>: the caller waits now)
  and \<open>Dequeue_resume\<close> after it. The wait is not in a loop: a wake-up that finds the queue empty
  makes \<open>Dequeue\<close> return \<open>false\<close>.
\<close>

section \<open>The model\<close>

record 'a SafeQueue =
  sq_q :: "'a list"
  sq_maxsize :: nat
  sq_stop :: bool

definition SafeQueue_init :: "nat \<Rightarrow> 'a SafeQueue" where
  "SafeQueue_init MaxSize = \<lparr>sq_q = [], sq_maxsize = MaxSize, sq_stop = False\<rparr>"

definition Enqueue :: "'a \<Rightarrow> 'a SafeQueue \<Rightarrow> bool \<times> 'a SafeQueue" where
  "Enqueue t s =
     (if length (sq_q s) \<ge> sq_maxsize s then (False, s)
      else (True, s\<lparr>sq_q := sq_q s @ [t]\<rparr>))"

text \<open>The second test of \<open>Dequeue\<close>: \<open>None\<close> is \<open>false\<close>, \<open>Some\<close> the element stored in \<open>data\<close>.\<close>

definition Dequeue_resume :: "'a SafeQueue \<Rightarrow> 'a option \<times> 'a SafeQueue" where
  "Dequeue_resume s =
     (case sq_q s of [] \<Rightarrow> (None, s) | x # xs \<Rightarrow> (Some x, s\<lparr>sq_q := xs\<rparr>))"

definition Dequeue_enter :: "bool \<Rightarrow> 'a SafeQueue \<Rightarrow> ('a option \<times> 'a SafeQueue) option" where
  "Dequeue_enter block s =
     (if sq_q s = [] then if block then None else Some (None, s)
      else Some (Dequeue_resume s))"

text \<open>\<open>Dequeue(data, false)\<close>.\<close>

definition Dequeue :: "'a SafeQueue \<Rightarrow> 'a option \<times> 'a SafeQueue" where
  "Dequeue s = (case Dequeue_enter False s of None \<Rightarrow> (None, s) | Some r \<Rightarrow> r)"

text \<open>
  The destructor's own part: the flag (which \<open>Dequeue\<close> never reads) and the lock, which it takes and
  gives back; \<open>notify_all\<close> concerns the waiting threads and is in the theory of the pool.
\<close>

definition SafeQueue_destroy :: "'a SafeQueue \<Rightarrow> 'a SafeQueue" where
  "SafeQueue_destroy s = s\<lparr>sq_stop := True\<rparr>"

section \<open>Lemmas\<close>

lemma Dequeue_eq: "Dequeue s = Dequeue_resume s"
  by (simp add: Dequeue_def Dequeue_enter_def Dequeue_resume_def)

interpretation safe_queue: bounded_fifo Enqueue Dequeue sq_q sq_maxsize
  by unfold_locales
    (auto simp: Enqueue_def Dequeue_eq Dequeue_resume_def split: list.split)

section \<open>Properties\<close>

text \<open>
  The queue is first in, first out and loses nothing it accepted: over any sequence of
  operations, what was in the queue followed by what was accepted is what was removed followed by
  what is left, and the queue never holds more than \<open>MaxSize\<close> elements.
\<close>

theorem SafeQueue_fifo:
  assumes "fifo_run Enqueue Dequeue (SafeQueue_init n) ops = (accepted, removed, s)"
  shows "accepted = removed @ sq_q s \<and> length (sq_q s) \<le> n"
  using safe_queue.run_fifo [OF assms] safe_queue.run_bound [OF assms]
  by (simp add: SafeQueue_init_def)

theorem SafeQueue_fifo_witness:
  "[1, 2 :: int] = [1] @ sq_q \<lparr>sq_q = [2], sq_maxsize = 2, sq_stop = False\<rparr> \<and>
   length (sq_q \<lparr>sq_q = [2 :: int], sq_maxsize = 2, sq_stop = False\<rparr>) \<le> 2"
  by (rule SafeQueue_fifo [where ops = "[Enq 1, Enq 2, Enq 3, Deq]"])
    (simp add: SafeQueue_init_def Enqueue_def Dequeue_eq Dequeue_resume_def)

end
