(* ===== verification/ThreadPool.thy ===== *)
theory ThreadPool
  imports SafeQueue
begin

text \<open>
  \<open>include/runtime/threadmodel/ThreadPool.hh\<close>, \<open>source/runtime/threadmodel/ThreadPool.cc\<close>: worker
  threads that take tasks from one \<open>SafeQueue\<close>.

  A worker is at one of the points of its loop \<open>Run\<close>: before the test of \<open>m_stop\<close> (\<open>Ready\<close>),
  asleep in \<open>c.wait\<close> (\<open>Waiting\<close>), woken but not yet holding the mutex again (\<open>Notified\<close>), inside
  \<open>task()\<close> (\<open>Running\<close>), or returned (\<open>Finished\<close>). \<open>pool_step\<close> interleaves the workers, the callers
  of \<open>AddTask\<close> and \<open>Stop\<close>. \<open>notify_one\<close> wakes one waiting worker if there is one; a worker may also
  wake spuriously, as the standard permits.

  Lemmas: tasks are started in the order of their acceptance, each once; no wake-up is lost.
\<close>

section \<open>The model\<close>

datatype 'a worker = Ready | Waiting | Notified | Running 'a | Finished

record 'a ThreadPool =
  tasks :: "'a SafeQueue"
  m_stop :: bool
  workers :: "'a worker list"
  joinable :: "bool list"

definition ThreadPool_init :: "nat \<Rightarrow> nat \<Rightarrow> 'a ThreadPool result" where
  "ThreadPool_init thread_num task_queue_size =
     bindE (assertE (thread_num > 0)) (\<lambda>_. bindE (assertE (task_queue_size > 0)) (\<lambda>_.
       Inr \<lparr>tasks = SafeQueue_init task_queue_size, m_stop = False,
            workers = replicate thread_num Ready, joinable = replicate thread_num True\<rparr>))"

text \<open>\<open>notify_one\<close>: \<open>w\<close> is the waiting worker the condition variable picks.\<close>

definition notify :: "nat option \<Rightarrow> 'a worker list \<Rightarrow> 'a worker list" where
  "notify w ws = (case w of None \<Rightarrow> ws | Some i \<Rightarrow> ws[i := Notified])"

definition may_notify :: "nat option \<Rightarrow> 'a worker list \<Rightarrow> bool" where
  "may_notify w ws \<longleftrightarrow>
     (case w of None \<Rightarrow> Waiting \<notin> set ws | Some i \<Rightarrow> i < length ws \<and> ws ! i = Waiting)"

definition AddTask :: "nat option \<Rightarrow> 'a \<Rightarrow> 'a ThreadPool \<Rightarrow> bool \<times> 'a ThreadPool" where
  "AddTask w job p =
     (let (ok, q') = Enqueue job (tasks p)
      in (ok, p\<lparr>tasks := q', workers := (if ok then notify w (workers p) else workers p)\<rparr>))"

definition Stop :: "'a ThreadPool \<Rightarrow> 'a ThreadPool" where
  "Stop p = p\<lparr>m_stop := True\<rparr>"

text \<open>
  \<open>Join\<close> joins the threads in turn: \<open>None\<close> while one of them has not returned; \<open>std::thread::join\<close>
  throws on a thread that was joined before, and nothing here catches it.
\<close>

fun Join_threads :: "(bool \<times> 'a worker) list \<Rightarrow> bool list result option" where
  "Join_threads [] = Some (Inr [])"
| "Join_threads ((j, w) # ts) =
     (if \<not> j then Some (Inl Terminate)
      else if w \<noteq> Finished then None
      else map_option (\<lambda>r. bindE r (\<lambda>js. Inr (False # js))) (Join_threads ts))"

definition Join :: "'a ThreadPool \<Rightarrow> 'a ThreadPool result option" where
  "Join p = map_option (\<lambda>r. bindE r (\<lambda>js. Inr (p\<lparr>joinable := js\<rparr>))) (Join_threads (zip (joinable p) (workers p)))"

definition notify_all :: "'a worker list \<Rightarrow> 'a worker list" where
  "notify_all ws = map (\<lambda>w. if w = Waiting then Notified else w) ws"

text \<open>
  The destructor: its body, then the members from the last to the first, so the queue and then the
  threads; the destructor of a \<open>std::thread\<close> that is still joinable calls \<open>std::terminate\<close>.
\<close>

definition ThreadPool_destroy :: "'a ThreadPool \<Rightarrow> 'a ThreadPool result" where
  "ThreadPool_destroy p =
     (let p = Stop p;
          p = p\<lparr>tasks := SafeQueue_destroy (tasks p), workers := notify_all (workers p)\<rparr>
      in if True \<in> set (joinable p) then Inl Terminate else Inr p)"

text \<open>One step of \<open>Run\<close> for a worker that holds or can take the mutex.\<close>

fun Run_worker :: "'a worker \<Rightarrow> 'a ThreadPool \<Rightarrow> 'a worker \<times> 'a ThreadPool" where
  "Run_worker Ready p =
     (if m_stop p then (Finished, p)
      else case Dequeue_enter True (tasks p) of
        None \<Rightarrow> (Waiting, p)
      | Some (None, q') \<Rightarrow> (Ready, p\<lparr>tasks := q'\<rparr>)
      | Some (Some t, q') \<Rightarrow> (Running t, p\<lparr>tasks := q'\<rparr>))"
| "Run_worker Notified p =
     (case Dequeue_resume (tasks p) of
        (None, q') \<Rightarrow> (Ready, p\<lparr>tasks := q'\<rparr>)
      | (Some t, q') \<Rightarrow> (Running t, p\<lparr>tasks := q'\<rparr>))"
| "Run_worker (Running t) p = (Ready, p)"
| "Run_worker Waiting p = (Waiting, p)"
| "Run_worker Finished p = (Finished, p)"

definition worker_step :: "nat \<Rightarrow> 'a ThreadPool \<Rightarrow> 'a ThreadPool" where
  "worker_step i p = (case Run_worker (workers p ! i) p of (w, p') \<Rightarrow> p'\<lparr>workers := (workers p')[i := w]\<rparr>)"

text \<open>
  The interleaving. Two history lists go along: the tasks accepted so far and the tasks whose
  execution was started so far.
\<close>

inductive pool_step :: "'a ThreadPool \<times> 'a list \<times> 'a list \<Rightarrow> 'a ThreadPool \<times> 'a list \<times> 'a list \<Rightarrow> bool" where
  add: "may_notify w (workers p) \<Longrightarrow> AddTask w job p = (ok, p') \<Longrightarrow>
    pool_step (p, acc, st) (p', if ok then acc @ [job] else acc, st)"
| run: "i < length (workers p) \<Longrightarrow> p' = worker_step i p \<Longrightarrow>
    st' = (case workers p' ! i of Running t \<Rightarrow> if workers p ! i = Running t then st else st @ [t] | _ \<Rightarrow> st) \<Longrightarrow>
    pool_step (p, acc, st) (p', acc, st')"
| spurious: "i < length (workers p) \<Longrightarrow> workers p ! i = Waiting \<Longrightarrow>
    pool_step (p, acc, st) (p\<lparr>workers := (workers p)[i := Notified]\<rparr>, acc, st)"
| stop: "pool_step (p, acc, st) (Stop p, acc, st)"

inductive pool_reachable :: "nat \<Rightarrow> nat \<Rightarrow> 'a ThreadPool \<times> 'a list \<times> 'a list \<Rightarrow> bool" for n cap where
  init: "ThreadPool_init n cap = Inr p \<Longrightarrow> pool_reachable n cap (p, [], [])"
| step: "pool_reachable n cap s \<Longrightarrow> pool_step s s' \<Longrightarrow> pool_reachable n cap s'"

inductive_cases pool_stepE: "pool_step (p, acc, st) s'"

section \<open>Lemmas\<close>

lemma AddTask_cases:
  assumes "AddTask w job p = (ok, p')"
  obtains (accepted) "ok" "length (sq_q (tasks p)) < sq_maxsize (tasks p)"
      "p' = p\<lparr>tasks := (tasks p)\<lparr>sq_q := sq_q (tasks p) @ [job]\<rparr>, workers := notify w (workers p)\<rparr>"
  | (rejected) "\<not> ok" "sq_maxsize (tasks p) \<le> length (sq_q (tasks p))" "p' = p"
  using assms by (auto simp: AddTask_def Enqueue_def split: if_splits)

text \<open>What one step of a worker does to its own state, the queue and the flag.\<close>

lemma worker_step_cases:
  assumes "i < length (workers p)"
  obtains (stopping) "workers p ! i = Ready" "m_stop p" "worker_step i p = p\<lparr>workers := (workers p)[i := Finished]\<rparr>"
  | (wait) "workers p ! i = Ready" "sq_q (tasks p) = []" "\<not> m_stop p"
      "worker_step i p = p\<lparr>workers := (workers p)[i := Waiting]\<rparr>"
  | (take) t ts where "workers p ! i = Ready \<and> \<not> m_stop p \<or> workers p ! i = Notified"
      "sq_q (tasks p) = t # ts"
      "worker_step i p = p\<lparr>tasks := (tasks p)\<lparr>sq_q := ts\<rparr>, workers := (workers p)[i := Running t]\<rparr>"
  | (again) "workers p ! i = Notified" "sq_q (tasks p) = []"
      "worker_step i p = p\<lparr>workers := (workers p)[i := Ready]\<rparr>"
  | (ended) t where "workers p ! i = Running t" "worker_step i p = p\<lparr>workers := (workers p)[i := Ready]\<rparr>"
  | (idle) "workers p ! i = Waiting \<or> workers p ! i = Finished" "worker_step i p = p"
proof (cases "workers p ! i")
  case Ready
  then show thesis
    using that(1-3)
    by (cases "m_stop p"; cases "sq_q (tasks p)")
      (auto simp: worker_step_def Dequeue_enter_def Dequeue_resume_def)
next
  case Notified
  then show thesis
    using that(3,4)
    by (cases "sq_q (tasks p)") (auto simp: worker_step_def Dequeue_resume_def)
next
  case (Running t) then show thesis using that(5) by (auto simp: worker_step_def)
next
  case Waiting
  then have "(workers p)[i := Waiting] = workers p" by (metis list_update_id)
  with Waiting show thesis using that(6) by (auto simp: worker_step_def)
next
  case Finished
  then have "(workers p)[i := Finished] = workers p" by (metis list_update_id)
  with Finished show thesis using that(6) by (auto simp: worker_step_def)
qed

text \<open>The invariant: FIFO history, the bound, and no lost wake-up.\<close>

definition pool_inv :: "nat \<Rightarrow> nat \<Rightarrow> 'a ThreadPool \<times> 'a list \<times> 'a list \<Rightarrow> bool" where
  "pool_inv n cap = (\<lambda>(p, acc, st).
     acc = st @ sq_q (tasks p) \<and> length (sq_q (tasks p)) \<le> cap \<and> sq_maxsize (tasks p) = cap \<and>
     length (workers p) = n \<and> 0 < n \<and>
     (\<not> m_stop p \<longrightarrow> Finished \<notin> set (workers p)) \<and>
     (\<not> m_stop p \<and> sq_q (tasks p) \<noteq> [] \<longrightarrow> (\<exists>w \<in> set (workers p). w \<noteq> Waiting)))"

lemma pool_inv_init: "ThreadPool_init n cap = Inr p \<Longrightarrow> pool_inv n cap (p, [], [])"
  by (auto simp: ThreadPool_init_def SafeQueue_init_def pool_inv_def bindE_eq_Inr assertE_eq_Inr)

lemma in_set_updateD: "x \<in> set (xs[i := y]) \<Longrightarrow> x \<in> set xs \<or> x = y"
  using set_update_subset_insert by fastforce

lemma notify_awake:
  assumes "may_notify w ws" "ws \<noteq> []" "Finished \<notin> set ws"
  shows "\<exists>x \<in> set (notify w ws). x \<noteq> Waiting" "Finished \<notin> set (notify w ws)"
    "length (notify w ws) = length ws"
proof -
  show "\<exists>x \<in> set (notify w ws). x \<noteq> Waiting"
  proof (cases w)
    case None
    with assms(1,2) show ?thesis by (cases ws) (auto simp: notify_def may_notify_def)
  next
    case (Some i)
    with assms(1) have "Notified \<in> set (notify w ws)"
      by (simp add: notify_def may_notify_def set_update_memI)
    then show ?thesis by blast
  qed
  show "Finished \<notin> set (notify w ws)" "length (notify w ws) = length ws"
    using assms(3) by (auto simp: notify_def split: option.split dest: in_set_updateD)
qed

lemma length_notify [simp]: "length (notify w ws) = length ws"
  by (simp add: notify_def split: option.split)

lemma pool_inv_add:
  assumes inv: "pool_inv n cap (p, acc, st)" and w: "may_notify w (workers p)"
    and add: "AddTask w job p = (ok, p')"
  shows "pool_inv n cap (p', if ok then acc @ [job] else acc, st)"
  using add
proof (cases rule: AddTask_cases)
  case accepted
  have "workers p \<noteq> []" using inv by (auto simp: pool_inv_def)
  with notify_awake [OF w] inv accepted show ?thesis by (auto simp: pool_inv_def)
next
  case rejected
  with inv show ?thesis by simp
qed

lemma pool_inv_run:
  assumes inv: "pool_inv n cap (p, acc, st)" and i: "i < length (workers p)"
    and st': "st' = (case workers (worker_step i p) ! i of
      Running t \<Rightarrow> if workers p ! i = Running t then st else st @ [t] | _ \<Rightarrow> st)"
  shows "pool_inv n cap (worker_step i p, acc, st')"
proof -
  have mem: "x \<in> set ((workers p)[i := x])" for x using i by (simp add: set_update_memI)
  show ?thesis
    using i
  proof (cases rule: worker_step_cases)
    case (take t ts)
    with inv i st' mem [of "Running t"] show ?thesis
      by (auto simp: pool_inv_def dest: in_set_updateD)
  next
    case (ended t)
    with inv i st' mem [of Ready] show ?thesis
      by (auto simp: pool_inv_def dest: in_set_updateD)
  next
    case idle
    with inv i st' show ?thesis by (auto simp: pool_inv_def)
  qed (use inv i st' in \<open>auto simp: pool_inv_def dest: in_set_updateD\<close>)
qed

lemma pool_step_inv: "pool_step s s' \<Longrightarrow> pool_inv n cap s \<Longrightarrow> pool_inv n cap s'"
proof (induction rule: pool_step.induct)
  case (add w p job ok p' acc st)
  from add.prems add.hyps show ?case by (rule pool_inv_add)
next
  case (run i p p' st' st acc)
  then show ?case using pool_inv_run by blast
next
  case (spurious i p acc st)
  then have "Notified \<in> set ((workers p)[i := Notified])" by (simp add: set_update_memI)
  with spurious show ?case by (auto simp: pool_inv_def dest: in_set_updateD)
next
  case (stop p acc st)
  then show ?case by (simp add: pool_inv_def Stop_def)
qed

lemma pool_reachable_inv: "pool_reachable n cap s \<Longrightarrow> pool_inv n cap s"
  by (induction rule: pool_reachable.induct) (auto intro: pool_inv_init pool_step_inv)

text \<open>Nothing but \<open>Join\<close> and the destructor changes which threads can be joined.\<close>

lemma joinable_worker_step [simp]: "joinable (worker_step i p) = joinable p"
  by (cases "workers p ! i")
    (auto simp: worker_step_def Dequeue_enter_def Dequeue_resume_def split: list.splits)

lemma joinable_AddTask: "AddTask w job p = (ok, p') \<Longrightarrow> joinable p' = joinable p"
  by (auto simp: AddTask_def split: prod.splits)

lemma pool_joinable: "pool_reachable n cap s \<Longrightarrow> joinable (fst s) = replicate n True"
proof (induction rule: pool_reachable.induct)
  case (init p)
  then show ?case by (auto simp: ThreadPool_init_def bindE_eq_Inr)
next
  case (step s s')
  from step(2,3) show ?case by cases (auto simp: joinable_AddTask Stop_def)
qed

text \<open>A worker that sleeps in a stopped pool sleeps on.\<close>

definition turn :: "'a ThreadPool \<Rightarrow> 'a ThreadPool \<Rightarrow> bool" where
  "turn p p' \<longleftrightarrow> (\<exists>i < length (workers p). p' = worker_step i p)"

lemma turn_keeps_waiting:
  assumes "turn p p'"
  shows "length (workers p') = length (workers p) \<and> joinable p' = joinable p \<and>
    (\<forall>k < length (workers p). workers p ! k = Waiting \<longrightarrow> workers p' ! k = Waiting)"
proof -
  obtain i where i: "i < length (workers p)" "p' = worker_step i p" using assms by (auto simp: turn_def)
  from i(1) show ?thesis
    by (cases rule: worker_step_cases) (use i in \<open>auto simp: nth_list_update\<close>)
qed

lemma turns_keep_waiting:
  "turn\<^sup>*\<^sup>* p p' \<Longrightarrow> length (workers p') = length (workers p) \<and> joinable p' = joinable p \<and>
    (\<forall>k < length (workers p). workers p ! k = Waiting \<longrightarrow> workers p' ! k = Waiting)"
  by (induction rule: rtranclp_induct) (auto dest: turn_keeps_waiting)

lemma Join_blocks:
  "(True, w) \<in> set ts \<Longrightarrow> w \<noteq> Finished \<Longrightarrow> \<forall>x \<in> set ts. fst x \<Longrightarrow> Join_threads ts = None"
  by (induction ts rule: Join_threads.induct) auto

lemma Join_returns: "Join_threads (replicate m (True, Finished)) = Some (Inr (replicate m False))"
  by (induction m) auto

lemma Join_waits:
  assumes "joinable p = replicate (length (workers p)) True"
  shows "Join p = (if set (workers p) \<subseteq> {Finished} then Some (Inr (p\<lparr>joinable := replicate (length (workers p)) False\<rparr>)) else None)"
proof -
  have z: "zip (joinable p) (workers p) = map (Pair True) (workers p)"
    using assms by (simp add: zip_replicate1)
  show ?thesis
  proof (cases "set (workers p) \<subseteq> {Finished}")
    case True
    then have "map (Pair True) (workers p) = replicate (length (workers p)) (True, Finished)"
      by (intro replicate_eqI) auto
    with True show ?thesis by (simp add: Join_def z Join_returns)
  next
    case False
    then obtain w where "w \<in> set (workers p)" "w \<noteq> Finished" by auto
    then have "Join_threads (map (Pair True) (workers p)) = None" by (intro Join_blocks [of w]) auto
    with False show ?thesis by (auto simp: Join_def z)
  qed
qed

section \<open>Properties\<close>

text \<open>
  C36. In every interleaving of the workers, the callers of \<open>AddTask\<close>, spurious wake-ups and \<open>Stop\<close>,
  the accepted tasks are the started ones followed by the queued ones: each accepted task is
  started at most once, in the order of acceptance, and at most \<open>cap\<close> tasks wait.
\<close>

theorem pool_starts_in_order:
  assumes "pool_reachable n cap (p, accepted, started)"
  shows "accepted = started @ sq_q (tasks p) \<and> length (sq_q (tasks p)) \<le> cap"
  using pool_reachable_inv [OF assms] by (simp add: pool_inv_def)

text \<open>
  No wake-up is lost: as long as the pool is not stopped and a task waits in the queue, some
  worker is not asleep in the condition variable (and none has left its loop).
\<close>

theorem pool_no_lost_wakeup:
  assumes "pool_reachable n cap (p, accepted, started)" "\<not> m_stop p" "sq_q (tasks p) \<noteq> []"
  shows "\<exists>w \<in> set (workers p). w \<noteq> Waiting \<and> w \<noteq> Finished"
  using pool_reachable_inv [OF assms(1)] assms(2,3) by (auto simp: pool_inv_def)


lemma pool_example:
  "pool_reachable 1 2 (\<lparr>tasks = \<lparr>sq_q = [7 :: int], sq_maxsize = 2, sq_stop = False\<rparr>, m_stop = False,
     workers = [Notified], joinable = [True]\<rparr>, [7], [])"
proof -
  have 0: "pool_reachable 1 2 (\<lparr>tasks = \<lparr>sq_q = [] :: int list, sq_maxsize = 2, sq_stop = False\<rparr>,
      m_stop = False, workers = [Ready], joinable = [True]\<rparr>, [], [])"
    by (rule pool_reachable.init) (simp add: ThreadPool_init_def SafeQueue_init_def)
  have 1: "pool_reachable 1 2 (\<lparr>tasks = \<lparr>sq_q = [] :: int list, sq_maxsize = 2, sq_stop = False\<rparr>,
      m_stop = False, workers = [Waiting], joinable = [True]\<rparr>, [], [])"
    by (rule pool_reachable.step [OF 0], rule pool_step.run [of 0])
      (simp_all add: worker_step_def Dequeue_enter_def)
  have "pool_step (\<lparr>tasks = \<lparr>sq_q = [] :: int list, sq_maxsize = 2, sq_stop = False\<rparr>,
      m_stop = False, workers = [Waiting], joinable = [True]\<rparr>, [], [])
    (\<lparr>tasks = \<lparr>sq_q = [7 :: int], sq_maxsize = 2, sq_stop = False\<rparr>, m_stop = False,
     workers = [Notified], joinable = [True]\<rparr>, if True then [] @ [7] else [], [])"
    by (rule pool_step.add [of "Some 0"])
      (simp_all add: may_notify_def AddTask_def Enqueue_def notify_def)
  from pool_reachable.step [OF 1 this] show ?thesis by simp
qed


theorem pool_starts_in_order_witness:
  "[7 :: int] = [] @ sq_q (tasks \<lparr>tasks = \<lparr>sq_q = [7 :: int], sq_maxsize = 2, sq_stop = False\<rparr>,
     m_stop = False, workers = [Notified], joinable = [True]\<rparr>) \<and>
   length (sq_q (tasks \<lparr>tasks = \<lparr>sq_q = [7 :: int], sq_maxsize = 2, sq_stop = False\<rparr>,
     m_stop = False, workers = [Notified], joinable = [True]\<rparr>)) \<le> 2"
  by (rule pool_starts_in_order [OF pool_example])

theorem pool_no_lost_wakeup_witness:
  "\<exists>w \<in> set (workers \<lparr>tasks = \<lparr>sq_q = [7 :: int], sq_maxsize = 2, sq_stop = False\<rparr>,
     m_stop = False, workers = [Notified], joinable = [True]\<rparr>). w \<noteq> Waiting \<and> w \<noteq> Finished"
  by (rule pool_no_lost_wakeup [OF pool_example]) simp_all

end
