(* ===== verification/Reactor.thy ===== *)
theory Reactor
  imports Poller ThreadPool
begin

text \<open>
  \<open>include/runtime/iomodel/Reactor.hh\<close>, \<open>source/runtime/iomodel/Reactor.cc\<close>: the loop that polls for
  events and hands their tasks to the thread pool.

  The state is the polled system \<open>sys\<close> (a poller with what its handlers work on), the pool, and
  \<open>pending\<close>, the tasks of the last \<open>Dispatch\<close> the inner loop has not handed over yet. One turn of
  \<open>Run\<close> is a \<open>Reactor_poll\<close> and then a \<open>Reactor_add\<close> per task; the workers interleave with them.
  The result of \<open>AddTask\<close> is ignored, as in the code.
\<close>

record 's reactor =
  sys :: 's
  pool :: "task ThreadPool"
  pending :: "task list"

text \<open>The constructor: four workers, a queue of 10000, edge-triggered polling.\<close>

definition Reactor_init :: "'s \<Rightarrow> 's reactor result" where
  "Reactor_init s = bindE (ThreadPool_init 4 10000) (\<lambda>p. Inr \<lparr>sys = s, pool = p, pending = []\<rparr>)"

definition Reactor_poll ::
  "(int \<Rightarrow> string option) \<Rightarrow> (int \<times> u32) list \<Rightarrow> 'a world_scheme reactor \<Rightarrow> 'a world_scheme reactor result" where
  "Reactor_poll so_error evs r =
     bindE (Dispatch so_error evs (sys r)) (\<lambda>(ts, s). Inr (r\<lparr>sys := s, pending := ts\<rparr>))"

definition Reactor_add :: "nat option \<Rightarrow> 's reactor \<Rightarrow> 's reactor" where
  "Reactor_add w r =
     (case pending r of [] \<Rightarrow> r
      | t # ts \<Rightarrow> r\<lparr>pending := ts, pool := snd (AddTask w t (pool r))\<rparr>)"

text \<open>
  The destructor: no body, then the members from the last to the first, the poller and the pool.
\<close>

definition Reactor_destroy :: "int \<Rightarrow> 'a world_scheme reactor \<Rightarrow> 'a world_scheme reactor result" where
  "Reactor_destroy Epollfd r =
     (let r = r\<lparr>sys := Poller_destroy Epollfd (sys r)\<rparr>
      in bindE (ThreadPool_destroy (pool r)) (\<lambda>p. Inr (r\<lparr>pool := p\<rparr>)))"

section \<open>Tasks in flight\<close>

fun running_of :: "'a worker \<Rightarrow> 'a list" where
  "running_of (Running t) = [t]"
| "running_of Ready = []"
| "running_of Waiting = []"
| "running_of Notified = []"
| "running_of Finished = []"

definition running :: "'a ThreadPool \<Rightarrow> 'a list" where
  "running p = concat (map running_of (workers p))"

text \<open>Dispatched and not finished: to be handed over, queued, or in a worker's hands.\<close>

definition in_flight :: "'s reactor \<Rightarrow> task list" where
  "in_flight r = pending r @ sq_q (tasks (pool r)) @ running (pool r)"

lemma running_update:
  assumes "i < length (workers p)"
  shows "mset (running (p\<lparr>workers := (workers p)[i := w]\<rparr>)) + mset (running_of (workers p ! i)) =
    mset (running p) + mset (running_of w)"
  using mset_concat_update [OF assms, of running_of w] by (simp add: running_def)

lemma running_idle:
  "i < length (workers p) \<Longrightarrow> running_of (workers p ! i) = [] \<Longrightarrow> running_of w = [] \<Longrightarrow>
   mset (running (p\<lparr>workers := (workers p)[i := w]\<rparr>)) = mset (running p)"
  using running_update [of i p w] by simp

lemma running_mem: "i < length (workers p) \<Longrightarrow> workers p ! i = Running t \<Longrightarrow> t \<in> set (running p)"
  using nth_mem [of i "workers p"] by (auto simp: running_def intro!: bexI [of _ "Running t"])

lemma running_cong: "workers p' = workers p \<Longrightarrow> running p' = running p"
  by (simp add: running_def)

lemma running_notify:
  assumes "may_notify w (workers p)"
  shows "mset (running (p\<lparr>workers := notify w (workers p)\<rparr>)) = mset (running p)"
proof (cases w)
  case (Some i)
  with assms show ?thesis
    by (simp add: notify_def may_notify_def running_idle)
qed (simp add: notify_def)

text \<open>The bookkeeping of the tasks in flight along every kind of step.\<close>

lemma in_flight_add:
  assumes "may_notify w (workers (pool r))" "pending r = t # ts"
  shows "if length (sq_q (tasks (pool r))) < sq_maxsize (tasks (pool r))
    then mset (in_flight (Reactor_add w r)) = mset (in_flight r)
    else mset (in_flight r) = add_mset t (mset (in_flight (Reactor_add w r)))"
proof -
  obtain ok p' where a: "AddTask w t (pool r) = (ok, p')" by fastforce
  then show ?thesis
  proof (cases rule: AddTask_cases)
    case accepted
    moreover have "running p' = running (pool r\<lparr>workers := notify w (workers (pool r))\<rparr>)"
      using accepted by (auto intro: running_cong)
    ultimately show ?thesis
      using assms a running_notify [OF assms(1)]
      by (simp add: in_flight_def Reactor_add_def)
  next
    case rejected
    with assms a show ?thesis by (simp add: in_flight_def Reactor_add_def)
  qed
qed

lemma in_flight_work:
  assumes "i < length (workers (pool r))" "running_of (workers (pool r) ! i) = []"
  shows "mset (in_flight (r\<lparr>pool := worker_step i (pool r)\<rparr>)) = mset (in_flight r)"
  using assms(1)
proof (cases rule: worker_step_cases)
  case (take t ts)
  have "running (pool r\<lparr>tasks := (tasks (pool r))\<lparr>sq_q := ts\<rparr>, workers := (workers (pool r))[i := Running t]\<rparr>) =
      running (pool r\<lparr>workers := (workers (pool r))[i := Running t]\<rparr>)"
    by (rule running_cong) simp
  with take assms running_update [OF assms(1), of "Running t"] show ?thesis
    by (simp add: in_flight_def)
next
  case (ended t)
  with assms show ?thesis by simp
qed (use assms in \<open>simp_all add: in_flight_def running_idle\<close>)

lemma in_flight_wake:
  assumes "i < length (workers (pool r))" "workers (pool r) ! i = Waiting"
  shows "mset (in_flight (r\<lparr>pool := (pool r)\<lparr>workers := (workers (pool r))[i := Notified]\<rparr>\<rparr>)) = mset (in_flight r)"
  using assms by (simp add: in_flight_def running_idle)

lemma in_flight_finish:
  assumes "i < length (workers (pool r))" "workers (pool r) ! i = Running t"
  shows "mset (in_flight r) = add_mset t (mset (in_flight (r\<lparr>sys := s, pool := worker_step i (pool r)\<rparr>)))"
proof -
  have "worker_step i (pool r) = pool r\<lparr>workers := (workers (pool r))[i := Ready]\<rparr>"
    using assms by (auto simp: worker_step_def)
  with running_update [OF assms(1), of Ready] assms show ?thesis by (simp add: in_flight_def)
qed

end
