(* ===== verification/Cformat.thy ===== *)
theory Cformat
  imports Effects
begin

text \<open>
  The part of \<open>printf\<close> the program uses: \<open>%s\<close>, \<open>%d\<close> and \<open>%%\<close>, and \<open>snprintf\<close>'s truncation. A
  conversion without a matching argument, or one outside this set, has no defined behaviour here
  and is the fault \<open>OutOfBounds\<close> (\<open>printf\<close> would read arguments that were not passed). Excess
  arguments are ignored, as the C standard says.
\<close>

section \<open>Decimal numbers\<close>

fun dec_nat :: "nat \<Rightarrow> string" where
  "dec_nat n = (if n < 10 then [char_of (48 + n)] else dec_nat (n div 10) @ [char_of (48 + n mod 10)])"

declare dec_nat.simps [simp del]

definition dec :: "int \<Rightarrow> string" where
  "dec i = (if i < 0 then CHR ''-'' # dec_nat (nat (- i)) else dec_nat (nat i))"

definition is_digit :: "char \<Rightarrow> bool" where
  "is_digit c \<longleftrightarrow> 48 \<le> (of_char c :: nat) \<and> (of_char c :: nat) \<le> 57"

definition digit_val :: "char \<Rightarrow> nat" where
  "digit_val c = of_char c - 48"

section \<open>Formatting\<close>

fun c_printf :: "string \<Rightarrow> log_arg list \<Rightarrow> string result" where
  "c_printf [] args = Inr []"
| "c_printf (c # f) args =
     (if c \<noteq> CHR ''%'' then bindE (c_printf f args) (\<lambda>r. Inr (c # r))
      else case f of
        [] \<Rightarrow> Inl OutOfBounds
      | k # f' \<Rightarrow>
          if k = CHR ''%'' then bindE (c_printf f' args) (\<lambda>r. Inr (CHR ''%'' # r))
          else case args of
            [] \<Rightarrow> Inl OutOfBounds
          | LStr s # args' \<Rightarrow>
              if k = CHR ''s'' then bindE (c_printf f' args') (\<lambda>r. Inr (until_nul s @ r)) else Inl OutOfBounds
          | LInt i # args' \<Rightarrow>
              if k = CHR ''d'' then bindE (c_printf f' args') (\<lambda>r. Inr (dec i @ r)) else Inl OutOfBounds)"

text \<open>\<open>snprintf(buffer, n, ...)\<close> and then the buffer as a C string.\<close>

definition c_snprintf :: "nat \<Rightarrow> string \<Rightarrow> log_arg list \<Rightarrow> string result" where
  "c_snprintf n f args = bindE (c_printf f args) (\<lambda>r. Inr (take (n - 1) r))"

section \<open>Lemmas\<close>

lemma c_printf_plain: "CHR ''%'' \<notin> set f \<Longrightarrow> c_printf f args = Inr f"
  by (induction f args rule: c_printf.induct) auto

lemma c_printf_append_plain:
  "CHR ''%'' \<notin> set f \<Longrightarrow> c_printf (f @ g) args = bindE (c_printf g args) (\<lambda>r. Inr (f @ r))"
  by (induction f) (auto simp: bindE_assoc, (cases "c_printf g args"; simp)+)

lemma digit_char: "n < 10 \<Longrightarrow> is_digit (char_of (48 + n)) \<and> digit_val (char_of (48 + n)) = n" for n :: nat
  by (auto simp: is_digit_def digit_val_def)

lemma dec_nat_digits: "list_all is_digit (dec_nat n) \<and> dec_nat n \<noteq> []"
proof (induction n rule: dec_nat.induct)
  case (1 n)
  show ?case
    using 1 digit_char [of n] digit_char [of "n mod 10"]
    by (subst (1 2) dec_nat.simps) auto
qed

definition digits_val :: "nat \<Rightarrow> string \<Rightarrow> nat" where
  "digits_val acc s = foldl (\<lambda>a c. 10 * a + digit_val c) acc s"

lemma digits_val_dec_nat: "digits_val 0 (dec_nat n) = n"
proof (induction n rule: dec_nat.induct)
  case (1 n)
  show ?case
    using 1 digit_char [of n] digit_char [of "n mod 10"]
    by (subst dec_nat.simps) (auto simp: digits_val_def)
qed

lemma dec_plain: "c \<in> set (dec i) \<Longrightarrow> is_digit c \<or> c = CHR ''-''"
  using dec_nat_digits by (auto simp: dec_def list_all_iff split: if_splits)

lemma no_nul_dec [simp]: "no_nul (dec i)"
  using dec_plain [of NUL i] by (auto simp: is_digit_def)

lemma length_dec_nat: "n < 10 ^ k \<Longrightarrow> 0 < k \<Longrightarrow> length (dec_nat n) \<le> k"
proof (induction n arbitrary: k rule: dec_nat.induct)
  case (1 n)
  show ?case
  proof (cases "n < 10")
    case True
    with 1 show ?thesis by (subst dec_nat.simps) simp
  next
    case False
    then obtain j where j: "k = Suc j" "0 < j" using 1(2,3) by (cases k; cases "k - 1") auto
    have "n div 10 < 10 ^ j" using 1(2) j by auto
    with 1(1) [OF False, of j] j False show ?thesis by (subst dec_nat.simps) simp
  qed
qed

end
