(* ===== verification/NameService.thy ===== *)
theory NameService
  imports Cformat Serializer
begin

text \<open>
  \<open>ServiceReporter\<close> (\<open>source/server/ServiceReporter.cc\<close>) and \<open>ServiceDiscoverer\<close>
  (\<open>source/client/ServiceDiscoverer.cc\<close>): registration, heartbeat and discovery over HTTP.

  libcurl and jsoncpp are not part of the repository. What \<open>curl_easy_perform\<close> answers is the
  record \<open>curl_answer\<close>; the JSON writer, parser and accessors are the record \<open>json_lib\<close> over an
  uninterpreted type of JSON values. The requests made go to the trace, where \<open>HttpInit\<close> and
  \<open>HttpCleanup\<close> are the creation and the release of a curl handle.
\<close>

section \<open>The libraries\<close>

record curl_answer =
  cu_init :: bool
  cu_perform :: bool
  cu_status :: int
  cu_chunks :: "string list"

text \<open>
  The callback that gathers the body: libcurl calls it for every chunk, with \<open>size\<close> 1 and \<open>nmemb\<close>
  the length of the chunk, and it appends the chunk to the string.
\<close>

definition curl_cb :: "string \<Rightarrow> nat \<Rightarrow> nat \<Rightarrow> string \<Rightarrow> nat \<times> string" where
  "curl_cb contents sz nmemb output =
     (let total_size = sz * nmemb in (total_size, output @ take total_size contents))"

definition cu_body :: "curl_answer \<Rightarrow> string" where
  "cu_body c = fold (\<lambda>chunk output. snd (curl_cb chunk 1 (length chunk) output)) (cu_chunks c) []"

lemma cu_body_concat: "cu_body c = concat (cu_chunks c)"
proof -
  have "fold (\<lambda>chunk output. snd (curl_cb chunk 1 (length chunk) output)) l out = out @ concat l" for l out
    by (induction l arbitrary: out) (simp_all add: curl_cb_def)
  then show ?thesis by (simp add: cu_body_def)
qed

datatype 'f jfield = JStr string | JInt int | JFloat 'f

text \<open>
  The writer takes the fields of an object; \<open>parse\<close> gives the root value; \<open>elements\<close> is what the
  iteration over an array yields; the accessors may throw.
\<close>

record ('f, 'j) json_lib =
  writeString :: "(string \<times> 'f jfield) list \<Rightarrow> string"
  parse_json :: "string \<Rightarrow> 'j option"
  isArray :: "'j \<Rightarrow> bool"
  elements :: "'j \<Rightarrow> 'j list"
  asStringAt :: "'j \<Rightarrow> string \<Rightarrow> string option"
  asIntAt :: "'j \<Rightarrow> string \<Rightarrow> int option"

record svc_options =
  svr_ip :: string
  svr_port :: int

text \<open>A reporter and a discoverer are the options they are made with.\<close>

definition GetServiceReporter :: "svc_options \<Rightarrow> svc_options" where
  [simp]: "GetServiceReporter options = options"

definition GetServiceDiscoverer :: "svc_options \<Rightarrow> svc_options" where
  [simp]: "GetServiceDiscoverer options = options"

section \<open>ServiceReporter\<close>

definition register_url :: "svc_options \<Rightarrow> string result" where
  "register_url opt = c_snprintf 100 ''http://%s:%d/register'' [LStr (svr_ip opt), LInt (svr_port opt)]"

definition heartbeat_url :: "svc_options \<Rightarrow> string result" where
  "heartbeat_url opt = c_snprintf 100 ''http://%s:%d/heartbeat'' [LStr (svr_ip opt), LInt (svr_port opt)]"

definition RegisterMyself ::
  "('f, 'j) json_lib \<Rightarrow> curl_answer \<Rightarrow> svc_options \<Rightarrow> string \<Rightarrow> int \<Rightarrow> string \<Rightarrow>
   'a world_scheme \<Rightarrow> (bool \<times> 'a world_scheme) result" where
  "RegisterMyself J c opt ip port service_name w =
     (if \<not> cu_init c then Inr (False, w)
      else
        let w = emit HttpInit w;
            json_str = writeString J [(''ip'', JStr ip), (''port'', JInt port), (''service_name'', JStr service_name)]
        in bindE (register_url opt) (\<lambda>url.
          let w = emit (HttpPost url json_str) w in
          if \<not> cu_perform c then Inr (False, w)
          else if cu_status c \<noteq> 200 then Inr (False, w)
          else Inr (True, emit HttpCleanup w)))"

text \<open>\<open>cpu\<close> and \<open>mem\<close> are what \<open>get_cpu_usage\<close> and \<open>get_memory_usage\<close> return.\<close>

definition SendHeartbeat ::
  "('f, 'j) json_lib \<Rightarrow> curl_answer \<Rightarrow> 'f \<Rightarrow> 'f \<Rightarrow> svc_options \<Rightarrow> string \<Rightarrow> int \<Rightarrow>
   'a world_scheme \<Rightarrow> (bool \<times> 'a world_scheme) result" where
  "SendHeartbeat J c cpu mem opt ip port w =
     (if \<not> cu_init c then Inr (False, w)
      else
        let w = emit HttpInit w;
            json_str = writeString J [(''ip'', JStr ip), (''port'', JInt port), (''cpu_usage'', JFloat cpu),
              (''memory_usage'', JFloat mem)]
        in bindE (heartbeat_url opt) (\<lambda>url.
          let w = emit (HttpPost url json_str) w in
          if \<not> cu_perform c then Inr (False, emit HttpCleanup w)
          else if cu_status c \<noteq> 200 then Inr (False, emit HttpCleanup w)
          else Inr (True, emit HttpCleanup w)))"

section \<open>ServiceDiscoverer\<close>

record DiscoveredResult =
  d_ip :: string
  d_port :: int

definition discover_url :: "svc_options \<Rightarrow> string \<Rightarrow> string result" where
  "discover_url opt callee =
     c_snprintf 200 ''http://%s:%d/discover?callee=%s'' [LStr (svr_ip opt), LInt (svr_port opt), LStr callee]"

text \<open>The loop over the array; \<open>None\<close> when an accessor throws.\<close>

fun read_results :: "('f, 'j) json_lib \<Rightarrow> 'j list \<Rightarrow> DiscoveredResult list option" where
  "read_results J [] = Some []"
| "read_results J (e # es) =
     (case asStringAt J e ''ip'' of None \<Rightarrow> None
      | Some ip \<Rightarrow> case asIntAt J e ''port'' of None \<Rightarrow> None
      | Some port \<Rightarrow> case read_results J es of None \<Rightarrow> None
      | Some rs \<Rightarrow> Some (\<lparr>d_ip = ip, d_port = port\<rparr> # rs))"

text \<open>An uncaught exception of jsoncpp is \<open>None\<close> in the first component.\<close>

definition RequestServiceList ::
  "('f, 'j) json_lib \<Rightarrow> curl_answer \<Rightarrow> svc_options \<Rightarrow> string \<Rightarrow>
   'a world_scheme \<Rightarrow> (DiscoveredResult list option \<times> 'a world_scheme) result" where
  "RequestServiceList J c opt callee w =
     (if \<not> cu_init c then Inr (Some [], w)
      else
        let w = emit HttpInit w in
        bindE (discover_url opt callee) (\<lambda>url.
          let w = emit (HttpGet url) w in
          if \<not> cu_perform c then Inr (Some [], w)
          else if cu_status c \<noteq> 200 then Inr (Some [], w)
          else case parse_json J (cu_body c) of
            None \<Rightarrow> Inr (Some [], w)
          | Some root \<Rightarrow>
              if \<not> isArray J root then Inr (Some [], w)
              else case read_results J (elements J root) of
                None \<Rightarrow> Inr (None, w)
              | Some results \<Rightarrow> Inr (Some results, emit HttpCleanup w)))"

section \<open>Lemmas\<close>

lemma c_printf_url:
  "c_printf ''http://%s:%d/register'' [LStr a, LInt p] = Inr (''http://'' @ until_nul a @ '':'' @ dec p @ ''/register'')"
  "c_printf ''http://%s:%d/heartbeat'' [LStr a, LInt p] = Inr (''http://'' @ until_nul a @ '':'' @ dec p @ ''/heartbeat'')"
  "c_printf ''http://%s:%d/discover?callee=%s'' [LStr a, LInt p, LStr c] =
     Inr (''http://'' @ until_nul a @ '':'' @ dec p @ ''/discover?callee='' @ until_nul c)"
  by simp_all

lemma urls:
  "register_url opt = Inr (take 99 (''http://'' @ until_nul (svr_ip opt) @ '':'' @ dec (svr_port opt) @ ''/register''))"
  "heartbeat_url opt = Inr (take 99 (''http://'' @ until_nul (svr_ip opt) @ '':'' @ dec (svr_port opt) @ ''/heartbeat''))"
  "discover_url opt callee = Inr (take 199 (''http://'' @ until_nul (svr_ip opt) @ '':'' @ dec (svr_port opt) @
     ''/discover?callee='' @ until_nul callee))"
  unfolding register_url_def heartbeat_url_def discover_url_def c_snprintf_def c_printf_url by simp_all

text \<open>The number of curl handles created and not released.\<close>

definition open_handles :: "io list \<Rightarrow> int" where
  "open_handles tr = int (count_list tr HttpInit) - int (count_list tr HttpCleanup)"

lemma open_handles_append [simp]: "open_handles (xs @ ys) = open_handles xs + open_handles ys"
  by (simp add: open_handles_def)

lemma open_handles_simps [simp]:
  "open_handles [] = 0" "open_handles (x # xs) =
     (if x = HttpInit then 1 else if x = HttpCleanup then -1 else 0) + open_handles xs"
  by (simp_all add: open_handles_def)

text \<open>Element \<open>e\<close> of the answer describes the address \<open>r\<close>.\<close>

definition element_is :: "('f, 'j) json_lib \<Rightarrow> 'j \<Rightarrow> DiscoveredResult \<Rightarrow> bool" where
  "element_is J e r \<longleftrightarrow> asStringAt J e ''ip'' = Some (d_ip r) \<and> asIntAt J e ''port'' = Some (d_port r)"

lemma read_results_ok:
  "read_results J es = Some rs \<longleftrightarrow> list_all2 (element_is J) es rs"
proof (induction es arbitrary: rs)
  case (Cons e es)
  have r: "(r = \<lparr>d_ip = i, d_port = p\<rparr>) = (i = d_ip r \<and> p = d_port r)" for r :: DiscoveredResult and i p
    by (cases r) auto
  show ?case
  proof (cases rs)
    case (Cons r rs')
    have "read_results J (e # es) = Some (r # rs') \<longleftrightarrow> element_is J e r \<and> read_results J es = Some rs'"
      by (auto simp: element_is_def r eq_commute [of _ r] split: option.splits)
    with Cons Cons.IH show ?thesis by simp
  qed (auto split: option.splits)
qed auto

section \<open>Properties\<close>

text \<open>
  Discovery returns the addresses in the answer, in its order, in however many chunks it came: one curl handle is created, the
  request goes to the configured name service for the given callee (up to the 199 characters of
  the buffer), and the handle is released exactly when the list was read to its end.
\<close>

theorem RequestServiceList_result:
  assumes "cu_init c" "cu_perform c" "cu_status c = 200" "parse_json J (cu_body c) = Some root"
    and "isArray J root"
  shows "\<exists>rs w'. RequestServiceList J c opt callee w = Inr (rs, w') \<and>
    HttpGet (take 199 (''http://'' @ until_nul (svr_ip opt) @ '':'' @ dec (svr_port opt) @
      ''/discover?callee='' @ until_nul callee)) \<in> set (drop (length (trace w)) (trace w')) \<and>
    (\<forall>l. rs = Some l \<longleftrightarrow> list_all2 (element_is J) (elements J root) l) \<and>
    open_handles (trace w') = open_handles (trace w) + (if rs = None then 1 else 0)"
  using assms
  by (cases "read_results J (elements J root)")
    (simp_all add: RequestServiceList_def urls Let_def read_results_ok [symmetric])

definition demo_json :: "(nat, string) json_lib" where
  "demo_json = \<lparr>writeString = (\<lambda>_. ''{}''), parse_json = Some, isArray = (\<lambda>_. True),
     elements = (\<lambda>j. [j]), asStringAt = (\<lambda>j k. Some j), asIntAt = (\<lambda>j k. Some 8888)\<rparr>"

theorem RequestServiceList_result_witness:
  "\<exists>rs w'. RequestServiceList demo_json \<lparr>cu_init = True, cu_perform = True, cu_status = 200, cu_chunks = [''10.0'', ''.0.1'']\<rparr>
      \<lparr>svr_ip = ''host'', svr_port = 80\<rparr> ''KV'' \<lparr>trace = []\<rparr> = Inr (rs, w') \<and>
    (\<forall>l. rs = Some l \<longleftrightarrow> list_all2 (element_is demo_json) [''10.0.0.1''] l)"
  using RequestServiceList_result [of "\<lparr>cu_init = True, cu_perform = True, cu_status = 200, cu_chunks = [''10.0'', ''.0.1'']\<rparr>"
      demo_json "''10.0.0.1''" "\<lparr>svr_ip = ''host'', svr_port = 80\<rparr>" "''KV''" "\<lparr>trace = []\<rparr>"]
  by (auto simp: demo_json_def cu_body_concat)

text \<open>
  Registration succeeds exactly when the handle was created, the transfer succeeded and the
  status was 200, and each failed transfer or bad status leaks the curl handle, while the
  heartbeat with the same answers returns the same verdict and never leaks.
\<close>

theorem registration_leaks_heartbeat_does_not:
  "\<exists>b w1 w2. RegisterMyself J c opt ip port name w = Inr (b, w1) \<and>
     SendHeartbeat J c cpu mem opt ip port w = Inr (b, w2) \<and>
     b = (cu_init c \<and> cu_perform c \<and> cu_status c = 200) \<and>
     open_handles (trace w1) = open_handles (trace w) + (if cu_init c \<and> \<not> b then 1 else 0) \<and>
     open_handles (trace w2) = open_handles (trace w)"
  by (auto simp: RegisterMyself_def SendHeartbeat_def Let_def urls)

end
