(* ===== verification/RpcServer.thy ===== *)
theory RpcServer
  imports ServerTransport Reactor NameService
begin

text \<open>
  \<open>include/server/RpcServer.hh\<close>, \<open>source/server/RpcServer.cc\<close>: the server object put together, the
  registration of services, the heartbeat and the start of the main loop.

  The log file is the theory \<open>Logger\<close>. \<open>_listenfd\<close> has no initial value in the code, so the
  constructor takes an arbitrary one.
\<close>

record server_options =
  namesvr_ip_addr :: string
  namesvr_port :: int
  ip_addr :: string
  port :: int
  log_path :: string

section \<open>Construction and destruction\<close>

definition reporter_of :: "server_options \<Rightarrow> svc_options" where
  "reporter_of opt = GetServiceReporter \<lparr>svr_ip = namesvr_ip_addr opt, svr_port = namesvr_port opt\<rparr>"

text \<open>The constructor of the transport leaves \<open>_listenfd\<close> uninitialised: it is the argument \<open>garbage\<close>.\<close>

definition ServerTransport_init :: "int \<Rightarrow> int \<Rightarrow> (poller \<times> 'h handler_array \<times> int) result" where
  [simp]: "ServerTransport_init Epollfd garbage =
     bindE (Poller_init Epollfd True) (\<lambda>p. Inr (p, EventHandlerManager_init, garbage))"

definition RpcServer_init :: "int \<Rightarrow> int \<Rightarrow> 'app \<Rightarrow> ('svc, 'app) server result" where
  "RpcServer_init Epollfd garbage a =
     bindE (ServerTransport_init Epollfd garbage) (\<lambda>(p, manager, fd). Inr
       \<lparr>trace = trace p, ExtraFlags = ExtraFlags p, return_values = (\<lambda>_. []), dictionary = (\<lambda>_. None),
        handler_list = manager, listenfd = fd, app = a\<rparr>)"

definition ServerTransport_destroy :: "('svc, 'app) server \<Rightarrow> ('svc, 'app) server result" where
  "ServerTransport_destroy s =
     (if listenfd s \<ge> 0 then ServerTransport_HandleCloseEvent (listenfd s) s else Inr s)"

section \<open>Operations\<close>

definition RegisterService ::
  "('f, 'j) json_lib \<Rightarrow> curl_answer \<Rightarrow> server_options \<Rightarrow> string \<Rightarrow> 'svc \<Rightarrow>
   ('svc, 'app) server \<Rightarrow> ('svc, 'app) server result" where
  "RegisterService J c opt ServiceName Service s =
     bindE (RegisterMyself J c (reporter_of opt) (ip_addr opt) (port opt) ServiceName
              (AddProxy ServiceName Service s)) (\<lambda>(_, s). Inr s)"

text \<open>One turn of the heartbeat thread; it ends the process when the heartbeat fails.\<close>

definition heartbeat ::
  "('f, 'j) json_lib \<Rightarrow> curl_answer \<Rightarrow> 'f \<Rightarrow> 'f \<Rightarrow> server_options \<Rightarrow>
   ('svc, 'app) server \<Rightarrow> ('svc, 'app) server result" where
  "heartbeat J c cpu mem opt s =
     bindE (SendHeartbeat J c cpu mem (reporter_of opt) (ip_addr opt) (port opt) s) (\<lambda>(success, s).
       if \<not> success then Inl (ProcessExit 1) else Inr s)"

text \<open>\<open>Main\<close> up to the loop of the reactor.\<close>

definition Main_start ::
  "listen_env \<Rightarrow> server_options \<Rightarrow> ('svc, 'app) server \<Rightarrow> ('svc, 'app) server reactor result" where
  "Main_start e opt s = bindE (ServerTransport_Listen e (ip_addr opt) (port opt) s) Reactor_init"

text \<open>A whole start: construct, register the services in turn, go to the main loop.\<close>

fun register_all ::
  "('f, 'j) json_lib \<Rightarrow> server_options \<Rightarrow> (string \<times> 'svc \<times> curl_answer) list \<Rightarrow>
   ('svc, 'app) server \<Rightarrow> ('svc, 'app) server result" where
  "register_all J opt [] s = Inr s"
| "register_all J opt ((name, svc, c) # l) s =
     bindE (RegisterService J c opt name svc s) (register_all J opt l)"

definition server_start ::
  "('f, 'j) json_lib \<Rightarrow> listen_env \<Rightarrow> server_options \<Rightarrow> (string \<times> 'svc \<times> curl_answer) list \<Rightarrow> int \<Rightarrow> int \<Rightarrow> 'app \<Rightarrow>
   ('svc, 'app) server reactor result" where
  "server_start J e opt svcs Epollfd garbage a =
     bindE (RpcServer_init Epollfd garbage a) (\<lambda>s. bindE (register_all J opt svcs s) (Main_start e opt))"

section \<open>Lemmas\<close>

text \<open>What registration does not touch.\<close>

definition same_io :: "('svc, 'app) server \<Rightarrow> ('svc, 'app) server \<Rightarrow> bool" where
  "same_io s s' \<longleftrightarrow> interest (trace s') = interest (trace s) \<and> ExtraFlags s' = ExtraFlags s \<and>
     return_values s' = return_values s \<and> handler_list s' = handler_list s \<and> listenfd s' = listenfd s \<and>
     app s' = app s"

lemma same_io_trans: "same_io a b \<Longrightarrow> same_io b c \<Longrightarrow> same_io a c"
  by (simp add: same_io_def)

lemma RegisterMyself_same:
  fixes s :: "('svc, 'app) server"
  assumes "RegisterMyself J c opt ip p name s = Inr (b, s')"
  shows "same_io s s' \<and> dictionary s' = dictionary s"
  using assms by (auto simp: RegisterMyself_def same_io_def Let_def urls split: if_splits)

lemma AddProxy_same: "same_io s (AddProxy name svc s)"
  by (simp add: AddProxy_def same_io_def)

lemma RegisterService_same:
  assumes "RegisterService J c opt name svc s = Inr s'"
  shows "same_io s s' \<and> dictionary s' =
    (if dictionary s name = None then (dictionary s)(name := Some svc) else dictionary s)"
proof -
  obtain b where "RegisterMyself J c (reporter_of opt) (ip_addr opt) (port opt) name (AddProxy name svc s) = Inr (b, s')"
    using assms by (auto simp: RegisterService_def bindE_eq_Inr)
  from RegisterMyself_same [OF this] AddProxy_same [of s name svc] show ?thesis
    by (auto intro: same_io_trans simp: AddProxy_def)
qed

lemma register_all_ok: "\<exists>s'. register_all J opt l s = Inr s'"
proof (induction l arbitrary: s)
  case (Cons x l)
  obtain name svc c where x: "x = (name, svc, c)" by (cases x)
  have "\<exists>s1. RegisterService J c opt name svc s = Inr s1"
    by (auto simp: RegisterService_def RegisterMyself_def Let_def urls)
  with Cons.IH show ?case by (auto simp: x)
qed simp

text \<open>The first service of each name wins.\<close>

lemma register_all_same:
  "register_all J opt l s = Inr s' \<Longrightarrow>
   same_io s s' \<and> (\<forall>name. dictionary s' name =
     (case dictionary s name of Some svc \<Rightarrow> Some svc
      | None \<Rightarrow> map_of (map (\<lambda>(n, svc, c). (n, svc)) l) name))"
proof (induction l arbitrary: s)
  case Nil
  then show ?case by (auto simp: same_io_def split: option.split)
next
  case (Cons x l)
  obtain name svc c where x: "x = (name, svc, c)" by (cases x)
  with Cons.prems obtain s1 where
    s1: "RegisterService J c opt name svc s = Inr s1" "register_all J opt l s1 = Inr s'"
    by (auto simp: bindE_eq_Inr)
  show ?case
    using RegisterService_same [OF s1(1)] Cons.IH [OF s1(2)] same_io_trans
    by (auto simp: x split: option.splits)
qed

lemma Listen_ok:
  fixes s :: "('svc, 'app) server"
  assumes "ServerTransport_Listen e ip p s = Inr s'"
  shows "valid_fd (len_socket e) \<and> len_bind e \<noteq> -1 \<and> len_listen e \<noteq> -1 \<and> listenfd s' = len_socket e \<and>
    interest (trace s') = interest_step (EpollCtl EPOLL_CTL_ADD (len_socket e) (EPOLL_FLAGS_IN_ONESHOT OR ExtraFlags s)) (interest (trace s)) \<and>
    return_values s' = return_values s \<and> dictionary s' = dictionary s \<and> ExtraFlags s' = ExtraFlags s \<and>
    AttachEventHandler (len_socket e) READ_EVENT (Some TheTransport) (handler_list s) = Inr (handler_list s')"
proof -
  obtain l where att: "AttachEventHandler (len_socket e) READ_EVENT (Some TheTransport) (handler_list s) = Inr l"
    and s': "s' = emit (LogDev ''ServerTransport::Listen: Start listening at ip %s, port %d\<newline>'' [LStr ip, LInt p])
      (AddEvent (len_socket e) EPOLL_FLAGS_IN_ONESHOT
        (emit (Listen (len_socket e) 5) (emit (Bind (len_socket e) ip p) (emit Socket s))
          \<lparr>listenfd := len_socket e, handler_list := l\<rparr>))"
    and ok: "0 \<le> len_socket e" "len_bind e \<noteq> -1" "len_listen e \<noteq> -1"
    using assms
    by (auto simp: ServerTransport_Listen_def create_listenfd_def Let_def bindE_eq_Inr assertE_eq_Inr split: if_splits)
  have "valid_fd (len_socket e)"
    using att attach_invalid [of "len_socket e" READ_EVENT TheTransport "handler_list s"]
    by (fastforce simp: is_event_def)
  with att s' ok show ?thesis by simp
qed

text \<open>The routes of the listening descriptor and of the accepted connections.\<close>

definition listen_routes :: "('svc, 'app) server \<Rightarrow> bool" where
  "listen_routes s \<longleftrightarrow> (\<forall>ty. is_event ty \<longrightarrow> handler_of (handler_list s) (listenfd s) ty =
     (if ty = READ_EVENT then Some TheTransport else None))"

definition conn_routes :: "('svc, 'app) server \<Rightarrow> int \<Rightarrow> bool" where
  "conn_routes s fd \<longleftrightarrow> handler_of (handler_list s) fd READ_EVENT = Some TheReceiver \<and>
     handler_of (handler_list s) fd WRITE_EVENT = Some TheSender \<and>
     handler_of (handler_list s) fd CLOSE_EVENT = Some TheTransport"

lemma server_start_state:
  assumes "server_start J e opt svcs ep g a = Inr r"
  shows "valid_fd (len_socket e)" "listenfd (sys r) = len_socket e" "ExtraFlags (sys r) = EPOLLET"
    "interest (trace (sys r)) = (\<lambda>_. None)(len_socket e := Some (EPOLL_FLAGS_IN_ONESHOT OR EPOLLET, True))"
    "return_values (sys r) = (\<lambda>_. [])" "listen_routes (sys r)"
    "dictionary (sys r) = map_of (map (\<lambda>(n, svc, c). (n, svc)) svcs)"
    "pending r = []" "sq_q (tasks (pool r)) = []" "workers (pool r) = replicate 4 Ready" "\<not> m_stop (pool r)"
    "ThreadPool_init 4 10000 = Inr (pool r)"
proof -
  obtain s0 s s' where s0: "RpcServer_init ep g a = Inr s0" and s: "register_all J opt svcs s0 = Inr s"
    and s': "ServerTransport_Listen e (ip_addr opt) (port opt) s = Inr s'" and r: "Reactor_init s' = Inr r"
    using assms by (auto simp: server_start_def Main_start_def bindE_eq_Inr)
  have init: "s0 = \<lparr>trace = [], ExtraFlags = EPOLLET, return_values = (\<lambda>_. []), dictionary = (\<lambda>_. None),
      handler_list = EventHandlerManager_init, listenfd = g, app = a\<rparr>"
    using s0 by (auto simp: RpcServer_init_def Poller_init_def bindE_eq_Inr)
  note S = register_all_same [OF s] and L = Listen_ok [OF s']
  show "valid_fd (len_socket e)" using L by simp
  show "listenfd (sys r) = len_socket e" "ExtraFlags (sys r) = EPOLLET"
    "return_values (sys r) = (\<lambda>_. [])"
    "interest (trace (sys r)) = (\<lambda>_. None)(len_socket e := Some (EPOLL_FLAGS_IN_ONESHOT OR EPOLLET, True))"
    "dictionary (sys r) = map_of (map (\<lambda>(n, svc, c). (n, svc)) svcs)"
    "pending r = []" "sq_q (tasks (pool r)) = []" "workers (pool r) = replicate 4 Ready" "\<not> m_stop (pool r)"
    "ThreadPool_init 4 10000 = Inr (pool r)"
    using S L r by (auto simp: Reactor_init_def ThreadPool_init_def SafeQueue_init_def same_io_def
        init fun_eq_iff)
  have "handler_list s = EventHandlerManager_init" "sys r = s'"
    using S r by (auto simp: same_io_def init Reactor_init_def ThreadPool_init_def)
  with L handlers.attach_look [of "len_socket e" READ_EVENT TheTransport "handler_list s" "handler_list s'"]
  show "listen_routes (sys r)"
    by (auto simp: listen_routes_def is_event_def event_types EventHandlerManager_init_def handler_of_def)
qed

lemma server_start_ok:
  assumes "valid_fd (len_socket e)" "len_bind e \<noteq> -1" "len_listen e \<noteq> -1" "ep > 0"
  shows "\<exists>r. server_start J e opt svcs ep g a = Inr r"
proof -
  obtain s0 s where s: "RpcServer_init ep g a = Inr s0" "register_all J opt svcs s0 = Inr s"
    using register_all_ok assms(4) by (fastforce simp: RpcServer_init_def Poller_init_def)
  have "\<exists>l. AttachEventHandler (len_socket e) READ_EVENT (Some TheTransport) (handler_list s) = Inr l"
    using handlers.attach_ok [of "len_socket e" READ_EVENT TheTransport] assms by (simp add: is_event_def)
  then show ?thesis
    using s assms
    by (auto simp: server_start_def Main_start_def ServerTransport_Listen_def create_listenfd_def
        Let_def Reactor_init_def ThreadPool_init_def)
qed

section \<open>Properties\<close>

text \<open>
  A server starts: when the epoll instance and the listening socket can be made, bound and put in listening state, it is
  armed one-shot for input and routed to the transport, no other descriptor is registered, each
  name is bound to the first service registered under it whatever the name service answered, and
  four workers wait for tasks.
\<close>

theorem server_starts:
  assumes "valid_fd (len_socket e)" "len_bind e \<noteq> -1" "len_listen e \<noteq> -1" "ep > 0"
  shows "\<exists>r. server_start J e opt svcs ep g a = Inr r \<and>
    interest (trace (sys r)) = (\<lambda>_. None)(len_socket e := Some (EPOLL_FLAGS_IN_ONESHOT OR EPOLLET, True)) \<and>
    listenfd (sys r) = len_socket e \<and> listen_routes (sys r) \<and>
    dictionary (sys r) = map_of (map (\<lambda>(n, svc, c). (n, svc)) svcs) \<and>
    workers (pool r) = replicate 4 Ready \<and> in_flight r = []"
proof -
  obtain r where r: "server_start J e opt svcs ep g a = Inr r" using server_start_ok [OF assms, of J opt svcs g a] by blast
  from server_start_state [OF r] r show ?thesis
    by (auto simp: in_flight_def running_def numeral_eq_Suc)
qed

definition demo_listen :: listen_env where
  "demo_listen = \<lparr>len_socket = 4, len_bind = 0, len_listen = 0\<rparr>"

definition demo_options :: server_options where
  "demo_options = \<lparr>namesvr_ip_addr = ''127.0.0.1'', namesvr_port = 5000, ip_addr = ''localhost'', port = 8888,
     log_path = ''log/server.log''\<rparr>"

definition demo_answer :: curl_answer where
  "demo_answer = \<lparr>cu_init = True, cu_perform = True, cu_status = 200, cu_chunks = []\<rparr>"

definition demo_services :: "(string \<times> nat \<times> curl_answer) list" where
  "demo_services = [(''KVGetter'', 0, demo_answer), (''KVSetter'', 1, demo_answer)]"

theorem server_starts_witness:
  "\<exists>r. server_start demo_json demo_listen demo_options demo_services 3 (-1) (0::nat) = Inr r \<and>
    dictionary (sys r) ''KVSetter'' = Some 1 \<and> in_flight r = []"
  using server_starts [of demo_listen 3 demo_json demo_options demo_services "-1" "0::nat"]
  by (auto simp: demo_listen_def MAX_FILE_DESCRIPTORS_def demo_services_def)

end
