(* ===== verification/ServerMachine.thy ===== *)
theory ServerMachine
  imports RpcServer
begin

text \<open>
  The running server as a state machine: the reactor's loop, the workers of the pool and the
  handlers they run, over the components of \<open>RpcServer\<close>.

  A step is one poll, one hand-over of a task, one turn of a worker, a spurious wake-up, or one
  whole handler. Handlers of different descriptors work on disjoint array elements, and every
  handler re-arms its descriptor as its last action on shared state, so a handler is one step. The
  environment is constrained by the documented behaviour of Linux: \<open>epoll_wait\<close> reports each
  descriptor at most once, only descriptors that are enabled, and only events of their mask besides
  \<open>EPOLLERR\<close> and \<open>EPOLLHUP\<close>; \<open>accept\<close> returns a descriptor that is not in use.

  Lemmas: each descriptor has at most one task in flight, and none while it is armed; a task for
  writing always finds a result; which faults can end the process; what happens to a descriptor
  that is neither armed nor in flight.
\<close>

section \<open>The machine\<close>

definition epoll_reports :: "interest_map \<Rightarrow> (int \<times> u32) list \<Rightarrow> bool" where
  "epoll_reports I evs \<longleftrightarrow> distinct (map fst evs) \<and> int (length evs) \<le> MAX_EVENTS \<and>
     (\<forall>(fd, m) \<in> set evs. \<exists>mask. I fd = Some (mask, True) \<and> m AND NOT (mask OR EPOLLERR OR EPOLLHUP) = 0)"

definition accept_fresh :: "server_env \<Rightarrow> ('svc, 'app) server \<Rightarrow> bool" where
  "accept_fresh e s \<longleftrightarrow> acc_ret (en_accept e) < 0 \<or> interest (trace s) (acc_ret (en_accept e)) = None"

type_synonym ('svc, 'app) machine = "('svc, 'app) server reactor"
type_synonym ('svc, 'app) service_handle = "'svc \<Rightarrow> RpcMessage \<Rightarrow> 'app \<Rightarrow> (RpcResult \<times> 'app) result"

inductive server_step :: "('svc, 'app) service_handle \<Rightarrow> ('svc, 'app) machine \<Rightarrow> ('svc, 'app) machine \<Rightarrow> bool"
  for Handle where
  poll: "pending r = [] \<Longrightarrow> epoll_reports (interest (trace (sys r))) evs \<Longrightarrow>
    Reactor_poll so_error evs r = Inr r' \<Longrightarrow> server_step Handle r r'"
| add: "pending r = t # ts \<Longrightarrow> may_notify w (workers (pool r)) \<Longrightarrow> r' = Reactor_add w r \<Longrightarrow> server_step Handle r r'"
| work: "i < length (workers (pool r)) \<Longrightarrow> running_of (workers (pool r) ! i) = [] \<Longrightarrow>
    r' = r\<lparr>pool := worker_step i (pool r)\<rparr> \<Longrightarrow> server_step Handle r r'"
| wake: "i < length (workers (pool r)) \<Longrightarrow> workers (pool r) ! i = Waiting \<Longrightarrow>
    r' = r\<lparr>pool := (pool r)\<lparr>workers := (workers (pool r))[i := Notified]\<rparr>\<rparr> \<Longrightarrow> server_step Handle r r'"
| handle: "i < length (workers (pool r)) \<Longrightarrow> workers (pool r) ! i = Running t \<Longrightarrow> accept_fresh e (sys r) \<Longrightarrow>
    Server_HandleEvent Handle e t (sys r) = Inr s' \<Longrightarrow>
    r' = r\<lparr>sys := s', pool := worker_step i (pool r)\<rparr> \<Longrightarrow> server_step Handle r r'"

inductive server_reachable :: "('svc, 'app) service_handle \<Rightarrow> ('svc, 'app) machine \<Rightarrow> bool" for Handle where
  start: "server_start (J :: (unit, unit) json_lib) e opt svcs ep g a = Inr r \<Longrightarrow> server_reachable Handle r"
| step: "server_reachable Handle r \<Longrightarrow> server_step Handle r r' \<Longrightarrow> server_reachable Handle r'"

section \<open>The handlers by descriptor and event\<close>

lemma HandleEvent_zero: "Server_HandleEvent Handle e (fd, 0) s = Inr s"
  by (simp add: Server_HandleEvent_def EventHandlerManager_HandleEvent_def)

lemma list_get_valid:
  "valid_fd fd \<Longrightarrow> is_event ty \<Longrightarrow> list_get l (GetEventId fd ty) = Inr (handler_of l fd ty)"
  by (auto simp: list_get_def MAX_EVENT_HANDLERS_eq MAX_FILE_DESCRIPTORS_def is_event_def
      GetEventId_slot handler_of_def)

lemma HandleEvent_event:
  assumes "valid_fd fd" "is_event ty"
  shows "Server_HandleEvent Handle e (fd, ty) s =
    (case handler_of (handler_list s) fd ty of
       None \<Rightarrow> Inr (emit (LogDev ''EventHandlerManager::HandleEvent: Warning! Get EventHandler for fd=[%d], Type=[%d] failed!\<newline>''
         [LInt fd, LInt ty]) s)
     | Some h \<Rightarrow> EventHandler_HandleEvent (server_vtable Handle e h) fd ty s)"
proof -
  have "ty \<noteq> 0" using assms(2) by (auto simp: is_event_def event_types)
  with assms show ?thesis
    by (simp add: Server_HandleEvent_def EventHandlerManager_HandleEvent_def list_get_valid)
qed

lemma is_event_simps [simp]: "is_event READ_EVENT" "is_event WRITE_EVENT" "is_event CLOSE_EVENT"
  by (simp_all add: is_event_def)

lemma event_neq [simp]:
  "READ_EVENT \<noteq> WRITE_EVENT" "READ_EVENT \<noteq> CLOSE_EVENT" "WRITE_EVENT \<noteq> CLOSE_EVENT"
  "WRITE_EVENT \<noteq> READ_EVENT" "CLOSE_EVENT \<noteq> READ_EVENT" "CLOSE_EVENT \<noteq> WRITE_EVENT"
  by (simp_all add: event_types)

lemma HandleEvent_conn:
  assumes "valid_fd fd" "conn_routes s fd"
  shows "Server_HandleEvent Handle e (fd, READ_EVENT) s =
      RequestHandler_HandleReadEvent Handle (en_recv_header e) (en_recv_body e) fd s"
    "Server_HandleEvent Handle e (fd, WRITE_EVENT) s = ResultSender_HandleWriteEvent (en_send e) fd s"
    "Server_HandleEvent Handle e (fd, CLOSE_EVENT) s = ServerTransport_HandleCloseEvent fd s"
  using assms
  by (simp_all add: HandleEvent_event conn_routes_def EventHandler_HandleEvent_def server_vtable_def)

lemma HandleEvent_listen:
  assumes "valid_fd (listenfd s)" "listen_routes s"
  shows "Server_HandleEvent Handle e (listenfd s, READ_EVENT) s =
      ServerTransport_HandleReadEvent (en_accept e) (listenfd s) s"
    "is_event ty \<Longrightarrow> ty \<noteq> READ_EVENT \<Longrightarrow> \<exists>s'. Server_HandleEvent Handle e (listenfd s, ty) s = Inr s' \<and> same_but_log s s'"
  using assms
  by (simp_all add: HandleEvent_event listen_routes_def EventHandler_HandleEvent_def server_vtable_def)

section \<open>What a handler does to its descriptor and to the others\<close>

text \<open>The connection was armed again, for output too iff results wait, and only its queue changed.\<close>

definition rearmed :: "int \<Rightarrow> ('svc, 'app) server \<Rightarrow> ('svc, 'app) server \<Rightarrow> bool" where
  "rearmed fd s s' \<longleftrightarrow>
     interest (trace s') = (interest (trace s))(fd := Some (rearm_mask (return_values s' fd) OR ExtraFlags s, True)) \<and>
     (\<forall>fd'. fd' \<noteq> fd \<longrightarrow> return_values s' fd' = return_values s fd') \<and>
     handler_list s' = handler_list s \<and> listenfd s' = listenfd s \<and> ExtraFlags s' = ExtraFlags s"

lemma rearmed_mono:
  "rearmed fd s1 s' \<Longrightarrow> same_but_log s s1 \<Longrightarrow> rearmed fd s s'"
  using server_more_eq [of s1 s] by (auto simp: rearmed_def same_but_log_def)

lemma handle_message_effect:
  assumes "handle_message Handle fd m s = Inr s'" "interest (trace s) fd \<noteq> None" "valid_fd fd"
  shows "same_but_log s s' \<or> rearmed fd s s'"
proof (cases "service_for m s")
  case None
  with assms handle_message_refused show ?thesis by blast
next
  case (Some svc)
  then obtain name where "magic (header m) = RPC_MAGIC_NUMBER" "version (header m) = RPC_VERSION"
    "cstr (servicename (header m)) = Inr name" "dictionary s name = Some svc"
    by (auto simp: service_for_def split: if_splits sum.splits)
  then obtain res app' where "Handle svc m (app s) = Inr (res, app')"
    using assms(1) by (auto simp: handle_message_def Let_def bindE_eq_Inr)
  with handle_message_served [of m s svc Handle res app' fd, OF Some this assms(3)] assms
  have "s' = served fd m res app' s" by simp
  with assms(2) have "rearmed fd s s'"
    by (auto simp: rearmed_def served_def Let_def emit_def)
  then show ?thesis ..
qed

lemma HandleReadEvent_effect:
  assumes "RequestHandler_HandleReadEvent Handle r1 r2 fd s = Inr s'" "interest (trace s) fd \<noteq> None" "valid_fd fd"
  shows "same_but_log s s' \<or> rearmed fd s s'"
proof (cases "request_of r1 r2")
  case None
  with assms HandleReadEvent_no_request show ?thesis by blast
next
  case (Some m)
  with assms handle_message_effect [of Handle fd m "recv_trace fd r1 s" s'] show ?thesis
    by (auto simp: HandleReadEvent_request [OF Some]
        intro: same_but_log_trans [OF recv_trace_same] rearmed_mono [OF _ recv_trace_same])
qed

lemma HandleWriteEvent_effect:
  assumes "ResultSender_HandleWriteEvent r fd s = Inr s'" "interest (trace s) fd \<noteq> None" "valid_fd fd"
  shows "rearmed fd s s'"
  using assms
  by (auto simp: ResultSender_HandleWriteEvent_def Pipe_Read_def pipe_at_def Let_def bindE_eq_Inr
      assertE_eq_Inr FileDescriptorEventDone_eq rearmed_def emit_def
      split: send_result.splits if_splits)

section \<open>The invariant\<close>

definition wants_out :: "u32 \<Rightarrow> bool" where
  "wants_out m \<longleftrightarrow> m AND EPOLLOUT \<noteq> 0"

text \<open>
  The server's own part: registered descriptors are in range, one-shot and routed; an enabled
  registration for output has a result to send.
\<close>

definition server_ok :: "('svc, 'app) server \<Rightarrow> bool" where
  "server_ok s \<longleftrightarrow> ExtraFlags s = EPOLLET \<and> valid_fd (listenfd s) \<and> listen_routes s \<and>
     interest (trace s) (listenfd s) \<noteq> None \<and>
     (\<forall>fd mask en. interest (trace s) fd = Some (mask, en) \<longrightarrow>
        valid_fd fd \<and> mask AND EPOLLONESHOT \<noteq> 0 \<and>
        (fd \<noteq> listenfd s \<longrightarrow> conn_routes s fd) \<and>
        (en \<and> wants_out mask \<longrightarrow> return_values s fd \<noteq> []))"

text \<open>The tasks in flight: one per descriptor, of a disabled registration.\<close>

definition task_ok :: "('svc, 'app) server \<Rightarrow> task \<Rightarrow> bool" where
  "task_ok s t \<longleftrightarrow> (\<exists>mask. interest (trace s) (fst t) = Some (mask, False)) \<and>
     (snd t = 0 \<or> is_event (snd t)) \<and> (snd t = WRITE_EVENT \<longrightarrow> return_values s (fst t) \<noteq> [])"

definition machine_ok :: "('svc, 'app) machine \<Rightarrow> bool" where
  "machine_ok r \<longleftrightarrow> server_ok (sys r) \<and> distinct (map fst (in_flight r)) \<and>
     (\<forall>t \<in> set (in_flight r). task_ok (sys r) t)"

lemma rearm_masks:
  "(rearm_mask rs OR EPOLLET) AND EPOLLONESHOT \<noteq> 0"
  "wants_out (rearm_mask rs OR EPOLLET) \<longleftrightarrow> rs \<noteq> []"
  "(EPOLL_FLAGS_IN_ONESHOT OR EPOLLET) AND EPOLLONESHOT \<noteq> 0"
  "\<not> wants_out (EPOLL_FLAGS_IN_ONESHOT OR EPOLLET)"
  by (simp_all add: rearm_mask_def wants_out_def epoll_flags epoll_bits)

lemma same_but_log_fields:
  fixes s s' :: "('svc, 'app) server"
  assumes "same_but_log s s'"
  shows "interest (trace s') = interest (trace s)" "return_values s' = return_values s"
    "handler_list s' = handler_list s" "listenfd s' = listenfd s" "ExtraFlags s' = ExtraFlags s"
    "dictionary s' = dictionary s" "app s' = app s"
  using assms server_more_eq [of s' s] by (simp_all add: same_but_log_def)

lemma routes_cong:
  "handler_list s' = handler_list s \<Longrightarrow> listenfd s' = listenfd s \<Longrightarrow> listen_routes s' = listen_routes s"
  "handler_list s' = handler_list s \<Longrightarrow> conn_routes s' = conn_routes s"
  by (simp add: listen_routes_def, rule ext, simp add: conn_routes_def)

lemma same_but_log_ok:
  assumes "same_but_log s s'"
  shows "server_ok s' = server_ok s" "task_ok s' = task_ok s"
  using same_but_log_fields [OF assms] routes_cong [of s' s]
  by (simp_all add: server_ok_def task_ok_def fun_eq_iff)

text \<open>A handler's state after its task, relative to descriptor \<open>fd\<close>: all other tasks stay valid.\<close>

definition handler_ok :: "int \<Rightarrow> ('svc, 'app) server \<Rightarrow> ('svc, 'app) server \<Rightarrow> bool" where
  "handler_ok fd s s' \<longleftrightarrow> server_ok s' \<and> listenfd s' = listenfd s \<and>
     (\<forall>t. fst t \<noteq> fd \<and> task_ok s t \<longrightarrow> task_ok s' t) \<and>
     (\<forall>fd' mask. fd' \<noteq> fd \<and> interest (trace s) fd' = Some (mask, False) \<longrightarrow> interest (trace s') fd' = Some (mask, False))"

lemma rearmed_ok:
  assumes "rearmed fd s s'" "server_ok s" "valid_fd fd" "fd \<noteq> listenfd s" "conn_routes s fd"
  shows "handler_ok fd s s'"
proof -
  have F: "handler_list s' = handler_list s" "listenfd s' = listenfd s" "ExtraFlags s' = EPOLLET"
    "ExtraFlags s = EPOLLET" "\<And>fd'. fd' \<noteq> fd \<Longrightarrow> return_values s' fd' = return_values s fd'"
    using assms(1,2) by (auto simp: rearmed_def server_ok_def)
  have I: "interest (trace s') fd' = (if fd' = fd then Some (rearm_mask (return_values s' fd) OR EPOLLET, True)
      else interest (trace s) fd')" for fd'
    using assms(1) F by (simp add: rearmed_def)
  have "server_ok s'"
    unfolding server_ok_def I routes_cong(1) [OF F(1,2)] routes_cong(2) [OF F(1)] F
    using assms(2-5) F(5) by (auto simp: server_ok_def rearm_masks)
  moreover have "task_ok s' t" if "fst t \<noteq> fd" "task_ok s t" for t
    using that F(5) by (simp add: task_ok_def I)
  ultimately show ?thesis using F I by (simp add: handler_ok_def)
qed

lemma accepted_ok:
  fixes s :: "('svc, 'app) server"
  assumes "ServerTransport_HandleReadEvent e (listenfd s) s = Inr s'" "server_ok s"
    and "acc_ret e < 0 \<or> interest (trace s) (acc_ret e) = None"
  shows "handler_ok (listenfd s) s s'"
  using assms(1)
proof (cases rule: HandleReadEvent_accepts)
  case (1 fd s1)
  have fresh: "interest (trace s) fd = None" using assms(3) 1 by auto
  then have neq: "fd \<noteq> listenfd s" using assms(2) by (auto simp: server_ok_def)
  have ef: "ExtraFlags s = EPOLLET" and reg: "interest (trace s) (listenfd s) \<noteq> None"
    using assms(2) by (auto simp: server_ok_def)
  let ?in = "Some (EPOLL_FLAGS_IN_ONESHOT OR EPOLLET, True)"
  have I: "interest (trace s') fd' = (if fd' = fd \<or> fd' = listenfd s then ?in else interest (trace s) fd')" for fd'
    using 1(5) fresh reg ef by auto
  have L: "listen_routes s'" using assms(2) 1(6-11) neq by (simp add: listen_routes_def server_ok_def)
  have C: "conn_routes s' fd' = (fd' = fd \<or> conn_routes s fd')" for fd'
    using 1(11) by (simp add: conn_routes_def)
  have "server_ok s'"
    unfolding server_ok_def I C
    using assms(2) 1(3,6-10) L ef by (auto simp: server_ok_def rearm_masks)
  moreover have "task_ok s' t" if "fst t \<noteq> listenfd s" "task_ok s t" for t
    using that fresh 1(6) by (auto simp: task_ok_def I)
  ultimately show ?thesis using 1 I fresh by (auto simp: handler_ok_def)
qed

lemma closed_ok:
  fixes s :: "('svc, 'app) server"
  assumes "ServerTransport_HandleCloseEvent fd s = Inr s'" "server_ok s" "valid_fd fd" "fd \<noteq> listenfd s"
  shows "handler_ok fd s s'"
proof (rule HandleCloseEvent_closes [OF assms(3), of s], goal_cases)
  case (1 s1)
  then have s1: "s1 = s'" using assms(1) by simp
  have L: "listen_routes s'" using assms(2,4) 1 s1 by (simp add: listen_routes_def server_ok_def)
  have C: "fd' \<noteq> fd \<Longrightarrow> conn_routes s' fd' = conn_routes s fd'" for fd'
    using 1 s1 by (simp add: conn_routes_def)
  have "server_ok s'"
    using assms(2,4) 1 s1 L C by (auto simp: server_ok_def)
  with 1 s1 show ?case by (auto simp: handler_ok_def task_ok_def)
qed

lemma task_valid: "server_ok s \<Longrightarrow> task_ok s (fd, ty) \<Longrightarrow> valid_fd fd \<and> interest (trace s) fd \<noteq> None"
  by (auto simp: server_ok_def task_ok_def)

lemma same_but_log_handler_ok: "server_ok s \<Longrightarrow> same_but_log s s' \<Longrightarrow> handler_ok fd s s'"
  by (auto simp: handler_ok_def same_but_log_ok same_but_log_fields)

text \<open>Every handler a task can run keeps the invariant and leaves the other descriptors' tasks valid.\<close>

lemma listen_keeps_ok:
  fixes s :: "('svc, 'app) server"
  assumes "server_ok s" "is_event ty" "accept_fresh e s"
    and "Server_HandleEvent Handle e (listenfd s, ty) s = Inr s'"
  shows "handler_ok (listenfd s) s s'"
proof -
  have L: "valid_fd (listenfd s)" "listen_routes s" using assms(1) by (auto simp: server_ok_def)
  show ?thesis
  proof (cases "ty = READ_EVENT")
    case True
    with assms L have "ServerTransport_HandleReadEvent (en_accept e) (listenfd s) s = Inr s'"
      by (simp add: HandleEvent_listen)
    from accepted_ok [OF this assms(1)] assms(3) show ?thesis by (simp add: accept_fresh_def)
  next
    case False
    with HandleEvent_listen(2) [OF L assms(2), of Handle e] assms(4) have "same_but_log s s'" by auto
    with assms(1) show ?thesis by (rule same_but_log_handler_ok)
  qed
qed

lemma connection_keeps_ok:
  fixes s :: "('svc, 'app) server"
  assumes ok: "server_ok s" and v: "valid_fd fd" "interest (trace s) fd \<noteq> None"
    and ne: "is_event ty" "fd \<noteq> listenfd s" and h: "Server_HandleEvent Handle e (fd, ty) s = Inr s'"
  shows "handler_ok fd s s'"
proof -
  have C: "conn_routes s fd" using v ne ok by (auto simp: server_ok_def)
  note H = HandleEvent_conn [OF v(1) C, of Handle e]
  from ne(1) consider "ty = READ_EVENT" | "ty = WRITE_EVENT" | "ty = CLOSE_EVENT" by (auto simp: is_event_def)
  then show ?thesis
  proof cases
    case 1
    with h v H have "same_but_log s s' \<or> rearmed fd s s'" by (intro HandleReadEvent_effect) auto
    with ok v ne C show ?thesis by (auto intro: same_but_log_handler_ok rearmed_ok)
  next
    case 2
    with h v H have "rearmed fd s s'" by (intro HandleWriteEvent_effect) auto
    with ok v ne C show ?thesis by (auto intro: rearmed_ok)
  next
    case 3
    with h v H have "ServerTransport_HandleCloseEvent fd s = Inr s'" by simp
    with ok v ne show ?thesis by (intro closed_ok) auto
  qed
qed

lemma handler_keeps_ok:
  fixes s :: "('svc, 'app) server"
  assumes "server_ok s" "task_ok s (fd, ty)" "accept_fresh e s"
    and "Server_HandleEvent Handle e (fd, ty) s = Inr s'"
  shows "handler_ok fd s s'"
proof -
  note v = task_valid [OF assms(1,2)]
  consider "ty = 0" | "is_event ty" "fd = listenfd s" | "is_event ty" "fd \<noteq> listenfd s"
    using assms(2) by (auto simp: task_ok_def)
  then show ?thesis
  proof cases
    case 1
    with assms show ?thesis by (simp add: HandleEvent_zero same_but_log_handler_ok)
  next
    case 2
    with assms listen_keeps_ok [of s ty e Handle s'] show ?thesis by simp
  next
    case 3
    with assms v show ?thesis by (intro connection_keeps_ok [of s fd ty Handle e s']) simp_all
  qed
qed

section \<open>The machine keeps the invariant\<close>

lemma distinct_fst_mset: "mset a = mset b \<Longrightarrow> distinct (map fst a) = distinct (map fst b)"
  by (metis mset_eq_imp_distinct_iff mset_map)

lemma in_flight_same:
  assumes "machine_ok r" "mset (in_flight r') = mset (in_flight r)" "sys r' = sys r"
  shows "machine_ok r'"
  using assms distinct_fst_mset [OF assms(2)] mset_eq_setD [OF assms(2)] by (simp add: machine_ok_def)

lemma in_flight_drop:
  assumes "mset (in_flight r) = add_mset t (mset (in_flight r'))" "distinct (map fst (in_flight r))"
  shows "distinct (map fst (in_flight r'))" "set (in_flight r') \<subseteq> set (in_flight r)"
    "\<forall>t' \<in> set (in_flight r'). fst t' \<noteq> fst t" "t \<in> set (in_flight r)"
proof -
  have m: "mset (in_flight r) = mset (t # in_flight r')" using assms(1) by simp
  have d: "distinct (map fst (t # in_flight r'))" using distinct_fst_mset [OF m] assms(2) by simp
  have st: "set (in_flight r) = set (t # in_flight r')" using mset_eq_setD [OF m] .
  show "distinct (map fst (in_flight r'))" "\<forall>t' \<in> set (in_flight r'). fst t' \<noteq> fst t"
    using d by (auto simp: image_iff)
  show "set (in_flight r') \<subseteq> set (in_flight r)" "t \<in> set (in_flight r)" using st by auto
qed

lemma type_of_mask_write:
  assumes "type_of_mask m = Some WRITE_EVENT" "m AND NOT (msk OR EPOLLERR OR EPOLLHUP) = 0"
  shows "wants_out msk"
proof -
  have "m AND EPOLLOUT \<noteq> 0" using assms(1) by (auto simp: type_of_mask_def event_types split: if_splits)
  moreover have "EPOLLOUT = push_bit 2 1" by (simp add: EPOLLOUT_def)
  ultimately have "\<exists>n. bit (m AND push_bit 2 1) n" by (metis bit_eqI bit_0_eq bot_apply bot_bool_def)
  then have "bit m 2" 
    unfolding bit_and_iff bit_push_bit_iff bit_1_iff by (metis diff_is_0_eq le_antisym)
  have "\<not> bit (m AND NOT (msk OR EPOLLERR OR EPOLLHUP)) 2" by (simp only: assms(2)) simp
  with \<open>bit m 2\<close> have "bit msk 2" by (simp add: bit_simps EPOLLERR_def EPOLLHUP_def)
  then have "bit (msk AND EPOLLOUT) 2" by (simp add: bit_simps EPOLLOUT_def)
  then show ?thesis by (auto simp: wants_out_def)
qed

text \<open>The server state after a poll: the reported descriptors are disabled, nothing else changes.\<close>

lemma poll_effect:
  fixes r :: "('svc, 'app) machine"
  assumes "Reactor_poll so_error evs r = Inr r'"
  shows "interest (trace (sys r')) = interest_step (EpollWait evs) (interest (trace (sys r)))"
    "pool r' = pool r" "world.more (sys r') = world.more (sys r)"
    "pending r' = map (\<lambda>(fd, m). (fd, the (type_of_mask m))) evs"
    "\<forall>ev \<in> set evs. type_of_mask (snd ev) \<noteq> None"
proof -
  obtain ts s' where d: "Dispatch so_error evs (sys r) = Inr (ts, s')" and r': "r' = r\<lparr>sys := s', pending := ts\<rparr>"
    using assms by (auto simp: Reactor_poll_def bindE_eq_Inr)
  note D = Dispatch_interest [OF d]
  show "interest (trace (sys r')) = interest_step (EpollWait evs) (interest (trace (sys r)))"
    "pool r' = pool r" "world.more (sys r') = world.more (sys r)"
    using D by (simp_all add: r')
  show "\<forall>ev \<in> set evs. type_of_mask (snd ev) \<noteq> None"
    using d Dispatch_loop_tasks [of evs so_error "emit (EpollWait evs) (sys r)"]
    by (auto simp: Dispatch_def split: if_splits)
  then have "\<exists>w'. Dispatch so_error evs (sys r) = Inr (map (\<lambda>(fd, m). (fd, the (type_of_mask m))) evs, w')"
    using Dispatch_loop_tasks [of evs so_error "emit (EpollWait evs) (sys r)"] by (auto simp: Dispatch_def)
  with d r' show "pending r' = map (\<lambda>(fd, m). (fd, the (type_of_mask m))) evs" by auto
qed

lemma world_more_fields:
  fixes s s' :: "('svc, 'app) server"
  assumes "world.more s' = world.more s"
  shows "return_values s' = return_values s" "dictionary s' = dictionary s" "handler_list s' = handler_list s"
    "listenfd s' = listenfd s" "ExtraFlags s' = ExtraFlags s" "app s' = app s"
  using assms by (cases s; cases s'; simp)+

lemma poll_interest:
  "interest_step (EpollWait evs) I fd =
     (case I fd of None \<Rightarrow> None | Some (m, en) \<Rightarrow> Some (m, en \<and> (m AND EPOLLONESHOT = 0 \<or> fd \<notin> fst ` set evs)))"
  by simp

text \<open>A poll reports descriptors that are not in flight, and its tasks are in order.\<close>

lemma polled_fresh:
  assumes "machine_ok r" "epoll_reports (interest (trace (sys r))) evs" "t \<in> set (in_flight r)"
  shows "fst t \<notin> fst ` set evs"
proof
  assume "fst t \<in> fst ` set evs"
  then obtain m where "(fst t, m) \<in> set evs" by auto
  with assms(2) obtain mk where "interest (trace (sys r)) (fst t) = Some (mk, True)" by (auto simp: epoll_reports_def)
  with assms(1,3) show False by (fastforce simp: machine_ok_def task_ok_def)
qed

lemma polled_task_ok:
  assumes inv: "machine_ok r" and ev: "epoll_reports (interest (trace (sys r))) evs"
    and "Reactor_poll so_error evs r = Inr r'" and here: "(fd, m) \<in> set evs"
  shows "task_ok (sys r') (fd, the (type_of_mask m))"
proof -
  note P = poll_effect [OF assms(3)]
  obtain mk where mk: "interest (trace (sys r)) fd = Some (mk, True)" "m AND NOT (mk OR EPOLLERR OR EPOLLHUP) = 0"
    using ev here by (auto simp: epoll_reports_def)
  obtain ty where ty: "type_of_mask m = Some ty" using P(5) here by fastforce
  have "return_values (sys r) fd \<noteq> []" if "ty = WRITE_EVENT"
    using type_of_mask_write [of m mk] ty mk that inv by (auto simp: machine_ok_def server_ok_def)
  moreover have "mk AND EPOLLONESHOT \<noteq> 0" using inv mk by (auto simp: machine_ok_def server_ok_def)
  ultimately show ?thesis
    using type_of_mask_range [OF ty] mk ty here unfolding task_ok_def P(1) world_more_fields [OF P(3)] poll_interest
    by (auto simp: image_iff intro!: bexI [of _ "(fd, m)"])
qed

lemma machine_poll:
  assumes inv: "machine_ok r" and p: "pending r = []" and ev: "epoll_reports (interest (trace (sys r))) evs"
    and poll: "Reactor_poll so_error evs r = Inr r'"
  shows "machine_ok r'"
proof -
  note P = poll_effect [OF poll]
  note F = world_more_fields [OF P(3)]
  note old = polled_fresh [OF inv ev]
  have R: "listen_routes (sys r') = listen_routes (sys r)" "conn_routes (sys r') = conn_routes (sys r)"
    using routes_cong [of "sys r'" "sys r"] F by simp_all
  have ok: "server_ok (sys r')"
    using inv unfolding machine_ok_def server_ok_def P(1) F R poll_interest
    by (fastforce split: option.splits)
  have fl: "in_flight r' = map (\<lambda>(fd, m). (fd, the (type_of_mask m))) evs @ in_flight r"
    using p P(2,4) by (simp add: in_flight_def)
  have fsts: "map fst (in_flight r') = map fst evs @ map fst (in_flight r)"
    by (simp add: fl comp_def case_prod_beta)
  have "set (map fst evs) \<inter> set (map fst (in_flight r)) = {}"
    using old by (fastforce simp: image_iff)
  then have "distinct (map fst (in_flight r'))"
    using ev inv unfolding fsts distinct_append epoll_reports_def machine_ok_def by blast
  moreover have "task_ok (sys r') t" if "t \<in> set (in_flight r)" for t
    using inv that old [OF that] unfolding machine_ok_def task_ok_def P(1) F poll_interest
    by (fastforce split: option.splits)
  ultimately show ?thesis using ok polled_task_ok [OF inv ev poll] by (auto simp: machine_ok_def fl)
qed

lemma machine_handle:
  assumes inv: "machine_ok r" and i: "i < length (workers (pool r))" "workers (pool r) ! i = Running (fd, ty)"
    and "accept_fresh e (sys r)" "Server_HandleEvent Handle e (fd, ty) (sys r) = Inr s'"
  shows "machine_ok (r\<lparr>sys := s', pool := worker_step i (pool r)\<rparr>)" (is "machine_ok ?r'")
proof -
  note m = in_flight_finish [OF i, of s']
  note D = in_flight_drop [OF m]
  have d: "distinct (map fst (in_flight r))" and ok: "server_ok (sys r)" using inv by (auto simp: machine_ok_def)
  have "task_ok (sys r) (fd, ty)" using inv D(4) [OF d] by (auto simp: machine_ok_def)
  from handler_keeps_ok [OF ok this assms(4,5)] have h: "handler_ok fd (sys r) s'" .
  have "task_ok s' t" if "t \<in> set (in_flight ?r')" for t
  proof -
    have "task_ok (sys r) t" "fst t \<noteq> fd" using that D(2,3) [OF d] inv by (auto simp: machine_ok_def)
    with h show ?thesis unfolding handler_ok_def by blast
  qed
  with D(1) [OF d] h show ?thesis by (simp add: machine_ok_def handler_ok_def)
qed

lemma server_step_ok:
  assumes "server_step Handle r r'" "machine_ok r"
  shows "machine_ok r'"
  using assms(1)
proof (cases rule: server_step.cases)
  case (poll evs so_error)
  show ?thesis by (rule machine_poll [OF assms(2) poll(1,2,3)])
next
  case (add t ts w)
  note A = in_flight_add [OF add(2,1)]
  have sys: "sys r' = sys r" using add(1,3) by (simp add: Reactor_add_def)
  show ?thesis
  proof (cases "mset (in_flight r') = mset (in_flight r)")
    case True
    then show ?thesis using sys by (rule in_flight_same [OF assms(2)])
  next
    case False
    with A have m: "mset (in_flight r) = add_mset t (mset (in_flight r'))"
      unfolding add(3) [symmetric] by (simp split: if_split_asm)
    have d: "distinct (map fst (in_flight r))" using assms(2) by (simp add: machine_ok_def)
    from in_flight_drop(1,2) [OF m d] assms(2) sys show ?thesis unfolding machine_ok_def by auto
  qed
next
  case (work i)
  have "mset (in_flight r') = mset (in_flight r)" "sys r' = sys r"
    using in_flight_work [OF work(1,2)] work(3) by simp_all
  then show ?thesis by (rule in_flight_same [OF assms(2)])
next
  case (wake i)
  have "mset (in_flight r') = mset (in_flight r)" "sys r' = sys r"
    using in_flight_wake [OF wake(1,2)] wake(3) by simp_all
  then show ?thesis by (rule in_flight_same [OF assms(2)])
next
  case (handle i t e s')
  obtain fd ty where t: "t = (fd, ty)" by fastforce
  show ?thesis
    unfolding handle(5) by (rule machine_handle [OF assms(2) handle(1) handle(2) [unfolded t] handle(3) handle(4) [unfolded t]])
qed

lemma server_start_machine_ok:
  assumes "server_start J e opt svcs ep g a = Inr r"
  shows "machine_ok r"
proof -
  note S = server_start_state [OF assms]
  have "in_flight r = []" using S by (simp add: in_flight_def running_def numeral_eq_Suc)
  with S show ?thesis by (auto simp: machine_ok_def server_ok_def rearm_masks split: if_splits)
qed

lemma server_reachable_ok: "server_reachable Handle r \<Longrightarrow> machine_ok r"
  by (induction rule: server_reachable.induct) (auto intro: server_start_machine_ok server_step_ok)

section \<open>Descriptors that are neither armed nor in flight\<close>

definition stuck :: "int \<Rightarrow> ('svc, 'app) machine \<Rightarrow> bool" where
  "stuck fd r \<longleftrightarrow> (\<exists>mk. interest (trace (sys r)) fd = Some (mk, False)) \<and> fd \<notin> fst ` set (in_flight r)"

lemma stuck_mset:
  assumes "stuck fd r" "mset (in_flight r') \<subseteq># mset (in_flight r)" "sys r' = sys r"
  shows "stuck fd r'"
proof -
  have "set (in_flight r') \<subseteq> set (in_flight r)" using set_mset_mono [OF assms(2)] by simp
  then have "fst ` set (in_flight r') \<subseteq> fst ` set (in_flight r)" by (rule image_mono)
  with assms(1,3) show ?thesis unfolding stuck_def by auto
qed

lemma stuck_step:
  assumes "server_step Handle r r'" "machine_ok r" "stuck fd r"
  shows "stuck fd r'"
  using assms(1)
proof (cases rule: server_step.cases)
  case (poll evs so_error)
  note P = poll_effect [OF poll(3)]
  obtain mk where mk: "interest (trace (sys r)) fd = Some (mk, False)" using assms(3) by (auto simp: stuck_def)
  have "fd \<notin> fst ` set evs" using poll(2) mk by (force simp: epoll_reports_def)
  moreover have "fst ` set (pending r') = fst ` set evs" by (force simp: P(4))
  ultimately have "fd \<notin> fst ` set (in_flight r')"
    using assms(3) P(2) by (simp add: in_flight_def stuck_def image_Un)
  moreover have "interest (trace (sys r')) fd = Some (mk, False)" unfolding P(1) poll_interest mk by simp
  ultimately show ?thesis by (simp add: stuck_def)
next
  case (add t ts w)
  have "mset (in_flight r') \<subseteq># mset (in_flight r)"
    using in_flight_add [OF add(2,1)] unfolding add(3) [symmetric] by (simp split: if_split_asm)
  moreover have "sys r' = sys r" using add(1,3) by (simp add: Reactor_add_def)
  ultimately show ?thesis by (rule stuck_mset [OF assms(3)])
next
  case (work i)
  have "mset (in_flight r') = mset (in_flight r)" "sys r' = sys r"
    using in_flight_work [OF work(1,2)] work(3) by simp_all
  then show ?thesis by (intro stuck_mset [OF assms(3)]) auto
next
  case (wake i)
  have "mset (in_flight r') = mset (in_flight r)" "sys r' = sys r"
    using in_flight_wake [OF wake(1,2)] wake(3) by simp_all
  then show ?thesis by (intro stuck_mset [OF assms(3)]) auto
next
  case (handle i t e s')
  obtain fd' ty where t: "t = (fd', ty)" by fastforce
  have m: "mset (in_flight r) = add_mset t (mset (in_flight r'))"
    unfolding handle(5) by (rule in_flight_finish [OF handle(1,2)])
  have d: "distinct (map fst (in_flight r))" and ok: "server_ok (sys r)"
    using assms(2) by (simp_all add: machine_ok_def)
  note D = in_flight_drop [OF m d]
  have "task_ok (sys r) (fd', ty)" using assms(2) D(4) t by (auto simp: machine_ok_def)
  from handler_keeps_ok [OF ok this handle(3) handle(4) [unfolded t]] have "handler_ok fd' (sys r) s'" .
  moreover have "fd \<noteq> fd'" using assms(3) D(4) t by (force simp: stuck_def)
  ultimately have "\<exists>mk. interest (trace s') fd = Some (mk, False)"
    using assms(3) by (auto simp: stuck_def handler_ok_def)
  moreover have "fd \<notin> fst ` set (in_flight r')" using assms(3) D(2) by (auto simp: stuck_def)
  ultimately show ?thesis using handle(5) by (simp add: stuck_def)
qed

lemma stuck_steps:
  "(server_step Handle)\<^sup>*\<^sup>* r r' \<Longrightarrow> machine_ok r \<Longrightarrow> stuck fd r \<Longrightarrow> stuck fd r' \<and> machine_ok r'"
  by (induction rule: rtranclp_induct) (auto intro: stuck_step server_step_ok)

section \<open>Runs of a quiet machine\<close>

text \<open>No task in flight and all workers at the top of their loop.\<close>

definition quiet :: "('svc, 'app) machine \<Rightarrow> bool" where
  "quiet r \<longleftrightarrow> pending r = [] \<and> pool r = \<lparr>tasks = SafeQueue_init 10000, m_stop = False, workers = replicate 4 Ready,
      joinable = replicate 4 True\<rparr>"

definition busy :: "task \<Rightarrow> ('svc, 'app) machine \<Rightarrow> bool" where
  "busy t r \<longleftrightarrow> pending r = [] \<and>
     pool r = \<lparr>tasks = SafeQueue_init 10000, m_stop = False, workers = [Running t, Ready, Ready, Ready],
      joinable = replicate 4 True\<rparr>"

lemma busy_in_flight: "busy t r \<Longrightarrow> in_flight r = [t] \<and> t \<in> set (running (pool r))"
  by (simp add: busy_def in_flight_def running_def SafeQueue_init_def)

lemma start_quiet: "server_start J e opt svcs ep g a = Inr r \<Longrightarrow> quiet r"
  using server_start_state [of J e opt svcs ep g a r] by (auto simp: quiet_def ThreadPool_init_def)

lemma replicate4: "replicate 4 x = [x, x, x, x]"
  by (simp add: numeral_eq_Suc)

text \<open>One event of an armed descriptor: a poll, a hand-over and a worker's turn.\<close>

lemma poll_one:
  assumes "type_of_mask m = Some ty"
  shows "\<exists>r1. Reactor_poll (\<lambda>_. None) [(fd, m)] r = Inr r1"
  using Dispatch_loop_tasks [of "[(fd, m)]" "\<lambda>_. None" "emit (EpollWait [(fd, m)]) (sys r)"] assms
  unfolding Dispatch_def Reactor_poll_def by (auto simp del: Dispatch_loop.simps)

lemma run_one_parts:
  assumes q: "quiet r" and ty: "type_of_mask m = Some ty"
  obtains r1 where "Reactor_poll (\<lambda>_. None) [(fd, m)] r = Inr r1" "pending r1 = [(fd, ty)]"
    "may_notify None (workers (pool r1))" "workers (pool (Reactor_add None r1)) ! 0 = Ready"
    "0 < length (workers (pool (Reactor_add None r1)))"
    "busy (fd, ty) ((Reactor_add None r1)\<lparr>pool := worker_step 0 (pool (Reactor_add None r1))\<rparr>)"
    "sys (Reactor_add None r1) = sys r1" "world.more (sys r1) = world.more (sys r)"
    "interest (trace (sys r1)) = interest_step (EpollWait [(fd, m)]) (interest (trace (sys r)))"
proof -
  obtain r1 where r1: "Reactor_poll (\<lambda>_. None) [(fd, m)] r = Inr r1" using poll_one [OF ty] by blast
  note P = poll_effect [OF this]
  let ?r2 = "Reactor_add None r1"
  have p1: "pool r1 = \<lparr>tasks = SafeQueue_init 10000, m_stop = False, workers = replicate 4 Ready,
      joinable = replicate 4 True\<rparr>"
    using P(2) q by (simp add: quiet_def)
  have p2: "pool ?r2 = \<lparr>tasks = (SafeQueue_init 10000)\<lparr>sq_q := [(fd, ty)]\<rparr>, m_stop = False, workers = replicate 4 Ready,
      joinable = replicate 4 True\<rparr>"
    using P(4) ty p1 by (simp add: Reactor_add_def AddTask_def Enqueue_def SafeQueue_init_def notify_def)
  have "worker_step 0 (pool ?r2) =
      \<lparr>tasks = SafeQueue_init 10000, m_stop = False, workers = [Running (fd, ty), Ready, Ready, Ready],
      joinable = replicate 4 True\<rparr>"
    unfolding p2 by (simp add: worker_step_def Dequeue_enter_def Dequeue_resume_def SafeQueue_init_def replicate4)
  then have b: "busy (fd, ty) (?r2\<lparr>pool := worker_step 0 (pool ?r2)\<rparr>)"
    using P(4) by (simp add: busy_def Reactor_add_def)
  have "may_notify None (workers (pool r1))" "workers (pool ?r2) ! 0 = Ready" "0 < length (workers (pool ?r2))"
    using p1 p2 by (simp_all add: may_notify_def replicate4)
  moreover have "pending r1 = [(fd, ty)]" "sys ?r2 = sys r1" using P(4) ty by (simp_all add: Reactor_add_def)
  ultimately show thesis using r1 b P(1,3) by (intro that [of r1]) simp_all
qed

lemma run_one_steps:
  assumes reach: "server_reachable Handle r" and q: "quiet r"
    and ev: "epoll_reports (interest (trace (sys r))) [(fd, m)]" and ty: "type_of_mask m = Some ty"
  obtains r' where "(server_step Handle)\<^sup>*\<^sup>* r r'" "server_reachable Handle r'" "busy (fd, ty) r'" "world.more (sys r') = world.more (sys r)"
    "interest (trace (sys r')) = interest_step (EpollWait [(fd, m)]) (interest (trace (sys r)))"
proof -
  obtain r1 where r1: "Reactor_poll (\<lambda>_. None) [(fd, m)] r = Inr r1" "pending r1 = [(fd, ty)]"
    "may_notify None (workers (pool r1))" "workers (pool (Reactor_add None r1)) ! 0 = Ready"
    "0 < length (workers (pool (Reactor_add None r1)))"
    "busy (fd, ty) ((Reactor_add None r1)\<lparr>pool := worker_step 0 (pool (Reactor_add None r1))\<rparr>)"
    "sys (Reactor_add None r1) = sys r1" "world.more (sys r1) = world.more (sys r)"
    "interest (trace (sys r1)) = interest_step (EpollWait [(fd, m)]) (interest (trace (sys r)))"
    by (rule run_one_parts [OF q ty])
  let ?r2 = "Reactor_add None r1"
  let ?r3 = "?r2\<lparr>pool := worker_step 0 (pool ?r2)\<rparr>"
  have st1: "server_step Handle r r1" using q ev r1(1) by (intro server_step.poll) (auto simp: quiet_def)
  have st2: "server_step Handle r1 ?r2" by (rule server_step.add [OF r1(2,3) refl])
  have st3: "server_step Handle ?r2 ?r3" using r1(4,5) by (intro server_step.work [of 0 ?r2]) auto
  have "(server_step Handle)\<^sup>*\<^sup>* r ?r3" using st1 st2 st3 by (meson converse_rtranclp_into_rtranclp rtranclp.rtrancl_refl)
  moreover have "server_reachable Handle ?r3"
    by (rule server_reachable.step [OF server_reachable.step [OF server_reachable.step [OF reach st1] st2] st3])
  ultimately show thesis using r1(6-9) by (intro that [of ?r3]) simp_all
qed

lemma run_one:
  assumes "server_reachable Handle r" "quiet r"
    "epoll_reports (interest (trace (sys r))) [(fd, m)]" "type_of_mask m = Some ty"
  obtains r' where "server_reachable Handle r'" "busy (fd, ty) r'" "world.more (sys r') = world.more (sys r)"
    "interest (trace (sys r')) = interest_step (EpollWait [(fd, m)]) (interest (trace (sys r)))"
  using run_one_steps [OF assms] that by metis

lemma finish_one:
  assumes "server_reachable Handle r" "busy t r" "accept_fresh e (sys r)"
    and "Server_HandleEvent Handle e t (sys r) = Inr s'"
  obtains r' where "server_step Handle r r'" "server_reachable Handle r'" "quiet r'" "sys r' = s'"
proof -
  let ?r' = "r\<lparr>sys := s', pool := worker_step 0 (pool r)\<rparr>"
  have "server_step Handle r ?r'"
    using assms by (intro server_step.handle [of 0 r t]) (auto simp: busy_def)
  moreover have "quiet ?r'" using assms(2) by (simp add: busy_def quiet_def worker_step_def replicate4)
  ultimately show thesis using that [of ?r'] assms(1) server_reachable.step by fastforce
qed

section \<open>Faults of a handler\<close>

lemma HandleReadEvent_fault:
  assumes "RequestHandler_HandleReadEvent Handle r1 r2 fd s = Inl f" "valid_fd fd"
  shows "(f = ProcessExit 1 \<and> (\<exists>errno. r1 = RecvErr errno \<and> errno \<noteq> EAGAIN)) \<or>
    (f = OutOfBounds \<and> (\<exists>d. r2 = RecvOk d \<and> 480 < length d)) \<or>
    (f = OutOfBounds \<and> (\<exists>m. request_of r1 r2 = Some m \<and> no_nul (servicename (header m)))) \<or>
    (\<exists>m svc. request_of r1 r2 = Some m \<and> service_for m s = Some svc \<and> Handle svc m (app s) = Inl f)"
proof (cases "request_of r1 r2")
  case None
  with assms(1) show ?thesis
    by (auto simp: RequestHandler_HandleReadEvent_def request_of_def Let_def init_parameters rpc_consts
        write_at_def split: recv_result.splits if_splits)
next
  case (Some m)
  show ?thesis
  proof (cases "service_for m s")
    case None
    with assms Some show ?thesis
      by (auto simp: HandleReadEvent_request [OF Some] handle_message_def service_for_def Let_def
          bindE_eq_Inl cstr_Inl_iff split: if_splits option.splits sum.splits)
  next
    case svc: (Some svc)
    show ?thesis
    proof (cases "Handle svc m (app s)")
      case (Inr x)
      with handle_message_served [of m "recv_trace fd r1 s" svc Handle "fst x" "snd x" fd] svc assms Some
      show ?thesis by (simp add: HandleReadEvent_request [OF Some])
    next
      case (Inl g)
      with assms(1) Some svc have "f = g"
        by (auto simp: HandleReadEvent_request [OF Some] handle_message_def service_for_def Let_def
            bindE_eq_Inl split: if_splits option.splits sum.splits)
      with Inl Some svc show ?thesis by blast
    qed
  qed
qed

lemma HandleWriteEvent_fault:
  assumes "ResultSender_HandleWriteEvent r fd s = Inl f" "valid_fd fd" "return_values s fd \<noteq> []"
  shows "f = AssertFailed \<and> (\<exists>errno. r = SendErr errno \<and> errno \<noteq> EAGAIN \<and> errno \<noteq> EWOULDBLOCK)"
  using assms
  by (auto simp: ResultSender_HandleWriteEvent_def Pipe_Read_def pipe_at_def Let_def FileDescriptorEventDone_eq
      split: send_result.splits if_splits)

lemma accept_fault:
  fixes s :: "('svc, 'app) server"
  assumes "ServerTransport_HandleReadEvent e (listenfd s) s = Inl f"
  shows "f = OutOfBounds \<and> \<not> valid_fd (fst (ServerTransport_Accept e s))"
proof -
  obtain fd s1 where acc: "ServerTransport_Accept e s = (fd, s1)" by fastforce
  have "\<not> valid_fd fd"
  proof
    assume "valid_fd fd"
    then obtain l where "bindE (AttachEventHandler fd READ_EVENT (Some TheReceiver) (handler_list s1)) (\<lambda>l.
        bindE (AttachEventHandler fd WRITE_EVENT (Some TheSender) l)
              (AttachEventHandler fd CLOSE_EVENT (Some TheTransport))) = Inr l"
      using handlers.attach3_ok [of fd READ_EVENT WRITE_EVENT CLOSE_EVENT TheReceiver "handler_list s1" TheSender TheTransport]
      by auto
    with assms show False unfolding ServerTransport_HandleReadEvent_def acc Let_def by simp
  qed
  moreover from this have "AttachEventHandler fd READ_EVENT (Some TheReceiver) (handler_list s1) = Inl OutOfBounds"
    by (rule attach_invalid) simp
  ultimately show ?thesis
    using assms unfolding ServerTransport_HandleReadEvent_def acc Let_def by simp
qed

section \<open>A concrete run\<close>

text \<open>Start, accept connection 6, serve a request on it, and be about to send the result.\<close>

definition demo_json0 :: "(unit, unit) json_lib" where
  "demo_json0 = \<lparr>writeString = (\<lambda>_. ''{}''), parse_json = (\<lambda>_. None), isArray = (\<lambda>_. True),
     elements = (\<lambda>_. []), asStringAt = (\<lambda>_ _. None), asIntAt = (\<lambda>_ _. None)\<rparr>"

definition demo_env :: server_env where
  "demo_env = \<lparr>en_accept = demo_accept, en_recv_header = demo_recv, en_recv_body = RecvOk [], en_send = SendOk 484\<rparr>"

lemma demo_reports:
  "I fd = Some (EPOLL_FLAGS_IN_ONESHOT OR EPOLLET, True) \<Longrightarrow> epoll_reports I [(fd, EPOLLIN)]"
  "I fd = Some (EPOLL_FLAGS_INOUT_ONESHOT OR EPOLLET, True) \<Longrightarrow> epoll_reports I [(fd, EPOLLOUT)]"
  "type_of_mask EPOLLIN = Some READ_EVENT" "type_of_mask EPOLLOUT = Some WRITE_EVENT"
  by (simp_all add: epoll_reports_def MAX_EVENTS_def type_of_mask_def epoll_flags epoll_bits EPOLLHUP_def)

lemma demo_start:
  obtains r where "server_reachable demo_Handle r" "quiet r" "listenfd (sys r) = 4" "ExtraFlags (sys r) = EPOLLET"
    "interest (trace (sys r)) = (\<lambda>_. None)(4 := Some (EPOLL_FLAGS_IN_ONESHOT OR EPOLLET, True))"
    "return_values (sys r) = (\<lambda>_. [])" "dictionary (sys r) ''KVGetter'' = Some 0" "machine_ok r"
proof -
  obtain r where r: "server_start demo_json0 demo_listen demo_options demo_services 3 (-1) (0::nat) = Inr r"
    using server_start_ok [of demo_listen 3 demo_json0 demo_options demo_services "-1" "0::nat"]
    by (auto simp: demo_listen_def MAX_FILE_DESCRIPTORS_def)
  note S = server_start_state [OF r]
  show thesis
    using server_reachable.start [OF r] start_quiet [OF r] S server_start_machine_ok [OF r]
    by (intro that [of r]) (auto simp: demo_listen_def demo_services_def)
qed

text \<open>A quiet server that listens on 4 accepts connection 6 and is about to read from it.\<close>

lemma run_accept:
  fixes r0 :: "('svc, 'app) machine"
  assumes 0: "server_reachable Handle r0" "quiet r0" "listenfd (sys r0) = 4" "ExtraFlags (sys r0) = EPOLLET"
    "interest (trace (sys r0)) = (\<lambda>_. None)(4 := Some (EPOLL_FLAGS_IN_ONESHOT OR EPOLLET, True))"
    "return_values (sys r0) = (\<lambda>_. [])"
  obtains r where "(server_step Handle)\<^sup>*\<^sup>* r0 r" "server_reachable Handle r" "busy (6, READ_EVENT) r" "listenfd (sys r) = 4"
    "interest (trace (sys r)) 6 \<noteq> None" "return_values (sys r) = (\<lambda>_. [])" "ExtraFlags (sys r) = EPOLLET"
    "dictionary (sys r) = dictionary (sys r0)" "app (sys r) = app (sys r0)" "conn_routes (sys r) 6"
proof -
  obtain r1 where 1: "(server_step Handle)\<^sup>*\<^sup>* r0 r1" "server_reachable Handle r1" "busy (4, READ_EVENT) r1"
    "world.more (sys r1) = world.more (sys r0)"
    "interest (trace (sys r1)) = interest_step (EpollWait [(4, EPOLLIN)]) (interest (trace (sys r0)))"
    by (rule run_one_steps [OF 0(1,2) demo_reports(1) demo_reports(3), of 4]) (simp_all add: 0)
  note F1 = world_more_fields [OF 1(4)]
  have ok: "server_ok (sys r1)" using server_reachable_ok [OF 1(2)] by (simp add: machine_ok_def)
  then have L: "valid_fd (listenfd (sys r1))" "listen_routes (sys r1)" by (auto simp: server_ok_def)
  obtain s2 where s2: "ServerTransport_HandleReadEvent demo_accept (listenfd (sys r1)) (sys r1) = Inr s2"
    using HandleReadEvent_ok [of demo_accept 6 "sys r1"] by (auto simp: demo_accept_def MAX_FILE_DESCRIPTORS_def)
  have h: "Server_HandleEvent Handle demo_env (4, READ_EVENT) (sys r1) = Inr s2"
    using HandleEvent_listen(1) [OF L, of Handle demo_env] s2 F1 0 by (simp add: demo_env_def)
  have fresh: "accept_fresh demo_env (sys r1)" using 1(5) 0(5) by (simp add: accept_fresh_def demo_env_def demo_accept_def)
  obtain r2 where 2: "server_step Handle r1 r2" "server_reachable Handle r2" "quiet r2" "sys r2 = s2"
    by (rule finish_one [OF 1(2,3) fresh h])
  have E: "interest (trace s2) 6 = Some (EPOLL_FLAGS_IN_ONESHOT OR EPOLLET, True) \<and>
    return_values s2 = (\<lambda>_. []) \<and> listenfd s2 = 4 \<and> ExtraFlags s2 = EPOLLET \<and>
    dictionary s2 = dictionary (sys r0) \<and> app s2 = app (sys r0) \<and> conn_routes s2 6"
    using s2
  proof (cases rule: HandleReadEvent_accepts)
    case (1 fd s1)
    have "fd = 6" using 1(4) by (simp add: demo_accept_def)
    moreover have "interest (trace (sys r1)) 6 = None" "ExtraFlags (sys r1) = EPOLLET" "listenfd (sys r1) = 4"
      using \<open>interest (trace (sys r1)) = _\<close> 0(3-5) F1 by simp_all
    ultimately show ?thesis using 1(5-11) 0 F1 by (simp add: conn_routes_def)
  qed
  then have I2: "interest (trace s2) 6 = Some (EPOLL_FLAGS_IN_ONESHOT OR EPOLLET, True)" and C2: "conn_routes s2 6" by simp_all
  obtain r3 where 3: "(server_step Handle)\<^sup>*\<^sup>* r2 r3" "server_reachable Handle r3" "busy (6, READ_EVENT) r3"
    "world.more (sys r3) = world.more s2"
    "interest (trace (sys r3)) = interest_step (EpollWait [(6, EPOLLIN)]) (interest (trace s2))"
    by (rule run_one_steps [OF 2(2,3) demo_reports(1) demo_reports(3), of 6]) (simp_all add: 2 I2)
  note F3 = world_more_fields [OF 3(4)]
  have "conn_routes (sys r3) 6" using routes_cong(2) [of "sys r3" s2] F3 C2 by simp
  moreover have "(server_step Handle)\<^sup>*\<^sup>* r0 r3" using 1(1) 2(1) 3(1) by (meson rtranclp.rtrancl_into_rtrancl rtranclp_trans)
  ultimately show thesis using 3 F3 E I2 by (intro that [of r3]) simp_all
qed

lemma demo_reading:
  obtains r where "server_reachable demo_Handle r" "busy (6, READ_EVENT) r" "listenfd (sys r) = 4"
    "interest (trace (sys r)) 6 \<noteq> None" "return_values (sys r) = (\<lambda>_. [])" "ExtraFlags (sys r) = EPOLLET"
    "dictionary (sys r) ''KVGetter'' = Some 0" "conn_routes (sys r) 6"
proof -
  obtain r0 where 0: "server_reachable demo_Handle r0" "quiet r0" "listenfd (sys r0) = 4" "ExtraFlags (sys r0) = EPOLLET"
    "interest (trace (sys r0)) = (\<lambda>_. None)(4 := Some (EPOLL_FLAGS_IN_ONESHOT OR EPOLLET, True))"
    "return_values (sys r0) = (\<lambda>_. [])" "dictionary (sys r0) ''KVGetter'' = Some 0" "machine_ok r0"
    by (rule demo_start)
  show thesis by (rule run_accept [OF 0(1-6)]) (rule that; simp add: 0)
qed

lemma demo_writing:
  obtains r where "server_reachable demo_Handle r" "busy (6, WRITE_EVENT) r" "listenfd (sys r) = 4"
proof -
  obtain r3 where 3: "server_reachable demo_Handle r3" "busy (6, READ_EVENT) r3" "listenfd (sys r3) = 4"
    "interest (trace (sys r3)) 6 \<noteq> None" "return_values (sys r3) = (\<lambda>_. [])" "ExtraFlags (sys r3) = EPOLLET"
    "dictionary (sys r3) ''KVGetter'' = Some 0" "conn_routes (sys r3) 6"
    by (rule demo_reading)
  define s4 where "s4 = served 6 demo_message demo_result (Suc (app (sys r3))) (recv_trace 6 demo_recv (sys r3))"
  have "service_for demo_message (sys r3) = Some 0"
    using demo_service 3(7) by (simp add: service_for_def demo_server_def demo_message_def demo_header_def
        split: if_splits sum.splits)
  moreover have "demo_Handle 0 demo_message (app (sys r3)) = Inr (demo_result, Suc (app (sys r3)))"
    by (simp add: demo_Handle_def)
  ultimately have "RequestHandler_HandleReadEvent demo_Handle demo_recv (RecvOk []) 6 (sys r3) = Inr s4"
    using handle_message_served [of demo_message "recv_trace 6 demo_recv (sys r3)" 0 demo_Handle demo_result _ 6]
    by (simp add: HandleReadEvent_request [OF demo_request] s4_def MAX_FILE_DESCRIPTORS_def)
  then have h: "Server_HandleEvent demo_Handle (demo_env\<lparr>en_accept := demo_accept\<lparr>acc_ret := -1\<rparr>\<rparr>) (6, READ_EVENT) (sys r3) = Inr s4"
    using HandleEvent_conn(1) [OF _ 3(8)] by (simp add: demo_env_def MAX_FILE_DESCRIPTORS_def)
  have fresh: "accept_fresh (demo_env\<lparr>en_accept := demo_accept\<lparr>acc_ret := -1\<rparr>\<rparr>) (sys r3)"
    by (simp add: accept_fresh_def)
  obtain r4 where 4: "server_reachable demo_Handle r4" "quiet r4" "sys r4 = s4"
    by (rule finish_one [OF 3(1,2) fresh h])
  have "need_return (header demo_message)" by (simp add: demo_message_def demo_header_def)
  then have I4: "interest (trace s4) 6 = Some (EPOLL_FLAGS_INOUT_ONESHOT OR EPOLLET, True)" "listenfd s4 = 4"
    using 3 by (auto simp: s4_def served_def Let_def emit_def rearm_mask_def recv_trace_def split: recv_result.split)
  obtain r5 where 5: "server_reachable demo_Handle r5" "busy (6, WRITE_EVENT) r5" "world.more (sys r5) = world.more s4"
    by (rule run_one [OF 4(1,2) demo_reports(2) demo_reports(4), of 6]) (simp_all add: 4 I4)
  show thesis using that 5 world_more_fields [OF 5(3)] I4 by simp
qed

section \<open>Properties\<close>

text \<open>
  C10. In every reachable state, whatever the interleaving of the loop and the four workers, each
  descriptor has at most one task dispatched and unfinished, and none while it is armed. So two
  handlers of one connection never run at the same time.
\<close>

theorem one_task_per_descriptor:
  assumes "server_reachable Handle r"
  shows "distinct (map fst (in_flight r)) \<and> (\<forall>t \<in> set (in_flight r). armed (trace (sys r)) (fst t) = None)"
  using server_reachable_ok [OF assms] by (fastforce simp: machine_ok_def task_ok_def armed_def)

theorem one_task_per_descriptor_witness:
  "\<exists>r. server_reachable demo_Handle r \<and> busy (6, WRITE_EVENT) r \<and> armed (trace (sys r)) 6 = None"
proof -
  obtain r where "server_reachable demo_Handle r" "busy (6, WRITE_EVENT) r" by (rule demo_writing)
  with one_task_per_descriptor [of demo_Handle r] busy_in_flight [of "(6, WRITE_EVENT)" r] show ?thesis by auto
qed

text \<open>
  C11. The \<open>assert\<close> of \<open>ReturnValuePipe::Read\<close> never fails in a running server: a write task of a
  connection finds a result in its queue, sends the oldest one and succeeds unless the socket
  reports a hard error.
\<close>

theorem write_task_sends:
  assumes "server_reachable Handle r" "(fd, WRITE_EVENT) \<in> set (in_flight r)" "fd \<noteq> listenfd (sys r)"
    and "\<And>errno. en_send e = SendErr errno \<Longrightarrow> errno = EAGAIN"
  shows "\<exists>x xs s'. return_values (sys r) fd = x # xs \<and>
    Server_HandleEvent Handle e (fd, WRITE_EVENT) (sys r) = Inr s' \<and> return_values s' fd = xs \<and>
    Send fd (result_bytes x) \<in> set (drop (length (trace (sys r))) (trace s'))"
proof -
  have ok: "server_ok (sys r)" and t: "task_ok (sys r) (fd, WRITE_EVENT)"
    using server_reachable_ok [OF assms(1)] assms(2) by (auto simp: machine_ok_def)
  then obtain x xs where x: "return_values (sys r) fd = x # xs"
    by (auto simp: task_ok_def neq_Nil_conv)
  note v = task_valid [OF ok t]
  have "conn_routes (sys r) fd" using ok v assms(3) by (auto simp: server_ok_def)
  then have h: "Server_HandleEvent Handle e (fd, WRITE_EVENT) (sys r) = ResultSender_HandleWriteEvent (en_send e) fd (sys r)"
    using v by (simp add: HandleEvent_conn)
  show ?thesis
    unfolding h using x v assms(4)
    by (cases "en_send e") (auto simp: ResultSender_HandleWriteEvent_def Pipe_Read_def pipe_at_def Let_def
        FileDescriptorEventDone_eq)
qed

theorem write_task_sends_witness:
  "\<exists>(r :: (nat, nat) machine) x xs s'. server_reachable demo_Handle r \<and> return_values (sys r) 6 = x # xs \<and>
    Server_HandleEvent demo_Handle demo_env (6, WRITE_EVENT) (sys r) = Inr s' \<and> return_values s' 6 = xs"
proof -
  obtain r :: "(nat, nat) machine" where r: "server_reachable demo_Handle r" "busy (6, WRITE_EVENT) r" "listenfd (sys r) = 4"
    by (rule demo_writing)
  have "\<exists>x xs s'. return_values (sys r) 6 = x # xs \<and>
    Server_HandleEvent demo_Handle demo_env (6, WRITE_EVENT) (sys r) = Inr s' \<and> return_values s' 6 = xs \<and>
    Send 6 (result_bytes x) \<in> set (drop (length (trace (sys r))) (trace s'))"
    by (rule write_task_sends [OF r(1)]) (use r busy_in_flight [OF r(2)] in \<open>simp_all add: demo_env_def\<close>)
  with r(1) show ?thesis by blast
qed



text \<open>
  C13. A refused request silences its connection for good: after a read task whose bytes are not a
  request for a registered service (a short read, a wrong magic number, an unknown name), in no
  state the server can reach afterwards is the descriptor armed or handled again, not even for the
  close of the peer.
\<close>

theorem refused_connection_is_stuck:
  assumes "server_reachable Handle r" "i < length (workers (pool r))" "workers (pool r) ! i = Running (fd, READ_EVENT)"
    and "fd \<noteq> listenfd (sys r)" "Server_HandleEvent Handle e (fd, READ_EVENT) (sys r) = Inr s'"
    and "\<And>m. request_of (en_recv_header e) (en_recv_body e) = Some m \<Longrightarrow> service_for m (sys r) = None"
    and "(server_step Handle)\<^sup>*\<^sup>* (r\<lparr>sys := s', pool := worker_step i (pool r)\<rparr>) r'"
  shows "armed (trace (sys r')) fd = None \<and> fd \<notin> fst ` set (in_flight r')"
proof -
  let ?r1 = "r\<lparr>sys := s', pool := worker_step i (pool r)\<rparr>"
  have inv: "machine_ok r" by (rule server_reachable_ok [OF assms(1)])
  then have d: "distinct (map fst (in_flight r))" and ok: "server_ok (sys r)" by (simp_all add: machine_ok_def)
  note D = in_flight_drop [OF in_flight_finish [OF assms(2,3), of s'] d]
  have t: "task_ok (sys r) (fd, READ_EVENT)" using inv D(4) by (auto simp: machine_ok_def)
  note v = task_valid [OF ok t]
  have "conn_routes (sys r) fd" using ok v assms(4) by (auto simp: server_ok_def)
  then have h: "RequestHandler_HandleReadEvent Handle (en_recv_header e) (en_recv_body e) fd (sys r) = Inr s'"
    using v assms(5) by (simp add: HandleEvent_conn)
  have same: "same_but_log (sys r) s'"
  proof (cases "request_of (en_recv_header e) (en_recv_body e)")
    case None
    with h HandleReadEvent_no_request show ?thesis by blast
  next
    case (Some m)
    then have "same_but_log (recv_trace fd (en_recv_header e) (sys r)) s'"
      using h assms(6) by (intro handle_message_refused [of m]) (auto simp: HandleReadEvent_request [OF Some])
    then show ?thesis by (rule same_but_log_trans [OF recv_trace_same])
  qed
  have "stuck fd ?r1"
    using t D(3) same_but_log_fields(1) [OF same] by (force simp: stuck_def task_ok_def)
  moreover have "machine_ok ?r1"
    using D(1,2) inv same_but_log_ok [OF same] by (auto simp: machine_ok_def)
  ultimately have "stuck fd r'" using stuck_steps [OF assms(7)] by blast
  then show ?thesis by (auto simp: stuck_def armed_def)
qed

theorem refused_connection_is_stuck_witness:
  "\<exists>r s'. server_reachable demo_Handle r \<and> workers (pool r) ! 0 = Running (6, READ_EVENT) \<and>
    Server_HandleEvent demo_Handle (demo_env\<lparr>en_recv_header := RecvOk ''short''\<rparr>) (6, READ_EVENT) (sys r) = Inr s' \<and>
    armed (trace s') 6 = None"
proof -
  let ?e = "demo_env\<lparr>en_recv_header := RecvOk ''short''\<rparr>"
  obtain r :: "(nat, nat) machine" where r: "server_reachable demo_Handle r" "busy (6, READ_EVENT) r"
    "listenfd (sys r) = 4" "conn_routes (sys r) 6"
    by (rule demo_reading)
  have h: "\<exists>s'. Server_HandleEvent demo_Handle ?e (6, READ_EVENT) (sys r) = Inr s'"
    using HandleEvent_conn(1) [OF _ r(4)] by (simp add: MAX_FILE_DESCRIPTORS_def RequestHandler_HandleReadEvent_def
        demo_env_def sizeof_RpcHeader_def)
  then obtain s' where s': "Server_HandleEvent demo_Handle ?e (6, READ_EVENT) (sys r) = Inr s'" ..
  have w: "0 < length (workers (pool r))" "workers (pool r) ! 0 = Running (6, READ_EVENT)"
    using r(2) by (simp_all add: busy_def)
  have "request_of (en_recv_header ?e) (en_recv_body ?e) = None"
    by (simp add: request_of_def sizeof_RpcHeader_def)
  with refused_connection_is_stuck [OF r(1) w _ s', of "r\<lparr>sys := s', pool := worker_step 0 (pool r)\<rparr>"] r(3)
  have "armed (trace s') 6 = None" by simp
  with r(1) w s' show ?thesis by blast
qed

end
