(* ===== verification/ClientTransport.thy ===== *)
theory ClientTransport
  imports RpcEventHandler
begin

text \<open>
  \<open>include/transport/ClientTransport.hh\<close>, \<open>source/transport/ClientTransport.cc\<close>: the client's
  connection and its queue of requests.

  \<open>client_transport\<close> is the object's state: its poller (level-triggered), \<open>Connfd\<close> and
  \<open>PendingRequests\<close>. \<open>Push\<close> and \<open>HandleWriteEvent\<close> hold the mutex \<open>mu\<close> while they touch the queue, so
  each is one step. What the socket calls answer is in \<open>connect_env\<close> and \<open>send_result\<close>. The
  uninitialised send buffer and the header's padding are the parameters \<open>buf\<close> and \<open>pad\<close>.

  Lemmas: output is polled for exactly while requests wait; requests leave in the order of \<open>Push\<close>.
\<close>

section \<open>The model\<close>

record client_transport = poller +
  Connfd :: int
  PendingRequests :: "RpcMessage list"

text \<open>
  \<open>con_pton\<close>: the result of \<open>inet_pton\<close>; the error text of a call that fails, else \<open>None\<close>.
\<close>

record connect_env =
  con_pton :: int
  con_socket :: int
  con_errtext :: string
  con_rcvbuf :: "string option"
  con_sndbuf :: "string option"
  con_connect :: "string option"

definition ConnectTo :: "connect_env \<Rightarrow> string \<Rightarrow> int \<Rightarrow> 'a world_scheme \<Rightarrow> int \<times> 'a world_scheme" where
  "ConnectTo e ip port w =
     (if con_pton e \<le> 0 then (-1, emit (LogErr ''Invalid IP address: %s\<newline>'' [LStr ip]) w)
      else
        let sockfd = con_socket e; w = emit Socket w in
        if sockfd < 0 then (-1, emit (LogErr ''Socket creation failed: %s\<newline>'' [LStr (con_errtext e)]) w)
        else
          let w = emit (SetSockBuf sockfd) w in
          case con_rcvbuf e of
            Some msg \<Rightarrow> (-1, emit (Close sockfd) (emit (LogErr ''Failed to set receive buffer size: %s\<newline>'' [LStr msg]) w))
          | None \<Rightarrow>
              let w = emit (SetSockBuf sockfd) w in
              case con_sndbuf e of
                Some msg \<Rightarrow> (-1, emit (Close sockfd) (emit (LogErr ''Failed to set send buffer size: %s\<newline>'' [LStr msg]) w))
              | None \<Rightarrow>
                  let w = emit (Connect sockfd ip port) w in
                  case con_connect e of
                    Some msg \<Rightarrow> (-1, emit (Close sockfd) (emit (LogErr ''Connect failed: %s\<newline>'' [LStr msg]) w))
                  | None \<Rightarrow> (sockfd, w))"

definition ClientTransport_init :: "int \<Rightarrow> client_transport result" where
  "ClientTransport_init Epollfd = bindE (Poller_init Epollfd False) (\<lambda>p.
     Inr \<lparr>trace = trace p, ExtraFlags = ExtraFlags p, Connfd = -1, PendingRequests = []\<rparr>)"

definition ClientTransport_destroy :: "'a client_transport_scheme \<Rightarrow> 'a client_transport_scheme" where
  "ClientTransport_destroy c = emit (Close (Connfd c)) c"

definition ClientTransport_Connect ::
  "connect_env \<Rightarrow> string \<Rightarrow> int \<Rightarrow> 'a client_transport_scheme \<Rightarrow> (int \<times> 'a client_transport_scheme) result" where
  "ClientTransport_Connect e ip port c =
     (let (fd, c) = ConnectTo e ip port c; c = c\<lparr>Connfd := fd\<rparr> in
      if Connfd c < 0 then Inl (ProcessExit 1)
      else let c = AddEvent (Connfd c) EPOLL_FLAGS_IN c in Inr (Connfd c, c))"

definition ClientTransport_Push :: "RpcMessage \<Rightarrow> 'a client_transport_scheme \<Rightarrow> 'a client_transport_scheme result" where
  "ClientTransport_Push Message c =
     bindE (assertE (Connfd c \<noteq> -1)) (\<lambda>_.
       Inr (ModEvent (Connfd c) EPOLL_FLAGS_INOUT (c\<lparr>PendingRequests := PendingRequests c @ [Message]\<rparr>)))"

text \<open>A negative result of \<open>Serialize\<close> is passed on as a huge length.\<close>

definition ClientTransport_Send ::
  "byte list \<Rightarrow> byte list \<Rightarrow> send_result \<Rightarrow> RpcMessage \<Rightarrow> 'a client_transport_scheme \<Rightarrow>
   'a client_transport_scheme result" where
  "ClientTransport_Send pad buf r Message c =
     bindE (Serialize_message pad Message buf) (\<lambda>(buf', size).
     bindE (read_at 0 (size_t_of_int size) buf') (\<lambda>bytes.
       let c = emit (Send (Connfd c) bytes) c in
       case r of
         SendErr errno \<Rightarrow> Inr (emit (LogDev ''ClientTransport::Send: Send message failed\<newline>'' []) c)
       | SendOk n \<Rightarrow> Inr c))"

definition ClientTransport_HandleWriteEvent ::
  "byte list \<Rightarrow> byte list \<Rightarrow> send_result \<Rightarrow> int \<Rightarrow> 'a client_transport_scheme \<Rightarrow>
   'a client_transport_scheme result" where
  "ClientTransport_HandleWriteEvent pad buf r Fd c =
     bindE (assertE (Fd = Connfd c)) (\<lambda>_.
     bindE (case PendingRequests c of
         [] \<Rightarrow> Inr c
       | m # ms \<Rightarrow> bindE (ClientTransport_Send pad buf r m c) (\<lambda>c. Inr (c\<lparr>PendingRequests := tl (PendingRequests c)\<rparr>)))
     (\<lambda>c. if PendingRequests c = [] then Inr (ModEvent (Connfd c) EPOLL_FLAGS_IN c) else Inr c))"

definition ClientTransport_HandleCloseEvent :: "int \<Rightarrow> 'a client_transport_scheme \<Rightarrow> 'a client_transport_scheme result" where
  "ClientTransport_HandleCloseEvent Fd c = Inl (ProcessExit 1)"

section \<open>Lemmas\<close>

lemma client_transport_ctl [simp]:
  "Connfd (emit x c) = Connfd c" "PendingRequests (emit x c) = PendingRequests c"
  "Connfd (ModEvent fd ev c) = Connfd c" "PendingRequests (ModEvent fd ev c) = PendingRequests c"
  "Connfd (AddEvent fd ev c) = Connfd c" "PendingRequests (AddEvent fd ev c) = PendingRequests c"
  "client_transport.more (emit x c) = client_transport.more c"
  "client_transport.more (ModEvent fd ev c) = client_transport.more c"
  "client_transport.more (AddEvent fd ev c) = client_transport.more c"
  by (simp_all add: emit_def ModEvent_def AddEvent_def CtrlEvent_def setnonblocking_def)

text \<open>A message \<open>Send\<close> can serialise: the arrays have their sizes, the body length is in range.\<close>

definition sendable :: "RpcMessage \<Rightarrow> bool" where
  "sendable m \<longleftrightarrow> wf_message m \<and> 0 \<le> sint (body_length (header m)) \<and> sint (body_length (header m)) \<le> 480"

text \<open>What is sent for it: the header and the used part of the body.\<close>

definition wire :: "byte list \<Rightarrow> RpcMessage \<Rightarrow> byte list" where
  "wire pad m = header_bytes pad (header m) @ take (nat (sint (body_length (header m)))) (parameters (body m))"

lemma sint_add48:
  assumes "0 \<le> sint (w::int32)" "sint w \<le> 480"
  shows "size_t_of_int (48 + w) = 48 + nat (sint w)"
proof -
  have "sint (48 + w) = 48 + sint w"
    using assms by (simp add: sint_word_ariths(1) signed_take_bit_int_eq_self)
  with assms show ?thesis by (subst size_t_of_int_nonneg) auto
qed

lemma Serialize_wire:
  assumes "sendable m" "length pad = 3" "length buf = MAX_BUFFER"
  shows "\<exists>buf'. Serialize_message pad m buf = Inr (buf', 48 + body_length (header m)) \<and>
    read_at 0 (size_t_of_int (48 + body_length (header m))) buf' = Inr (wire pad m)"
proof -
  define n where "n = nat (sint (body_length (header m)))"
  have s: "0 \<le> sint (body_length (header m))" "sint (body_length (header m)) \<le> 480"
    using assms(1) by (simp_all add: sendable_def)
  have sz: "size_t_of_int (body_length (header m)) = n" "size_t_of_int (48 + body_length (header m)) = 48 + n"
    using s by (simp_all add: size_t_of_int_nonneg sint_add48 n_def)
  have n: "n \<le> 480" using s by (simp add: n_def)
  have hl: "length (header_bytes pad (header m)) = 48"
    using assms(1,2) length_header_bytes by (simp add: sendable_def wf_message_def sizeof_RpcHeader_def)
  have pl: "length (parameters (body m)) = 480" using assms(1) by (simp add: sendable_def wf_message_def rpc_consts)
  have bl: "length buf = 1024" using assms(3) by (simp add: rpc_consts)
  show ?thesis
    using n unfolding wire_def n_def [symmetric] sz
    by (simp add: Serialize_message_def sz hl pl bl buf_simps sizeof_RpcHeader_def)
qed

text \<open>\<open>Send\<close> of such a message changes only the trace.\<close>

lemma Send_sendable:
  assumes "sendable m" "length pad = 3" "length buf = MAX_BUFFER"
  obtains l where "ClientTransport_Send pad buf r m c = Inr (fold emit l c)" "hd l = Send (Connfd c) (wire pad m)"
    "l = [Send (Connfd c) (wire pad m)] \<or> (\<exists>errno. r = SendErr errno) \<and>
      l = [Send (Connfd c) (wire pad m), LogDev ''ClientTransport::Send: Send message failed\<newline>'' []]"
proof -
  obtain buf' where b: "Serialize_message pad m buf = Inr (buf', 48 + body_length (header m))"
    "read_at 0 (size_t_of_int (48 + body_length (header m))) buf' = Inr (wire pad m)"
    using Serialize_wire [OF assms] by blast
  show thesis
  proof (cases r)
    case (SendErr errno)
    show ?thesis
      by (rule that [of "[Send (Connfd c) (wire pad m), LogDev ''ClientTransport::Send: Send message failed\<newline>'' []]"])
        (simp_all add: ClientTransport_Send_def b SendErr)
  next
    case (SendOk n)
    show ?thesis
      by (rule that [of "[Send (Connfd c) (wire pad m)]"]) (simp_all add: ClientTransport_Send_def b SendOk)
  qed
qed

text \<open>The packets sent along a trace.\<close>

definition sent_of :: "io \<Rightarrow> byte list list" where
  "sent_of x = (case x of Send fd b \<Rightarrow> [b] | _ \<Rightarrow> [])"

definition sends :: "io list \<Rightarrow> byte list list" where
  "sends tr = concat (map sent_of tr)"

lemma sends_simps [simp]:
  "sends [] = []" "sends (xs @ ys) = sends xs @ sends ys" "sends (x # xs) = sent_of x @ sends xs"
  by (simp_all add: sends_def)

lemma sent_of_simps [simp]:
  "sent_of (Send fd b) = [b]" "sent_of (EpollCtl a b' c) = []" "sent_of (LogDev f as) = []"
  by (simp_all add: sent_of_def)

text \<open>Polling for output is on exactly while requests wait.\<close>

definition transport_ok :: "'a client_transport_scheme \<Rightarrow> bool" where
  "transport_ok c \<longleftrightarrow> 0 \<le> Connfd c \<and> ExtraFlags c = 0 \<and> list_all sendable (PendingRequests c) \<and>
     interest (trace c) (Connfd c) =
       Some (if PendingRequests c = [] then EPOLL_FLAGS_IN else EPOLL_FLAGS_INOUT, True)"

lemma Push_ok:
  assumes "transport_ok c" "sendable m"
  obtains c' where "ClientTransport_Push m c = Inr c'" "transport_ok c'" "Connfd c' = Connfd c"
    "PendingRequests c' = PendingRequests c @ [m]" "client_transport.more c' = client_transport.more c"
    "\<And>fd. fd \<noteq> Connfd c \<Longrightarrow> interest (trace c') fd = interest (trace c) fd"
proof
  let ?c = "ModEvent (Connfd c) EPOLL_FLAGS_INOUT (c\<lparr>PendingRequests := PendingRequests c @ [m]\<rparr>)"
  show "ClientTransport_Push m c = Inr ?c"
    using assms by (simp add: ClientTransport_Push_def transport_ok_def)
  show "transport_ok ?c" using assms by (simp add: transport_ok_def)
qed simp_all

lemma fold_emit [simp]:
  "trace (fold emit l c) = trace c @ l"
  "Connfd (fold emit l (c :: 'a client_transport_scheme)) = Connfd c"
  "PendingRequests (fold emit l c) = PendingRequests c"
  "ExtraFlags (fold emit l c) = ExtraFlags c"
  "client_transport.more (fold emit l c) = client_transport.more c"
  by (induction l arbitrary: c) simp_all

lemma HandleWriteEvent_ok:
  assumes "transport_ok c" "length pad = 3" "length buf = MAX_BUFFER"
  obtains c' l where "ClientTransport_HandleWriteEvent pad buf r (Connfd c) c = Inr c'" "transport_ok c'"
    "Connfd c' = Connfd c" "PendingRequests c' = tl (PendingRequests c)"
    "client_transport.more c' = client_transport.more c" "trace c' = trace c @ l"
    "sends l = map (wire pad) (take 1 (PendingRequests c))"
proof (cases "PendingRequests c")
  case Nil
  let ?c = "ModEvent (Connfd c) EPOLL_FLAGS_IN c"
  have "ClientTransport_HandleWriteEvent pad buf r (Connfd c) c = Inr ?c"
    by (simp add: ClientTransport_HandleWriteEvent_def Nil)
  then show thesis
    using assms(1) Nil by (intro that [of ?c]) (auto simp: transport_ok_def)
next
  case (Cons m ms)
  then have m: "sendable m" using assms(1) by (simp add: transport_ok_def)
  obtain l where l: "ClientTransport_Send pad buf r m c = Inr (fold emit l c)"
    "l = [Send (Connfd c) (wire pad m)] \<or> (\<exists>errno. r = SendErr errno) \<and>
      l = [Send (Connfd c) (wire pad m), LogDev ''ClientTransport::Send: Send message failed\<newline>'' []]"
    by (rule Send_sendable [OF m assms(2,3), of r c]) blast
  have I: "interest (trace c @ l) = interest (trace c)" using l(2) by auto
  let ?c1 = "(fold emit l c)\<lparr>PendingRequests := ms\<rparr>"
  let ?c = "if ms = [] then ModEvent (Connfd c) EPOLL_FLAGS_IN ?c1 else ?c1"
  have h: "ClientTransport_HandleWriteEvent pad buf r (Connfd c) c = Inr ?c"
    using l(1) Cons by (simp add: ClientTransport_HandleWriteEvent_def)
  have "trace ?c = trace c @ l @ (if ms = [] then [EpollCtl EPOLL_CTL_MOD (Connfd c) (EPOLL_FLAGS_IN OR ExtraFlags c)] else [])"
    by simp
  then show thesis
    using assms(1) Cons l(2) I by (intro that [OF h]) (auto simp: transport_ok_def)
qed

section \<open>Runs of pushes and write events\<close>

datatype client_op = CPush RpcMessage | CWrite send_result

fun client_ops :: "byte list \<Rightarrow> byte list \<Rightarrow> client_op list \<Rightarrow> client_transport \<Rightarrow> client_transport result" where
  "client_ops pad buf [] c = Inr c"
| "client_ops pad buf (CPush m # ops) c = bindE (ClientTransport_Push m c) (client_ops pad buf ops)"
| "client_ops pad buf (CWrite r # ops) c =
     bindE (ClientTransport_HandleWriteEvent pad buf r (Connfd c) c) (client_ops pad buf ops)"

fun pushed :: "client_op list \<Rightarrow> RpcMessage list" where
  "pushed [] = []"
| "pushed (CPush m # ops) = m # pushed ops"
| "pushed (CWrite r # ops) = pushed ops"

lemma client_ops_run:
  assumes "length pad = 3" "length buf = MAX_BUFFER"
  shows "transport_ok c \<Longrightarrow> list_all sendable (pushed ops) \<Longrightarrow>
    \<exists>c'. client_ops pad buf ops c = Inr c' \<and> transport_ok c' \<and> Connfd c' = Connfd c \<and>
      sends (trace c') @ map (wire pad) (PendingRequests c') =
      sends (trace c) @ map (wire pad) (PendingRequests c @ pushed ops)"
proof (induction ops arbitrary: c)
  case (Cons op ops)
  show ?case
  proof (cases op)
    case (CPush m)
    with Cons.prems have m: "sendable m" "list_all sendable (pushed ops)" by simp_all
    let ?c1 = "ModEvent (Connfd c) EPOLL_FLAGS_INOUT (c\<lparr>PendingRequests := PendingRequests c @ [m]\<rparr>)"
    have p: "ClientTransport_Push m c = Inr ?c1" "transport_ok ?c1"
      using Cons.prems(1) m by (simp_all add: ClientTransport_Push_def transport_ok_def)
    from Cons.IH [OF p(2) m(2)] show ?thesis by (simp add: CPush p)
  next
    case (CWrite r)
    obtain c1 l where w: "ClientTransport_HandleWriteEvent pad buf r (Connfd c) c = Inr c1" "transport_ok c1"
      "Connfd c1 = Connfd c" "PendingRequests c1 = tl (PendingRequests c)" "trace c1 = trace c @ l"
      "sends l = map (wire pad) (take 1 (PendingRequests c))"
      by (rule HandleWriteEvent_ok [OF Cons.prems(1) assms, of r]) blast
    have split: "map (wire pad) (take (Suc 0) xs) @ map (wire pad) (tl xs) @ ys = map (wire pad) xs @ ys" for xs ys
      by (cases xs) simp_all
    from Cons.IH [OF w(2)] Cons.prems w show ?thesis by (simp add: CWrite split)
  qed
qed auto

section \<open>Properties\<close>

text \<open>
  Requests leave in the order of \<open>Push\<close> and none is lost before it is sent: over any
  interleaving of pushes and write events, whatever \<open>send\<close> answers, no operation fails, the packets
  sent followed by the waiting requests are the pushed requests in order, and the connection is
  polled for output exactly while requests wait.
\<close>

theorem client_sends_in_order:
  assumes "length pad = 3" "length buf = MAX_BUFFER" "transport_ok c" "PendingRequests c = []"
    and "list_all sendable (pushed ops)"
  shows "\<exists>c'. client_ops pad buf ops c = Inr c' \<and>
    sends (trace c') @ map (wire pad) (PendingRequests c') = sends (trace c) @ map (wire pad) (pushed ops) \<and>
    armed (trace c') (Connfd c) = Some (if PendingRequests c' = [] then EPOLL_FLAGS_IN else EPOLL_FLAGS_INOUT)"
  using client_ops_run [OF assms(1-3,5)] assms(4) by (fastforce simp: transport_ok_def armed_def)

definition demo_transport :: client_transport where
  "demo_transport = \<lparr>trace = [EpollCtl EPOLL_CTL_ADD 3 EPOLL_FLAGS_IN], ExtraFlags = 0, Connfd = 3, PendingRequests = []\<rparr>"

lemma demo_transport_ok: "transport_ok demo_transport"
  by (simp add: transport_ok_def demo_transport_def interest_def)

theorem client_sends_in_order_witness:
  "\<exists>c'. client_ops [NUL, NUL, NUL] (replicate 1024 NUL) [CPush demo_message, CWrite (SendErr 11), CPush demo_message] demo_transport = Inr c' \<and>
    sends (trace c') @ map (wire [NUL, NUL, NUL]) (PendingRequests c') =
      [wire [NUL, NUL, NUL] demo_message, wire [NUL, NUL, NUL] demo_message]"
proof -
  have "sendable demo_message"
    by (simp add: sendable_def demo_message_def demo_header_def wf_message_def wf_header_def rpc_consts)
  moreover have "PendingRequests demo_transport = []" "sends (trace demo_transport) = []"
    by (simp_all add: demo_transport_def)
  ultimately show ?thesis
    using client_sends_in_order [of "[NUL, NUL, NUL]" "replicate 1024 NUL" demo_transport
        "[CPush demo_message, CWrite (SendErr 11), CPush demo_message]"] demo_transport_ok
    by (auto simp: rpc_consts)
qed

end
