(* ===== verification/Guid.thy ===== *)
theory Guid
  imports Interfaces
begin

text \<open>
  \<open>include/common/Guid.hh\<close>, \<open>source/common/Guid.cc\<close>: the allocator of call sequence numbers.

  The state is the class's two static members: \<open>Heap\<close>, a vector used as a binary min-heap of
  recycled ids, and \<open>Bound\<close>, the largest id ever created. \<open>GetGuid\<close> and \<open>RecycleGuid\<close> hold
  \<open>HeapMutex\<close> for their whole body, so each is one atomic step. Indices are \<open>nat\<close> (the heap holds
  at most 1024 ids, so no \<open>int\<close> index overflows).

  \<open>Popitem\<close> reads \<open>Heap[0]\<close> after \<open>pop_back\<close> even when the vector has just become empty. The value
  found there is indeterminate: it is the parameter \<open>stale\<close>, and the lemmas show that nothing
  depends on it.

  Lemmas: the percolation loops keep the multiset of ids; \<open>percolate_up\<close> restores the heap order;
  an allocated id is never one that is live; the allocator fails exactly when all 1024 ids are
  live. The downward percolation does not keep the heap order (\<open>Popitem_breaks_heap\<close>).
\<close>

section \<open>The model\<close>

definition MAX_GUID :: int where "MAX_GUID = 1024"

record Guid =
  Heap :: "int list"
  Bound :: int

definition Guid_init :: Guid where
  "Guid_init = \<lparr>Heap = [], Bound = 0\<rparr>"

definition GET :: "int list \<Rightarrow> nat \<Rightarrow> int" where
  "GET h i = (if i < length h then h ! i else 0)"

text \<open>One round of the \<open>while (1)\<close> loop of \<open>Popitem\<close>: the new vector and \<open>nextnid\<close>.\<close>

definition percolate_step :: "int \<Rightarrow> int list \<Rightarrow> nat \<Rightarrow> int list \<times> nat" where
  "percolate_step stale h nid =
     (let nvalue = (if nid < length h then h ! nid else stale);
          lid = 2 * nid + 1; rid = lid + 1;
          lvalue = GET h lid; rvalue = GET h rid;
          (h1, nvalue1, next1) =
            (if lvalue \<noteq> 0 \<and> nvalue > lvalue then (swap h nid lid, lvalue, lid)
             else (h, nvalue, nid))
      in if rvalue \<noteq> 0 \<and> nvalue1 > rvalue
         then (swap h1 nid rid, if next1 = nid then rid else next1)
         else (h1, next1))"

text \<open>What one round can do: nothing, one swap with either child, or a swap with both.\<close>

lemma GET_nonzero: "GET h i \<noteq> 0 \<Longrightarrow> i < length h"
  by (simp add: GET_def split: if_splits)

lemma percolate_step_eq:
  "percolate_step stale h nid =
     (let nvalue = (if nid < length h then h ! nid else stale);
          lvalue = GET h (2 * nid + 1); rvalue = GET h (2 * nid + 2)
      in if lvalue \<noteq> 0 \<and> lvalue < nvalue
         then if rvalue \<noteq> 0 \<and> rvalue < lvalue
              then (swap (swap h nid (2 * nid + 1)) nid (2 * nid + 2), 2 * nid + 1)
              else (swap h nid (2 * nid + 1), 2 * nid + 1)
         else if rvalue \<noteq> 0 \<and> rvalue < nvalue
              then (swap h nid (2 * nid + 2), 2 * nid + 2)
              else (h, nid))"
  by (simp add: percolate_step_def Let_def)

lemma percolate_step_cases:
  assumes st: "percolate_step stale h nid = (h', nx)"
  obtains (stop) "h' = h" "nx = nid"
  | (left) "2 * nid + 1 < length h" "h' = swap h nid (2 * nid + 1)" "nx = 2 * nid + 1"
  | (right) "2 * nid + 2 < length h" "h' = swap h nid (2 * nid + 2)" "nx = 2 * nid + 2"
  | (both) "2 * nid + 2 < length h" "h' = swap (swap h nid (2 * nid + 1)) nid (2 * nid + 2)"
      "nx = 2 * nid + 1"
proof -
  define n where "n = (if nid < length h then h ! nid else stale)"
  define l where "l = GET h (2 * nid + 1)"
  define r where "r = GET h (2 * nid + 2)"
  define bl where "bl \<longleftrightarrow> l \<noteq> 0 \<and> l < n"
  define br where "br \<longleftrightarrow> r \<noteq> 0 \<and> r < (if bl then l else n)"
  have eq: "(h', nx) =
      (if bl then if br then (swap (swap h nid (2 * nid + 1)) nid (2 * nid + 2), 2 * nid + 1)
                  else (swap h nid (2 * nid + 1), 2 * nid + 1)
       else if br then (swap h nid (2 * nid + 2), 2 * nid + 2) else (h, nid))"
    using st unfolding percolate_step_eq Let_def n_def [symmetric] l_def [symmetric]
      r_def [symmetric] bl_def [symmetric] by (cases bl) (auto simp: br_def split: if_splits)
  have bounds: "bl \<Longrightarrow> 2 * nid + 1 < length h" "br \<Longrightarrow> 2 * nid + 2 < length h"
    unfolding bl_def br_def l_def r_def by (auto dest: GET_nonzero)
  show thesis
    by (cases bl; cases br) (use eq bounds that in simp_all)
qed

lemma percolate_step_progress:
  assumes "percolate_step stale h nid = (h', nx)" and "nx \<noteq> nid"
  shows "nid < nx \<and> nx < length h"
  using assms(1) by (cases rule: percolate_step_cases) (use assms(2) in auto)

lemma length_percolate_step:
  assumes "percolate_step stale h nid = (h', nx)"
  shows "length h' = length h"
  using assms by (cases rule: percolate_step_cases) auto

function percolate_down :: "int \<Rightarrow> int list \<Rightarrow> nat \<Rightarrow> int list" where
  "percolate_down stale h nid =
     (let (h', nextnid) = percolate_step stale h nid
      in if nextnid = nid then h' else percolate_down stale h' nextnid)"
  by pat_completeness auto
termination
proof (relation "measure (\<lambda>(stale, h, nid). length h - nid)")
  fix stale h nid p h' nx
  assume "p = percolate_step stale h nid" "(h', nx) = p" "nx \<noteq> nid"
  then have "percolate_step stale h nid = (h', nx)" "nx \<noteq> nid" by simp_all
  from percolate_step_progress [OF this] length_percolate_step [OF this(1)]
  show "((stale, h', nx), (stale, h, nid)) \<in> measure (\<lambda>(stale, h, nid). length h - nid)"
    by (simp add: diff_less_mono2)
qed simp

declare percolate_down.simps [simp del]

definition Popitem :: "int \<Rightarrow> int list \<Rightarrow> int \<times> int list" where
  "Popitem stale h =
     (h ! 0, percolate_down stale (butlast (swap h 0 (length h - 1))) 0)"

definition GetGuid :: "int \<Rightarrow> Guid \<Rightarrow> int \<times> Guid" where
  "GetGuid stale s =
     (if Heap s = []
      then if Bound s \<ge> MAX_GUID then (-1, s)
           else (Bound s + 1, s\<lparr>Bound := Bound s + 1\<rparr>)
      else let (ret, h) = Popitem stale (Heap s) in (ret, s\<lparr>Heap := h\<rparr>))"

function percolate_up :: "int list \<Rightarrow> nat \<Rightarrow> int list" where
  "percolate_up h nid =
     (if nid \<noteq> 0
      then let rootid = (nid - 1) div 2
           in if h ! rootid > h ! nid then percolate_up (swap h nid rootid) rootid else h
      else h)"
  by pat_completeness auto
termination by (relation "measure snd") auto

declare percolate_up.simps [simp del]

definition Pushitem :: "int \<Rightarrow> int list \<Rightarrow> int list" where
  "Pushitem i h = percolate_up (h @ [i]) (length h)"

definition RecycleGuid :: "int \<Rightarrow> Guid \<Rightarrow> Guid" where
  "RecycleGuid i s = s\<lparr>Heap := Pushitem i (Heap s)\<rparr>"

section \<open>The percolation loops permute the vector\<close>

lemma mset_percolate_step:
  assumes "percolate_step stale h nid = (h', nx)" and "nid < length h"
  shows "mset h' = mset h"
  using assms(1) by (cases rule: percolate_step_cases) (use assms(2) in \<open>auto simp: mset_swap_eq\<close>)

lemma percolate_step_keeps:
  assumes "percolate_step stale h nid = (h', nx)" and "nid < length h" and "k < nid"
  shows "h' ! k = h ! k"
  using assms(1) by (cases rule: percolate_step_cases) (use assms(2,3) in \<open>auto simp: nth_swap\<close>)

lemma percolate_down_perm:
  "nid < length h \<Longrightarrow> mset (percolate_down stale h nid) = mset h"
proof (induction stale h nid rule: percolate_down.induct)
  case (1 stale h nid)
  obtain h' nx where st: "percolate_step stale h nid = (h', nx)" by fastforce
  show ?case
    using mset_percolate_step [OF st "1.prems"] "1.IH" [OF _ st [symmetric]]
      percolate_step_progress [OF st] length_percolate_step [OF st]
    by (subst percolate_down.simps) (auto simp: st)
qed

lemma percolate_down_keeps:
  "nid < length h \<Longrightarrow> k < nid \<Longrightarrow> percolate_down stale h nid ! k = h ! k"
proof (induction stale h nid rule: percolate_down.induct)
  case (1 stale h nid)
  obtain h' nx where st: "percolate_step stale h nid = (h', nx)" by fastforce
  show ?case
    using percolate_step_keeps [OF st "1.prems"] "1.IH" [OF _ st [symmetric]] "1.prems"
      percolate_step_progress [OF st] length_percolate_step [OF st]
    by (subst percolate_down.simps) (auto simp: st)
qed

lemma percolate_step_empty: "percolate_step stale [] 0 = ([], 0)"
  by (simp add: percolate_step_def GET_def)

lemma percolate_down_empty [simp]: "percolate_down stale [] 0 = []"
  by (subst percolate_down.simps) (simp add: percolate_step_empty)

lemma percolate_step_stale: "nid < length h \<Longrightarrow> percolate_step a h nid = percolate_step b h nid"
  by (simp add: percolate_step_def)

lemma percolate_down_stale: "nid < length h \<Longrightarrow> percolate_down a h nid = percolate_down b h nid"
proof (induction a h nid rule: percolate_down.induct)
  case (1 a h nid)
  obtain h' nx where st: "percolate_step a h nid = (h', nx)" by fastforce
  then have st': "percolate_step b h nid = (h', nx)"
    using percolate_step_stale [OF "1.prems", of b a] by simp
  show ?case
    using "1.IH" [OF _ st [symmetric]] percolate_step_progress [OF st] length_percolate_step [OF st]
    by (subst (1 2) percolate_down.simps) (auto simp: st st')
qed

lemma mset_take_out_first:
  assumes "h \<noteq> []"
  shows "mset (butlast (swap h 0 (length h - 1))) = mset h - {#h ! 0#}"
proof -
  let ?t = "swap h 0 (length h - 1)"
  have ne: "?t \<noteq> []" using assms by (metis length_0_conv length_swap)
  have "last ?t = h ! 0"
    using assms ne by (simp add: last_conv_nth nth_swap)
  moreover have "mset ?t = mset (butlast ?t) + {#last ?t#}"
    using ne by (metis append_butlast_last_id mset.simps mset_append)
  moreover have "mset ?t = mset h" using assms by (simp add: mset_swap_eq)
  ultimately show ?thesis by (metis add_diff_cancel_right')
qed

lemma Popitem_spec:
  assumes "h \<noteq> []" and "Popitem stale h = (x, h')"
  shows "x = h ! 0" "mset h' = mset h - {#x#}" "length h = Suc (length h')"
proof -
  let ?t = "butlast (swap h 0 (length h - 1))"
  from assms(2) have x: "x = h ! 0" and h': "h' = percolate_down stale ?t 0"
    by (simp_all add: Popitem_def)
  show "x = h ! 0" by (rule x)
  have "mset h' = mset ?t"
  proof (cases "?t = []")
    case True then show ?thesis by (simp add: h')
  next
    case False
    then have "0 < length ?t" by blast
    then show ?thesis unfolding h' by (rule percolate_down_perm)
  qed
  then show m: "mset h' = mset h - {#x#}"
    by (simp only: mset_take_out_first [OF assms(1)] x)
  have "x \<in># mset h" using assms(1) x by simp
  then show "length h = Suc (length h')"
    using m by (metis size_mset insert_DiffM size_add_mset)
qed

lemma Popitem_stale: "Popitem a h = Popitem b h"
proof (cases "butlast (swap h 0 (length h - 1)) = []")
  case False
  then have "0 < length (butlast (swap h 0 (length h - 1)))" by blast
  from percolate_down_stale [OF this, of a b] show ?thesis by (simp only: Popitem_def)
qed (simp add: Popitem_def)

lemma GetGuid_stale: "GetGuid a s = GetGuid b s"
  by (simp add: GetGuid_def Popitem_stale [of a _ b])

lemma length_percolate_up [simp]: "length (percolate_up h nid) = length h"
proof (induction h nid rule: percolate_up.induct)
  case (1 h nid)
  then show ?case by (subst percolate_up.simps) (simp add: Let_def)
qed

lemma percolate_up_perm: "nid < length h \<Longrightarrow> mset (percolate_up h nid) = mset h"
proof (induction h nid rule: percolate_up.induct)
  case (1 h nid)
  have "(nid - 1) div 2 < length h" using "1.prems" by linarith
  with 1 show ?case
    by (subst percolate_up.simps) (simp add: Let_def mset_swap_eq)
qed

lemma mset_Pushitem: "mset (Pushitem i h) = add_mset i (mset h)"
  by (simp add: Pushitem_def percolate_up_perm)

section \<open>The heap order\<close>

definition is_heap :: "int list \<Rightarrow> bool" where
  "is_heap h \<longleftrightarrow> (\<forall>i < length h. 0 < i \<longrightarrow> h ! ((i - 1) div 2) \<le> h ! i)"

text \<open>The order holds except between \<open>k\<close> and its parent; the grandparent bounds cover the gap.\<close>

definition heap_except_up :: "int list \<Rightarrow> nat \<Rightarrow> bool" where
  "heap_except_up h k \<longleftrightarrow> (\<forall>i < length h. 0 < i \<longrightarrow>
     (i \<noteq> k \<longrightarrow> h ! ((i - 1) div 2) \<le> h ! i) \<and>
     ((i - 1) div 2 = k \<and> 0 < k \<longrightarrow> h ! ((k - 1) div 2) \<le> h ! i))"

lemma heap_root_le:
  "is_heap h \<Longrightarrow> i < length h \<Longrightarrow> h ! 0 \<le> h ! i"
proof (induction i rule: less_induct)
  case (less i)
  show ?case
  proof (cases "i = 0")
    case False
    then have "(i - 1) div 2 < i" by linarith
    with less have "h ! 0 \<le> h ! ((i - 1) div 2)" by simp
    also have "\<dots> \<le> h ! i" using less.prems False by (simp add: is_heap_def)
    finally show ?thesis .
  qed simp
qed

text \<open>Swapping a value that is less than its parent with the parent, \<open>p\<close>: every other value is at least its new parent.\<close>

lemma swap_up_parent:
  assumes "heap_except_up h k" "k < length h" "k \<noteq> 0" "h ! k < h ! p" "p = (k - 1) div 2"
    and i: "i < length h" "0 < i" "i \<noteq> p"
  shows "swap h k p ! ((i - 1) div 2) \<le> swap h k p ! i"
proof -
  have p: "p < length h" using assms(2,5) by linarith
  have q: "(i - 1) div 2 < length h" using i by linarith
  note S = nth_swap [OF assms(2) p]
  show ?thesis
  proof (cases "i = k")
    case True
    then show ?thesis using assms(2,4) p by (simp add: S assms(5) [symmetric] del: One_nat_def)
  next
    case False
    then have ord: "h ! ((i - 1) div 2) \<le> h ! i" using assms(1) i by (simp add: heap_except_up_def)
    have gap: "(i - 1) div 2 = k \<Longrightarrow> h ! p \<le> h ! i" using assms(1,3,5) i by (simp add: heap_except_up_def)
    consider "(i - 1) div 2 = k" | "(i - 1) div 2 = p" "(i - 1) div 2 \<noteq> k" | "(i - 1) div 2 \<noteq> p" "(i - 1) div 2 \<noteq> k"
      by blast
    then show ?thesis using gap ord q assms(4) p i False by cases (simp_all add: S)
  qed
qed

lemma swap_up_grandparent:
  assumes "heap_except_up h k" "k < length h" "k \<noteq> 0" "h ! k < h ! p" "p = (k - 1) div 2"
    and i: "i < length h" "0 < i" "(i - 1) div 2 = p" "0 < p"
  shows "swap h k p ! ((p - 1) div 2) \<le> swap h k p ! i"
proof -
  have p: "p < length h" "p < k" using assms(2,3,5) by linarith+
  have g: "(p - 1) div 2 < length h" "(p - 1) div 2 < p" "i \<noteq> p" using p i by linarith+
  note S = nth_swap [OF assms(2) p(1)]
  have pp: "h ! ((p - 1) div 2) \<le> h ! p" using assms(1) p i(4) by (simp add: heap_except_up_def)
  have "i \<noteq> k \<Longrightarrow> h ! p \<le> h ! i" using assms(1) i by (auto simp: heap_except_up_def)
  with pp g p i show ?thesis by (cases "i = k") (simp_all add: S)
qed

lemma heap_except_up_swap:
  assumes "heap_except_up h k" "k < length h" "k \<noteq> 0" "h ! k < h ! ((k - 1) div 2)"
  shows "heap_except_up (swap h k ((k - 1) div 2)) ((k - 1) div 2)"
  unfolding heap_except_up_def [of "swap h k ((k - 1) div 2)"]
  by (intro allI impI conjI; (elim conjE)?)
    (simp_all only: length_swap, (erule (2) swap_up_parent [OF assms refl] swap_up_grandparent [OF assms refl])+)

lemma percolate_up_heap:
  "k < length h \<Longrightarrow> heap_except_up h k \<Longrightarrow> is_heap (percolate_up h k)"
proof (induction h k rule: percolate_up.induct)
  case (1 h k)
  show ?case
  proof (cases "k \<noteq> 0 \<and> h ! k < h ! ((k - 1) div 2)")
    case True
    then have "(k - 1) div 2 < length h" using "1.prems"(1) by linarith
    with True 1 heap_except_up_swap [of h k] show ?thesis
      by (subst percolate_up.simps) (simp add: Let_def)
  next
    case False
    then have "is_heap h"
      using "1.prems" unfolding is_heap_def heap_except_up_def
      by (metis linorder_not_less not_gr_zero)
    with False show ?thesis by (subst percolate_up.simps) (auto simp: Let_def)
  qed
qed

lemma heap_append_except: "is_heap h \<Longrightarrow> heap_except_up (h @ [x]) (length h)"
  unfolding is_heap_def heap_except_up_def
  by (auto simp: nth_append)

lemma Pushitem_heap: "is_heap h \<Longrightarrow> is_heap (Pushitem x h)"
  by (simp add: Pushitem_def percolate_up_heap heap_append_except)

lemma Min_nthI: "x \<in> set h \<Longrightarrow> (\<And>i. i < length h \<Longrightarrow> x \<le> h ! i) \<Longrightarrow> x = Min (set h)"
  by (intro Min_eqI [symmetric]) (auto simp: in_set_conv_nth)

lemma Popitem_min:
  assumes "is_heap h" "h \<noteq> []" "Popitem stale h = (x, h')"
  shows "x = Min (set h)"
proof -
  have "x = h ! 0" using assms(2,3) by (rule Popitem_spec)
  moreover have "h ! 0 = Min (set h)"
    using assms(2) heap_root_le [OF assms(1)] by (intro Min_nthI) auto
  ultimately show ?thesis by simp
qed

text \<open>
  After one \<open>Popitem\<close> from an ordered heap the new root is again minimal, although the rest of
  the vector may be out of order: the second id taken is still the least free one.
\<close>

lemma heap_below_child:
  "is_heap h \<Longrightarrow> 0 < i \<Longrightarrow> i < length h \<Longrightarrow> \<exists>c \<in> {1, 2}. c < length h \<and> h ! c \<le> h ! i"
proof (induction i rule: less_induct)
  case (less i)
  show ?case
  proof (cases "i \<le> 2")
    case True
    with less.prems show ?thesis by (intro bexI [of _ i]) auto
  next
    case False
    define q where "q = (i - 1) div 2"
    have q: "q < i" "0 < q" using False by (auto simp: q_def)
    have "q < length h" using less.prems(3) q(1) by simp
    from less.IH [OF q(1) less.prems(1) q(2) this]
    obtain c where "c \<in> {1, 2}" "c < length h" "h ! c \<le> h ! q" by blast
    moreover have "h ! q \<le> h ! i"
      using less.prems by (simp add: is_heap_def q_def)
    ultimately show ?thesis by (meson order_trans)
  qed
qed

lemma percolate_down_root_min:
  assumes pos: "\<forall>i < length h. h ! i \<noteq> 0" and ne: "h \<noteq> []"
    and below: "\<And>i. 0 < i \<Longrightarrow> i < length h \<Longrightarrow> \<exists>c \<in> {1, 2}. c < length h \<and> h ! c \<le> h ! i"
  shows "percolate_down stale h 0 ! 0 = Min (set h)"
proof -
  obtain h' nx where st: "percolate_step stale h 0 = (h', nx)" by fastforce
  have len: "length h' = length h" using st by (rule length_percolate_step)
  have set': "set h' = set h"
    using mset_percolate_step [OF st] ne by (metis length_greater_0_conv set_mset_mset)
  have root: "h' ! 0 \<le> h ! 0" "1 < length h \<Longrightarrow> h' ! 0 \<le> h ! 1" "2 < length h \<Longrightarrow> h' ! 0 \<le> h ! 2"
    using st pos ne unfolding percolate_step_eq Let_def GET_def
    by (auto simp: nth_swap numeral_2_eq_2 split: if_splits)
  have "h' ! 0 \<le> h ! i" if "i < length h" for i
    using root below [of i] that by (cases "i = 0") (force simp: numeral_2_eq_2)+
  moreover have "h' ! 0 \<in> set h" using set' len ne by (metis length_greater_0_conv nth_mem)
  ultimately have "h' ! 0 = Min (set h)" by (intro Min_nthI) auto
  moreover have "percolate_down stale h 0 ! 0 = h' ! 0"
    using percolate_step_progress [OF st] percolate_down_keeps [of nx h' 0 stale] len
    by (subst percolate_down.simps) (auto simp: st)
  ultimately show ?thesis by simp
qed

lemma Popitem_next_min:
  assumes heap: "is_heap h" and ne: "h \<noteq> []" and pos: "\<forall>x \<in> set h. x \<noteq> 0"
    and pop: "Popitem stale h = (x, h')" and ne': "h' \<noteq> []"
  shows "h' ! 0 = Min (set h')"
proof -
  let ?t = "butlast (swap h 0 (length h - 1))"
  have len: "length ?t = length h - 1" by simp
  have h': "h' = percolate_down stale ?t 0" using pop by (simp add: Popitem_def)
  have ne_t: "?t \<noteq> []" using ne' h' by fastforce
  have at: "?t ! i = h ! i" if "0 < i" "i < length ?t" for i
    using that ne by (simp add: nth_butlast swap_def)
  have ms: "mset h' = mset ?t"
    unfolding h' using ne_t by (intro percolate_down_perm) blast
  have sub: "set ?t \<subseteq> set h"
    using mset_take_out_first [OF ne] by (metis in_diffD set_mset_mset subsetI)
  have "h' ! 0 = Min (set ?t)" unfolding h'
  proof (rule percolate_down_root_min)
    show "\<forall>i < length ?t. ?t ! i \<noteq> 0" using sub pos by (meson nth_mem subsetD)
    show "?t \<noteq> []" by (rule ne_t)
    fix i assume i: "0 < i" "i < length ?t"
    then have "i < length h" by simp
    from heap_below_child [OF heap i(1) this] obtain c
      where c: "c \<in> {1, 2}" "c < length h" "h ! c \<le> h ! i" by blast
    show "\<exists>c \<in> {1, 2}. c < length ?t \<and> ?t ! c \<le> ?t ! i"
    proof (cases "c < length ?t")
      case True
      then show ?thesis using c at [OF i] at [of c] by auto
    next
      case False
      then have "1 < length ?t \<and> i = 1" using c i by auto
      then show ?thesis using i by auto
    qed
  qed
  then show ?thesis using ms by (metis set_mset_mset)
qed

text \<open>The order itself is lost: when both children are swapped, the right subtree is not revisited.\<close>

lemma Popitem_breaks_heap:
  "is_heap [1, 5, 2, 6, 7, 3, 4, 10]"
  "Popitem 0 [1, 5, 2, 6, 7, 3, 4, 10] = (1, [2, 6, 5, 10, 7, 3, 4])"
  "\<not> is_heap [2, 6, 5, 10, 7, 3, 4]"
  by code_simp+

section \<open>The allocator contract\<close>

definition guid_free :: "Guid \<Rightarrow> int set" where
  "guid_free s = set (Heap s)"

definition guid_live :: "Guid \<Rightarrow> int set" where
  "guid_live s = {1..Bound s} - guid_free s"

definition guid_inv :: "Guid \<Rightarrow> bool" where
  "guid_inv s \<longleftrightarrow> distinct (Heap s) \<and> set (Heap s) \<subseteq> {1..Bound s} \<and> 0 \<le> Bound s \<and> Bound s \<le> MAX_GUID"

lemmas guid_defs = guid_inv_def guid_live_def guid_free_def

lemma guid_inv_init [simp]: "guid_inv Guid_init" "guid_live Guid_init = {}"
  by (simp_all add: guid_defs Guid_init_def MAX_GUID_def)

text \<open>Inversion of one allocation: out of ids, a new id, or the root of the heap.\<close>

lemma GetGuid_cases:
  assumes "GetGuid stale s = (i, s')"
  obtains (full) "Heap s = []" "MAX_GUID \<le> Bound s" "i = -1" "s' = s"
  | (new) "Heap s = []" "Bound s < MAX_GUID" "i = Bound s + 1" "s' = s\<lparr>Bound := Bound s + 1\<rparr>"
  | (reuse) h where "Heap s \<noteq> []" "Popitem stale (Heap s) = (i, h)" "s' = s\<lparr>Heap := h\<rparr>"
  using assms by (auto simp: GetGuid_def Let_def split: if_splits prod.splits)

lemma Popitem_distinct:
  assumes "distinct h" "h \<noteq> []" "Popitem stale h = (x, h')"
  shows "distinct h'" "set h' = set h - {x}" "x \<in> set h"
proof -
  have m: "mset h' = mset h - {#x#}" and x: "x = h ! 0"
    using Popitem_spec [OF assms(2,3)] by simp_all
  show "x \<in> set h" using x assms(2) by simp
  then have "mset h' = mset (remove1 x h)" using m by simp
  then show "distinct h'" "set h' = set h - {x}"
    using assms(1) by (metis distinct_remove1 mset_eq_imp_distinct_iff,
        metis set_remove1_eq mset_eq_setD)
qed

lemma GetGuid_spec:
  assumes inv: "guid_inv s" and get: "GetGuid stale s = (i, s')"
  shows "guid_inv s'" and "i = -1 \<Longrightarrow> s' = s \<and> guid_live s = {1..MAX_GUID}"
    and "i \<noteq> -1 \<Longrightarrow> i \<notin> guid_live s \<and> guid_live s' = insert i (guid_live s)"
proof -
  have "guid_inv s' \<and> (i = -1 \<longrightarrow> s' = s \<and> guid_live s = {1..MAX_GUID}) \<and>
        (i \<noteq> -1 \<longrightarrow> i \<notin> guid_live s \<and> guid_live s' = insert i (guid_live s))"
    using get
  proof (cases rule: GetGuid_cases)
    case full
    with inv show ?thesis by (auto simp: guid_defs)
  next
    case new
    with inv show ?thesis by (auto simp: guid_defs)
  next
    case (reuse h)
    have d: "distinct (Heap s)" using inv by (simp add: guid_inv_def)
    note P = Popitem_distinct [OF d reuse(1,2)]
    have "i \<in> {1..Bound s}" using P(3) inv by (auto simp: guid_inv_def)
    with P reuse inv show ?thesis by (auto simp: guid_defs)
  qed
  then show "guid_inv s'" "i = -1 \<Longrightarrow> s' = s \<and> guid_live s = {1..MAX_GUID}"
    "i \<noteq> -1 \<Longrightarrow> i \<notin> guid_live s \<and> guid_live s' = insert i (guid_live s)" by blast+
qed

lemma RecycleGuid_spec:
  assumes "guid_inv s" "i \<in> guid_live s"
  shows "guid_inv (RecycleGuid i s)" "guid_live (RecycleGuid i s) = guid_live s - {i}"
proof -
  have m: "mset (Pushitem i (Heap s)) = mset (i # Heap s)" by (simp add: mset_Pushitem)
  have st: "set (Pushitem i (Heap s)) = insert i (set (Heap s))" using mset_eq_setD [OF m] by simp
  have "distinct (i # Heap s)" using assms by (simp add: guid_defs)
  then have "distinct (Pushitem i (Heap s))" using mset_eq_imp_distinct_iff [OF m] by simp
  with st assms show "guid_inv (RecycleGuid i s)"
    "guid_live (RecycleGuid i s) = guid_live s - {i}"
    by (auto simp: guid_defs RecycleGuid_def)
qed

lemma guid_live_bounds: "guid_inv s \<Longrightarrow> guid_live s \<subseteq> {1..MAX_GUID}"
  by (auto simp: guid_defs)

interpretation guid: id_allocator "GetGuid stale" RecycleGuid guid_live guid_inv MAX_GUID for stale
proof (unfold_locales, goal_cases)
  case (1 s i s') then show ?case by (rule GetGuid_spec(1))
next
  case (2 s s') then show ?case by (rule GetGuid_spec(2)) simp
next
  case (3 s i s') then show ?case by (rule GetGuid_spec(3))
next
  case 4 then show ?case by (rule guid_live_bounds)
next
  case 5 then show ?case by (rule RecycleGuid_spec(1))
next
  case 6 then show ?case by (rule RecycleGuid_spec(2))
qed

section \<open>Properties\<close>

text \<open>
  C19. Two calls in flight never share a sequence number: over any sequence of \<open>GetGuid\<close> and
  \<open>RecycleGuid\<close> calls in which a client recycles only ids it holds, the ids held at the end are
  pairwise distinct, are exactly the allocator's live ids and lie in \<open>1..1024\<close>.
\<close>

theorem guid_calls_exclusive:
  assumes "id_run (GetGuid stale) RecycleGuid [] Guid_init ops = (held, s)"
  shows "distinct held \<and> set held = guid_live s \<and> set held \<subseteq> {1..1024} \<and> length held \<le> 1024"
proof -
  have r: "guid_inv s \<and> distinct held \<and> set held = guid_live s"
    using guid.run_exclusive [OF guid_inv_init(1) _ _ assms] by simp
  then have sub: "set held \<subseteq> {1..1024}"
    using guid_live_bounds by (auto simp: MAX_GUID_def)
  have "length held = card (set held)" using r distinct_card by metis
  also have "\<dots> \<le> card {1..1024 :: int}" using sub by (intro card_mono) auto
  finally show ?thesis using r sub by simp
qed

theorem guid_calls_exclusive_witness:
  "distinct [2, 1 :: int] \<and> set [2, 1] = guid_live \<lparr>Heap = [3], Bound = 3\<rparr> \<and>
   set [2, 1 :: int] \<subseteq> {1..1024} \<and> length [2, 1 :: int] \<le> 1024"
  by (rule guid_calls_exclusive [of 0 "[Get, Get, Get, Recycle 3]"]) code_simp

text \<open>
  \<open>GetGuid\<close> returns -1 exactly when all 1024 ids are in use, and then leaves the allocator
  as it was.
\<close>

theorem GetGuid_fails_iff:
  assumes "guid_inv s"
  shows "(fst (GetGuid stale s) = -1 \<longleftrightarrow> guid_live s = {1..1024}) \<and>
    (guid_live s = {1..1024} \<longrightarrow> snd (GetGuid stale s) = s)"
proof -
  obtain i s' where g: "GetGuid stale s = (i, s')" by fastforce
  note S = GetGuid_spec [OF assms g]
  have "guid_live s' \<subseteq> {1..1024}" using guid_live_bounds [OF S(1)] by (simp add: MAX_GUID_def)
  with S show ?thesis by (auto simp: g MAX_GUID_def)
qed

theorem GetGuid_fails_iff_witness:
  "fst (GetGuid 0 \<lparr>Heap = [], Bound = 1024\<rparr>) = -1 \<and>
   snd (GetGuid 0 \<lparr>Heap = [], Bound = 1024\<rparr>) = \<lparr>Heap = [], Bound = 1024\<rparr>"
  using GetGuid_fails_iff [of "\<lparr>Heap = [], Bound = 1024\<rparr>" 0]
  by (simp add: guid_inv_def MAX_GUID_def guid_live_def guid_free_def)

text \<open>
  Least id first: when the recycled ids are in heap order, \<open>GetGuid\<close> returns the least of
  them, and the call after it again returns the least one left. (The third need not: \<open>GetGuid_not_least\<close>.)
\<close>

theorem GetGuid_least_twice:
  assumes "guid_inv s" "is_heap (Heap s)" "guid_free s \<noteq> {}"
    and "GetGuid stale s = (i, s1)" "GetGuid stale' s1 = (j, s2)"
  shows "i = Min (guid_free s) \<and> (guid_free s1 \<noteq> {} \<longrightarrow> j = Min (guid_free s1))"
proof -
  have ne: "Heap s \<noteq> []" using assms(3) by (simp add: guid_free_def)
  from assms(4) ne obtain h where P: "Popitem stale (Heap s) = (i, h)" and s1: "s1 = s\<lparr>Heap := h\<rparr>"
    by (cases rule: GetGuid_cases) auto
  have pos: "\<forall>x \<in> set (Heap s). x \<noteq> 0" using assms(1) by (auto simp: guid_inv_def)
  have "j = Min (set h)" if "h \<noteq> []"
  proof -
    from assms(5) that s1 obtain h2 where "Popitem stale' h = (j, h2)"
      by (cases rule: GetGuid_cases) auto
    then have "j = h ! 0" using Popitem_spec(1) that by blast
    then show ?thesis using Popitem_next_min [OF assms(2) ne pos P that] by simp
  qed
  then show ?thesis
    using Popitem_min [OF assms(2) ne P] by (auto simp: guid_free_def s1)
qed

theorem GetGuid_least_twice_witness:
  "(1::int) = Min (guid_free \<lparr>Heap = [1, 3, 2], Bound = 3\<rparr>) \<and>
   (2::int) = Min (guid_free \<lparr>Heap = [2, 3], Bound = 3\<rparr>)"
proof -
  have "(1::int) = Min (guid_free \<lparr>Heap = [1, 3, 2], Bound = 3\<rparr>) \<and>
   (guid_free \<lparr>Heap = [2, 3], Bound = 3\<rparr> \<noteq> {} \<longrightarrow> (2::int) = Min (guid_free \<lparr>Heap = [2, 3], Bound = 3\<rparr>))"
    by (rule GetGuid_least_twice [of _ 0 _ _ 0 _ "\<lparr>Heap = [3], Bound = 3\<rparr>"]) code_simp+
  then show ?thesis by (simp add: guid_free_def)
qed

definition guid_misorder_run :: "id_op list" where
  "guid_misorder_run = replicate 10 Get @ map Recycle [1, 5, 2, 6, 7, 3, 4, 10] @ [Get, Get]"

lemma guid_misorder_steps:
  "id_run (GetGuid 0) RecycleGuid [] Guid_init (replicate 10 Get) =
     ([10, 9, 8, 7, 6, 5, 4, 3, 2, 1], \<lparr>Heap = [], Bound = 10\<rparr>)"
  "id_run (GetGuid 0) RecycleGuid [10, 9, 8, 7, 6, 5, 4, 3, 2, 1] \<lparr>Heap = [], Bound = 10\<rparr>
     (map Recycle [1, 5, 2, 6, 7, 3, 4, 10]) =
     ([9, 8], \<lparr>Heap = [1, 5, 2, 6, 7, 3, 4, 10], Bound = 10\<rparr>)"
  "id_run (GetGuid 0) RecycleGuid [9, 8] \<lparr>Heap = [1, 5, 2, 6, 7, 3, 4, 10], Bound = 10\<rparr> [Get, Get] =
     ([2, 1, 9, 8], \<lparr>Heap = [4, 6, 5, 10, 7, 3], Bound = 10\<rparr>)"
  by code_simp+

text \<open>
  The downward percolation loses the heap order: there is a protocol-conforming sequence of
  calls after which \<open>GetGuid\<close> hands out an id although a smaller one is free. After ids 1 to 10
  were taken and 1, 5, 2, 6, 7, 3, 4, 10 recycled in this order, the third allocation gives 4
  while 3 is free.
\<close>

theorem GetGuid_not_least:
  "case id_run (GetGuid stale) RecycleGuid [] Guid_init guid_misorder_run of (held, s) \<Rightarrow>
     fst (GetGuid stale s) = 4 \<and> 3 \<in> guid_free s"
proof -
  have st: "GetGuid stale = GetGuid 0" by (rule ext, rule GetGuid_stale)
  have "id_run (GetGuid 0) RecycleGuid [] Guid_init guid_misorder_run =
     ([2, 1, 9, 8], \<lparr>Heap = [4, 6, 5, 10, 7, 3], Bound = 10\<rparr>)"
    unfolding guid_misorder_run_def id_run_append guid_misorder_steps prod.case ..
  moreover have "fst (GetGuid 0 \<lparr>Heap = [4, 6, 5, 10, 7, 3], Bound = 10\<rparr>) = 4"
    "3 \<in> guid_free \<lparr>Heap = [4, 6, 5, 10, 7, 3], Bound = 10\<rparr>" by code_simp+
  ultimately show ?thesis by (simp add: st)
qed

text \<open>
  Recycling puts the id into the heap, keeps the heap order and frees exactly this id.
\<close>

theorem RecycleGuid_correct:
  assumes "guid_inv s" "i \<in> guid_live s" "is_heap (Heap s)"
  shows "guid_inv (RecycleGuid i s) \<and> is_heap (Heap (RecycleGuid i s)) \<and>
    guid_free (RecycleGuid i s) = insert i (guid_free s) \<and> Bound (RecycleGuid i s) = Bound s"
proof -
  have "set (Pushitem i (Heap s)) = insert i (set (Heap s))"
    using mset_Pushitem [of i "Heap s"] by (metis set_mset_add_mset_insert set_mset_mset)
  with assms show ?thesis
    by (simp add: RecycleGuid_spec(1)) (simp add: RecycleGuid_def guid_free_def Pushitem_heap)
qed

theorem RecycleGuid_correct_witness:
  "guid_inv (RecycleGuid 2 \<lparr>Heap = [3], Bound = 3\<rparr>) \<and>
   is_heap (Heap (RecycleGuid 2 \<lparr>Heap = [3], Bound = 3\<rparr>)) \<and>
   guid_free (RecycleGuid 2 \<lparr>Heap = [3], Bound = 3\<rparr>) = insert 2 (guid_free \<lparr>Heap = [3], Bound = 3\<rparr>) \<and>
   Bound (RecycleGuid 2 \<lparr>Heap = [3], Bound = 3\<rparr>) = Bound \<lparr>Heap = [3], Bound = 3\<rparr>"
  by (rule RecycleGuid_correct) code_simp+

end
