(* ===== verification/CallbacksHandler.thy ===== *)
theory CallbacksHandler
  imports ClientTransport Guid
begin

text \<open>
  \<open>include/client/CallbacksHandler.hh\<close>, \<open>source/client/CallbacksHandler.cc\<close>: the table of callbacks
  by sequence number, and the handler that receives a result and runs the callback.

  \<open>client\<close> is the state of one \<open>RpcClient\<close> with its members, together with the process-wide id
  allocator \<open>ids\<close>. A callback is a value of type \<open>'cb\<close>; \<open>parse cb\<close> is \<open>ParseFromString\<close> of its result
  type. Running it is recorded in \<open>completed\<close>: the callbacks of this program print the result or
  fulfil a promise and do not call back into the client.

  The vector has \<open>MAX_REQUESTS\<close> = 1024 slots, an index outside is a fault. \<open>data\<close> is the
  uninitialised buffer of \<open>ParseProtoStruct\<close>.
\<close>

datatype client_obj = TheClientTransport | TheCallbacks

record ('cb, 'v) client = client_transport +
  CallidCallbackMapping :: "int \<Rightarrow> 'cb option"
  client_router :: "client_obj EventHandlerRouter"
  initialized :: bool
  client_stop :: bool
  ids :: Guid
  completed :: "('cb \<times> 'v) list"

section \<open>Operations\<close>

text \<open>The table of \<open>MAX_REQUESTS\<close> null pointers.\<close>

definition CallbacksHandler_init :: "int \<Rightarrow> 'cb option" where
  [simp]: "CallbacksHandler_init = (\<lambda>_. None)"

definition callback_at :: "int \<Rightarrow> ('cb, 'v) client \<Rightarrow> 'cb option result" where
  "callback_at i c =
     (if 0 \<le> i \<and> i < int MAX_REQUESTS then Inr (CallidCallbackMapping c i) else Inl OutOfBounds)"

definition CallbacksHandler_Register :: "int \<Rightarrow> 'cb \<Rightarrow> ('cb, 'v) client \<Rightarrow> ('cb, 'v) client result" where
  "CallbacksHandler_Register callid func c =
     bindE (callback_at callid c) (\<lambda>_.
       Inr (c\<lparr>CallidCallbackMapping := (CallidCallbackMapping c)(callid := Some func)\<rparr>))"

definition CallbackFunction_Exec ::
  "('cb \<Rightarrow> string \<Rightarrow> 'v) \<Rightarrow> byte list \<Rightarrow> 'cb \<Rightarrow> byte list \<Rightarrow> ('cb, 'v) client \<Rightarrow> ('cb, 'v) client result" where
  "CallbackFunction_Exec parse data cb buffer c =
     bindE (ParseProtoStruct data (parse cb) buffer) (\<lambda>x. Inr (c\<lparr>completed := completed c @ [(cb, x)]\<rparr>))"

text \<open>Fewer bytes than a result leave the rest of the zeroed object as it was.\<close>

definition CallbacksHandler_HandleReadEvent ::
  "('cb \<Rightarrow> string \<Rightarrow> 'v) \<Rightarrow> byte list \<Rightarrow> recv_result \<Rightarrow> int \<Rightarrow> ('cb, 'v) client \<Rightarrow> ('cb, 'v) client result" where
  "CallbacksHandler_HandleReadEvent parse data r Fd c =
     (let c = emit (Recv Fd sizeof_RpcResult) c in
      case r of
        RecvErr errno \<Rightarrow> Inr (emit (LogDev ''CallbacksHandler::HandleReadEvent: receive failed.\<newline>'' []) c)
      | RecvOk d \<Rightarrow>
          bindE (write_at 0 d (replicate sizeof_RpcResult NUL)) (\<lambda>bytes.
            let res = result_of_bytes bytes; i = sint (result_seqno res) in
            bindE (callback_at i c) (\<lambda>p.
            bindE (deref p) (\<lambda>cb.
            bindE (CallbackFunction_Exec parse data cb (return_buffer res) c) (\<lambda>c.
              let c = c\<lparr>CallidCallbackMapping := (CallidCallbackMapping c)(i := None)\<rparr>
              in Inr (c\<lparr>ids := RecycleGuid i (ids c)\<rparr>))))))"

section \<open>Lemmas\<close>

lemma client_ctl [simp]:
  fixes c :: "('cb, 'v) client"
  shows "CallidCallbackMapping (emit x c) = CallidCallbackMapping c" "client_router (emit x c) = client_router c"
    "initialized (emit x c) = initialized c" "client_stop (emit x c) = client_stop c"
    "ids (emit x c) = ids c" "completed (emit x c) = completed c"
  by (simp_all add: emit_def)

lemma client_more_eq:
  fixes c c' :: "('cb, 'v) client"
  assumes "client_transport.more c' = client_transport.more c"
  shows "CallidCallbackMapping c' = CallidCallbackMapping c" "client_router c' = client_router c"
    "initialized c' = initialized c" "client_stop c' = client_stop c" "ids c' = ids c" "completed c' = completed c"
  using assms by (cases c; cases c'; simp)+

text \<open>A whole result for a call that waits runs its callback once and frees slot and id.\<close>

lemma HandleReadEvent_runs:
  fixes c :: "('cb, 'v) client"
  assumes "wf_result res" "i = sint (result_seqno res)" "0 \<le> i" "i < 1024"
    and "CallidCallbackMapping c i = Some cb" "return_buffer res = s @ NUL # rest" "no_nul s" "length data = 4096"
  shows "CallbacksHandler_HandleReadEvent parse data (RecvOk (result_bytes res)) Fd c =
    Inr (emit (Recv Fd sizeof_RpcResult) c\<lparr>completed := completed c @ [(cb, parse cb s)],
      CallidCallbackMapping := (CallidCallbackMapping c)(i := None), ids := RecycleGuid i (ids c)\<rparr>)"
proof -
  have len: "length (result_bytes res) = sizeof_RpcResult" using length_result_bytes [OF assms(1)] .
  have "length s < 4096" using assms(1,6) by (simp add: wf_result_def rpc_consts)
  then have "ParseProtoStruct data (parse cb) (return_buffer res) = Inr (parse cb s)"
    using assms(6-8) by (simp add: ParseProtoStruct_cstr)
  then show ?thesis
    using assms(2-5) len
    by (simp add: CallbacksHandler_HandleReadEvent_def write_at_def result_of_result_bytes callback_at_def
        deref_def CallbackFunction_Exec_def rpc_consts emit_def Let_def)
qed

section \<open>Properties\<close>

text \<open>
  A result is trusted: the handler uses its sequence number as an index unchecked, so a result
  for a number outside the 1024 slots reads outside the table, and a result for a number with no
  call waiting (a second answer, or fewer than 4 bytes received) dereferences a null pointer.
\<close>

theorem unexpected_result_faults:
  fixes c :: "('cb, 'v) client"
  assumes "length d \<le> sizeof_RpcResult"
    and "i = sint (result_seqno (result_of_bytes (d @ replicate (sizeof_RpcResult - length d) NUL)))"
  shows "(i < 0 \<or> 1024 \<le> i \<longrightarrow> CallbacksHandler_HandleReadEvent parse data (RecvOk d) Fd c = Inl OutOfBounds) \<and>
    (0 \<le> i \<and> i < 1024 \<and> CallidCallbackMapping c i = None \<longrightarrow>
       CallbacksHandler_HandleReadEvent parse data (RecvOk d) Fd c = Inl NullDeref) \<and>
    (d = [] \<longrightarrow> i = 0)"
proof -
  have w: "write_at 0 d (replicate sizeof_RpcResult NUL) = Inr (d @ replicate (sizeof_RpcResult - length d) NUL)"
    using assms(1) by (simp add: write_at_def)
  have "i = 0" if "d = []"
  proof -
    have "bytes_of_int 0 = replicate 4 NUL" by code_simp
    then have "take 4 (replicate sizeof_RpcResult NUL) = bytes_of_int 0"
      by (simp add: sizeof_RpcResult_def)
    then show ?thesis using that assms(2) by (simp add: result_of_bytes_def)
  qed
  then show ?thesis
    using assms(2) by (auto simp: CallbacksHandler_HandleReadEvent_def Let_def w callback_at_def deref_def
        MAX_REQUESTS_def)
qed

definition demo_client :: "(nat, string) client" where
  "demo_client = \<lparr>trace = [EpollCtl EPOLL_CTL_ADD 3 EPOLL_FLAGS_IN], ExtraFlags = 0, Connfd = 3,
     PendingRequests = [], CallidCallbackMapping = (\<lambda>_. None),
     client_router = \<lparr>Readhdl = Some TheCallbacks, Writehdl = Some TheClientTransport, Closehdl = Some TheClientTransport\<rparr>,
     initialized = True, client_stop = False, ids = Guid_init, completed = []\<rparr>"

theorem unexpected_result_faults_witness:
  "CallbacksHandler_HandleReadEvent (\<lambda>_ s. s) (replicate 4096 NUL) (RecvOk []) 3 demo_client = Inl NullDeref"
proof -
  define i where "i = sint (result_seqno (result_of_bytes ([] @ replicate (sizeof_RpcResult - length ([] :: byte list)) NUL)))"
  have "i = 0" and "0 \<le> i \<and> i < 1024 \<and> CallidCallbackMapping demo_client i = None \<longrightarrow>
      CallbacksHandler_HandleReadEvent (\<lambda>_ s. s) (replicate 4096 NUL) (RecvOk []) 3 demo_client = Inl NullDeref"
    using unexpected_result_faults [of "[]" i "\<lambda>_ s. s" "replicate 4096 NUL" 3 demo_client] i_def by auto
  then show ?thesis by (simp add: demo_client_def)
qed

end
