(* ===== verification/RpcClient.thy ===== *)
theory RpcClient
  imports CallbacksHandler NameService
begin

text \<open>
  \<open>include/client/RpcClient.hh\<close>, \<open>source/client/RpcClient.cc\<close>, the client section of
  \<open>include/common/RpcServiceBase.hh\<close>, \<open>source/client/ClientFactory.cc\<close>: calls, the client object
  and its loop.

  User threads call; one thread runs \<open>Main\<close>. A call is one step: its parts touch state that is
  locked on its own (ids, queue) or owned by the call (its slot of the table). \<open>client_run\<close> is an
  interleaving of calls, write events and answers of a server that answers only requests it got.

  A proxy is its service name and the flag whether its \<open>client\<close> pointer is set. \<open>std::promise\<close> and \<open>std::future\<close> of \<open>CallRPC\<close>:
  the callback fulfils the promise, so \<open>get\<close> returns once \<open>completed\<close> holds it and waits otherwise.
\<close>

section \<open>The client object\<close>

record client_options = svc_options +
  callee :: string

definition RpcClient_init :: "int \<Rightarrow> Guid \<Rightarrow> ('cb, 'v) client result" where
  "RpcClient_init Epollfd g = bindE (ClientTransport_init Epollfd) (\<lambda>t.
     Inr \<lparr>trace = trace t, ExtraFlags = ExtraFlags t, Connfd = Connfd t, PendingRequests = PendingRequests t,
          CallidCallbackMapping = CallbacksHandler_init, client_router = EventHandlerRouter_init,
          initialized = False, client_stop = False, ids = g, completed = []\<rparr>)"

definition RpcClient_Initialize :: "connect_env \<Rightarrow> client_options \<Rightarrow> ('cb, 'v) client \<Rightarrow> ('cb, 'v) client result" where
  "RpcClient_Initialize e opt c =
     bindE (ClientTransport_Connect e (svr_ip opt) (svr_port opt) c) (\<lambda>(_, c).
       let r = client_router c;
           r = r\<lparr>Closehdl := Some TheClientTransport\<rparr>;
           r = r\<lparr>Writehdl := Some TheClientTransport\<rparr>;
           r = r\<lparr>Readhdl := Some TheCallbacks\<rparr>
       in Inr (c\<lparr>client_router := r, initialized := True\<rparr>))"

definition RpcClient_SendRequest :: "RpcMessage \<Rightarrow> ('cb, 'v) client \<Rightarrow> ('cb, 'v) client result" where
  "RpcClient_SendRequest Message c =
     (if \<not> initialized c then Inr (emit (LogErr ''RpcClient::SendRequest Not _initialized!\<newline>'' []) c)
      else ClientTransport_Push Message c)"

definition RpcClient_destroy :: "('cb, 'v) client \<Rightarrow> ('cb, 'v) client" where
  "RpcClient_destroy c = c\<lparr>client_stop := True\<rparr>"

section \<open>Calls\<close>

record proxy =
  ServiceName :: string
  linked :: bool

definition RpcServiceBase_init :: proxy where
  "RpcServiceBase_init = \<lparr>ServiceName = ''None'', linked = False\<rparr>"

text \<open>\<open>GetProxy\<close>: the new proxy of the given class gets this client.\<close>

definition GetProxy :: "proxy \<Rightarrow> proxy" where
  "GetProxy proxy_ptr = proxy_ptr\<lparr>linked := True\<rparr>"

definition Invoke :: "proxy \<Rightarrow> RpcMessage \<Rightarrow> ('cb, 'v) client \<Rightarrow> ('cb, 'v) client result" where
  "Invoke p Context c = (if linked p then RpcClient_SendRequest Context c else Inr c)"

definition AsyncInvoke :: "proxy \<Rightarrow> RpcMessage \<Rightarrow> 'cb \<Rightarrow> ('cb, 'v) client \<Rightarrow> ('cb, 'v) client result" where
  "AsyncInvoke p Context func c =
     (if linked p then
        bindE (CallbacksHandler_Register (sint (seqno (header Context))) func c) (\<lambda>c.
          let Context = Context\<lparr>header := (header Context)\<lparr>need_return := True\<rparr>\<rparr>
          in RpcClient_SendRequest Context c)
      else Inr c)"

definition CallRPCAsync ::
  "int \<Rightarrow> ('p \<Rightarrow> string) \<Rightarrow> proxy \<Rightarrow> 'p \<Rightarrow> 'cb \<Rightarrow> ('cb, 'v) client \<Rightarrow> ('cb, 'v) client result" where
  "CallRPCAsync stale ser p P Callback c =
     (let (i, g) = GetGuid stale (ids c);
          c = c\<lparr>ids := g\<rparr>;
          h = (header RpcMessage_init)\<lparr>seqno := word_of_int i\<rparr>
      in if sint (seqno h) = -1 then Inr c
      else bindE (write_at 0 (ServiceName p @ [NUL]) (servicename h)) (\<lambda>sn.
        bindE (PackProtoStruct ser (parameters (body RpcMessage_init)) P) (\<lambda>(ps, n).
          AsyncInvoke p \<lparr>header = h\<lparr>servicename := sn, body_length := word_of_int n\<rparr>,
            body = \<lparr>parameters = ps\<rparr>\<rparr> Callback c)))"

text \<open>\<open>f.get()\<close>: the value once it is there, \<open>None\<close> while the caller waits.\<close>

definition future_get :: "'cb \<Rightarrow> ('cb, 'v) client \<Rightarrow> 'v option" where
  "future_get promise c = map_of (completed c) promise"

definition CallRPC ::
  "int \<Rightarrow> ('p \<Rightarrow> string) \<Rightarrow> proxy \<Rightarrow> 'p \<Rightarrow> 'cb \<Rightarrow> ('cb, 'v) client \<Rightarrow>
   (('cb, 'v) client \<times> (('cb, 'v) client \<Rightarrow> 'v option)) result" where
  "CallRPC stale ser p P promise c =
     bindE (CallRPCAsync stale ser p P promise c) (\<lambda>c. Inr (c, future_get promise))"

section \<open>The main loop\<close>

definition client_vtable ::
  "('cb \<Rightarrow> string \<Rightarrow> 'v) \<Rightarrow> byte list \<Rightarrow> byte list \<Rightarrow> byte list \<Rightarrow> send_result \<Rightarrow> recv_result \<Rightarrow>
   client_obj \<Rightarrow> ('cb, 'v) client vtable" where
  "client_vtable parse pad buf data sr rr obj =
     (case obj of
        TheClientTransport \<Rightarrow> EventHandler_default
          \<lparr>HandleWriteEvent := ClientTransport_HandleWriteEvent pad buf sr,
           HandleCloseEvent := ClientTransport_HandleCloseEvent\<rparr>
      | TheCallbacks \<Rightarrow> EventHandler_default\<lparr>HandleReadEvent := CallbacksHandler_HandleReadEvent parse data rr\<rparr>)"

text \<open>A task of the client: \<open>HandleEvent\<close> of its router.\<close>

definition Client_HandleEvent ::
  "('cb \<Rightarrow> string \<Rightarrow> 'v) \<Rightarrow> byte list \<Rightarrow> byte list \<Rightarrow> byte list \<Rightarrow> send_result \<Rightarrow> recv_result \<Rightarrow>
   task \<Rightarrow> ('cb, 'v) client \<Rightarrow> ('cb, 'v) client result" where
  "Client_HandleEvent parse pad buf data sr rr t c =
     (case t of (fd, ty) \<Rightarrow>
        EventHandlerRouter_HandleEvent (client_vtable parse pad buf data sr rr) (client_router c) fd ty c)"

fun run_client_tasks ::
  "('cb \<Rightarrow> string \<Rightarrow> 'v) \<Rightarrow> byte list \<Rightarrow> byte list \<Rightarrow> byte list \<Rightarrow> (nat \<Rightarrow> send_result \<times> recv_result) \<Rightarrow>
   task list \<Rightarrow> ('cb, 'v) client \<Rightarrow> ('cb, 'v) client result" where
  "run_client_tasks parse pad buf data answers [] c = Inr c"
| "run_client_tasks parse pad buf data answers (t # ts) c =
     bindE (Client_HandleEvent parse pad buf data (fst (answers 0)) (snd (answers 0)) t c)
       (run_client_tasks parse pad buf data (\<lambda>n. answers (Suc n)) ts)"

text \<open>
  One turn of the loop of \<open>Main\<close>; \<open>None\<close> when it has been stopped. \<open>answers n\<close> are the socket
  results for the n-th task.
\<close>

definition RpcClient_Main_turn ::
  "('cb \<Rightarrow> string \<Rightarrow> 'v) \<Rightarrow> byte list \<Rightarrow> byte list \<Rightarrow> byte list \<Rightarrow> (int \<Rightarrow> string option) \<Rightarrow> (int \<times> u32) list \<Rightarrow>
   (nat \<Rightarrow> send_result \<times> recv_result) \<Rightarrow> ('cb, 'v) client \<Rightarrow> ('cb, 'v) client option result" where
  "RpcClient_Main_turn parse pad buf data so_error evs answers c =
     (if client_stop c then Inr None
      else bindE (Dispatch so_error evs c) (\<lambda>(tasks, c).
        bindE (run_client_tasks parse pad buf data answers tasks c) (\<lambda>c. Inr (Some c))))"

section \<open>The factory\<close>

text \<open>\<open>None\<close>: an exception of jsoncpp; \<open>Some (b, opt)\<close>: the result and the filled options.\<close>

definition DiscoverServer ::
  "('f, 'j) json_lib \<Rightarrow> curl_answer \<Rightarrow> client_options \<Rightarrow> client_options \<Rightarrow> 'a world_scheme \<Rightarrow>
   ((bool \<times> client_options) option \<times> 'a world_scheme) result" where
  "DiscoverServer J cu options_ns options_rpc w =
     bindE (RequestServiceList J cu (GetServiceDiscoverer \<lparr>svr_ip = svr_ip options_ns, svr_port = svr_port options_ns\<rparr>)
             (callee options_ns) w)
       (\<lambda>(rs, w). case rs of
          None \<Rightarrow> Inr (None, w)
        | Some results \<Rightarrow>
            if results \<noteq> [] then
              Inr (Some (True, options_rpc\<lparr>svr_ip := d_ip (hd results), svr_port := d_port (hd results)\<rparr>), w)
            else Inr (Some (False, options_rpc), w))"

text \<open>The thread \<open>GetRpcClient\<close> starts runs \<open>RpcClient_Main_turn\<close> in a loop.\<close>

definition GetRpcClient :: "connect_env \<Rightarrow> int \<Rightarrow> Guid \<Rightarrow> client_options \<Rightarrow> ('cb, 'v) client result" where
  "GetRpcClient e Epollfd g options =
     bindE (RpcClient_init Epollfd g) (\<lambda>sp. RpcClient_Initialize e options sp)"

definition MakeRpcClient ::
  "('f, 'j) json_lib \<Rightarrow> curl_answer \<Rightarrow> connect_env \<Rightarrow> int \<Rightarrow> Guid \<Rightarrow> client_options \<Rightarrow> client_options \<Rightarrow> string \<Rightarrow>
   'a world_scheme \<Rightarrow> (('cb, 'v) client option option \<times> 'a world_scheme) result" where
  "MakeRpcClient J cu e Epollfd g options_ns uninit callee_service_name w =
     bindE (DiscoverServer J cu (options_ns\<lparr>callee := callee_service_name\<rparr>) uninit w) (\<lambda>(d, w).
       case d of
         None \<Rightarrow> Inr (None, w)
       | Some (found, options_rpc) \<Rightarrow>
           if \<not> found then Inr (Some None, w)
           else bindE (GetRpcClient e Epollfd g options_rpc) (\<lambda>c. Inr (Some (Some c), w)))"

section \<open>The invariant\<close>

text \<open>
  \<open>out\<close>: the sequence numbers of the requests that have left the queue and are not answered. The
  calls in progress are exactly the live ids and exactly the occupied slots of the table, and each
  is either waiting or out.
\<close>

definition seqnos :: "RpcMessage list \<Rightarrow> int list" where
  "seqnos ms = map (\<lambda>m. sint (seqno (header m))) ms"

definition client_ok :: "int list \<Rightarrow> ('cb, 'v) client \<Rightarrow> bool" where
  "client_ok out c \<longleftrightarrow> transport_ok c \<and> initialized c \<and>
     client_router c = \<lparr>Readhdl = Some TheCallbacks, Writehdl = Some TheClientTransport, Closehdl = Some TheClientTransport\<rparr> \<and>
     guid_inv (ids c) \<and> Bound (ids c) \<le> 1023 \<and>
     {i. CallidCallbackMapping c i \<noteq> None} = guid_live (ids c) \<and>
     distinct (seqnos (PendingRequests c) @ out) \<and> set (seqnos (PendingRequests c) @ out) = guid_live (ids c)"

lemma card_live:
  assumes "guid_inv s"
  shows "int (card (guid_live s)) + int (length (Heap s)) = Bound s"
proof -
  have inv: "guid_live s = {1..Bound s} - set (Heap s)" "set (Heap s) \<subseteq> {1..Bound s}" "distinct (Heap s)" "0 \<le> Bound s"
    using assms by (auto simp: guid_defs)
  then have "card (guid_live s) = nat (Bound s) - length (Heap s)" "length (Heap s) \<le> nat (Bound s)"
    using card_Diff_subset [of "set (Heap s)" "{1..Bound s}"] card_mono [of "{1..Bound s}" "set (Heap s)"]
    by (auto simp: distinct_card)
  with inv(4) show ?thesis by linarith
qed

text \<open>The 1024th concurrent call is the first to get an id outside the table.\<close>

lemma GetGuid_range:
  assumes "guid_inv s" "Bound s \<le> 1023" "GetGuid stale s = (i, s')"
  shows "card (guid_live s) < 1023 \<Longrightarrow> 1 \<le> i \<and> i \<le> 1023 \<and> Bound s' \<le> 1023"
    and "card (guid_live s) = 1023 \<Longrightarrow> i = 1024"
proof -
  have b: "0 \<le> Bound s" "set (Heap s) \<subseteq> {1..Bound s}" "distinct (Heap s)" using assms(1) by (auto simp: guid_defs)
  note c = card_live [OF assms(1)]
  have "(card (guid_live s) < 1023 \<longrightarrow> 1 \<le> i \<and> i \<le> 1023 \<and> Bound s' \<le> 1023) \<and> (card (guid_live s) = 1023 \<longrightarrow> i = 1024)"
    using assms(3)
  proof (cases rule: GetGuid_cases)
    case full
    with assms(2) show ?thesis by (simp add: MAX_GUID_def)
  next
    case new
    with b c show ?thesis by auto
  next
    case (reuse h)
    from Popitem_distinct(3) [OF b(3) reuse(1,2)] b(2) have "i \<in> {1..Bound s}" by blast
    moreover have "card (guid_live s) < 1023" using c assms(2) reuse(1) by (cases "Heap s") auto
    ultimately show ?thesis using reuse assms(2) by auto
  qed
  then show "card (guid_live s) < 1023 \<Longrightarrow> 1 \<le> i \<and> i \<le> 1023 \<and> Bound s' \<le> 1023"
    "card (guid_live s) = 1023 \<Longrightarrow> i = 1024" by simp_all
qed

section \<open>One call\<close>

text \<open>The request a call makes, for the id \<open>i\<close> and the serialised parameter \<open>s\<close>.\<close>

definition call_message :: "proxy \<Rightarrow> int \<Rightarrow> string \<Rightarrow> RpcMessage" where
  "call_message p i s =
     \<lparr>header = \<lparr>magic = RPC_MAGIC_NUMBER, version = RPC_VERSION, need_return = True, seqno = word_of_int i,
        body_length = word_of_int (int (length s) + 1),
        servicename = ServiceName p @ NUL # replicate (31 - length (ServiceName p)) NUL\<rparr>,
      body = \<lparr>parameters = s @ NUL # replicate (479 - length s) NUL\<rparr>\<rparr>"

lemma sint_small: "0 \<le> i \<Longrightarrow> i < 2147483648 \<Longrightarrow> sint (word_of_int i :: int32) = i"
  by (simp add: sint_sbintrunc' signed_take_bit_int_eq_self)

definition call_fits :: "proxy \<Rightarrow> string \<Rightarrow> bool" where
  "call_fits p s \<longleftrightarrow> length (ServiceName p) \<le> 31 \<and> no_nul s \<and> length s \<le> 479"

lemma call_message_sendable: "call_fits p s \<Longrightarrow> sendable (call_message p i s)"
  by (simp add: call_fits_def sendable_def call_message_def wf_message_def wf_header_def rpc_consts
      sint_small del: of_int_add)

lemma PackProtoStruct_until_nul:
  "PackProtoStruct ser Out m = bindE (write_at 0 (until_nul (ser m) @ [NUL]) Out)
     (\<lambda>b. Inr (b, int (length (until_nul (ser m))) + 1))"
  unfolding PackProtoStruct_def
  by (cases "write_at 0 (until_nul (ser m) @ [NUL]) Out") (simp_all add: Serialize_param_def type_names cstr_c_str)

lemma CallRPCAsync_linked:
  assumes "linked p" "call_fits p (until_nul (ser P))" "GetGuid stale (ids c) = (i, g)" "1 \<le> i" "i \<le> 1024"
  shows "CallRPCAsync stale ser p P cb c =
    bindE (CallbacksHandler_Register i cb (c\<lparr>ids := g\<rparr>)) (RpcClient_SendRequest (call_message p i (until_nul (ser P))))"
proof -
  have i: "sint (word_of_int i :: int32) = i" using assms(4,5) by (intro sint_small) auto
  have w1: "write_at 0 (ServiceName p @ [NUL]) (replicate 32 NUL) =
      Inr (ServiceName p @ NUL # replicate (31 - length (ServiceName p)) NUL)"
    using assms(2) by (simp add: call_fits_def write_at_def)
  have w2: "write_at 0 (until_nul (ser P) @ [NUL]) (replicate 480 NUL) =
      Inr (until_nul (ser P) @ NUL # replicate (479 - length (until_nul (ser P))) NUL)"
    using assms(2) by (simp add: call_fits_def write_at_def)
  show ?thesis
    using assms(1,4) i
    by (simp add: CallRPCAsync_def assms(3) RpcMessage_init_def rpc_consts w1 PackProtoStruct_until_nul w2
        AsyncInvoke_def call_message_def)
qed

text \<open>A call in range registers its callback and queues its request.\<close>

lemma CallRPCAsync_ok:
  fixes c :: "('cb, 'v) client"
  assumes ok: "client_ok out c" and p: "linked p" and fit: "call_fits p (until_nul (ser P))"
    and room: "card (guid_live (ids c)) < 1023"
  obtains i g c' where "GetGuid stale (ids c) = (i, g)" "CallRPCAsync stale ser p P cb c = Inr c'"
    "client_ok out c'" "PendingRequests c' = PendingRequests c @ [call_message p i (until_nul (ser P))]"
    "CallidCallbackMapping c' = (CallidCallbackMapping c)(i := Some cb)" "CallidCallbackMapping c i = None"
    "completed c' = completed c" "1 \<le> i" "i \<le> 1023" "Connfd c' = Connfd c"
    "guid_live (ids c') = insert i (guid_live (ids c))" "i \<notin> guid_live (ids c)"
proof -
  have inv: "guid_inv (ids c)" "Bound (ids c) \<le> 1023" using ok by (auto simp: client_ok_def)
  obtain i g where g: "GetGuid stale (ids c) = (i, g)" by fastforce
  note R = GetGuid_range(1) [OF inv g room]
  note S = GetGuid_spec [OF inv(1) g]
  have fresh: "i \<notin> guid_live (ids c)" "guid_live g = insert i (guid_live (ids c))" using S(3) R by auto
  let ?m = "call_message p i (until_nul (ser P))"
  let ?c1 = "c\<lparr>ids := g, CallidCallbackMapping := (CallidCallbackMapping c)(i := Some cb)\<rparr>"
  have m: "sendable ?m" by (rule call_message_sendable [OF fit])
  have t1: "transport_ok ?c1" "Connfd ?c1 = Connfd c" "PendingRequests ?c1 = PendingRequests c"
    using ok by (auto simp: client_ok_def transport_ok_def)
  obtain c' where c': "ClientTransport_Push ?m ?c1 = Inr c'" "transport_ok c'" "Connfd c' = Connfd ?c1"
    "PendingRequests c' = PendingRequests ?c1 @ [?m]" "client_transport.more c' = client_transport.more ?c1"
    by (rule Push_ok [OF t1(1) m])
  note F = client_more_eq [OF c'(5)]
  have "CallRPCAsync stale ser p P cb c = Inr c'"
    by (subst CallRPCAsync_linked [of p ser P stale c i g cb, OF p fit g])
      (use R c'(1) ok in \<open>simp_all add: CallbacksHandler_Register_def callback_at_def rpc_consts
        RpcClient_SendRequest_def client_ok_def\<close>)
  moreover have none: "CallidCallbackMapping c i = None" using ok fresh by (auto simp: client_ok_def)
  moreover have "sint (seqno (header ?m)) = i" using R by (simp add: call_message_def sint_small)
  then have "client_ok out c'"
    using ok c' F t1 S(1) R fresh unfolding client_ok_def by (auto simp: seqnos_def)
  ultimately show thesis using that [OF g] c' F R fresh t1 by simp
qed

section \<open>The tasks of the loop\<close>

lemma Client_events:
  assumes "client_ok out c"
  shows "Client_HandleEvent parse pad buf data sr rr (fd, READ_EVENT) c = CallbacksHandler_HandleReadEvent parse data rr fd c"
    "Client_HandleEvent parse pad buf data sr rr (fd, WRITE_EVENT) c = ClientTransport_HandleWriteEvent pad buf sr fd c"
    "Client_HandleEvent parse pad buf data sr rr (fd, CLOSE_EVENT) c = Inl (ProcessExit 1)"
  using assms
  by (simp_all add: client_ok_def Client_HandleEvent_def EventHandlerRouter_HandleEvent_def deref_def
      client_vtable_def event_types ClientTransport_HandleCloseEvent_def)

lemma write_step:
  assumes "client_ok out c" "length pad = 3" "length buf = MAX_BUFFER"
  obtains c' where "Client_HandleEvent parse pad buf data sr rr (Connfd c, WRITE_EVENT) c = Inr c'"
    "client_ok (out @ seqnos (take 1 (PendingRequests c))) c'" "CallidCallbackMapping c' = CallidCallbackMapping c"
    "ids c' = ids c" "completed c' = completed c" "Connfd c' = Connfd c"
    "sends (trace c') = sends (trace c) @ map (wire pad) (take 1 (PendingRequests c))"
    "PendingRequests c' = tl (PendingRequests c)"
proof -
  have t: "transport_ok c" using assms(1) by (simp add: client_ok_def)
  obtain c' l where w: "ClientTransport_HandleWriteEvent pad buf sr (Connfd c) c = Inr c'" "transport_ok c'"
    "Connfd c' = Connfd c" "PendingRequests c' = tl (PendingRequests c)" "client_transport.more c' = client_transport.more c"
    "trace c' = trace c @ l" "sends l = map (wire pad) (take 1 (PendingRequests c))"
    by (rule HandleWriteEvent_ok [OF t assms(2,3), of sr]) blast
  note F = client_more_eq [OF w(5)]
  have "client_ok (out @ seqnos (take 1 (PendingRequests c))) c'"
    using assms(1) w(2,4) F unfolding client_ok_def
    by (cases "PendingRequests c") (auto simp: seqnos_def)
  with w F show thesis by (intro that [of c']) (simp_all add: Client_events [OF assms(1)])
qed

definition answer :: "int \<Rightarrow> string \<Rightarrow> byte list \<Rightarrow> RpcResult" where
  "answer i s junk = \<lparr>result_seqno = word_of_int i, return_buffer = s @ NUL # junk\<rparr>"

definition answer_fits :: "string \<Rightarrow> byte list \<Rightarrow> bool" where
  "answer_fits s junk \<longleftrightarrow> no_nul s \<and> length s + 1 + length junk = MAX_RPC_RETURN_VALUE"

lemma answer_step:
  fixes c :: "('cb, 'v) client"
  assumes ok: "client_ok out c" and i: "i \<in> set out" and fit: "answer_fits s junk" and data: "length data = 4096"
  obtains cb c' where "CallidCallbackMapping c i = Some cb"
    "Client_HandleEvent parse pad buf data sr (RecvOk (result_bytes (answer i s junk))) (Connfd c, READ_EVENT) c = Inr c'"
    "client_ok (remove1 i out) c'" "completed c' = completed c @ [(cb, parse cb s)]"
    "CallidCallbackMapping c' = (CallidCallbackMapping c)(i := None)" "Connfd c' = Connfd c"
    "guid_live (ids c') = guid_live (ids c) - {i}" "i \<in> guid_live (ids c)" "PendingRequests c' = PendingRequests c"
proof -
  have live: "i \<in> guid_live (ids c)" and inv: "guid_inv (ids c)" and b: "Bound (ids c) \<le> 1023"
    and dis: "distinct (seqnos (PendingRequests c) @ out)"
    using ok i by (auto simp: client_ok_def)
  then have r: "1 \<le> i" "i \<le> 1023" by (auto simp: guid_defs)
  have "i \<in> {i. CallidCallbackMapping c i \<noteq> None}" using ok live by (simp add: client_ok_def)
  then obtain cb where cb: "CallidCallbackMapping c i = Some cb" by auto
  let ?res = "answer i s junk"
  have res: "wf_result ?res" "i = sint (result_seqno ?res)" "return_buffer ?res = s @ NUL # junk" "no_nul s"
    using fit r by (simp_all add: answer_def answer_fits_def wf_result_def sint_small)
  let ?c' = "emit (Recv (Connfd c) sizeof_RpcResult) c\<lparr>completed := completed c @ [(cb, parse cb s)],
      CallidCallbackMapping := (CallidCallbackMapping c)(i := None), ids := RecycleGuid i (ids c)\<rparr>"
  have h: "CallbacksHandler_HandleReadEvent parse data (RecvOk (result_bytes ?res)) (Connfd c) c = Inr ?c'"
    using HandleReadEvent_runs [OF res(1,2) _ _ cb res(3,4) data] r by simp
  note L = RecycleGuid_spec [OF inv live]
  have I: "interest (trace c @ [Recv (Connfd c) sizeof_RpcResult]) = interest (trace c)" by simp
  have t: "transport_ok ?c'" using ok by (simp add: client_ok_def transport_ok_def emit_def)
  have "Bound (RecycleGuid i (ids c)) = Bound (ids c)" by (simp add: RecycleGuid_def)
  then have "client_ok (remove1 i out) ?c'"
    using ok t L b dis i live by (auto simp: client_ok_def seqnos_def emit_def)
  with cb h L live show thesis
    by (intro that [of cb ?c']) (simp_all add: Client_events [OF ok] emit_def)
qed

section \<open>Runs of a client\<close>

datatype ('p, 'cb) run_op = Call proxy 'p 'cb | Written send_result | Answered nat string "byte list"

text \<open>
  The state of a run: the client, the unanswered requests that were sent, and the callbacks of the
  calls made. At most 1023 calls are in progress; the server answers a request that was sent.
\<close>

type_synonym ('cb, 'v) run_state = "('cb, 'v) client \<times> int list \<times> 'cb list"

fun client_step ::
  "int \<Rightarrow> ('p \<Rightarrow> string) \<Rightarrow> ('cb \<Rightarrow> string \<Rightarrow> 'v) \<Rightarrow> byte list \<Rightarrow> byte list \<Rightarrow> byte list \<Rightarrow> ('p, 'cb) run_op \<Rightarrow>
   ('cb, 'v) run_state \<Rightarrow> ('cb, 'v) run_state result" where
  "client_step stale ser parse pad buf data (Call p P cb) (c, out, made) =
     (if card (guid_live (ids c)) < 1023
      then bindE (CallRPCAsync stale ser p P cb c) (\<lambda>c. Inr (c, out, made @ [cb]))
      else Inr (c, out, made))"
| "client_step stale ser parse pad buf data (Written sr) (c, out, made) =
     bindE (Client_HandleEvent parse pad buf data sr (RecvErr EAGAIN) (Connfd c, WRITE_EVENT) c) (\<lambda>c'.
       Inr (c', out @ seqnos (take 1 (PendingRequests c)), made))"
| "client_step stale ser parse pad buf data (Answered k s junk) (c, out, made) =
     (if k < length out
      then bindE (Client_HandleEvent parse pad buf data (SendOk 0) (RecvOk (result_bytes (answer (out ! k) s junk)))
             (Connfd c, READ_EVENT) c) (\<lambda>c. Inr (c, remove1 (out ! k) out, made))
      else Inr (c, out, made))"

fun client_run ::
  "int \<Rightarrow> ('p \<Rightarrow> string) \<Rightarrow> ('cb \<Rightarrow> string \<Rightarrow> 'v) \<Rightarrow> byte list \<Rightarrow> byte list \<Rightarrow> byte list \<Rightarrow> ('p, 'cb) run_op list \<Rightarrow>
   ('cb, 'v) run_state \<Rightarrow> ('cb, 'v) run_state result" where
  "client_run stale ser parse pad buf data [] st = Inr st"
| "client_run stale ser parse pad buf data (op # ops) st =
     bindE (client_step stale ser parse pad buf data op st) (client_run stale ser parse pad buf data ops)"

fun run_op_ok :: "('p \<Rightarrow> string) \<Rightarrow> ('p, 'cb) run_op \<Rightarrow> bool" where
  "run_op_ok ser (Call p P cb) \<longleftrightarrow> linked p \<and> call_fits p (until_nul (ser P))"
| "run_op_ok ser (Written sr) \<longleftrightarrow> True"
| "run_op_ok ser (Answered k s junk) \<longleftrightarrow> answer_fits s junk"

text \<open>The callbacks that wait in the table.\<close>

definition waiting :: "('cb, 'v) client \<Rightarrow> 'cb multiset" where
  "waiting c = image_mset (\<lambda>i. the (CallidCallbackMapping c i)) (mset_set (guid_live (ids c)))"

lemma waiting_insert:
  assumes "finite (guid_live (ids c))" "i \<notin> guid_live (ids c)" "guid_live (ids c') = insert i (guid_live (ids c))"
    and "CallidCallbackMapping c' = (CallidCallbackMapping c)(i := Some cb)"
  shows "waiting c' = add_mset cb (waiting c)"
proof -
  have "image_mset (\<lambda>j. the (if j = i then Some cb else CallidCallbackMapping c j)) (mset_set (guid_live (ids c))) =
      image_mset (\<lambda>j. the (CallidCallbackMapping c j)) (mset_set (guid_live (ids c)))"
    using assms(1,2) by (intro image_mset_cong) auto
  then show ?thesis using assms by (simp add: waiting_def fun_upd_def)
qed

lemma waiting_remove:
  assumes "finite (guid_live (ids c))" "i \<in> guid_live (ids c)" "guid_live (ids c') = guid_live (ids c) - {i}"
    and "CallidCallbackMapping c' = (CallidCallbackMapping c)(i := None)" "CallidCallbackMapping c i = Some cb"
  shows "waiting c = add_mset cb (waiting c')"
  by (rule waiting_insert [of c' i c cb]) (use assms in \<open>auto simp: insert_absorb fun_upd_idem\<close>)

fun run_inv :: "('cb, 'v) run_state \<Rightarrow> bool" where
  "run_inv (c, out, made) \<longleftrightarrow> client_ok out c \<and> mset made = mset (map fst (completed c)) + waiting c"

lemma client_step_call:
  assumes "run_inv (c, out, made)" "linked p" "call_fits p (until_nul (ser P))"
  shows "\<exists>st. client_step stale ser parse pad buf data (Call p P cb) (c, out, made) = Inr st \<and> run_inv st"
proof (cases "card (guid_live (ids c)) < 1023")
  case True
  have ok: "client_ok out c" using assms(1) by simp
  then have fin: "finite (guid_live (ids c))" by (auto simp: client_ok_def guid_defs)
  obtain i g c1 where c1: "GetGuid stale (ids c) = (i, g)" "CallRPCAsync stale ser p P cb c = Inr c1"
    "client_ok out c1" "PendingRequests c1 = PendingRequests c @ [call_message p i (until_nul (ser P))]"
    "CallidCallbackMapping c1 = (CallidCallbackMapping c)(i := Some cb)" "CallidCallbackMapping c i = None"
    "completed c1 = completed c" "1 \<le> i" "i \<le> 1023" "Connfd c1 = Connfd c"
    "guid_live (ids c1) = insert i (guid_live (ids c))" "i \<notin> guid_live (ids c)"
    by (rule CallRPCAsync_ok [of out c p ser P stale cb, OF ok assms(2,3) True])
  have "mset (made @ [cb]) = mset (map fst (completed c1)) + waiting c1"
    using waiting_insert [OF fin c1(12,11,5)] assms(1) c1(7) by simp
  with True c1(2,3) show ?thesis by simp
qed (use assms in simp)

lemma client_step_written:
  assumes "run_inv (c, out, made)" "length pad = 3" "length buf = MAX_BUFFER"
  shows "\<exists>st. client_step stale ser parse pad buf data (Written sr) (c, out, made) = Inr st \<and> run_inv st"
proof -
  have ok: "client_ok out c" using assms(1) by simp
  obtain c1 where c1: "Client_HandleEvent parse pad buf data sr (RecvErr EAGAIN) (Connfd c, WRITE_EVENT) c = Inr c1"
    "client_ok (out @ seqnos (take 1 (PendingRequests c))) c1" "CallidCallbackMapping c1 = CallidCallbackMapping c"
    "ids c1 = ids c" "completed c1 = completed c"
    by (rule write_step [OF ok assms(2,3)]) blast
  then show ?thesis using assms(1) by (simp add: waiting_def)
qed

lemma client_step_answered:
  assumes "run_inv (c, out, made)" "length data = 4096" "answer_fits s junk"
  shows "\<exists>st. client_step stale ser parse pad buf data (Answered k s junk) (c, out, made) = Inr st \<and> run_inv st"
proof (cases "k < length out")
  case True
  then have i: "out ! k \<in> set out" by simp
  have ok: "client_ok out c" using assms(1) by simp
  then have fin: "finite (guid_live (ids c))" by (auto simp: client_ok_def guid_defs)
  obtain cb c1 where c1: "CallidCallbackMapping c (out ! k) = Some cb"
    "Client_HandleEvent parse pad buf data (SendOk 0) (RecvOk (result_bytes (answer (out ! k) s junk))) (Connfd c, READ_EVENT) c = Inr c1"
    "client_ok (remove1 (out ! k) out) c1" "completed c1 = completed c @ [(cb, parse cb s)]"
    "CallidCallbackMapping c1 = (CallidCallbackMapping c)(out ! k := None)"
    "guid_live (ids c1) = guid_live (ids c) - {out ! k}" "out ! k \<in> guid_live (ids c)"
    by (rule answer_step [where parse = parse and pad = pad and buf = buf and sr = "SendOk 0",
          OF ok i assms(3,2)], rule that; assumption)
  have "mset made = mset (map fst (completed c1)) + waiting c1"
    using waiting_remove [OF fin c1(7,6,5,1)] assms(1) c1(4) by simp
  with True c1(2,3) show ?thesis by simp
qed (use assms in simp)

lemma client_run_inv:
  assumes "length pad = 3" "length buf = MAX_BUFFER" "length data = 4096"
  shows "run_inv st \<Longrightarrow> list_all (run_op_ok ser) ops \<Longrightarrow>
    \<exists>st'. client_run stale ser parse pad buf data ops st = Inr st' \<and> run_inv st'"
proof (induction ops arbitrary: st)
  case (Cons op ops)
  obtain c out made where st: "st = (c, out, made)" by (cases st)
  note S = client_step_call client_step_written [OF _ assms(1,2)] client_step_answered [OF _ assms(3)]
  have "\<exists>st1. client_step stale ser parse pad buf data op st = Inr st1 \<and> run_inv st1"
    using Cons.prems unfolding st by (cases op) (auto simp only: list.pred_inject run_op_ok.simps intro!: S)
  with Cons.IH Cons.prems(2) show ?case by auto
qed simp

section \<open>Starting a client\<close>

definition connects :: "connect_env \<Rightarrow> bool" where
  "connects e \<longleftrightarrow> 0 < con_pton e \<and> 0 \<le> con_socket e \<and> con_rcvbuf e = None \<and> con_sndbuf e = None \<and> con_connect e = None"

lemma ConnectTo_eq:
  "connects e \<Longrightarrow> ConnectTo e ip p w = (con_socket e, emit (Connect (con_socket e) ip p)
     (emit (SetSockBuf (con_socket e)) (emit (SetSockBuf (con_socket e)) (emit Socket w))))"
  "\<not> connects e \<Longrightarrow> fst (ConnectTo e ip p w) = -1"
  by (auto simp: connects_def ConnectTo_def Let_def split: option.split)

lemma client_start:
  assumes "0 < ep" "connects e"
  obtains c where "bindE (RpcClient_init ep Guid_init) (RpcClient_Initialize e opt) = Inr c"
    "client_ok [] c" "Connfd c = con_socket e" "completed c = []" "guid_live (ids c) = {}" "PendingRequests c = []"
proof
  let ?fd = "con_socket e"
  let ?c = "\<lparr>trace = [Socket, SetSockBuf ?fd, SetSockBuf ?fd, Connect ?fd (svr_ip opt) (svr_port opt), SetNonblocking ?fd,
      EpollCtl EPOLL_CTL_ADD ?fd EPOLL_FLAGS_IN], ExtraFlags = 0, Connfd = ?fd, PendingRequests = [],
      CallidCallbackMapping = (\<lambda>_. None),
      client_router = \<lparr>Readhdl = Some TheCallbacks, Writehdl = Some TheClientTransport, Closehdl = Some TheClientTransport\<rparr>,
      initialized = True, client_stop = False, ids = Guid_init, completed = []\<rparr>"
  show "bindE (RpcClient_init ep Guid_init) (RpcClient_Initialize e opt) = Inr ?c"
    using assms
    by (simp add: RpcClient_init_def ClientTransport_init_def Poller_init_def RpcClient_Initialize_def
        ClientTransport_Connect_def ConnectTo_eq(1) EventHandlerRouter_init_def)
      (simp add: emit_def AddEvent_def CtrlEvent_def setnonblocking_def connects_def)
  have "Bound Guid_init \<le> 1023" by (simp add: Guid_init_def)
  then show "client_ok [] ?c"
    using assms(2) by (simp add: client_ok_def transport_ok_def connects_def seqnos_def interest_def)
qed simp_all

section \<open>Properties\<close>

text \<open>
  C18. The capacity of the client: with fewer than 1023 calls in progress a call registers its
  callback under a fresh id, queues one request with that id that asks for a result, and keeps the
  invariant; with 1023 calls in progress the next call gets the id 1024, one more than the last
  slot of the table, and writes its callback outside the table.
\<close>

theorem call_capacity:
  fixes c :: "('cb, 'v) client"
  assumes "client_ok out c" "linked p" "call_fits p (until_nul (ser P))"
  shows "if card (guid_live (ids c)) < 1023
    then \<exists>i c'. CallRPCAsync stale ser p P cb c = Inr c' \<and> client_ok out c' \<and>
      PendingRequests c' = PendingRequests c @ [call_message p i (until_nul (ser P))] \<and>
      CallidCallbackMapping c i = None \<and> CallidCallbackMapping c' = (CallidCallbackMapping c)(i := Some cb) \<and>
      guid_live (ids c') = insert i (guid_live (ids c)) \<and> i \<notin> guid_live (ids c)
    else CallRPCAsync stale ser p P cb c = Inl OutOfBounds"
proof (cases "card (guid_live (ids c)) < 1023")
  case True
  show ?thesis
    by (rule CallRPCAsync_ok [of out c p ser P stale cb, OF assms True]) (use True in auto)
next
  case False
  have inv: "guid_inv (ids c)" "Bound (ids c) \<le> 1023" using assms(1) by (auto simp: client_ok_def)
  obtain i g where g: "GetGuid stale (ids c) = (i, g)" by fastforce
  have "card (guid_live (ids c)) = 1023" using card_live [OF inv(1)] inv(2) False by linarith
  then have i: "i = 1024" using GetGuid_range(2) [OF inv g] by simp
  have "CallRPCAsync stale ser p P cb c = Inl OutOfBounds"
    using i by (subst CallRPCAsync_linked [of p ser P stale c i g cb, OF assms(2,3) g])
      (simp_all add: CallbacksHandler_Register_def callback_at_def rpc_consts)
  with False show ?thesis by simp
qed

definition demo_connect :: connect_env where
  "demo_connect = \<lparr>con_pton = 1, con_socket = 3, con_errtext = [], con_rcvbuf = None, con_sndbuf = None, con_connect = None\<rparr>"

definition demo_copt :: client_options where
  "demo_copt = \<lparr>svr_ip = ''127.0.0.1'', svr_port = 8888, callee = ''KVGetter''\<rparr>"

definition demo_proxy :: proxy where
  "demo_proxy = GetProxy \<lparr>ServiceName = ''KVGetter'', linked = False\<rparr>"

lemma demo_proxy: "linked demo_proxy" "call_fits demo_proxy (until_nul ''key'')"
  by (simp_all add: demo_proxy_def GetProxy_def call_fits_def)

lemma demo_client_start:
  obtains c :: "(nat, string) client" where "client_ok [] c" "guid_live (ids c) = {}" "completed c = []"
proof -
  have "0 < (9::int)" "connects demo_connect" by (simp_all add: connects_def demo_connect_def)
  from client_start [OF this, of demo_copt] that show thesis by metis
qed

theorem call_capacity_witness:
  "\<exists>(c :: (nat, string) client) i c'. client_ok [] c \<and>
    CallRPCAsync 0 (\<lambda>s. s) demo_proxy ''key'' 7 c = Inr c' \<and> CallidCallbackMapping c' i = Some 7"
proof -
  obtain c :: "(nat, string) client" where c: "client_ok [] c" "guid_live (ids c) = {}" by (rule demo_client_start)
  from call_capacity [OF c(1) demo_proxy(1), of "\<lambda>s. s" "''key''" 0 7] demo_proxy(2) c show ?thesis by fastforce
qed

text \<open>
  An answer completes its call: a result whose sequence number belongs to a request that was
  sent and not answered, with a terminated payload, runs the callback registered for that call once
  on the parsed payload, empties its slot, frees its id, and touches no other call.
\<close>

theorem answer_completes_call:
  fixes c :: "('cb, 'v) client"
  assumes "client_ok out c" "i \<in> set out" "answer_fits s junk" "length data = 4096"
  shows "\<exists>cb c'. CallidCallbackMapping c i = Some cb \<and>
    Client_HandleEvent parse pad buf data sr (RecvOk (result_bytes (answer i s junk))) (Connfd c, READ_EVENT) c = Inr c' \<and>
    completed c' = completed c @ [(cb, parse cb s)] \<and>
    CallidCallbackMapping c' = (CallidCallbackMapping c)(i := None) \<and>
    guid_live (ids c') = guid_live (ids c) - {i} \<and> PendingRequests c' = PendingRequests c \<and>
    client_ok (remove1 i out) c'"
  by (rule answer_step [where parse = parse and pad = pad and buf = buf and sr = sr, OF assms]) blast

theorem answer_completes_call_witness:
  "\<exists>(c :: (nat, string) client) i cb c'. client_ok [i] c \<and> CallidCallbackMapping c i = Some cb \<and>
    Client_HandleEvent (\<lambda>_ s. s) [NUL, NUL, NUL] (replicate 1024 NUL) (replicate 4096 NUL) (SendOk 0)
      (RecvOk (result_bytes (answer i ''value'' (replicate 474 NUL)))) (Connfd c, READ_EVENT) c = Inr c' \<and>
    completed c' = completed c @ [(cb, ''value'')]"
proof -
  obtain c :: "(nat, string) client" where c: "client_ok [] c" "guid_live (ids c) = {}" by (rule demo_client_start)
  have room: "card (guid_live (ids c)) < 1023" using c(2) by simp
  have fit: "call_fits demo_proxy (until_nul ((\<lambda>s. s) ''key''))" using demo_proxy(2) by simp
  obtain i and c1 :: "(nat, string) client" where c1: "client_ok [] c1"
    "PendingRequests c1 = PendingRequests c @ [call_message demo_proxy i (until_nul ''key'')]" "1 \<le> i" "i \<le> 1023"
    by (rule CallRPCAsync_ok [of "[]" c demo_proxy "\<lambda>s. s" "''key''" 0 7, OF c(1) demo_proxy(1) fit room]) simp
  have "PendingRequests c = []" using c by (auto simp: client_ok_def seqnos_def)
  then have p: "seqnos (take 1 (PendingRequests c1)) = [i]"
    using c1 by (simp add: seqnos_def call_message_def sint_small)
  have len: "length [NUL, NUL, NUL] = 3" "length (replicate 1024 NUL) = MAX_BUFFER" by (simp_all add: rpc_consts)
  obtain c2 :: "(nat, string) client" where "client_ok ([] @ seqnos (take 1 (PendingRequests c1))) c2"
    by (rule write_step [OF c1(1) len]) blast
  then have c2: "client_ok [i] c2" unfolding p by simp
  have i: "i \<in> set [i]" by simp
  have "answer_fits ''value'' (replicate 474 NUL)" by (simp add: answer_fits_def rpc_consts)
  from answer_completes_call [OF c2 i this, of "replicate 4096 NUL" "\<lambda>_ s. s" "[NUL, NUL, NUL]" "replicate 1024 NUL" "SendOk 0"]
    c2 show ?thesis by auto
qed



end
