(* ===== verification/EndToEnd.thy ===== *)
theory EndToEnd
  imports ServerMachine RpcClient
begin

text \<open>
  A whole remote call over the components of both sides: the call, the packet, the handler of the
  server, the result packet, the callback.
\<close>

lemma length_wire:
  assumes "call_fits p s" "length pad = 3"
  shows "wire pad (call_message p i s) = header_bytes pad (header (call_message p i s)) @ s @ [NUL]"
    "length (header_bytes pad (header (call_message p i s))) = 48"
proof -
  have n: "nat (sint (body_length (header (call_message p i s)))) = Suc (length s)"
    using assms(1) by (simp add: call_message_def call_fits_def sint_small del: of_int_add)
  show "wire pad (call_message p i s) = header_bytes pad (header (call_message p i s)) @ s @ [NUL]"
    unfolding wire_def n by (simp add: call_message_def)
  have "wf_header (header (call_message p i s))"
    using call_message_sendable [OF assms(1), of i] by (simp add: sendable_def wf_message_def)
  from length_header_bytes [OF this assms(2)]
  show "length (header_bytes pad (header (call_message p i s))) = 48" by (simp add: sizeof_RpcHeader_def)
qed

text \<open>The server reads back the very message the client made, in two reads.\<close>

lemma request_travels:
  assumes "call_fits p s" "length pad = 3"
  shows "request_of (RecvOk (take 48 (wire pad (call_message p i s)))) (RecvOk (drop 48 (wire pad (call_message p i s)))) =
    Some (call_message p i s)"
proof -
  note W = length_wire [OF assms, of i]
  have wf: "wf_header (header (call_message p i s))"
    using call_message_sendable [OF assms(1), of i] by (simp add: sendable_def wf_message_def)
  have parts: "take 48 (wire pad (call_message p i s)) = header_bytes pad (header (call_message p i s))"
    "drop 48 (wire pad (call_message p i s)) = s @ [NUL]"
    using W by simp_all
  have bl: "sint (body_length (header (call_message p i s))) = int (length s) + 1"
    using assms(1) by (simp add: call_message_def call_fits_def sint_small del: of_int_add)
  have fit: "length s \<le> 479" using assms(1) by (simp add: call_fits_def)
  have ps: "drop (Suc (length s)) (replicate 480 NUL) = replicate (479 - length s) NUL" by simp
  show ?thesis
    unfolding parts request_of_def
    using fit by (simp add: W(2) sizeof_RpcHeader_def header_of_header_bytes [OF wf assms(2)] bl rpc_consts ps Let_def)
      (simp add: call_message_def)
qed

lemma call_service:
  assumes "call_fits p s" "no_nul (ServiceName p)"
  shows "service_for (call_message p i s) srv = dictionary srv (ServiceName p)"
  using assms(2) by (simp add: service_for_def call_message_def buf_simps)

text \<open>The server's half of a call: the packet is served, the result is sent.\<close>

lemma server_answers:
  fixes s :: "('svc, 'app) server"
  assumes "call_fits p ps" "length pad = 3" "no_nul (ServiceName p)" "dictionary s (ServiceName p) = Some svc"
    and "valid_fd fd" "return_values s fd = []"
    and "Handle svc (call_message p i ps) (app s) = Inr (res, app')" "return_buffer res = t @ NUL # junk"
    and b: "b = wire pad (call_message p i ps)"
  obtains s1 s2 where
    "RequestHandler_HandleReadEvent Handle (RecvOk (take 48 b)) (RecvOk (drop 48 b)) fd s = Inr s1" "app s1 = app'"
    "ResultSender_HandleWriteEvent (SendOk n) fd s1 = Inr s2"
    "Send fd (result_bytes (answer i t junk)) \<in> set (drop (length (trace s1)) (trace s2))" "return_values s2 fd = []"
proof -
  let ?m = "call_message p i ps"
  let ?r = "recv_trace fd (RecvOk (take 48 b)) s"
  let ?s1 = "served fd ?m res app' ?r"
  note req = request_travels [OF assms(1,2), of i, folded b]
  have sf: "service_for ?m ?r = Some svc" by (simp add: call_service [OF assms(1,3)] assms(4))
  have h: "RequestHandler_HandleReadEvent Handle (RecvOk (take 48 b)) (RecvOk (drop 48 b)) fd s = Inr ?s1"
    unfolding HandleReadEvent_request [OF req]
    using handle_message_served [of ?m ?r svc Handle res app' fd] sf assms(5,7) by simp
  have nr: "need_return (header ?m)" "seqno (header ?m) = word_of_int i" by (simp_all add: call_message_def)
  have ans: "res\<lparr>result_seqno := word_of_int i\<rparr> = answer i t junk" using assms(8) by (simp add: answer_def)
  have s1: "return_values ?s1 fd = [answer i t junk]" "app ?s1 = app'"
    using nr assms(6) by (simp_all add: served_def Let_def ans)
  obtain s2 where s2: "ResultSender_HandleWriteEvent (SendOk n) fd ?s1 = Inr s2"
    "Send fd (result_bytes (answer i t junk)) \<in> set (drop (length (trace ?s1)) (trace s2))" "return_values s2 fd = []"
    using assms(5) s1(1)
    by (simp add: ResultSender_HandleWriteEvent_def Pipe_Read_def pipe_at_def Let_def FileDescriptorEventDone_eq)
  from h s1(2) s2 show thesis by (rule that)
qed

section \<open>Properties\<close>

text \<open>
  C1. A remote call runs end to end: with room for a call on the client and its service registered
  on the server, the call queues one request; the write event sends one packet; the server, given
  that packet in two reads, calls the service once with the client's message and queues the result;
  its write event sends one packet; the client, given that packet, runs the callback of the call,
  and no other, on the parsed payload the service returned.
\<close>

theorem rpc_end_to_end:
  fixes c :: "('cb, 'v) client" and s :: "('svc, 'app) server"
  assumes client: "client_ok out c" "linked p" "call_fits p (until_nul (ser P))" "card (guid_live (ids c)) < 1023"
      "PendingRequests c = []" "length pad = 3" "length buf = MAX_BUFFER" "length data = 4096"
    and server: "no_nul (ServiceName p)" "dictionary s (ServiceName p) = Some svc" "valid_fd fd"
      "interest (trace s) fd \<noteq> None" "return_values s fd = []"
    and service: "\<And>i. Handle svc (call_message p i (until_nul (ser P))) (app s) = Inr (res, app')"
      "return_buffer res = t @ NUL # junk" "answer_fits t junk"
  shows "\<exists>c1 c2 b s1 s2 b' c3. CallRPCAsync stale ser p P cb c = Inr c1 \<and>
    Client_HandleEvent parse pad buf data (SendOk n) rr (Connfd c, WRITE_EVENT) c1 = Inr c2 \<and>
    sends (trace c2) = sends (trace c1) @ [b] \<and>
    RequestHandler_HandleReadEvent Handle (RecvOk (take 48 b)) (RecvOk (drop 48 b)) fd s = Inr s1 \<and> app s1 = app' \<and>
    ResultSender_HandleWriteEvent (SendOk n') fd s1 = Inr s2 \<and>
    Send fd b' \<in> set (drop (length (trace s1)) (trace s2)) \<and> return_values s2 fd = [] \<and>
    Client_HandleEvent parse pad buf data sr (RecvOk b') (Connfd c, READ_EVENT) c2 = Inr c3 \<and>
    completed c3 = completed c @ [(cb, parse cb t)] \<and> client_ok out c3"
proof -
  let ?s = "until_nul (ser P)"
  obtain i g c1 where c1: "GetGuid stale (ids c) = (i, g)" "CallRPCAsync stale ser p P cb c = Inr c1" "client_ok out c1"
    "PendingRequests c1 = PendingRequests c @ [call_message p i ?s]"
    "CallidCallbackMapping c1 = (CallidCallbackMapping c)(i := Some cb)" "CallidCallbackMapping c i = None"
    "completed c1 = completed c" "1 \<le> i" "i \<le> 1023" "Connfd c1 = Connfd c"
    "guid_live (ids c1) = insert i (guid_live (ids c))" "i \<notin> guid_live (ids c)"
    by (rule CallRPCAsync_ok [of out c p ser P stale cb, OF client(1-4)])
  let ?m = "call_message p i ?s"
  have pend: "take 1 (PendingRequests c1) = [?m]" using c1(4) client(5) by simp
  have sq: "seqnos [?m] = [i]" using c1(8,9) by (simp add: seqnos_def call_message_def sint_small)
  have fresh: "i \<notin> set out" using client(1) c1(12) by (auto simp: client_ok_def)
  obtain c2 where c2: "Client_HandleEvent parse pad buf data (SendOk n) rr (Connfd c1, WRITE_EVENT) c1 = Inr c2"
    "client_ok (out @ [i]) c2" "CallidCallbackMapping c2 = CallidCallbackMapping c1" "completed c2 = completed c1"
    "Connfd c2 = Connfd c1" "sends (trace c2) = sends (trace c1) @ [wire pad ?m]"
    by (rule write_step [where parse = parse and data = data and sr = "SendOk n" and rr = rr, OF c1(3) client(6,7)])
      (rule that, unfold pend sq list.map, assumption+)
  obtain s1 s2 where srv:
    "RequestHandler_HandleReadEvent Handle (RecvOk (take 48 (wire pad ?m))) (RecvOk (drop 48 (wire pad ?m))) fd s = Inr s1"
    "app s1 = app'" "ResultSender_HandleWriteEvent (SendOk n') fd s1 = Inr s2"
    "Send fd (result_bytes (answer i t junk)) \<in> set (drop (length (trace s1)) (trace s2))" "return_values s2 fd = []"
    by (rule server_answers [where Handle = Handle and i = i, OF client(3,6) server(1-3,5) service(1,2) refl])
  have i: "i \<in> set (out @ [i])" by simp
  obtain cb' c3 where c3: "CallidCallbackMapping c2 i = Some cb'"
    "Client_HandleEvent parse pad buf data sr (RecvOk (result_bytes (answer i t junk))) (Connfd c2, READ_EVENT) c2 = Inr c3"
    "client_ok (remove1 i (out @ [i])) c3" "completed c3 = completed c2 @ [(cb', parse cb' t)]"
    by (rule answer_step [where parse = parse and pad = pad and buf = buf and sr = sr, OF c2(2) i service(3) client(8)])
      (rule that; assumption)
  have "cb' = cb" using c3(1) c2(3) c1(5) by simp
  moreover have "remove1 i (out @ [i]) = out" using fresh by (simp add: remove1_append)
  ultimately show ?thesis
    using c1 c2 srv c3 by (intro exI conjI) (assumption | simp)+
qed

theorem rpc_end_to_end_witness:
  "\<exists>(c :: (nat, string) client) c1 c2 b s1 s2 b' c3.
    CallRPCAsync 0 (\<lambda>s. s) demo_proxy ''key'' 7 c = Inr c1 \<and>
    Client_HandleEvent (\<lambda>_ s. s) [NUL, NUL, NUL] (replicate 1024 NUL) (replicate 4096 NUL) (SendOk 52) (RecvErr 11)
      (Connfd c, WRITE_EVENT) c1 = Inr c2 \<and> sends (trace c2) = sends (trace c1) @ [b] \<and>
    RequestHandler_HandleReadEvent demo_Handle (RecvOk (take 48 b)) (RecvOk (drop 48 b)) 5 demo_server = Inr s1 \<and>
    ResultSender_HandleWriteEvent (SendOk 484) 5 s1 = Inr s2 \<and>
    Client_HandleEvent (\<lambda>_ s. s) [NUL, NUL, NUL] (replicate 1024 NUL) (replicate 4096 NUL) (SendOk 0) (RecvOk b')
      (Connfd c, READ_EVENT) c2 = Inr c3 \<and> completed c3 = completed c @ [(7, [])]"
proof -
  obtain c :: "(nat, string) client" where c: "client_ok [] c" "guid_live (ids c) = {}" by (rule demo_client_start)
  have room: "card (guid_live (ids c)) < 1023" "PendingRequests c = []" using c by (auto simp: client_ok_def seqnos_def)
  have fit: "call_fits demo_proxy (until_nul ((\<lambda>s. s) ''key''))" using demo_proxy(2) by simp
  have len: "length [NUL, NUL, NUL] = 3" "length (replicate 1024 NUL) = MAX_BUFFER" "length (replicate 4096 NUL) = 4096"
    by (simp_all add: rpc_consts)
  have srv: "no_nul (ServiceName demo_proxy)" "dictionary demo_server (ServiceName demo_proxy) = Some 0" "valid_fd 5"
    "interest (trace demo_server) 5 \<noteq> None" "return_values demo_server 5 = []"
    by (simp_all add: demo_proxy_def GetProxy_def demo_interest rpc_consts) (simp_all add: demo_server_def)
  have hdl: "demo_Handle 0 (call_message demo_proxy i (until_nul ((\<lambda>s. s) ''key''))) (app demo_server) = Inr (demo_result, 1)" for i
    by (simp add: demo_Handle_def demo_server_def)
  have buf: "return_buffer demo_result = [] @ NUL # replicate 479 NUL" "answer_fits [] (replicate 479 NUL)"
    by (simp_all add: demo_result_def answer_fits_def rpc_consts flip: replicate_Suc)
  from rpc_end_to_end [where ser = "\<lambda>s. s" and P = "''key''" and Handle = demo_Handle and svc = 0 and s = demo_server
      and p = demo_proxy and res = demo_result and app' = 1 and t = "[]" and junk = "replicate 479 NUL" and stale = 0 and cb = 7 and parse = "\<lambda>_ s. s" and n = 52 and n' = 484
      and rr = "RecvErr 11" and sr = "SendOk 0", OF c(1) demo_proxy(1) fit room len srv hdl buf]
  show ?thesis by blast
qed

end
