(* ===== verification/ClientMachine.thy ===== *)
theory ClientMachine
  imports RpcClient
begin

text \<open>
  The client process as a state machine at the granularity of its threads: any number of threads
  that make calls, any number of \<open>RpcClient\<close> objects with their main loops, and the one allocator of
  sequence numbers they all share (the static members of \<open>Guid\<close>).

  \<open>CallRPCAsync\<close> is split where other threads can interfere: the allocation (under \<open>HeapMutex\<close>), the
  registration of the callback (no lock), the push of the request (under \<open>mu\<close>). So is
  \<open>CallbacksHandler::HandleReadEvent\<close>: the callback runs, its slot is cleared, the number is given
  back. \<open>CallRPCAsync_split\<close> and \<open>HandleReadEvent_split\<close> show that the parts, run without a break,
  are the functions of \<open>RpcClient\<close> and \<open>CallbacksHandler\<close>. The server answers requests it was sent,
  in any order; at most 1023 calls are in progress.

  Lemmas: every sequence number in use is in the hands of exactly one thread, queue, server or
  loop; a slot of a table is occupied exactly while its number is on its way from registration to
  clearing; the callbacks made are those that have run and those that wait.
\<close>

section \<open>The parts of a call and of an answer\<close>

definition build_call :: "('p \<Rightarrow> string) \<Rightarrow> proxy \<Rightarrow> 'p \<Rightarrow> int \<Rightarrow> RpcMessage result" where
  "build_call ser p P i =
     (let h = (header RpcMessage_init)\<lparr>seqno := word_of_int i\<rparr>
      in bindE (write_at 0 (ServiceName p @ [NUL]) (servicename h)) (\<lambda>sn.
         bindE (PackProtoStruct ser (parameters (body RpcMessage_init)) P) (\<lambda>(ps, n).
           Inr \<lparr>header = h\<lparr>servicename := sn, body_length := word_of_int n\<rparr>, body = \<lparr>parameters = ps\<rparr>\<rparr>)))"

definition asking :: "RpcMessage \<Rightarrow> RpcMessage" where
  "asking Context = Context\<lparr>header := (header Context)\<lparr>need_return := True\<rparr>\<rparr>"

lemma CallRPCAsync_split:
  assumes "linked p"
  shows "CallRPCAsync stale ser p P cb c =
     (let (i, g) = GetGuid stale (ids c); c = c\<lparr>ids := g\<rparr>
      in if sint (word_of_int i :: int32) = -1 then Inr c
         else bindE (build_call ser p P i) (\<lambda>m.
           bindE (CallbacksHandler_Register (sint (seqno (header m))) cb c) (RpcClient_SendRequest (asking m))))"
  using assms
  by (cases "GetGuid stale (ids c)"; cases "write_at 0 (ServiceName p @ [NUL]) (servicename (header RpcMessage_init))";
      cases "PackProtoStruct ser (parameters (body RpcMessage_init)) P")
    (auto simp: CallRPCAsync_def build_call_def asking_def AsyncInvoke_def Let_def)

definition read_exec ::
  "('cb \<Rightarrow> string \<Rightarrow> 'v) \<Rightarrow> byte list \<Rightarrow> byte list \<Rightarrow> int \<Rightarrow> ('cb, 'v) client \<Rightarrow> (int \<times> ('cb, 'v) client) result" where
  "read_exec parse data d Fd c =
     (let c = emit (Recv Fd sizeof_RpcResult) c in
      bindE (write_at 0 d (replicate sizeof_RpcResult NUL)) (\<lambda>bytes.
        let res = result_of_bytes bytes; i = sint (result_seqno res) in
        bindE (callback_at i c) (\<lambda>p.
        bindE (deref p) (\<lambda>cb.
        bindE (CallbackFunction_Exec parse data cb (return_buffer res) c) (\<lambda>c. Inr (i, c))))))"

definition read_clear :: "int \<Rightarrow> ('cb, 'v) client \<Rightarrow> ('cb, 'v) client" where
  "read_clear i c = c\<lparr>CallidCallbackMapping := (CallidCallbackMapping c)(i := None)\<rparr>"

lemma HandleReadEvent_split:
  "CallbacksHandler_HandleReadEvent parse data (RecvOk d) Fd c =
     bindE (read_exec parse data d Fd c) (\<lambda>(i, c).
       let c = read_clear i c in Inr (c\<lparr>ids := RecycleGuid i (ids c)\<rparr>))"
  by (simp add: CallbacksHandler_HandleReadEvent_def read_exec_def read_clear_def bindE_assoc Let_def)

section \<open>The process\<close>

datatype stage = Polling | Executed int | Cleared int

datatype 'cb user = Idle | Allocated nat RpcMessage 'cb | Registered nat RpcMessage

text \<open>A client object with its loop, and the requests it has sent that are not answered.\<close>

record ('cb, 'v) node =
  node_obj :: "('cb, 'v) client"
  node_out :: "int list"
  node_stage :: stage

record ('cb, 'v) process =
  guid :: Guid
  users :: "'cb user list"
  nodes :: "('cb, 'v) node list"
  made :: "'cb list"

datatype actor = User nat | Loop nat

definition put_user :: "nat \<Rightarrow> 'cb user \<Rightarrow> ('cb, 'v) process \<Rightarrow> ('cb, 'v) process" where
  "put_user t u st = st\<lparr>users := (users st)[t := u]\<rparr>"

definition put_node :: "nat \<Rightarrow> ('cb, 'v) node \<Rightarrow> ('cb, 'v) process \<Rightarrow> ('cb, 'v) process" where
  "put_node n nd st = st\<lparr>nodes := (nodes st)[n := nd]\<rparr>"

definition msg_id :: "RpcMessage \<Rightarrow> int" where
  "msg_id m = sint (seqno (header m))"

inductive proc_step ::
  "('p \<Rightarrow> string) \<Rightarrow> ('cb \<Rightarrow> string \<Rightarrow> 'v) \<Rightarrow> actor \<Rightarrow> ('cb, 'v) process \<Rightarrow> ('cb, 'v) process \<Rightarrow> bool"
  for ser parse where
  allocate: "t < length (users st) \<Longrightarrow> users st ! t = Idle \<Longrightarrow> n < length (nodes st) \<Longrightarrow>
    linked p \<Longrightarrow> call_fits p (until_nul (ser P)) \<Longrightarrow> card (guid_live (guid st)) < 1023 \<Longrightarrow>
    GetGuid stale (guid st) = (i, g) \<Longrightarrow> build_call ser p P i = Inr m \<Longrightarrow>
    proc_step ser parse (User t) st (put_user t (Allocated n m cb) (st\<lparr>guid := g, made := made st @ [cb]\<rparr>))"
| register: "t < length (users st) \<Longrightarrow> users st ! t = Allocated n m cb \<Longrightarrow> nd = nodes st ! n \<Longrightarrow>
    CallbacksHandler_Register (msg_id m) cb (node_obj nd) = Inr c \<Longrightarrow>
    proc_step ser parse (User t) st (put_user t (Registered n (asking m)) (put_node n (nd\<lparr>node_obj := c\<rparr>) st))"
| send: "t < length (users st) \<Longrightarrow> users st ! t = Registered n m \<Longrightarrow> nd = nodes st ! n \<Longrightarrow>
    RpcClient_SendRequest m (node_obj nd) = Inr c \<Longrightarrow>
    proc_step ser parse (User t) st (put_user t Idle (put_node n (nd\<lparr>node_obj := c\<rparr>) st))"
| write_out: "n < length (nodes st) \<Longrightarrow> nd = nodes st ! n \<Longrightarrow> node_stage nd = Polling \<Longrightarrow>
    length pad = 3 \<Longrightarrow> length buf = MAX_BUFFER \<Longrightarrow>
    Client_HandleEvent parse pad buf data sr rr (Connfd (node_obj nd), WRITE_EVENT) (node_obj nd) = Inr c \<Longrightarrow>
    proc_step ser parse (Loop n) st
      (put_node n (nd\<lparr>node_obj := c, node_out := node_out nd @ seqnos (take 1 (PendingRequests (node_obj nd)))\<rparr>) st)"
| exec: "n < length (nodes st) \<Longrightarrow> nd = nodes st ! n \<Longrightarrow> node_stage nd = Polling \<Longrightarrow>
    i \<in> set (node_out nd) \<Longrightarrow> answer_fits s junk \<Longrightarrow> length data = 4096 \<Longrightarrow>
    read_exec parse data (result_bytes (answer i s junk)) (Connfd (node_obj nd)) (node_obj nd) = Inr (j, c) \<Longrightarrow>
    proc_step ser parse (Loop n) st
      (put_node n (nd\<lparr>node_obj := c, node_out := remove1 i (node_out nd), node_stage := Executed j\<rparr>) st)"
| clear: "n < length (nodes st) \<Longrightarrow> nd = nodes st ! n \<Longrightarrow> node_stage nd = Executed i \<Longrightarrow>
    proc_step ser parse (Loop n) st
      (put_node n (nd\<lparr>node_obj := read_clear i (node_obj nd), node_stage := Cleared i\<rparr>) st)"
| recycle: "n < length (nodes st) \<Longrightarrow> nd = nodes st ! n \<Longrightarrow> node_stage nd = Cleared i \<Longrightarrow>
    proc_step ser parse (Loop n) st
      (put_node n (nd\<lparr>node_stage := Polling\<rparr>) (st\<lparr>guid := RecycleGuid i (guid st)\<rparr>))"

text \<open>A process starts with its threads idle and clients made by \<open>GetRpcClient\<close>.\<close>

definition fresh_client :: "('cb, 'v) client \<Rightarrow> bool" where
  "fresh_client c \<longleftrightarrow> (\<exists>e ep opt. GetRpcClient e ep Guid_init opt = Inr c)"

definition process_init :: "nat \<Rightarrow> ('cb, 'v) client list \<Rightarrow> ('cb, 'v) process" where
  "process_init k cs = \<lparr>guid = Guid_init, users = replicate k Idle,
     nodes = map (\<lambda>c. \<lparr>node_obj = c, node_out = [], node_stage = Polling\<rparr>) cs, made = []\<rparr>"

inductive proc_reachable :: "('p \<Rightarrow> string) \<Rightarrow> ('cb \<Rightarrow> string \<Rightarrow> 'v) \<Rightarrow> ('cb, 'v) process \<Rightarrow> bool" for ser parse where
  init: "list_all fresh_client cs \<Longrightarrow> proc_reachable ser parse (process_init k cs)"
| step: "proc_reachable ser parse st \<Longrightarrow> proc_step ser parse a st st' \<Longrightarrow> proc_reachable ser parse st'"

section \<open>The invariant\<close>

fun user_ids :: "'cb user \<Rightarrow> int multiset" where
  "user_ids Idle = {#}"
| "user_ids (Allocated n m cb) = {#msg_id m#}"
| "user_ids (Registered n m) = {#msg_id m#}"

text \<open>The numbers of registered calls of client \<open>n\<close> that are not queued yet.\<close>

fun user_held :: "nat \<Rightarrow> 'cb user \<Rightarrow> int multiset" where
  "user_held n Idle = {#}"
| "user_held n (Allocated k m cb) = {#}"
| "user_held n (Registered k m) = (if k = n then {#msg_id m#} else {#})"

fun user_cbs :: "'cb user \<Rightarrow> 'cb multiset" where
  "user_cbs Idle = {#}"
| "user_cbs (Allocated n m cb) = {#cb#}"
| "user_cbs (Registered n m) = {#}"

fun executed :: "stage \<Rightarrow> int multiset" where
  "executed Polling = {#}"
| "executed (Executed i) = {#i#}"
| "executed (Cleared i) = {#}"

fun cleared :: "stage \<Rightarrow> int multiset" where
  "cleared Polling = {#}"
| "cleared (Executed i) = {#}"
| "cleared (Cleared i) = {#i#}"

definition node_held :: "('cb, 'v) node \<Rightarrow> int multiset" where
  "node_held nd = mset (seqnos (PendingRequests (node_obj nd))) + mset (node_out nd) + executed (node_stage nd)"

definition node_ids :: "('cb, 'v) node \<Rightarrow> int multiset" where
  "node_ids nd = node_held nd + cleared (node_stage nd)"

definition slots :: "('cb, 'v) node \<Rightarrow> int set" where
  "slots nd = {i. CallidCallbackMapping (node_obj nd) i \<noteq> None}"

text \<open>The callbacks that have run and those in the table that have not.\<close>

definition node_cbs :: "('cb, 'v) node \<Rightarrow> 'cb multiset" where
  "node_cbs nd = mset (map fst (completed (node_obj nd))) +
     image_mset (\<lambda>i. the (CallidCallbackMapping (node_obj nd) i)) (mset_set (slots nd - set_mset (executed (node_stage nd))))"

definition obj_ok :: "('cb, 'v) client \<Rightarrow> bool" where
  "obj_ok c \<longleftrightarrow> transport_ok c \<and> initialized c \<and>
     client_router c = \<lparr>Readhdl = Some TheCallbacks, Writehdl = Some TheClientTransport, Closehdl = Some TheClientTransport\<rparr>"

fun user_ok :: "nat \<Rightarrow> 'cb user \<Rightarrow> bool" where
  "user_ok N Idle \<longleftrightarrow> True"
| "user_ok N (Allocated n m cb) \<longleftrightarrow> n < N \<and> sendable (asking m)"
| "user_ok N (Registered n m) \<longleftrightarrow> n < N \<and> sendable m"

definition node_ok :: "('cb, 'v) process \<Rightarrow> nat \<Rightarrow> bool" where
  "node_ok st n \<longleftrightarrow> obj_ok (node_obj (nodes st ! n)) \<and> finite (slots (nodes st ! n)) \<and>
     (\<Sum>u\<leftarrow>users st. user_held n u) + node_held (nodes st ! n) = mset_set (slots (nodes st ! n))"

definition proc_ok :: "('cb, 'v) process \<Rightarrow> bool" where
  "proc_ok st \<longleftrightarrow> guid_inv (guid st) \<and> Bound (guid st) \<le> 1023 \<and>
     list_all (user_ok (length (nodes st))) (users st) \<and> (\<forall>n < length (nodes st). node_ok st n) \<and>
     (\<Sum>u\<leftarrow>users st. user_ids u) + (\<Sum>nd\<leftarrow>nodes st. node_ids nd) = mset_set (guid_live (guid st)) \<and>
     (\<Sum>u\<leftarrow>users st. user_cbs u) + (\<Sum>nd\<leftarrow>nodes st. node_cbs nd) = mset (made st)"

lemma put_simps [simp]:
  "guid (put_user t u st) = guid st" "nodes (put_user t u st) = nodes st" "made (put_user t u st) = made st"
  "users (put_user t u st) = (users st)[t := u]"
  "guid (put_node n nd st) = guid st" "users (put_node n nd st) = users st" "made (put_node n nd st) = made st"
  "nodes (put_node n nd st) = (nodes st)[n := nd]"
  by (simp_all add: put_user_def put_node_def)

lemma proc_okD:
  assumes "proc_ok st"
  shows "guid_inv (guid st)" "Bound (guid st) \<le> 1023" "list_all (user_ok (length (nodes st))) (users st)"
    "\<And>n. n < length (nodes st) \<Longrightarrow> node_ok st n" "finite (guid_live (guid st))"
    "(\<Sum>u\<leftarrow>users st. user_ids u) + (\<Sum>nd\<leftarrow>nodes st. node_ids nd) = mset_set (guid_live (guid st))"
    "(\<Sum>u\<leftarrow>users st. user_cbs u) + (\<Sum>nd\<leftarrow>nodes st. node_cbs nd) = mset (made st)"
  using assms unfolding proc_ok_def guid_defs by (blast intro: finite_subset)+

lemma build_call_ok:
  assumes "call_fits p (until_nul (ser P))" "1 \<le> i" "i \<le> 1024"
  shows "\<exists>m. build_call ser p P i = Inr m \<and> asking m = call_message p i (until_nul (ser P)) \<and> msg_id m = i"
proof -
  have w1: "write_at 0 (ServiceName p @ [NUL]) (replicate 32 NUL) =
      Inr (ServiceName p @ NUL # replicate (31 - length (ServiceName p)) NUL)"
    using assms(1) by (simp add: call_fits_def write_at_def)
  have w2: "write_at 0 (until_nul (ser P) @ [NUL]) (replicate 480 NUL) =
      Inr (until_nul (ser P) @ NUL # replicate (479 - length (until_nul (ser P))) NUL)"
    using assms(1) by (simp add: call_fits_def write_at_def)
  show ?thesis
    using assms(2,3)
    by (simp add: build_call_def RpcMessage_init_def rpc_consts w1 w2 PackProtoStruct_until_nul asking_def
        call_message_def msg_id_def sint_small)
qed

lemma msg_id_asking [simp]: "msg_id (asking m) = msg_id m"
  by (simp add: msg_id_def asking_def)

lemma node_ok_frame:
  assumes "node_ok st k" "t < length (users st)" "user_held k u = user_held k (users st ! t)"
    and "users st' = (users st)[t := u]" "nodes st' ! k = nodes st ! k"
  shows "node_ok st' k"
  using assms by (simp add: node_ok_def sum_list_map_same [of t _ "user_held k"])

lemma list_all_put: "list_all Q xs \<Longrightarrow> Q y \<Longrightarrow> list_all Q (xs[i := y])"
  unfolding list_all_iff using set_update_subset_insert [of xs i y] by auto

lemma user_held_ids: "i \<in># user_held n u \<Longrightarrow> i \<in># user_ids u"
  by (cases u) (simp_all split: if_splits)

text \<open>A number is in one place: what one thread holds nobody else does.\<close>

lemma user_number_unique:
  assumes "proc_ok st" "t < length (users st)" "user_ids (users st ! t) = {#i#}" "n < length (nodes st)"
    and "user_held n (users st ! t) = {#}"
  shows "i \<notin> slots (nodes st ! n)" "i \<in> guid_live (guid st)"
proof -
  let ?us = "(users st)[t := Idle]"
  have fin: "finite (guid_live (guid st))" using assms(1) by (auto simp: proc_ok_def guid_defs)
  have "(\<Sum>u\<leftarrow>?us. user_ids u) + {#i#} + (\<Sum>nd\<leftarrow>nodes st. node_ids nd) = mset_set (guid_live (guid st))"
    using assms(1) sum_list_map_update [OF assms(2), of user_ids Idle] assms(3) by (simp add: proc_ok_def)
  then have e: "mset_set (guid_live (guid st)) = add_mset i ((\<Sum>u\<leftarrow>?us. user_ids u) + (\<Sum>nd\<leftarrow>nodes st. node_ids nd))"
    by (simp add: ac_simps)
  then show "i \<in> guid_live (guid st)" using fin by (metis elem_mset_set union_single_eq_member)
  have "count (mset_set (guid_live (guid st))) i \<le> 1" by (simp add: count_mset_set')
  then have no: "i \<notin># (\<Sum>u\<leftarrow>?us. user_ids u)" "i \<notin># (\<Sum>nd\<leftarrow>nodes st. node_ids nd)"
    unfolding e by (auto simp: count_eq_zero_iff)
  show "i \<notin> slots (nodes st ! n)"
  proof
    assume "i \<in> slots (nodes st ! n)"
    moreover have "node_ok st n" using assms(1,4) by (simp add: proc_ok_def)
    ultimately have "i \<in># (\<Sum>u\<leftarrow>users st. user_held n u) + node_held (nodes st ! n)"
      by (simp add: node_ok_def)
    moreover have "(\<Sum>u\<leftarrow>?us. user_held n u) = (\<Sum>u\<leftarrow>users st. user_held n u)"
      using assms(2,5) by (intro sum_list_map_same) simp_all
    ultimately have "i \<in># (\<Sum>u\<leftarrow>?us. user_held n u) \<or> i \<in># node_held (nodes st ! n)" by simp
    then show False
    proof
      assume "i \<in># (\<Sum>u\<leftarrow>?us. user_held n u)"
      then obtain u where u: "u \<in> set ?us" "i \<in># user_held n u" by (auto simp: in_sum_list_iff)
      with no(1) user_held_ids show False by (auto simp: in_sum_list_iff)
    next
      assume "i \<in># node_held (nodes st ! n)"
      then have "i \<in># node_ids (nodes st ! n)" by (simp add: node_ids_def)
      with assms(4) no(2) show False by (auto simp: in_sum_list_iff)
    qed
  qed
qed

section \<open>The steps keep the invariant\<close>

lemma allocate_ok:
  assumes ok: "proc_ok st" and t: "t < length (users st)" "users st ! t = Idle" and n: "n < length (nodes st)"
    and fit: "call_fits p (until_nul (ser P))" and room: "card (guid_live (guid st)) < 1023"
    and get: "GetGuid stale (guid st) = (i, g)" and m: "build_call ser p P i = Inr m"
  shows "proc_ok (put_user t (Allocated n m cb) (st\<lparr>guid := g, made := made st @ [cb]\<rparr>))" (is "proc_ok ?st")
proof -
  have inv: "guid_inv (guid st)" "Bound (guid st) \<le> 1023" using ok by (auto simp: proc_ok_def)
  note R = GetGuid_range(1) [OF inv get room]
  have fresh: "guid_inv g" "i \<notin> guid_live (guid st)" "guid_live g = insert i (guid_live (guid st))"
    using GetGuid_spec [OF inv(1) get] R by auto
  have fin: "finite (guid_live (guid st))" using inv by (auto simp: guid_defs)
  have M: "asking m = call_message p i (until_nul (ser P))" "msg_id m = i"
    using build_call_ok [of p ser P i, OF fit] R m by auto
  have "sendable (asking m)" unfolding M by (rule call_message_sendable [OF fit])
  then have U: "list_all (user_ok (length (nodes st))) ((users st)[t := Allocated n m cb])"
    using ok n by (intro list_all_put) (auto simp: proc_ok_def)
  have N: "node_ok ?st k" if "k < length (nodes st)" for k
    by (rule node_ok_frame [OF proc_okD(4) [OF ok that] t(1), of "Allocated n m cb"]) (simp_all add: t(2))
  have I: "(\<Sum>u\<leftarrow>(users st)[t := Allocated n m cb]. user_ids u) + (\<Sum>nd\<leftarrow>nodes st. node_ids nd) = mset_set (guid_live g)"
    using sum_list_map_update [OF t(1), of user_ids "Allocated n m cb"] ok t(2) fresh fin M(2) by (simp add: proc_ok_def)
  have C: "(\<Sum>u\<leftarrow>(users st)[t := Allocated n m cb]. user_cbs u) + (\<Sum>nd\<leftarrow>nodes st. node_cbs nd) = mset (made st @ [cb])"
    using sum_list_map_update [OF t(1), of user_cbs "Allocated n m cb"] ok t(2) by (simp add: proc_ok_def)
  have F: "guid ?st = g" "users ?st = (users st)[t := Allocated n m cb]" "nodes ?st = nodes st" "made ?st = made st @ [cb]"
    by simp_all
  show ?thesis unfolding proc_ok_def F using fresh(1) R U N I C by blast
qed

text \<open>A step of user \<open>t\<close> that works on the object of its client \<open>n\<close>.\<close>

lemma user_node_ok:
  assumes ok: "proc_ok st" and t: "t < length (users st)" and n: "n < length (nodes st)"
    and u: "user_ok (length (nodes st)) u" "user_ids u + node_ids nd = user_ids (users st ! t) + node_ids (nodes st ! n)"
    and cbs: "user_cbs u + node_cbs nd = user_cbs (users st ! t) + node_cbs (nodes st ! n)"
    and other: "\<And>k. k \<noteq> n \<Longrightarrow> user_held k u = user_held k (users st ! t)"
    and node: "node_ok (put_user t u (put_node n nd st)) n"
  shows "proc_ok (put_user t u (put_node n nd st))"
proof -
  let ?us = "(users st)[t := u]" and ?ns = "(nodes st)[n := nd]"
  have cancel: "(\<Sum>x\<leftarrow>?us. f x) + (\<Sum>y\<leftarrow>?ns. g y) = (\<Sum>x\<leftarrow>users st. f x) + (\<Sum>y\<leftarrow>nodes st. g y)"
    if "f u + g nd = f (users st ! t) + g (nodes st ! n)" for f :: "_ \<Rightarrow> 'z multiset" and g
  proof -
    have "(\<Sum>x\<leftarrow>?us. f x) + (\<Sum>y\<leftarrow>?ns. g y) + (f (users st ! t) + g (nodes st ! n)) =
        (\<Sum>x\<leftarrow>users st. f x) + (\<Sum>y\<leftarrow>nodes st. g y) + (f u + g nd)"
      using sum_list_map_update [OF t, of f u] sum_list_map_update [OF n, of g nd]
      by (metis (no_types, lifting) add.assoc add.left_commute)
    then show ?thesis unfolding that by (rule add_right_imp_eq)
  qed
  have "node_ok (put_user t u (put_node n nd st)) k" if "k < length (nodes st)" for k
  proof (cases "k = n")
    case False
    show ?thesis
      by (rule node_ok_frame [OF proc_okD(4) [OF ok that] t, of u]) (use False other in simp_all)
  qed (simp only: node)
  then have N: "\<forall>k < length ?ns. node_ok (put_user t u (put_node n nd st)) k" by simp
  have U: "list_all (user_ok (length ?ns)) ?us"
    using ok u(1) list_all_put [of "user_ok (length (nodes st))" "users st" u t] by (simp add: proc_ok_def)
  have S: "(\<Sum>x\<leftarrow>?us. user_ids x) + (\<Sum>y\<leftarrow>?ns. node_ids y) = mset_set (guid_live (guid st))"
    "(\<Sum>x\<leftarrow>?us. user_cbs x) + (\<Sum>y\<leftarrow>?ns. node_cbs y) = mset (made st)" "guid_inv (guid st)" "Bound (guid st) \<le> 1023"
    using ok unfolding cancel [of user_ids node_ids, OF u(2)] cancel [of user_cbs node_cbs, OF cbs] proc_ok_def by blast+
  show ?thesis unfolding proc_ok_def put_simps using N U S by blast
qed

lemma register_ok:
  assumes ok: "proc_ok st" and t: "t < length (users st)" "users st ! t = Allocated n m cb"
  shows "\<exists>c. CallbacksHandler_Register (msg_id m) cb (node_obj (nodes st ! n)) = Inr c \<and>
    proc_ok (put_user t (Registered n (asking m)) (put_node n ((nodes st ! n)\<lparr>node_obj := c\<rparr>) st))"
proof -
  let ?nd = "nodes st ! n" and ?i = "msg_id m"
  let ?c = "(node_obj ?nd)\<lparr>CallidCallbackMapping := (CallidCallbackMapping (node_obj ?nd))(?i := Some cb)\<rparr>"
  let ?nd' = "?nd\<lparr>node_obj := ?c\<rparr>"
  have "list_all (user_ok (length (nodes st))) (users st)" using ok by (simp add: proc_ok_def)
  then have u: "n < length (nodes st)" "sendable (asking m)" using t by (auto simp: list_all_length)
  note un = user_number_unique [OF ok t(1), of ?i n, unfolded t(2), OF _ u(1)]
  have none: "?i \<notin> slots ?nd" and live: "?i \<in> guid_live (guid st)" using un by simp_all
  then have i: "1 \<le> ?i" "?i \<le> 1023" using ok by (auto simp: proc_ok_def guid_defs)
  have nok: "node_ok st n" using ok u(1) by (simp add: proc_ok_def)
  have held: "node_held ?nd' = node_held ?nd" "node_ids ?nd' = node_ids ?nd" by (simp_all add: node_held_def node_ids_def)
  have sl: "slots ?nd' = insert ?i (slots ?nd)" by (auto simp: slots_def)
  have ex: "?i \<notin># executed (node_stage ?nd)"
  proof
    assume "?i \<in># executed (node_stage ?nd)"
    then have "?i \<in># node_held ?nd" by (simp add: node_held_def)
    then have "?i \<in># mset_set (slots ?nd)" using nok by (metis node_ok_def union_iff)
    with none nok show False by (simp add: node_ok_def)
  qed
  have "image_mset (\<lambda>j. the (CallidCallbackMapping (node_obj ?nd') j)) (mset_set (slots ?nd - set_mset (executed (node_stage ?nd)))) =
      image_mset (\<lambda>j. the (CallidCallbackMapping (node_obj ?nd) j)) (mset_set (slots ?nd - set_mset (executed (node_stage ?nd))))"
    using none nok by (intro image_mset_cong) (auto simp: node_ok_def)
  moreover have "insert ?i (slots ?nd) - set_mset (executed (node_stage ?nd)) =
      insert ?i (slots ?nd - set_mset (executed (node_stage ?nd)))" using ex by auto
  ultimately have cbs: "node_cbs ?nd' = add_mset cb (node_cbs ?nd)"
    using none nok by (simp add: node_cbs_def sl node_ok_def)
  have "(\<Sum>x\<leftarrow>(users st)[t := Registered n (asking m)]. user_held n x) = add_mset ?i (\<Sum>x\<leftarrow>users st. user_held n x)"
    using sum_list_map_update [OF t(1), of "user_held n" "Registered n (asking m)"] t(2) by simp
  then have "node_ok (put_user t (Registered n (asking m)) (put_node n ?nd' st)) n"
    using nok none sl u(1) held by (simp add: node_ok_def obj_ok_def transport_ok_def)
  moreover have "CallbacksHandler_Register ?i cb (node_obj ?nd) = Inr ?c"
    using i by (simp add: CallbacksHandler_Register_def callback_at_def rpc_consts)
  ultimately show ?thesis
    using ok t u held cbs by (intro exI [of _ ?c] conjI user_node_ok) simp_all
qed

lemma send_ok:
  assumes ok: "proc_ok st" and t: "t < length (users st)" "users st ! t = Registered n m"
  shows "\<exists>c. RpcClient_SendRequest m (node_obj (nodes st ! n)) = Inr c \<and>
    proc_ok (put_user t Idle (put_node n ((nodes st ! n)\<lparr>node_obj := c\<rparr>) st))"
proof -
  let ?nd = "nodes st ! n" and ?i = "msg_id m"
  have u: "n < length (nodes st)" "sendable m" using proc_okD(3) [OF ok] t by (auto simp: list_all_length)
  note nok = proc_okD(4) [OF ok u(1)]
  then have tr: "transport_ok (node_obj ?nd)" "initialized (node_obj ?nd)" by (simp_all add: node_ok_def obj_ok_def)
  obtain c where c: "ClientTransport_Push m (node_obj ?nd) = Inr c" "transport_ok c"
    "PendingRequests c = PendingRequests (node_obj ?nd) @ [m]" "client_transport.more c = client_transport.more (node_obj ?nd)"
    by (rule Push_ok [OF tr(1) u(2)])
  note F = client_more_eq [OF c(4)]
  let ?nd' = "?nd\<lparr>node_obj := c\<rparr>"
  have held: "node_held ?nd' = add_mset ?i (node_held ?nd)" "node_ids ?nd' = add_mset ?i (node_ids ?nd)"
    by (simp_all add: node_held_def node_ids_def c(3) seqnos_def msg_id_def)
  have same: "slots ?nd' = slots ?nd" "node_cbs ?nd' = node_cbs ?nd"
    using F by (simp_all add: slots_def node_cbs_def)
  have e: "(\<Sum>x\<leftarrow>(users st)[t := Idle]. user_held n x) + {#?i#} = (\<Sum>x\<leftarrow>users st. user_held n x)"
    using sum_list_map_update [OF t(1), of "user_held n" Idle] t(2) by simp
  have "(\<Sum>x\<leftarrow>(users st)[t := Idle]. user_held n x) + add_mset ?i (node_held ?nd) =
      ((\<Sum>x\<leftarrow>(users st)[t := Idle]. user_held n x) + {#?i#}) + node_held ?nd" by simp
  also have "\<dots> = mset_set (slots ?nd)" unfolding e using nok by (simp only: node_ok_def)
  finally have "node_ok (put_user t Idle (put_node n ?nd' st)) n"
    using nok u(1) held same F c(2) by (simp add: node_ok_def obj_ok_def)
  moreover have "RpcClient_SendRequest m (node_obj ?nd) = Inr c" using tr c(1) by (simp add: RpcClient_SendRequest_def)
  ultimately show ?thesis
    using ok t u held same by (intro exI [of _ c] conjI user_node_ok) simp_all
qed

text \<open>A step of the loop of client \<open>n\<close>.\<close>

lemma loop_node_ok:
  assumes ok: "proc_ok st" and n: "n < length (nodes st)"
    and g: "guid_inv g" "Bound g \<le> 1023"
    and ids: "node_ids nd + mset_set (guid_live (guid st)) = node_ids (nodes st ! n) + mset_set (guid_live g)"
    and cbs: "node_cbs nd = node_cbs (nodes st ! n)"
    and node: "obj_ok (node_obj nd)" "finite (slots nd)" "(\<Sum>u\<leftarrow>users st. user_held n u) + node_held nd = mset_set (slots nd)"
  shows "proc_ok (put_node n nd (st\<lparr>guid := g\<rparr>))" (is "proc_ok ?st")
proof -
  let ?U = "\<Sum>u\<leftarrow>users st. user_ids u" and ?N = "\<Sum>x\<leftarrow>(nodes st)[n := nd]. node_ids x"
  have "?U + ?N + node_ids (nodes st ! n) = ?U + (\<Sum>x\<leftarrow>nodes st. node_ids x) + node_ids nd"
    using sum_list_map_update [OF n, of node_ids nd] by (simp add: add.assoc)
  also have "\<dots> = mset_set (guid_live g) + node_ids (nodes st ! n)"
    unfolding proc_okD(6) [OF ok] by (metis ids add.commute)
  finally have I: "?U + ?N = mset_set (guid_live g)" by (rule add_right_imp_eq)
  have C: "(\<Sum>x\<leftarrow>(nodes st)[n := nd]. node_cbs x) = (\<Sum>x\<leftarrow>nodes st. node_cbs x)"
    by (rule sum_list_map_same [where f = node_cbs, OF n cbs])
  have "node_ok ?st k" if "k < length (nodes st)" for k
    using proc_okD(4) [OF ok that] node n by (cases "k = n") (simp_all add: node_ok_def)
  then have N: "\<forall>k < length (nodes st). node_ok ?st k" by blast
  have F: "guid ?st = g" "users ?st = users st" "nodes ?st = (nodes st)[n := nd]" "made ?st = made st"
    "length (nodes ?st) = length (nodes st)"
    by simp_all
  show ?thesis unfolding proc_ok_def F(5) unfolding F C using g I N proc_okD(3,7) [OF ok] by blast
qed

lemma write_ok:
  assumes ok: "proc_ok st" and n: "n < length (nodes st)" and len: "length pad = 3" "length buf = MAX_BUFFER"
  shows "\<exists>c. Client_HandleEvent parse pad buf data sr rr (Connfd (node_obj (nodes st ! n)), WRITE_EVENT) (node_obj (nodes st ! n)) = Inr c \<and>
    proc_ok (put_node n ((nodes st ! n)\<lparr>node_obj := c,
      node_out := node_out (nodes st ! n) @ seqnos (take 1 (PendingRequests (node_obj (nodes st ! n))))\<rparr>) st)"
proof -
  let ?nd = "nodes st ! n" let ?o = "node_obj ?nd"
  note nok = proc_okD(4) [OF ok n]
  then have tr: "transport_ok ?o" by (simp add: node_ok_def obj_ok_def)
  obtain c l where c: "ClientTransport_HandleWriteEvent pad buf sr (Connfd ?o) ?o = Inr c" "transport_ok c"
    "PendingRequests c = tl (PendingRequests ?o)" "client_transport.more c = client_transport.more ?o"
    by (rule HandleWriteEvent_ok [OF tr len, of sr]) blast
  note F = client_more_eq [OF c(4)]
  let ?nd' = "?nd\<lparr>node_obj := c, node_out := node_out ?nd @ seqnos (take 1 (PendingRequests ?o))\<rparr>"
  have held: "node_held ?nd' = node_held ?nd" "node_ids ?nd' = node_ids ?nd"
    using c(3) by (cases "PendingRequests ?o"; simp add: node_held_def node_ids_def seqnos_def)+
  have same: "slots ?nd' = slots ?nd" "node_cbs ?nd' = node_cbs ?nd"
    using F by (simp_all add: slots_def node_cbs_def)
  have "proc_ok (put_node n ?nd' (st\<lparr>guid := guid st\<rparr>))"
    by (rule loop_node_ok [OF ok n proc_okD(1,2) [OF ok]])
      (use nok held same F c(2) in \<open>simp_all add: node_ok_def obj_ok_def\<close>)
  moreover have "Client_HandleEvent parse pad buf data sr rr (Connfd ?o, WRITE_EVENT) ?o = Inr c"
    using nok c(1) by (simp add: node_ok_def obj_ok_def Client_HandleEvent_def EventHandlerRouter_HandleEvent_def
        deref_def client_vtable_def event_types)
  ultimately show ?thesis by auto
qed

lemma read_exec_runs:
  fixes c :: "('cb, 'v) client"
  assumes "0 \<le> i" "i < 1024" "CallidCallbackMapping c i = Some cb" "answer_fits s junk" "length data = 4096"
  shows "read_exec parse data (result_bytes (answer i s junk)) Fd c =
    Inr (i, emit (Recv Fd sizeof_RpcResult) c\<lparr>completed := completed c @ [(cb, parse cb s)]\<rparr>)"
proof -
  have wf: "wf_result (answer i s junk)" using assms(4) by (simp add: answer_def answer_fits_def wf_result_def)
  note len = length_result_bytes [OF wf]
  have "length s < 4096" using assms(4) by (simp add: answer_fits_def rpc_consts)
  then have "ParseProtoStruct data (parse cb) (return_buffer (answer i s junk)) = Inr (parse cb s)"
    using assms(4,5) by (simp add: ParseProtoStruct_cstr answer_def answer_fits_def)
  then show ?thesis
    using assms(1-3) len
    by (simp add: read_exec_def write_at_def result_of_result_bytes callback_at_def deref_def
        CallbackFunction_Exec_def rpc_consts emit_def Let_def answer_def sint_small)
qed

lemma held_slot:
  assumes "node_ok st n" "i \<in># node_held (nodes st ! n)"
  obtains cb where "CallidCallbackMapping (node_obj (nodes st ! n)) i = Some cb"
proof -
  have "i \<in># mset_set (slots (nodes st ! n))" using assms by (metis node_ok_def union_iff)
  with assms(1) that show thesis by (auto simp: node_ok_def slots_def)
qed

lemma held_live:
  assumes ok: "proc_ok st" and n: "n < length (nodes st)" and i: "i \<in># node_ids (nodes st ! n)"
  shows "i \<in> guid_live (guid st)" "1 \<le> i" "i \<le> 1023"
proof -
  have "i \<in># (\<Sum>nd\<leftarrow>nodes st. node_ids nd)" using n i by (auto simp: in_sum_list_iff)
  then have "i \<in># mset_set (guid_live (guid st))" using proc_okD(6) [OF ok] by (metis union_iff)
  then show "i \<in> guid_live (guid st)" using proc_okD(5) [OF ok] by simp
  then show "1 \<le> i" "i \<le> 1023" using proc_okD(1,2) [OF ok] by (auto simp: guid_defs)
qed

lemma exec_ok:
  assumes ok: "proc_ok st" and n: "n < length (nodes st)" and stage: "node_stage (nodes st ! n) = Polling"
    and i: "i \<in> set (node_out (nodes st ! n))" and fit: "answer_fits s junk" "length data = 4096"
  shows "\<exists>c. read_exec parse data (result_bytes (answer i s junk)) (Connfd (node_obj (nodes st ! n))) (node_obj (nodes st ! n)) = Inr (i, c) \<and>
    proc_ok (put_node n ((nodes st ! n)\<lparr>node_obj := c, node_out := remove1 i (node_out (nodes st ! n)), node_stage := Executed i\<rparr>) st)"
proof -
  let ?nd = "nodes st ! n" let ?o = "node_obj ?nd"
  note nok = proc_okD(4) [OF ok n]
  have held: "i \<in># node_held ?nd" using i by (simp add: node_held_def)
  then obtain cb where cb: "CallidCallbackMapping ?o i = Some cb" by (rule held_slot [OF nok])
  have r: "1 \<le> i" "i \<le> 1023" using held_live(2,3) [OF ok n, of i] held by (auto simp: node_ids_def)
  let ?c = "emit (Recv (Connfd ?o) sizeof_RpcResult) ?o\<lparr>completed := completed ?o @ [(cb, parse cb s)]\<rparr>"
  let ?nd' = "?nd\<lparr>node_obj := ?c, node_out := remove1 i (node_out ?nd), node_stage := Executed i\<rparr>"
  have e: "read_exec parse data (result_bytes (answer i s junk)) (Connfd ?o) ?o = Inr (i, ?c)"
    using read_exec_runs [OF _ _ cb fit] r by simp
  have h: "node_held ?nd' = node_held ?nd" "node_ids ?nd' = node_ids ?nd"
    using i stage by (simp_all add: node_held_def node_ids_def emit_def)
  have sl: "slots ?nd' = slots ?nd" by (simp add: slots_def emit_def)
  have "i \<in> slots ?nd" using cb by (simp add: slots_def)
  then have "mset_set (slots ?nd) = add_mset i (mset_set (slots ?nd - {i}))"
    using nok by (simp add: node_ok_def mset_set.remove)
  then have cbs: "node_cbs ?nd' = node_cbs ?nd"
    using stage cb unfolding node_cbs_def sl by (simp add: emit_def)
  have "transport_ok ?c" using nok by (simp add: node_ok_def obj_ok_def transport_ok_def emit_def)
  then have "proc_ok (put_node n ?nd' (st\<lparr>guid := guid st\<rparr>))"
    by (intro loop_node_ok [OF ok n proc_okD(1,2) [OF ok]])
      (use nok h sl cbs in \<open>simp_all add: node_ok_def obj_ok_def emit_def\<close>)
  with e show ?thesis by auto
qed

lemma clear_ok:
  assumes ok: "proc_ok st" and n: "n < length (nodes st)" and stage: "node_stage (nodes st ! n) = Executed i"
  shows "proc_ok (put_node n ((nodes st ! n)\<lparr>node_obj := read_clear i (node_obj (nodes st ! n)), node_stage := Cleared i\<rparr>) st)"
proof -
  let ?nd = "nodes st ! n" let ?o = "node_obj ?nd"
  let ?nd' = "?nd\<lparr>node_obj := read_clear i ?o, node_stage := Cleared i\<rparr>"
  note nok = proc_okD(4) [OF ok n]
  have h: "node_held ?nd = add_mset i (node_held ?nd')" "node_ids ?nd' = node_ids ?nd"
    using stage by (simp_all add: node_held_def node_ids_def read_clear_def)
  obtain cb where cb: "CallidCallbackMapping ?o i = Some cb"
    by (rule held_slot [OF nok, of i]) (simp add: h(1))
  have sl: "slots ?nd' = slots ?nd - {i}" by (auto simp: slots_def read_clear_def)
  have "image_mset (\<lambda>j. the (CallidCallbackMapping (node_obj ?nd') j)) (mset_set (slots ?nd - {i})) =
      image_mset (\<lambda>j. the (CallidCallbackMapping ?o j)) (mset_set (slots ?nd - {i}))"
    using nok by (intro image_mset_cong) (auto simp: node_ok_def read_clear_def)
  then have cbs: "node_cbs ?nd' = node_cbs ?nd"
    using stage unfolding node_cbs_def sl by (simp add: read_clear_def)
  have i: "i \<in> slots ?nd" "finite (slots ?nd)" using cb nok by (simp_all add: slots_def node_ok_def)
  have "add_mset i ((\<Sum>u\<leftarrow>users st. user_held n u) + node_held ?nd') = mset_set (slots ?nd)"
    using nok unfolding node_ok_def h(1) by simp
  also have "\<dots> = add_mset i (mset_set (slots ?nd - {i}))" using i by (rule mset_set.remove [rotated])
  finally have held: "(\<Sum>u\<leftarrow>users st. user_held n u) + node_held ?nd' = mset_set (slots ?nd')" unfolding sl by simp
  have "obj_ok (read_clear i ?o)" using nok by (simp add: node_ok_def obj_ok_def transport_ok_def read_clear_def)
  then have "proc_ok (put_node n ?nd' (st\<lparr>guid := guid st\<rparr>))"
    by (intro loop_node_ok [OF ok n proc_okD(1,2) [OF ok]]) (use h cbs held sl i in simp_all)
  then show ?thesis by simp
qed

lemma recycle_ok:
  assumes ok: "proc_ok st" and n: "n < length (nodes st)" and stage: "node_stage (nodes st ! n) = Cleared i"
  shows "proc_ok (put_node n ((nodes st ! n)\<lparr>node_stage := Polling\<rparr>) (st\<lparr>guid := RecycleGuid i (guid st)\<rparr>))"
proof -
  let ?nd = "nodes st ! n" let ?nd' = "?nd\<lparr>node_stage := Polling\<rparr>"
  note nok = proc_okD(4) [OF ok n]
  have ids: "node_ids ?nd = add_mset i (node_ids ?nd')" and held: "node_held ?nd' = node_held ?nd"
    using stage by (simp_all add: node_ids_def node_held_def)
  have same: "slots ?nd' = slots ?nd" "node_cbs ?nd' = node_cbs ?nd"
    using stage by (simp_all add: slots_def node_cbs_def)
  have live: "i \<in> guid_live (guid st)" by (rule held_live [OF ok n]) (simp add: ids)
  note R = RecycleGuid_spec [OF proc_okD(1) [OF ok] live]
  have "mset_set (guid_live (guid st)) = add_mset i (mset_set (guid_live (guid st) - {i}))"
    using proc_okD(5) [OF ok] live by (rule mset_set.remove)
  then have eq: "node_ids ?nd' + mset_set (guid_live (guid st)) = node_ids ?nd + mset_set (guid_live (RecycleGuid i (guid st)))"
    unfolding ids R(2) by simp
  have "Bound (RecycleGuid i (guid st)) \<le> 1023" using proc_okD(2) [OF ok] by (simp add: RecycleGuid_def)
  from loop_node_ok [OF ok n R(1) this eq same(2)] nok show ?thesis by (simp add: node_ok_def held same)
qed

lemma proc_step_ok:
  assumes "proc_step ser parse a st st'" "proc_ok st"
  shows "proc_ok st'"
  using assms(1)
proof (cases rule: proc_step.cases)
  case (allocate t n p P stale i g m cb)
  show ?thesis unfolding allocate(2) by (rule allocate_ok [OF assms(2) allocate(3,4,5,7,8,9,10)])
next
  case (register t n m cb nd c)
  with register_ok [OF assms(2) register(3,4)] show ?thesis by auto
next
  case (send t n m nd c)
  with send_ok [OF assms(2) send(3,4)] show ?thesis by auto
next
  case (write_out n nd pad buf data sr rr c)
  with write_ok [OF assms(2) write_out(3) write_out(6,7), of parse data sr rr] show ?thesis by auto
next
  case (exec n nd i s junk data j c)
  with exec_ok [OF assms(2) exec(3), of i s junk data parse] show ?thesis by auto
next
  case (clear n nd i)
  with clear_ok [OF assms(2) clear(3)] show ?thesis by simp
next
  case (recycle n nd i)
  with recycle_ok [OF assms(2) recycle(3)] show ?thesis by simp
qed

lemma GetRpcClient_ok:
  assumes "GetRpcClient e ep Guid_init opt = Inr c"
  shows "client_ok [] c \<and> completed c = [] \<and> guid_live (ids c) = {} \<and> PendingRequests c = []"
proof -
  have ep: "0 < ep" using assms by (auto simp: GetRpcClient_def RpcClient_init_def ClientTransport_init_def Poller_init_def
      bindE_eq_Inr assertE_eq_Inr)
  have "connects e"
  proof (rule ccontr)
    assume no: "\<not> connects e"
    obtain c1 where "RpcClient_Initialize e opt c1 = Inr c"
      using assms by (auto simp: GetRpcClient_def bindE_eq_Inr)
    moreover have "fst (ConnectTo e (svr_ip opt) (svr_port opt) c1) = -1" by (rule ConnectTo_eq(2) [OF no])
    ultimately show False
      by (cases "ConnectTo e (svr_ip opt) (svr_port opt) c1")
        (simp add: RpcClient_Initialize_def ClientTransport_Connect_def)
  qed
  obtain c0 :: "('a, 'b) client" where "bindE (RpcClient_init ep Guid_init) (RpcClient_Initialize e opt) = Inr c0"
    "client_ok [] c0" "completed c0 = []" "guid_live (ids c0) = {}" "PendingRequests c0 = []"
    by (rule client_start [OF ep \<open>connects e\<close>])
  with assms show ?thesis by (simp add: GetRpcClient_def)
qed

lemma process_init_ok:
  assumes "list_all fresh_client cs"
  shows "proc_ok (process_init k cs)"
proof -
  let ?st = "process_init k cs"
  have zero: "(\<Sum>u\<leftarrow>replicate k Idle. f u) = ({#} :: 'z multiset)" if "f Idle = {#}" for f
    using that by (induction k) simp_all
  have nodes0: "(\<Sum>nd\<leftarrow>map (\<lambda>c. \<lparr>node_obj = c, node_out = [], node_stage = Polling\<rparr>) cs. f nd) = ({#} :: 'z multiset)"
    if "\<And>c. c \<in> set cs \<Longrightarrow> f \<lparr>node_obj = c, node_out = [], node_stage = Polling\<rparr> = {#}" for f
    using that by (induction cs) simp_all
  have fresh: "client_ok [] c \<and> completed c = [] \<and> guid_live (ids c) = {} \<and> PendingRequests c = []" if "c \<in> set cs" for c
    using assms that GetRpcClient_ok by (fastforce simp: list_all_iff fresh_client_def)
  then have empty: "slots \<lparr>node_obj = c, node_out = [], node_stage = Polling\<rparr> = {}" if "c \<in> set cs" for c
    using that by (auto simp: slots_def client_ok_def)
  have "node_ok ?st n" if "n < length cs" for n
  proof -
    have c: "cs ! n \<in> set cs" using that by simp
    have "(\<Sum>u\<leftarrow>replicate k Idle. user_held n u) = {#}" by (rule zero) simp
    with that fresh [OF c] empty [OF c] show ?thesis
      by (simp add: node_ok_def process_init_def obj_ok_def client_ok_def node_held_def seqnos_def)
  qed
  moreover have "(\<Sum>u\<leftarrow>replicate k Idle. user_ids u) = {#}" "(\<Sum>u\<leftarrow>replicate k Idle. user_cbs u) = ({#} :: 'a multiset)"
    by (rule zero; simp)+
  moreover have "(\<Sum>nd\<leftarrow>map (\<lambda>c. \<lparr>node_obj = c, node_out = [], node_stage = Polling\<rparr>) cs. node_ids nd) = {#}"
    by (rule nodes0) (simp add: node_ids_def node_held_def fresh seqnos_def)
  moreover have "(\<Sum>nd\<leftarrow>map (\<lambda>c. \<lparr>node_obj = c, node_out = [], node_stage = Polling\<rparr>) cs. node_cbs nd) = {#}"
    by (rule nodes0) (simp add: node_cbs_def fresh empty)
  ultimately show ?thesis
    by (simp add: proc_ok_def process_init_def list_all_length Guid_init_def guid_inv_init [unfolded Guid_init_def])
qed

lemma proc_reachable_ok: "proc_reachable ser parse st \<Longrightarrow> proc_ok st"
  by (induction rule: proc_reachable.induct) (auto intro: process_init_ok proc_step_ok)

section \<open>Every thread can go on\<close>

lemma user_can_step:
  assumes ok: "proc_ok st" and t: "t < length (users st)" "users st ! t \<noteq> Idle"
  shows "\<exists>st'. proc_step ser parse (User t) st st'"
proof (cases "users st ! t")
  case (Allocated n m cb)
  with register_ok [OF ok t(1) this] proc_step.register [OF t(1) this refl, of _ ser parse] show ?thesis by blast
next
  case (Registered n m)
  with send_ok [OF ok t(1) this] proc_step.send [OF t(1) this refl, of _ ser parse] show ?thesis by blast
qed (use t in simp)

lemma loop_can_step:
  assumes ok: "proc_ok st" and n: "n < length (nodes st)"
  shows "\<exists>st'. proc_step ser parse (Loop n) st st'"
proof (cases "node_stage (nodes st ! n)")
  case Polling
  have len: "length [NUL, NUL, NUL] = 3" "length (replicate 1024 NUL) = MAX_BUFFER" by (simp_all add: rpc_consts)
  show ?thesis
    using write_ok [OF ok n len, of parse "[]" "SendOk 0" "RecvErr EAGAIN"]
      proc_step.write_out [OF n refl Polling len, of parse "[]" "SendOk 0" "RecvErr EAGAIN"] by blast
next
  case (Executed i)
  from proc_step.clear [OF n refl this] show ?thesis by blast
next
  case (Cleared i)
  from proc_step.recycle [OF n refl this] show ?thesis by blast
qed

text \<open>A process at rest.\<close>

lemma at_rest:
  assumes ok: "proc_ok st" and idle: "\<forall>u \<in> set (users st). u = Idle"
    and q: "\<forall>nd \<in> set (nodes st). PendingRequests (node_obj nd) = [] \<and> node_out nd = [] \<and> node_stage nd = Polling"
  shows "(\<Sum>nd\<leftarrow>nodes st. mset (map fst (completed (node_obj nd)))) = mset (made st) \<and> guid_live (guid st) = {}"
proof -
  have zero: "(\<Sum>u\<leftarrow>users st. f u) = ({#} :: 'z multiset)" if "f Idle = {#}" for f
  proof -
    have "(\<Sum>u\<leftarrow>us. f u) = {#}" if "\<forall>u \<in> set us. u = Idle" for us using that \<open>f Idle = {#}\<close> by (induction us) auto
    with idle show ?thesis by blast
  qed
  have ids: "(\<Sum>nd\<leftarrow>nodes st. node_ids nd) = {#}"
  proof -
    have "(\<Sum>nd\<leftarrow>ns. node_ids nd) = {#}" if "set ns \<subseteq> set (nodes st)" for ns
      using that q by (induction ns) (auto simp: node_ids_def node_held_def seqnos_def)
    then show ?thesis by blast
  qed
  have cbs: "node_cbs nd = mset (map fst (completed (node_obj nd)))" if nd: "nd \<in> set (nodes st)" for nd
  proof -
    obtain n where n: "n < length (nodes st)" "nd = nodes st ! n" using nd by (metis in_set_conv_nth)
    have z: "(\<Sum>u\<leftarrow>users st. user_held n u) = {#}" by (rule zero) simp
    have "node_held nd = {#}" using q nd by (simp add: node_held_def seqnos_def)
    with proc_okD(4) [OF ok n(1)] n(2) have "mset_set (slots nd) = {#}" "finite (slots nd)"
      unfolding node_ok_def z by simp_all
    then have "slots nd = {}" by (simp add: mset_set_empty_iff)
    then show ?thesis by (simp add: node_cbs_def)
  qed
  have "(\<Sum>u\<leftarrow>users st. user_ids u) = {#}" "(\<Sum>u\<leftarrow>users st. user_cbs u) = {#}" by (rule zero; simp)+
  with proc_okD(5,6,7) [OF ok] ids have "mset_set (guid_live (guid st)) = {#}"
    "(\<Sum>nd\<leftarrow>nodes st. node_cbs nd) = mset (made st)" by simp_all
  moreover have "(\<Sum>nd\<leftarrow>nodes st. node_cbs nd) = (\<Sum>nd\<leftarrow>nodes st. mset (map fst (completed (node_obj nd))))"
    using cbs by (intro arg_cong [of _ _ sum_list] map_cong) simp_all
  ultimately show ?thesis using proc_okD(5) [OF ok] by (simp add: mset_set_empty_iff)
qed

section \<open>An example\<close>

text \<open>One thread has allocated a number for its call.\<close>

lemma demo_process:
  obtains st :: "(nat, string) process" where "proc_reachable (\<lambda>s. s) (\<lambda>_ s. s) st" "length (users st) = 1"
    "users st ! 0 \<noteq> Idle" "made st = [7]" "length (nodes st) = 1"
proof -
  have e: "0 < (9::int)" "connects demo_connect" by (simp_all add: connects_def demo_connect_def)
  obtain c :: "(nat, string) client" where
    "bindE (RpcClient_init 9 Guid_init) (RpcClient_Initialize demo_connect demo_copt) = Inr c"
    by (rule client_start [OF e, of demo_copt]) blast
  then have "list_all fresh_client [c]" by (auto simp: fresh_client_def GetRpcClient_def)
  then have r: "proc_reachable (\<lambda>s. s) (\<lambda>_ s. s) (process_init 1 [c])" by (rule proc_reachable.init)
  let ?st = "process_init 1 [c]"
  obtain i g where g: "GetGuid 0 (guid ?st) = (i, g)" by fastforce
  have G: "guid ?st = Guid_init" by (simp add: process_init_def)
  have room: "card (guid_live (guid ?st)) < 1023" unfolding G by simp
  have "1 \<le> i \<and> i \<le> 1024"
    using GetGuid_range(1) [OF _ _ g room] unfolding G by (auto simp: Guid_init_def guid_inv_init [unfolded Guid_init_def])
  then obtain m where m: "build_call (\<lambda>s. s) demo_proxy ''key'' i = Inr m"
    using build_call_ok [of demo_proxy "\<lambda>s. s" "''key''" i] demo_proxy(2) by auto
  have "proc_step (\<lambda>s. s) (\<lambda>_ s. s) (User 0) ?st (put_user 0 (Allocated 0 m 7) (?st\<lparr>guid := g, made := made ?st @ [7]\<rparr>))"
    by (rule proc_step.allocate [of 0 ?st 0 demo_proxy "\<lambda>s. s" "''key''", OF _ _ _ demo_proxy room g m]) (simp_all add: process_init_def)
  with r have "proc_reachable (\<lambda>s. s) (\<lambda>_ s. s) (put_user 0 (Allocated 0 m 7) (?st\<lparr>guid := g, made := made ?st @ [7]\<rparr>))"
    by (rule proc_reachable.step)
  then show thesis by (rule that) (simp_all add: process_init_def)
qed

section \<open>Properties\<close>



text \<open>
  C17. Numbers and callbacks are never shared or lost: in every interleaving each sequence number in
  use is in exactly one place (a calling thread, a queue, the server, a main loop), over all clients
  of the process; each callback has run once, waits in a table, or is in the hands of its caller.
  When all threads are idle and nothing is queued or unanswered, exactly the callbacks of the calls
  made have run, each once, and every number has been given back.
\<close>

theorem callbacks_exactly_once:
  assumes "proc_reachable ser parse st"
  shows "(\<Sum>u\<leftarrow>users st. user_ids u) + (\<Sum>nd\<leftarrow>nodes st. node_ids nd) = mset_set (guid_live (guid st)) \<and>
    (\<Sum>u\<leftarrow>users st. user_cbs u) + (\<Sum>nd\<leftarrow>nodes st. node_cbs nd) = mset (made st) \<and>
    ((\<forall>u \<in> set (users st). u = Idle) \<and>
     (\<forall>nd \<in> set (nodes st). PendingRequests (node_obj nd) = [] \<and> node_out nd = [] \<and> node_stage nd = Polling) \<longrightarrow>
       (\<Sum>nd\<leftarrow>nodes st. mset (map fst (completed (node_obj nd)))) = mset (made st) \<and> guid_live (guid st) = {})"
proof -
  note ok = proc_reachable_ok [OF assms]
  show ?thesis using proc_okD(6,7) [OF ok] at_rest [OF ok] by blast
qed

theorem callbacks_exactly_once_witness:
  "\<exists>st :: (nat, string) process. proc_reachable (\<lambda>s. s) (\<lambda>_ s. s) st \<and>
    (\<Sum>u\<leftarrow>users st. user_cbs u) + (\<Sum>nd\<leftarrow>nodes st. node_cbs nd) = {#7#}"
proof -
  obtain st :: "(nat, string) process" where "proc_reachable (\<lambda>s. s) (\<lambda>_ s. s) st" "made st = [7]"
    by (rule demo_process)
  with callbacks_exactly_once [of "\<lambda>s. s" "\<lambda>_ s. s" st] show ?thesis by auto
qed

end
