(* ===== verification/ArgsParser.thy ===== *)
theory ArgsParser
  imports Cformat
begin

text \<open>
  \<open>include/common/ArgsParser.hh\<close>, \<open>source/common/ArgsParser.cc\<close>: command line flags of the form
  \<open>-name=value\<close>. \<open>argv\<close> is the list of the arguments, the program's name first; the strings hold no
  NUL. \<open>strncmp\<close> and \<open>atoi\<close> are those of the C library; a number outside \<open>int\<close> has no defined result.
\<close>

section \<open>The C functions\<close>

fun strncmp :: "nat \<Rightarrow> string \<Rightarrow> string \<Rightarrow> int" where
  "strncmp 0 a b = 0"
| "strncmp (Suc n) [] [] = 0"
| "strncmp (Suc n) [] (d # b) = - of_char d"
| "strncmp (Suc n) (c # a) [] = of_char c"
| "strncmp (Suc n) (c # a) (d # b) = (if c = d then strncmp n a b else of_char c - of_char d)"

definition is_space :: "char \<Rightarrow> bool" where
  "is_space c \<longleftrightarrow> c = CHR '' '' \<or> 9 \<le> (of_char c :: nat) \<and> (of_char c :: nat) \<le> 13"

definition atoi :: "string \<Rightarrow> int result" where
  "atoi s =
     (let s = dropWhile is_space s;
          (sign, s) = (case s of
              [] \<Rightarrow> (1, s)
            | c # s' \<Rightarrow> if c = CHR ''-'' then (-1, s') else if c = CHR ''+'' then (1, s') else (1, s));
          v = sign * int (digits_val 0 (takeWhile is_digit s))
      in if - (2 ^ 31) \<le> v \<and> v < 2 ^ 31 then Inr v else Inl OutOfBounds)"

section \<open>The parser\<close>

fun parse_str_loop :: "string list \<Rightarrow> string \<Rightarrow> string option" where
  "parse_str_loop [] flag = None"
| "parse_str_loop (arg # args) flag =
     (let len = length flag in
      if strncmp len arg flag = 0 then Some (drop len arg) else parse_str_loop args flag)"

definition parse_str :: "string list \<Rightarrow> string \<Rightarrow> string option" where
  "parse_str argv flag = parse_str_loop (drop 1 argv) flag"

fun parse_int_loop :: "string list \<Rightarrow> string \<Rightarrow> int result" where
  "parse_int_loop [] flag = Inr (-1)"
| "parse_int_loop (arg # args) flag =
     (let len = length flag in
      if strncmp len arg flag = 0 then atoi (drop len arg) else parse_int_loop args flag)"

definition parse_int :: "string list \<Rightarrow> string \<Rightarrow> int result" where
  "parse_int argv flag = parse_int_loop (drop 1 argv) flag"

section \<open>Lemmas\<close>

definition has_prefix :: "string \<Rightarrow> string \<Rightarrow> bool" where
  "has_prefix flag arg \<longleftrightarrow> take (length flag) arg = flag"

lemma of_char_nonzero: "c \<noteq> NUL \<Longrightarrow> (of_char c :: int) \<noteq> 0"
proof -
  assume "c \<noteq> NUL"
  then have "(of_char c :: int) \<noteq> of_char NUL" by (simp only: of_char_eq_iff) simp
  then show ?thesis by simp
qed

lemma strncmp_prefix: "no_nul arg \<Longrightarrow> no_nul flag \<Longrightarrow> strncmp (length flag) arg flag = 0 \<longleftrightarrow> has_prefix flag arg"
proof (induction flag arbitrary: arg)
  case (Cons d flag)
  show ?case
  proof (cases arg)
    case Nil
    then show ?thesis using Cons.prems of_char_nonzero [of d] by (auto simp: has_prefix_def)
  next
    case (Cons c rest)
    then show ?thesis using Cons.IH [of rest] Cons.prems by (auto simp: has_prefix_def)
  qed
qed (simp add: has_prefix_def)

lemma has_prefix_append [simp]: "has_prefix flag (flag @ v)"
  by (simp add: has_prefix_def)

lemma parse_loops_first:
  assumes "\<forall>arg \<in> set before. no_nul arg \<and> \<not> has_prefix flag arg" "no_nul flag" "no_nul v"
  shows "parse_str_loop (before @ (flag @ v) # rest) flag = Some v"
    and "parse_int_loop (before @ (flag @ v) # rest) flag = atoi v"
  using assms by (induction before) (simp_all add: strncmp_prefix Let_def)

lemma parse_loops_absent:
  assumes "\<forall>arg \<in> set args. no_nul arg \<and> \<not> has_prefix flag arg" "no_nul flag"
  shows "parse_str_loop args flag = None" and "parse_int_loop args flag = Inr (-1)"
  using assms by (induction args) (simp_all add: strncmp_prefix Let_def)

lemma digit_not_special: "is_digit c \<Longrightarrow> \<not> is_space c \<and> c \<noteq> CHR ''-'' \<and> c \<noteq> CHR ''+''"
  by (auto simp: is_digit_def is_space_def)

lemma takeWhile_dec_nat: "takeWhile is_digit (dec_nat n) = dec_nat n"
  using dec_nat_digits [of n] by (simp add: list_all_iff takeWhile_eq_all_conv)

lemma atoi_dec: "- (2 ^ 31) \<le> i \<Longrightarrow> i < 2 ^ 31 \<Longrightarrow> atoi (dec i) = Inr i"
proof (cases "i < 0")
  case True
  assume r: "- (2 ^ 31) \<le> i" "i < 2 ^ 31"
  have "\<not> is_space (CHR ''-'')" by (simp add: is_space_def)
  with r True show ?thesis by (simp add: atoi_def dec_def takeWhile_dec_nat digits_val_dec_nat)
next
  case False
  assume r: "- (2 ^ 31) \<le> i" "i < 2 ^ 31"
  obtain c s where c: "dec_nat (nat i) = c # s" "is_digit c" using dec_nat_digits [of "nat i"] by (cases "dec_nat (nat i)") auto
  have "digits_val 0 (takeWhile is_digit (c # s)) = nat i"
    using takeWhile_dec_nat [of "nat i"] digits_val_dec_nat [of "nat i"] by (simp only: c(1))
  then show ?thesis
    using r False c digit_not_special [OF c(2)] by (simp add: atoi_def dec_def Let_def del: takeWhile.simps)
qed

section \<open>Properties\<close>

text \<open>
  Command line flags: the first argument that starts with the flag decides, wherever it stands
  and whatever follows it; \<open>parse_str\<close> returns the rest of it, \<open>parse_int\<close> reads back every \<open>int\<close>
  printed in decimal. Without such an argument the results are null and -1, so \<open>-flag=-1\<close> and an
  absent flag cannot be told apart.
\<close>

theorem parse_int_roundtrip:
  assumes "\<forall>arg \<in> set before. no_nul arg \<and> \<not> has_prefix flag arg" "no_nul flag"
    and "- (2 ^ 31) \<le> i" "i < 2 ^ 31"
  shows "parse_str (prog # before @ (flag @ dec i) # rest) flag = Some (dec i) \<and>
    parse_int (prog # before @ (flag @ dec i) # rest) flag = Inr i \<and>
    parse_str (prog # before) flag = None \<and>
    parse_int (prog # before) flag = Inr (-1)"
  using parse_loops_first [OF assms(1,2), of "dec i"] parse_loops_absent [OF assms(1,2)] atoi_dec [OF assms(3,4)]
  by (simp add: parse_str_def parse_int_def)

theorem parse_int_roundtrip_witness:
  "parse_int [''server'', ''-ip=localhost'', ''-port='' @ dec 8888] ''-port='' = Inr 8888"
proof -
  have b: "\<forall>arg \<in> set [''-ip=localhost'']. no_nul arg \<and> \<not> has_prefix ''-port='' arg" by (simp add: has_prefix_def)
  have f: "no_nul ''-port=''" by simp
  have "- (2 ^ 31) \<le> (8888 :: int)" "(8888 :: int) < 2 ^ 31" by simp_all
  note parse_int_roundtrip [OF b f this, of "''server''" "[]"]
  then show ?thesis by (simp only: append_Cons append_Nil simp_thms)
qed

end
