(* ===== verification/KVService.thy ===== *)
theory KVService
  imports RpcClient "HOL-Library.Signed_Division"
begin

text \<open>
  The key-value application: \<open>include/apps/kv\<close>, \<open>source/apps/kv\<close>.

  The protobuf messages of \<open>KVService.proto\<close> are records; the generated code that encodes and decodes
  them is the record \<open>kv_proto\<close> of functions. \<open>KVServiceBase\<close> is the record \<open>kv\<close>: the five maps, and
  the trace of its log. Each operation holds the lock of its bucket, so it is one step. A bucket
  index outside the arrays is a fault.

  Lemmas: the five buckets behave as one map from ids to names, as long as no id picks a bucket
  outside the array.
\<close>

section \<open>Messages\<close>

record GetValueReq = get_id :: int32
record GetValueRsp = rsp_name :: string
record SetValueReq = set_id :: int32  set_name :: string
record SetValueRsp = rsp_code :: int32

record kv_proto =
  ser_GetValueReq :: "GetValueReq \<Rightarrow> string"
  parse_GetValueReq :: "string \<Rightarrow> GetValueReq"
  ser_GetValueRsp :: "GetValueRsp \<Rightarrow> string"
  parse_GetValueRsp :: "string \<Rightarrow> GetValueRsp"
  ser_SetValueReq :: "SetValueReq \<Rightarrow> string"
  parse_SetValueReq :: "string \<Rightarrow> SetValueReq"
  ser_SetValueRsp :: "SetValueRsp \<Rightarrow> string"
  parse_SetValueRsp :: "string \<Rightarrow> SetValueRsp"

section \<open>KVServiceBase\<close>

definition NUM_NAME_DICTIONARY_BUCKETS :: int where "NUM_NAME_DICTIONARY_BUCKETS = 5"

record kv = world +
  dicts :: "int \<Rightarrow> int32 \<Rightarrow> string option"

definition KVServiceBase_init :: kv where
  "KVServiceBase_init = \<lparr>trace = [], dicts = (\<lambda>_ _. None)\<rparr>"

text \<open>\<open>/\<close> and \<open>%\<close> of C++ truncate towards zero.\<close>

definition getAllottedBucket :: "int32 \<Rightarrow> int" where
  "getAllottedBucket k = (sint k sdiv 2000) smod 5"

definition dict_at :: "int \<Rightarrow> kv \<Rightarrow> (int32 \<Rightarrow> string option) result" where
  "dict_at index b =
     (if 0 \<le> index \<and> index < NUM_NAME_DICTIONARY_BUCKETS then Inr (dicts b index) else Inl OutOfBounds)"

definition GetValueInternal :: "GetValueReq \<Rightarrow> kv \<Rightarrow> GetValueRsp result" where
  "GetValueInternal req b =
     (let index = getAllottedBucket (get_id req) in
      bindE (dict_at index b) (\<lambda>d.
        Inr \<lparr>rsp_name = (case d (get_id req) of Some v \<Rightarrow> v | None \<Rightarrow> ''not found'')\<rparr>))"

definition SetValueInternal :: "SetValueReq \<Rightarrow> kv \<Rightarrow> (SetValueRsp \<times> kv) result" where
  "SetValueInternal req b =
     (let index = getAllottedBucket (set_id req) in
      bindE (dict_at index b) (\<lambda>d.
        let b' = b\<lparr>dicts := (dicts b)(index := d(set_id req := Some (set_name req)))\<rparr> in
        Inr (case d (set_id req) of
            Some v \<Rightarrow> (\<lparr>rsp_code = 1\<rparr>, b')
          | None \<Rightarrow> (\<lparr>rsp_code = 2\<rparr>, b'))))"

section \<open>The server side: \<open>KVGetterImpl\<close> and \<open>KVSetterImpl\<close>\<close>

datatype kv_service = KVGetterImpl | KVSetterImpl

fun kv_ServiceName :: "kv_service \<Rightarrow> string" where
  "kv_ServiceName KVGetterImpl = ''KVGetter''"
| "kv_ServiceName KVSetterImpl = ''KVSetter''"

definition KVGetterImpl_GetValue :: "GetValueReq \<Rightarrow> kv \<Rightarrow> (GetValueRsp \<times> kv) result" where
  "KVGetterImpl_GetValue req b =
     bindE (GetValueInternal req b) (\<lambda>ret.
       Inr (ret, emit (LogDev ''KVGetterImpl::GetValue return %s\<newline>'' [LStr (rsp_name ret)]) b))"

definition KVSetterImpl_SetValue :: "SetValueReq \<Rightarrow> kv \<Rightarrow> (SetValueRsp \<times> kv) result" where
  "KVSetterImpl_SetValue req b =
     bindE (SetValueInternal req b) (\<lambda>(ret, b).
       Inr (ret, emit (LogDev ''KVSetterImpl::SetValue return %d\<newline>'' [LInt (sint (rsp_code ret))]) b))"

text \<open>
  The macro \<open>HandleRPC\<close>: parse the request, call \<open>F\<close>, pack the response. \<open>data\<close> and \<open>res\<close> are the
  uninitialised locals of \<open>ParseProtoStruct\<close> and \<open>ToRpcResult\<close>.
\<close>

definition HandleRPC ::
  "byte list \<Rightarrow> RpcResult \<Rightarrow> (string \<Rightarrow> 'req) \<Rightarrow> ('rsp \<Rightarrow> string) \<Rightarrow> ('req \<Rightarrow> kv \<Rightarrow> ('rsp \<times> kv) result) \<Rightarrow>
   RpcMessage \<Rightarrow> kv \<Rightarrow> (RpcResult \<times> kv) result" where
  "HandleRPC data res parse ser F Context b =
     bindE (ParseProtoStruct data parse (parameters (body Context))) (\<lambda>req.
     bindE (F req b) (\<lambda>(rsp, b).
     bindE (ToRpcResult ser res rsp) (\<lambda>r. Inr (r, b))))"

definition KV_Handle ::
  "kv_proto \<Rightarrow> byte list \<Rightarrow> RpcResult \<Rightarrow> kv_service \<Rightarrow> RpcMessage \<Rightarrow> kv \<Rightarrow> (RpcResult \<times> kv) result" where
  "KV_Handle P data res svc Context b =
     (case svc of
        KVGetterImpl \<Rightarrow> HandleRPC data res (parse_GetValueReq P) (ser_GetValueRsp P) KVGetterImpl_GetValue Context b
      | KVSetterImpl \<Rightarrow> HandleRPC data res (parse_SetValueReq P) (ser_SetValueRsp P) KVSetterImpl_SetValue Context b)"

section \<open>The client side: \<open>KVGetterProxy\<close> and \<open>KVSetterProxy\<close>\<close>

text \<open>The two callbacks: print the answer for an id, or fulfil the \<open>n\<close>-th promise.\<close>

datatype kv_callback = PrintValue int32 | Promise nat
datatype kv_value = GotValue GetValueRsp | GotCode SetValueRsp

fun kv_parse :: "kv_proto \<Rightarrow> kv_callback \<Rightarrow> string \<Rightarrow> kv_value" where
  "kv_parse P (PrintValue i) s = GotValue (parse_GetValueRsp P s)"
| "kv_parse P (Promise n) s = GotCode (parse_SetValueRsp P s)"

definition KVGetterProxy :: proxy where
  "KVGetterProxy = RpcServiceBase_init\<lparr>ServiceName := kv_ServiceName KVGetterImpl\<rparr>"

definition KVSetterProxy :: proxy where
  "KVSetterProxy = RpcServiceBase_init\<lparr>ServiceName := kv_ServiceName KVSetterImpl\<rparr>"

text \<open>\<open>GetValue\<close> returns an empty response at once.\<close>

definition KVGetterProxy_GetValue ::
  "kv_proto \<Rightarrow> int \<Rightarrow> proxy \<Rightarrow> GetValueReq \<Rightarrow> (kv_callback, kv_value) client \<Rightarrow>
   (GetValueRsp \<times> (kv_callback, kv_value) client) result" where
  "KVGetterProxy_GetValue P stale p req c =
     bindE (CallRPCAsync stale (ser_GetValueReq P) p req (PrintValue (get_id req)) c) (\<lambda>c. Inr (\<lparr>rsp_name = []\<rparr>, c))"

definition KVSetterProxy_SetValue ::
  "kv_proto \<Rightarrow> int \<Rightarrow> nat \<Rightarrow> proxy \<Rightarrow> SetValueReq \<Rightarrow> (kv_callback, kv_value) client \<Rightarrow>
   ((kv_callback, kv_value) client \<times> ((kv_callback, kv_value) client \<Rightarrow> kv_value option)) result" where
  "KVSetterProxy_SetValue P stale n p req c = CallRPC stale (ser_SetValueReq P) p req (Promise n) c"

section \<open>Lemmas\<close>

text \<open>The ids whose bucket is inside the array.\<close>

definition kv_valid :: "int32 \<Rightarrow> bool" where
  "kv_valid k \<longleftrightarrow> 0 \<le> getAllottedBucket k"

lemma bucket_less: "getAllottedBucket k < 5" "-5 < getAllottedBucket k"
  using smod_int_range [of 5 "sint k sdiv 2000"] by (simp_all add: getAllottedBucket_def)

lemma dict_at_valid: "dict_at (getAllottedBucket k) b = (if kv_valid k then Inr (dicts b (getAllottedBucket k)) else Inl OutOfBounds)"
  using bucket_less [of k] by (simp add: dict_at_def kv_valid_def NUM_NAME_DICTIONARY_BUCKETS_def)

text \<open>The abstract map: every id is looked up in its own bucket.\<close>

definition kv_abs :: "kv \<Rightarrow> int32 \<Rightarrow> string option" where
  "kv_abs b k = dicts b (getAllottedBucket k) k"

lemma GetValueInternal_abs:
  "kv_valid (get_id req) \<Longrightarrow> GetValueInternal req b =
    Inr \<lparr>rsp_name = (case kv_abs b (get_id req) of Some v \<Rightarrow> v | None \<Rightarrow> ''not found'')\<rparr>"
  by (simp add: GetValueInternal_def dict_at_valid kv_abs_def)

lemma SetValueInternal_abs:
  assumes "kv_valid (set_id req)"
  shows "\<exists>b'. SetValueInternal req b = Inr (\<lparr>rsp_code = (if kv_abs b (set_id req) = None then 2 else 1)\<rparr>, b') \<and>
    kv_abs b' = (kv_abs b)(set_id req := Some (set_name req)) \<and> trace b' = trace b"
  using assms
  by (auto simp: SetValueInternal_def dict_at_valid kv_abs_def fun_eq_iff Let_def split: option.split)

datatype kv_op = KGet GetValueReq | KSet SetValueReq
datatype kv_out = OGet GetValueRsp | OSet SetValueRsp

text \<open>A sequence of requests served by the implementation, and by one map.\<close>

fun kv_run :: "kv_op list \<Rightarrow> kv \<Rightarrow> (kv_out list \<times> kv) result" where
  "kv_run [] b = Inr ([], b)"
| "kv_run (KGet req # ops) b = bindE (KVGetterImpl_GetValue req b) (\<lambda>(r, b).
     bindE (kv_run ops b) (\<lambda>(rs, b). Inr (OGet r # rs, b)))"
| "kv_run (KSet req # ops) b = bindE (KVSetterImpl_SetValue req b) (\<lambda>(r, b).
     bindE (kv_run ops b) (\<lambda>(rs, b). Inr (OSet r # rs, b)))"

fun map_run :: "kv_op list \<Rightarrow> (int32 \<Rightarrow> string option) \<Rightarrow> kv_out list \<times> (int32 \<Rightarrow> string option)" where
  "map_run [] m = ([], m)"
| "map_run (KGet req # ops) m =
     (let (rs, m') = map_run ops m in
      (OGet \<lparr>rsp_name = (case m (get_id req) of Some v \<Rightarrow> v | None \<Rightarrow> ''not found'')\<rparr> # rs, m'))"
| "map_run (KSet req # ops) m =
     (let (rs, m') = map_run ops (m(set_id req := Some (set_name req))) in
      (OSet \<lparr>rsp_code = (if m (set_id req) = None then 2 else 1)\<rparr> # rs, m'))"

fun kv_op_valid :: "kv_op \<Rightarrow> bool" where
  "kv_op_valid (KGet req) \<longleftrightarrow> kv_valid (get_id req)"
| "kv_op_valid (KSet req) \<longleftrightarrow> kv_valid (set_id req)"

lemma kv_abs_emit [simp]: "kv_abs (emit x b) = kv_abs b"
  by (simp add: kv_abs_def emit_def fun_eq_iff)

lemma kv_run_refines:
  "list_all kv_op_valid ops \<Longrightarrow>
   \<exists>b'. kv_run ops b = Inr (fst (map_run ops (kv_abs b)), b') \<and> kv_abs b' = snd (map_run ops (kv_abs b))"
proof (induction ops arbitrary: b)
  case (Cons op ops)
  show ?case
  proof (cases op)
    case (KGet req)
    let ?r = "\<lparr>rsp_name = (case kv_abs b (get_id req) of Some v \<Rightarrow> v | None \<Rightarrow> ''not found'')\<rparr>"
    let ?b = "emit (LogDev ''KVGetterImpl::GetValue return %s\<newline>'' [LStr (rsp_name ?r)]) b"
    have "KVGetterImpl_GetValue req b = Inr (?r, ?b)"
      using Cons.prems by (simp add: KGet KVGetterImpl_GetValue_def GetValueInternal_abs)
    with Cons.IH [of ?b] Cons.prems show ?thesis by (auto simp: KGet case_prod_beta)
  next
    case (KSet req)
    obtain b1 where b1: "SetValueInternal req b = Inr (\<lparr>rsp_code = (if kv_abs b (set_id req) = None then 2 else 1)\<rparr>, b1)"
      "kv_abs b1 = (kv_abs b)(set_id req := Some (set_name req))"
      using SetValueInternal_abs [of req b] Cons.prems by (auto simp: KSet)
    obtain b2 where "KVSetterImpl_SetValue req b = Inr (\<lparr>rsp_code = (if kv_abs b (set_id req) = None then 2 else 1)\<rparr>, b2)"
      "kv_abs b2 = (kv_abs b)(set_id req := Some (set_name req))"
      using b1 by (simp add: KVSetterImpl_SetValue_def)
    moreover obtain b' where "kv_run ops b2 = Inr (fst (map_run ops (kv_abs b2)), b')" "kv_abs b' = snd (map_run ops (kv_abs b2))"
      using Cons.IH [of b2] Cons.prems by (auto simp: KSet)
    ultimately show ?thesis by (simp add: KSet case_prod_beta)
  qed
qed simp

lemma kv_valid_nonneg: "- 2000 < sint k \<Longrightarrow> kv_valid k"
proof -
  assume k: "- 2000 < sint k"
  have "0 \<le> sint k sdiv 2000"
  proof (cases "0 \<le> sint k")
    case True
    then show ?thesis by (simp add: signed_divide_int_def sgn_if)
  next
    case False
    with k have "\<bar>sint k\<bar> div 2000 = 0" by (intro div_pos_pos_trivial) auto
    then show ?thesis by (simp add: signed_divide_int_def)
  qed
  then show ?thesis
    by (simp add: kv_valid_def getAllottedBucket_def signed_modulo_int_def signed_divide_int_def sgn_if)
qed

section \<open>Properties\<close>

text \<open>
  The store is a map: for every sequence of requests whose ids pick a bucket inside the array,
  the five buckets give the responses of one map from ids to names (the last name set, or
  "not found"; code 1 for an existing id, 2 for a new one), and hold that map at the end.
\<close>

theorem kv_refines_map:
  assumes "list_all kv_op_valid ops"
  shows "\<exists>b'. kv_run ops KVServiceBase_init = Inr (fst (map_run ops (\<lambda>_. None)), b') \<and>
    kv_abs b' = snd (map_run ops (\<lambda>_. None))"
proof -
  have "kv_abs KVServiceBase_init = (\<lambda>_. None)" by (simp add: kv_abs_def KVServiceBase_init_def fun_eq_iff)
  with kv_run_refines [OF assms, of KVServiceBase_init] show ?thesis by simp
qed

theorem kv_refines_map_witness:
  "\<exists>b'. kv_run [KSet \<lparr>set_id = 7, set_name = ''a''\<rparr>, KSet \<lparr>set_id = 9000, set_name = ''b''\<rparr>, KGet \<lparr>get_id = 7\<rparr>]
      KVServiceBase_init = Inr ([OSet \<lparr>rsp_code = 2\<rparr>, OSet \<lparr>rsp_code = 2\<rparr>, OGet \<lparr>rsp_name = ''a''\<rparr>], b')"
proof -
  have "list_all kv_op_valid [KSet \<lparr>set_id = 7, set_name = ''a''\<rparr>, KSet \<lparr>set_id = 9000, set_name = ''b''\<rparr>, KGet \<lparr>get_id = 7\<rparr>]"
    by (simp add: kv_valid_nonneg)
  from kv_refines_map [OF this] show ?thesis by auto
qed

text \<open>
  The bucket of an id is inside the array for every id above -2000, so for all non-negative
  ones; id -2000 picks bucket -1, and reading or writing it leaves the arrays.
\<close>

theorem kv_bucket_bounds:
  assumes "- 2000 < sint k"
  shows "0 \<le> getAllottedBucket k \<and> getAllottedBucket k < NUM_NAME_DICTIONARY_BUCKETS \<and>
   GetValueInternal \<lparr>get_id = - 2000\<rparr> b = Inl OutOfBounds \<and>
   SetValueInternal \<lparr>set_id = - 2000, set_name = v\<rparr> b = Inl OutOfBounds"
proof -
  have "getAllottedBucket (- 2000) = -1" by (simp add: getAllottedBucket_def) code_simp
  then have "\<not> kv_valid (- 2000)" by (simp add: kv_valid_def)
  then show ?thesis
    using kv_valid_nonneg [OF assms] bucket_less [of k] dict_at_valid [of "- 2000" b]
    by (simp add: kv_valid_def GetValueInternal_def SetValueInternal_def NUM_NAME_DICTIONARY_BUCKETS_def)
qed

theorem kv_bucket_bounds_witness:
  "0 \<le> getAllottedBucket 12345 \<and> getAllottedBucket 12345 < 5 \<and>
   GetValueInternal \<lparr>get_id = - 2000\<rparr> KVServiceBase_init = Inl OutOfBounds"
proof -
  have "- 2000 < sint (12345 :: int32)" by simp
  from kv_bucket_bounds [OF this, of KVServiceBase_init "[]"] show ?thesis
    by (simp add: NUM_NAME_DICTIONARY_BUCKETS_def)
qed

end
