(* ===== verification/Apps.thy ===== *)
theory Apps
  imports ArgsParser KVService RpcServer
begin

text \<open>
  The two programs: \<open>source/apps/Server.cc\<close> and \<open>source/apps/Client.cc\<close>.

  \<open>std::rand\<close> is the function \<open>rand\<close> of the round. The reading loop does not wait for answers; the
  writing loop waits for each one, and \<open>env k\<close> is what the client's thread does to the client while
  the k-th call waits. Both loops take fuel: a step of 0 repeats an id, so they need not end;
  \<open>None\<close> is a loop that has not ended, or a call that is never answered. What they print on
  the terminal is left out.
\<close>

section \<open>The server program\<close>

text \<open>A null pointer as a C string cannot become a \<open>std::string\<close>.\<close>

definition std_string :: "string option \<Rightarrow> string result" where
  "std_string s = (case s of None \<Rightarrow> Inl NullDeref | Some s \<Rightarrow> Inr s)"

definition Server_GetOptions :: "string list \<Rightarrow> server_options result" where
  "Server_GetOptions argv =
     (let namesvr_ip = parse_str argv ''-namesvr_ip='' in
      bindE (parse_int argv ''-namesvr_port='') (\<lambda>nport.
        let ip = parse_str argv ''-ip='' in
        bindE (parse_int argv ''-port='') (\<lambda>prt.
          let log = parse_str argv ''-log='';
              ip = (if ip = None then Some ''localhost'' else ip);
              prt = (if prt = -1 then 8888 else prt);
              log = (if log = None then Some ''server.log'' else log)
          in bindE (std_string namesvr_ip) (\<lambda>nip. bindE (std_string ip) (\<lambda>ip. bindE (std_string log) (\<lambda>log.
            Inr \<lparr>namesvr_ip_addr = nip, namesvr_port = nport, ip_addr = ip, port = prt, log_path = ''log/'' @ log\<rparr>))))))"

text \<open>\<open>main\<close> up to the loop of the reactor; \<open>c1\<close> and \<open>c2\<close> answer the two registrations.\<close>

definition server_main ::
  "('f, 'j) json_lib \<Rightarrow> listen_env \<Rightarrow> curl_answer \<Rightarrow> curl_answer \<Rightarrow> int \<Rightarrow> int \<Rightarrow> string list \<Rightarrow>
   (kv_service, kv) server reactor result" where
  "server_main J e c1 c2 Epollfd garbage argv =
     bindE (Server_GetOptions argv) (\<lambda>options.
     bindE (RpcServer_init Epollfd garbage KVServiceBase_init) (\<lambda>ServerStub.
     bindE (RegisterService J c1 options (kv_ServiceName KVGetterImpl) KVGetterImpl ServerStub) (\<lambda>ServerStub.
     bindE (RegisterService J c2 options (kv_ServiceName KVSetterImpl) KVSetterImpl ServerStub) (\<lambda>ServerStub.
       Main_start e options ServerStub))))"

section \<open>The client program\<close>

definition Client_GetOptions :: "string list \<Rightarrow> client_options result" where
  "Client_GetOptions argv =
     (let ip = parse_str argv ''-ip='' in
      bindE (parse_int argv ''-port='') (\<lambda>prt.
        if ip = None \<or> prt = -1 then Inl (ProcessExit 1)
        else bindE (std_string ip) (\<lambda>ip. Inr \<lparr>svr_ip = ip, svr_port = prt, callee = []\<rparr>)))"

fun crazy_read ::
  "kv_proto \<Rightarrow> int \<Rightarrow> (nat \<Rightarrow> nat) \<Rightarrow> nat \<Rightarrow> nat \<Rightarrow> int \<Rightarrow>
   (kv_callback, kv_value) client \<Rightarrow> (kv_callback, kv_value) client result option" where
  "crazy_read P stale rand 0 k i c = None"
| "crazy_read P stale rand (Suc n) k i c =
     (if i < 10000 then
        case KVGetterProxy_GetValue P stale (GetProxy KVGetterProxy) \<lparr>get_id = word_of_int i\<rparr> c of
          Inl e \<Rightarrow> Some (Inl e)
        | Inr (_, c) \<Rightarrow> crazy_read P stale rand n (Suc k) (i + int (rand k mod 100)) c
      else Some (Inr c))"

definition shift_char :: "int \<Rightarrow> char \<Rightarrow> char" where
  "shift_char i ch =
     (if of_char ch \<ge> (97 :: int) \<and> of_char ch \<le> (122 :: int) then char_of (nat (97 + (of_char ch + i - 97) smod 26)) else ch)"

definition crazy_text :: "int \<Rightarrow> string" where
  "crazy_text i = map (shift_char i) ''I can see Russia from my house!''"

fun crazy_write ::
  "kv_proto \<Rightarrow> int \<Rightarrow> (nat \<Rightarrow> nat) \<Rightarrow> (nat \<Rightarrow> (kv_callback, kv_value) client \<Rightarrow> (kv_callback, kv_value) client) \<Rightarrow>
   nat \<Rightarrow> nat \<Rightarrow> int \<Rightarrow> (kv_callback, kv_value) client \<Rightarrow> (kv_callback, kv_value) client result option" where
  "crazy_write P stale rand env 0 k i c = None"
| "crazy_write P stale rand env (Suc n) k i c =
     (if i < 10000 then
        case KVSetterProxy_SetValue P stale k (GetProxy KVSetterProxy)
               \<lparr>set_id = word_of_int i, set_name = crazy_text i\<rparr> c of
          Inl e \<Rightarrow> Some (Inl e)
        | Inr (c, f) \<Rightarrow>
            let c = env k c in
            (case f c of
               None \<Rightarrow> None
             | Some v \<Rightarrow> crazy_write P stale rand env n (Suc k) (i + int (rand k mod 100)) c)
      else Some (Inr c))"

section \<open>Lemmas\<close>

lemma server_main_start:
  "Server_GetOptions argv = Inr opt \<Longrightarrow> server_main J e c1 c2 Epollfd garbage argv =
    server_start J e opt [(''KVGetter'', KVGetterImpl, c1), (''KVSetter'', KVSetterImpl, c2)] Epollfd garbage KVServiceBase_init"
  by (simp add: server_main_def server_start_def bindE_assoc)

lemma Listen_binds:
  fixes s :: "('svc, 'app) server"
  assumes "ServerTransport_Listen e ip p s = Inr s'"
  shows "Bind (len_socket e) ip p \<in> set (trace s') \<and> app s' = app s"
  using assms
  by (auto simp: ServerTransport_Listen_def create_listenfd_def AddEvent_def CtrlEvent_def setnonblocking_def emit_def Let_def bindE_eq_Inr assertE_eq_Inr
      split: if_splits)

lemma server_start_binds:
  assumes "server_start J e opt svcs Epollfd g a = Inr r"
  shows "Bind (len_socket e) (ip_addr opt) (port opt) \<in> set (trace (sys r)) \<and> app (sys r) = a"
proof -
  obtain s0 s s' where s0: "RpcServer_init Epollfd g a = Inr s0" and s: "register_all J opt svcs s0 = Inr s"
    and s': "ServerTransport_Listen e (ip_addr opt) (port opt) s = Inr s'" and r: "Reactor_init s' = Inr r"
    using assms by (auto simp: server_start_def Main_start_def bindE_eq_Inr)
  have "app s0 = a" using s0 by (auto simp: RpcServer_init_def bindE_eq_Inr)
  then show ?thesis
    using register_all_same [OF s] Listen_binds [OF s'] r by (auto simp: same_io_def Reactor_init_def bindE_eq_Inr)
qed

section \<open>Properties\<close>

text \<open>
  The server program started with well-formed numbers: without \<open>-namesvr_ip=\<close> it builds a
  string from a null pointer; with it, and when the sockets work, it listens on the address of
  \<open>-ip=\<close> and \<open>-port=\<close>, or on localhost and 8888 where a flag is missing, offers exactly the
  services KVGetter and KVSetter, and its four workers wait.
\<close>

theorem server_main_serves:
  assumes "parse_int argv ''-namesvr_port='' = Inr np" "parse_int argv ''-port='' = Inr p"
    and "valid_fd (len_socket e)" "len_bind e \<noteq> -1" "len_listen e \<noteq> -1" "ep > 0"
  shows "case parse_str argv ''-namesvr_ip='' of
      None \<Rightarrow> server_main J e c1 c2 ep g argv = Inl NullDeref
    | Some h \<Rightarrow> \<exists>r. server_main J e c1 c2 ep g argv = Inr r \<and>
        Bind (len_socket e) (case parse_str argv ''-ip='' of None \<Rightarrow> ''localhost'' | Some ip \<Rightarrow> ip)
          (if p = -1 then 8888 else p) \<in> set (trace (sys r)) \<and>
        listen_routes (sys r) \<and>
        dictionary (sys r) = [''KVGetter'' \<mapsto> KVGetterImpl, ''KVSetter'' \<mapsto> KVSetterImpl] \<and>
        app (sys r) = KVServiceBase_init \<and> workers (pool r) = replicate 4 Ready"
proof (cases "parse_str argv ''-namesvr_ip=''")
  case None
  then show ?thesis using assms(1,2) by (simp add: server_main_def Server_GetOptions_def std_string_def)
next
  case (Some h)
  then obtain opt where opt: "Server_GetOptions argv = Inr opt"
    "ip_addr opt = (case parse_str argv ''-ip='' of None \<Rightarrow> ''localhost'' | Some ip \<Rightarrow> ip)"
    "port opt = (if p = -1 then 8888 else p)"
    using assms(1,2) by (cases "parse_str argv ''-ip=''"; cases "parse_str argv ''-log=''")
      (auto simp: Server_GetOptions_def std_string_def)
  let ?svcs = "[(''KVGetter'', KVGetterImpl, c1), (''KVSetter'', KVSetterImpl, c2)]"
  obtain r where r: "server_start J e opt ?svcs ep g KVServiceBase_init = Inr r"
    using server_start_ok [OF assms(3-6), of J opt ?svcs g KVServiceBase_init] by blast
  show ?thesis
    using server_start_state [OF r] server_start_binds [OF r] r opt Some
    by (auto simp: server_main_start [OF opt(1)] numeral_eq_Suc fun_eq_iff)
qed

theorem server_main_serves_witness:
  "\<exists>r. server_main demo_json demo_listen demo_answer demo_answer 3 (-1) [''server'', ''-namesvr_ip=ns''] = Inr r \<and>
    Bind 4 ''localhost'' 8888 \<in> set (trace (sys r)) \<and> dictionary (sys r) ''KVGetter'' = Some KVGetterImpl"
proof -
  let ?argv = "[''server'', ''-namesvr_ip=ns'']"
  have "parse_int ?argv ''-namesvr_port='' = Inr (-1)" "parse_int ?argv ''-port='' = Inr (-1)" by code_simp+
  moreover have "parse_str ?argv ''-namesvr_ip='' = Some ''ns''" "parse_str ?argv ''-ip='' = None" by code_simp+
  moreover have "valid_fd (len_socket demo_listen)" "len_bind demo_listen \<noteq> -1" "len_listen demo_listen \<noteq> -1"
    by (simp_all add: demo_listen_def MAX_FILE_DESCRIPTORS_def)
  ultimately show ?thesis
    using server_main_serves [of ?argv "-1" "-1" demo_listen 3 demo_json demo_answer demo_answer "-1"]
    by (auto simp: demo_listen_def)
qed

end
