(* ===== verification/System.thy ===== *)
theory System
  imports EndToEnd ClientMachine Apps
begin

text \<open>
  Clients and server together: any number of client processes and one server, each connected by a
  TCP connection, that is, two queues of packets. The server is the machine of \<open>ServerMachine\<close>, a
  client is the object of \<open>RpcClient\<close>.

  A packet travels whole and in order, and sockets do not fail: \<open>epoll_wait\<close> reports a connection for
  input only when a packet has arrived, the listening descriptor only when a client has connected,
  and neither errors nor hang-ups; a read of the header takes the first 48 bytes of the packet, the
  read of the body the rest. Clients call services that are registered, with parameters the service
  accepts, and have at most 1023 calls in progress. \<open>well_behaved\<close> is what is asked of a service: on
  the requests it accepts it returns a result whose buffer holds a terminated string. With these
  assumptions, everything the two sides rely on in each other is proved here.

  \<open>calls\<close> and \<open>history\<close> are ghost state: the callback and request of each call a client has made, and
  the requests of its connection the server has served with their results.
\<close>

section \<open>The system\<close>

record ('cb, 'v) peer =
  cli :: "('cb, 'v) client"
  chan :: "int option"
  c2s :: "byte list list"
  s2c :: "byte list list"
  calls :: "('cb \<times> RpcMessage) list"
  history :: "(RpcMessage \<times> RpcResult) list"

record ('svc, 'app, 'cb, 'v) rpc_system =
  srv :: "('svc, 'app) machine"
  peers :: "('cb, 'v) peer list"

datatype party = SrvLoop | SrvWorker nat | Client nat

text \<open>The packets an operation has sent.\<close>

definition sent_between :: "'a world_scheme \<Rightarrow> 'a world_scheme \<Rightarrow> byte list list" where
  "sent_between w w' = drop (length (sends (trace w))) (sends (trace w'))"

definition events_true :: "('svc, 'app, 'cb, 'v) rpc_system \<Rightarrow> (int \<times> u32) list \<Rightarrow> bool" where
  "events_true st evs \<longleftrightarrow> (\<forall>(fd, m) \<in> set evs. m AND EPOLLERR = 0 \<and> m AND EPOLLRDHUP = 0 \<and>
     (if fd = listenfd (sys (srv st)) then m AND EPOLLIN \<noteq> 0 \<and> (\<exists>p \<in> set (peers st). chan p = None)
      else m AND EPOLLIN \<noteq> 0 \<longrightarrow> (\<exists>p \<in> set (peers st). chan p = Some fd \<and> c2s p \<noteq> [])))"

definition put_srv :: "('svc, 'app) machine \<Rightarrow> ('svc, 'app, 'cb, 'v) rpc_system \<Rightarrow> ('svc, 'app, 'cb, 'v) rpc_system" where
  "put_srv r st = st\<lparr>srv := r\<rparr>"

definition put_peer :: "nat \<Rightarrow> ('cb, 'v) peer \<Rightarrow> ('svc, 'app, 'cb, 'v) rpc_system \<Rightarrow> ('svc, 'app, 'cb, 'v) rpc_system" where
  "put_peer k p st = st\<lparr>peers := (peers st)[k := p]\<rparr>"

text \<open>Worker \<open>i\<close> of the server has run the handler of its task, which left the server in state \<open>s\<close>.\<close>

definition handled :: "nat \<Rightarrow> ('svc, 'app) server \<Rightarrow> ('svc, 'app) machine \<Rightarrow> ('svc, 'app) machine" where
  "handled i s r = r\<lparr>sys := s, pool := worker_step i (pool r)\<rparr>"

inductive sys_step ::
  "('svc, 'app) service_handle \<Rightarrow> ('svc \<Rightarrow> RpcMessage \<Rightarrow> bool) \<Rightarrow> ('p \<Rightarrow> string) \<Rightarrow> ('cb \<Rightarrow> string \<Rightarrow> 'v) \<Rightarrow>
   party \<Rightarrow> ('svc, 'app, 'cb, 'v) rpc_system \<Rightarrow> ('svc, 'app, 'cb, 'v) rpc_system \<Rightarrow> bool"
  for Handle Q ser parse where
  poll: "r = srv st \<Longrightarrow> pending r = [] \<Longrightarrow> epoll_reports (interest (trace (sys r))) evs \<Longrightarrow> events_true st evs \<Longrightarrow>
    Reactor_poll so_error evs r = Inr r' \<Longrightarrow> sys_step Handle Q ser parse SrvLoop st (put_srv r' st)"
| hand_over: "r = srv st \<Longrightarrow> pending r = t # ts \<Longrightarrow> may_notify w (workers (pool r)) \<Longrightarrow>
    sys_step Handle Q ser parse SrvLoop st (put_srv (Reactor_add w r) st)"
| work: "r = srv st \<Longrightarrow> i < length (workers (pool r)) \<Longrightarrow> running_of (workers (pool r) ! i) = [] \<Longrightarrow>
    sys_step Handle Q ser parse (SrvWorker i) st (put_srv (r\<lparr>pool := worker_step i (pool r)\<rparr>) st)"
| wake: "r = srv st \<Longrightarrow> i < length (workers (pool r)) \<Longrightarrow> workers (pool r) ! i = Waiting \<Longrightarrow>
    sys_step Handle Q ser parse SrvLoop st (put_srv (r\<lparr>pool := (pool r)\<lparr>workers := (workers (pool r))[i := Notified]\<rparr>\<rparr>) st)"
| accept: "r = srv st \<Longrightarrow> i < length (workers (pool r)) \<Longrightarrow> workers (pool r) ! i = Running (listenfd (sys r), READ_EVENT) \<Longrightarrow>
    k < length (peers st) \<Longrightarrow> p = peers st ! k \<Longrightarrow> chan p = None \<Longrightarrow>
    acc_ret (en_accept e) = fd \<Longrightarrow> valid_fd fd \<Longrightarrow> accept_fresh e (sys r) \<Longrightarrow>
    acc_rcvbuf (en_accept e) = None \<Longrightarrow> acc_sndbuf (en_accept e) = None \<Longrightarrow>
    Server_HandleEvent Handle e (listenfd (sys r), READ_EVENT) (sys r) = Inr s \<Longrightarrow>
    sys_step Handle Q ser parse (SrvWorker i) st (put_srv (handled i s r) (put_peer k (p\<lparr>chan := Some fd\<rparr>) st))"
| serve: "r = srv st \<Longrightarrow> i < length (workers (pool r)) \<Longrightarrow> workers (pool r) ! i = Running (fd, READ_EVENT) \<Longrightarrow>
    k < length (peers st) \<Longrightarrow> p = peers st ! k \<Longrightarrow> chan p = Some fd \<Longrightarrow> c2s p = b # bs \<Longrightarrow> accept_fresh e (sys r) \<Longrightarrow>
    en_recv_header e = RecvOk (take 48 b) \<Longrightarrow> en_recv_body e = RecvOk (drop 48 b) \<Longrightarrow>
    Server_HandleEvent Handle e (fd, READ_EVENT) (sys r) = Inr s \<Longrightarrow>
    request_of (RecvOk (take 48 b)) (RecvOk (drop 48 b)) = Some m \<Longrightarrow> x = last (return_values s fd) \<Longrightarrow>
    sys_step Handle Q ser parse (SrvWorker i) st
      (put_srv (handled i s r) (put_peer k (p\<lparr>c2s := bs, history := history p @ [(m, x)]\<rparr>) st))"
| reply: "r = srv st \<Longrightarrow> i < length (workers (pool r)) \<Longrightarrow> workers (pool r) ! i = Running (fd, WRITE_EVENT) \<Longrightarrow>
    k < length (peers st) \<Longrightarrow> p = peers st ! k \<Longrightarrow> chan p = Some fd \<Longrightarrow> accept_fresh e (sys r) \<Longrightarrow> en_send e = SendOk n \<Longrightarrow>
    Server_HandleEvent Handle e (fd, WRITE_EVENT) (sys r) = Inr s \<Longrightarrow>
    sys_step Handle Q ser parse (SrvWorker i) st
      (put_srv (handled i s r) (put_peer k (p\<lparr>s2c := s2c p @ sent_between (sys r) s\<rparr>) st))"
| call: "k < length (peers st) \<Longrightarrow> p = peers st ! k \<Longrightarrow> linked pr \<Longrightarrow> call_fits pr (until_nul (ser P)) \<Longrightarrow>
    no_nul (ServiceName pr) \<Longrightarrow> dictionary (sys (srv st)) (ServiceName pr) = Some svc \<Longrightarrow>
    (\<And>i. Q svc (call_message pr i (until_nul (ser P)))) \<Longrightarrow> card (guid_live (ids (cli p))) < 1023 \<Longrightarrow>
    CallRPCAsync stale ser pr P cb (cli p) = Inr c \<Longrightarrow>
    sys_step Handle Q ser parse (Client k) st
      (put_peer k (p\<lparr>cli := c, calls := calls p @ [(cb, last (PendingRequests c))]\<rparr>) st)"
| push: "k < length (peers st) \<Longrightarrow> p = peers st ! k \<Longrightarrow> length pad = 3 \<Longrightarrow> length buf = MAX_BUFFER \<Longrightarrow>
    Client_HandleEvent parse pad buf data (SendOk n) rr (Connfd (cli p), WRITE_EVENT) (cli p) = Inr c \<Longrightarrow>
    sys_step Handle Q ser parse (Client k) st
      (put_peer k (p\<lparr>cli := c, c2s := c2s p @ sent_between (cli p) c\<rparr>) st)"
| receive: "k < length (peers st) \<Longrightarrow> p = peers st ! k \<Longrightarrow> s2c p = b # bs \<Longrightarrow> length data = 4096 \<Longrightarrow>
    Client_HandleEvent parse pad buf data sr (RecvOk b) (Connfd (cli p), READ_EVENT) (cli p) = Inr c \<Longrightarrow>
    sys_step Handle Q ser parse (Client k) st (put_peer k (p\<lparr>cli := c, s2c := bs\<rparr>) st)"

definition system_init :: "('svc, 'app) machine \<Rightarrow> ('cb, 'v) client list \<Rightarrow> ('svc, 'app, 'cb, 'v) rpc_system" where
  "system_init r cs = \<lparr>srv = r, peers = map (\<lambda>c. \<lparr>cli = c, chan = None, c2s = [], s2c = [], calls = [], history = []\<rparr>) cs\<rparr>"

text \<open>The system starts with a started server, in a state \<open>a\<close> its services accept, and connected clients.\<close>

inductive sys_reachable ::
  "('svc, 'app) service_handle \<Rightarrow> ('app \<Rightarrow> bool) \<Rightarrow> ('svc \<Rightarrow> RpcMessage \<Rightarrow> bool) \<Rightarrow> ('p \<Rightarrow> string) \<Rightarrow> ('cb \<Rightarrow> string \<Rightarrow> 'v) \<Rightarrow>
   ('svc, 'app, 'cb, 'v) rpc_system \<Rightarrow> bool"
  for Handle A Q ser parse where
  init: "server_start (J :: (unit, unit) json_lib) e opt svcs ep g a = Inr r \<Longrightarrow> A a \<Longrightarrow> list_all fresh_client cs \<Longrightarrow>
    sys_reachable Handle A Q ser parse (system_init r cs)"
| step: "sys_reachable Handle A Q ser parse st \<Longrightarrow> sys_step Handle Q ser parse a st st' \<Longrightarrow>
    sys_reachable Handle A Q ser parse st'"

definition well_behaved :: "('svc, 'app) service_handle \<Rightarrow> ('app \<Rightarrow> bool) \<Rightarrow> ('svc \<Rightarrow> RpcMessage \<Rightarrow> bool) \<Rightarrow> bool" where
  "well_behaved Handle A Q \<longleftrightarrow> (\<forall>svc m a. A a \<and> Q svc m \<longrightarrow>
     (\<exists>res a'. Handle svc m a = Inr (res, a') \<and> A a' \<and> wf_result res \<and> (\<exists>t. cstr (return_buffer res) = Inr t)))"

section \<open>The invariant\<close>

definition rids :: "RpcResult list \<Rightarrow> int list" where
  "rids rs = map (\<lambda>x. sint (result_seqno x)) rs"

definition is_wire :: "byte list \<Rightarrow> RpcMessage \<Rightarrow> bool" where
  "is_wire b m \<longleftrightarrow> (\<exists>pad. length pad = 3 \<and> b = wire pad m)"

text \<open>A call the server can serve.\<close>

definition good_call :: "('svc \<Rightarrow> RpcMessage \<Rightarrow> bool) \<Rightarrow> ('svc, 'app) server \<Rightarrow> RpcMessage \<Rightarrow> bool" where
  "good_call Q s m \<longleftrightarrow> (\<exists>pr i t svc. m = call_message pr i t \<and> call_fits pr t \<and> no_nul (ServiceName pr) \<and>
     dictionary s (ServiceName pr) = Some svc \<and> Q svc m)"

text \<open>A result the server made for a request, and the value a callback got from it.\<close>

definition served_by :: "('svc, 'app) service_handle \<Rightarrow> ('svc, 'app) server \<Rightarrow> RpcMessage \<times> RpcResult \<Rightarrow> bool" where
  "served_by Handle s h \<longleftrightarrow> (case h of (m, x) \<Rightarrow> \<exists>svc a res a'. service_for m s = Some svc \<and>
     Handle svc m a = Inr (res, a') \<and> x = res\<lparr>result_seqno := seqno (header m)\<rparr> \<and>
     wf_result x \<and> (\<exists>t. cstr (return_buffer x) = Inr t))"

definition received :: "('cb \<Rightarrow> string \<Rightarrow> 'v) \<Rightarrow> 'cb \<times> 'v \<Rightarrow> RpcResult \<Rightarrow> bool" where
  "received parse cv x \<longleftrightarrow> (\<exists>t. cstr (return_buffer x) = Inr t \<and> snd cv = parse (fst cv) t)"

definition queue_of :: "('svc, 'app) server \<Rightarrow> ('cb, 'v) peer \<Rightarrow> RpcResult list" where
  "queue_of s p = (case chan p of None \<Rightarrow> [] | Some fd \<Rightarrow> return_values s fd)"

text \<open>
  One connection: the calls made are the requests served, those in the channel and those queued in
  the client, in this order; the results of the served ones are those consumed, those in the
  channel and those queued in the server, in this order.
\<close>

definition peer_ok ::
  "('svc, 'app) service_handle \<Rightarrow> ('svc \<Rightarrow> RpcMessage \<Rightarrow> bool) \<Rightarrow> ('cb \<Rightarrow> string \<Rightarrow> 'v) \<Rightarrow> ('svc, 'app) server \<Rightarrow>
   ('cb, 'v) peer \<Rightarrow> RpcMessage list \<Rightarrow> RpcResult list \<Rightarrow> RpcResult list \<Rightarrow> bool" where
  "peer_ok Handle Q parse s p ms rs consumed \<longleftrightarrow>
     list_all2 is_wire (c2s p) ms \<and> s2c p = map result_bytes rs \<and>
     map snd (calls p) = map fst (history p) @ ms @ PendingRequests (cli p) \<and>
     map snd (history p) = consumed @ rs @ queue_of s p \<and>
     list_all2 (received parse) (completed (cli p)) consumed \<and>
     client_ok (rids rs @ rids (queue_of s p) @ seqnos ms) (cli p) \<and>
     list_all (served_by Handle s) (history p) \<and>
     list_all (good_call Q s) (ms @ PendingRequests (cli p)) \<and>
     map fst (calls p) = map fst (completed (cli p)) @
       map (\<lambda>i. the (CallidCallbackMapping (cli p) i)) (rids rs @ rids (queue_of s p) @ seqnos ms @ seqnos (PendingRequests (cli p)))"

text \<open>A task in flight: the listening descriptor has a client to accept, a connection a packet to read.\<close>

definition task_fits :: "int \<Rightarrow> ('cb, 'v) peer list \<Rightarrow> task \<Rightarrow> bool" where
  "task_fits lfd ps t \<longleftrightarrow>
     (if fst t = lfd then snd t = READ_EVENT \<and> (\<exists>p \<in> set ps. chan p = None)
      else snd t = WRITE_EVENT \<or> snd t = READ_EVENT \<and> (\<exists>p \<in> set ps. chan p = Some (fst t) \<and> c2s p \<noteq> []))"

definition tasks_ok :: "('svc, 'app, 'cb, 'v) rpc_system \<Rightarrow> bool" where
  "tasks_ok st \<longleftrightarrow> (\<forall>t \<in> set (in_flight (srv st)). task_fits (listenfd (sys (srv st))) (peers st) t)"

definition chans_ok :: "('svc, 'app) server \<Rightarrow> int option list \<Rightarrow> bool" where
  "chans_ok s cs \<longleftrightarrow>
     (\<forall>fd. fd \<noteq> listenfd s \<longrightarrow> (interest (trace s) fd \<noteq> None \<longleftrightarrow> Some fd \<in> set cs)) \<and> Some (listenfd s) \<notin> set cs \<and>
     (\<forall>k < length cs. \<forall>k' < length cs. \<forall>fd. cs ! k = Some fd \<longrightarrow> cs ! k' = Some fd \<longrightarrow> k = k') \<and>
     (\<forall>fd. Some fd \<notin> set cs \<longrightarrow> return_values s fd = [])"

definition sys_ok ::
  "('svc, 'app) service_handle \<Rightarrow> ('app \<Rightarrow> bool) \<Rightarrow> ('svc \<Rightarrow> RpcMessage \<Rightarrow> bool) \<Rightarrow> ('cb \<Rightarrow> string \<Rightarrow> 'v) \<Rightarrow>
   ('svc, 'app, 'cb, 'v) rpc_system \<Rightarrow> bool" where
  "sys_ok Handle A Q parse st \<longleftrightarrow> machine_ok (srv st) \<and> A (app (sys (srv st))) \<and> tasks_ok st \<and>
     chans_ok (sys (srv st)) (map chan (peers st)) \<and>
     (\<forall>p \<in> set (peers st). \<exists>ms rs consumed. peer_ok Handle Q parse (sys (srv st)) p ms rs consumed)"

lemma put_sys_simps [simp]:
  "srv (put_srv r st) = r" "peers (put_srv r st) = peers st"
  "srv (put_peer k p st) = srv st" "peers (put_peer k p st) = (peers st)[k := p]"
  "sys (handled i s r) = s"
  by (simp_all add: put_srv_def put_peer_def handled_def)

lemma in_update:
  assumes "x \<in> set (xs[k := y])"
  shows "x = y \<or> (\<exists>j < length xs. j \<noteq> k \<and> x = xs ! j)"
proof -
  obtain i where i: "i < length xs" "x = xs[k := y] ! i" using assms by (metis in_set_conv_nth length_list_update)
  show ?thesis
  proof (cases "i = k")
    case False
    with i have "i \<noteq> k \<and> x = xs ! i" by simp
    with i(1) show ?thesis by blast
  qed (use i in simp)
qed

lemma update_in: "j < length xs \<Longrightarrow> j \<noteq> k \<Longrightarrow> xs ! j \<in> set (xs[k := y])"
  by (metis length_list_update nth_list_update_neq nth_mem)

text \<open>The server's step in a step of the system.\<close>

lemma sys_step_srv:
  "sys_step Handle Q ser parse a st st' \<Longrightarrow> srv st' = srv st \<or> server_step Handle (srv st) (srv st')"
proof (induction rule: sys_step.induct)
  case (poll r st evs so_error r')
  then show ?case by (auto intro: server_step.poll)
next
  case (hand_over r st t ts w)
  then show ?case by (auto intro: server_step.add)
next
  case (work r st i)
  then show ?case by (auto intro: server_step.work)
next
  case (wake r st i)
  then show ?case by (auto intro: server_step.wake)
next
  case (accept r st i k p e fd s)
  then show ?case using server_step.handle [of i r "(listenfd (sys r), READ_EVENT)" e Handle s] by (simp add: handled_def)
next
  case (serve r st i fd k p b bs e s m x)
  then show ?case using server_step.handle [of i r "(fd, READ_EVENT)" e Handle s] by (simp add: handled_def)
next
  case (reply r st i fd k p e n s)
  then show ?case using server_step.handle [of i r "(fd, WRITE_EVENT)" e Handle s] by (simp add: handled_def)
qed simp_all

section \<open>The server's handlers on a connection\<close>

text \<open>What all of them leave alone.\<close>

definition keeps_rest :: "('svc, 'app) server \<Rightarrow> ('svc, 'app) server \<Rightarrow> bool" where
  "keeps_rest s s' \<longleftrightarrow> dictionary s' = dictionary s \<and> listenfd s' = listenfd s"

lemma serve_server:
  fixes s :: "('svc, 'app) server"
  assumes "conn_routes s fd" "valid_fd fd" "interest (trace s) fd \<noteq> None"
    and "en_recv_header e = r1" "en_recv_body e = r2" "request_of r1 r2 = Some m" "service_for m s = Some svc"
    and "Handle svc m (app s) = Inr (res, a')" "need_return (header m)"
  obtains s' where "Server_HandleEvent Handle e (fd, READ_EVENT) s = Inr s'" "keeps_rest s s'" "app s' = a'"
    "return_values s' = (return_values s)(fd := return_values s fd @ [res\<lparr>result_seqno := seqno (header m)\<rparr>])"
    "\<forall>fd'. interest (trace s') fd' = None \<longleftrightarrow> interest (trace s) fd' = None"
    "interest (trace s') fd = Some (EPOLL_FLAGS_INOUT_ONESHOT OR ExtraFlags s, True)"
proof -
  let ?s = "recv_trace fd r1 s"
  let ?s' = "served fd m res a' ?s"
  have h: "Server_HandleEvent Handle e (fd, READ_EVENT) s = Inr ?s'"
    using handle_message_served [of m ?s svc Handle res a' fd] assms
    by (simp add: HandleEvent_conn HandleReadEvent_request)
  have l: "listenfd ?s = listenfd s" by (simp add: recv_trace_def split: recv_result.split)
  have "keeps_rest s ?s'" by (simp add: keeps_rest_def served_def Let_def l)
  moreover have "return_values ?s' = (return_values s)(fd := return_values s fd @ [res\<lparr>result_seqno := seqno (header m)\<rparr>])"
    using assms(9) by (simp add: served_def Let_def)
  moreover have "interest (trace ?s') fd' = None \<longleftrightarrow> interest (trace s) fd' = None" for fd'
    using assms(3) by (auto simp: served_def Let_def emit_def)
  moreover have "app ?s' = a'" by (simp add: served_def Let_def)
  moreover have "interest (trace ?s') fd = Some (EPOLL_FLAGS_INOUT_ONESHOT OR ExtraFlags s, True)"
    using assms(3,9) by (auto simp: served_def Let_def emit_def rearm_mask_def recv_trace_def split: recv_result.split)
  ultimately show thesis using h that by blast
qed

lemma reply_server:
  fixes s :: "('svc, 'app) server"
  assumes "conn_routes s fd" "valid_fd fd" "interest (trace s) fd \<noteq> None" "en_send e = SendOk n" "return_values s fd = x # xs"
  obtains s' where "Server_HandleEvent Handle e (fd, WRITE_EVENT) s = Inr s'" "keeps_rest s s'" "app s' = app s"
    "return_values s' = (return_values s)(fd := xs)" "sends (trace s') = sends (trace s) @ [result_bytes x]"
    "\<forall>fd'. interest (trace s') fd' = None \<longleftrightarrow> interest (trace s) fd' = None"
proof -
  let ?s1 = "emit (Send fd (result_bytes x)) (s\<lparr>return_values := (return_values s)(fd := xs)\<rparr>)"
  let ?s' = "ModEvent fd (rearm_mask xs) ?s1"
  have h: "Server_HandleEvent Handle e (fd, WRITE_EVENT) s = Inr ?s'"
    using assms by (simp add: HandleEvent_conn ResultSender_HandleWriteEvent_def Pipe_Read_def pipe_at_def Let_def
        FileDescriptorEventDone_eq)
  have "keeps_rest s ?s'" by (simp add: keeps_rest_def)
  moreover have "interest (trace ?s') fd' = None \<longleftrightarrow> interest (trace s) fd' = None" for fd'
    using assms(3) by auto
  ultimately show thesis using h that [of ?s'] by simp
qed

lemma accept_server:
  fixes s :: "('svc, 'app) server"
  assumes "server_ok s" "acc_ret (en_accept e) = fd" "valid_fd fd" "acc_rcvbuf (en_accept e) = None"
    "acc_sndbuf (en_accept e) = None" "accept_fresh e s"
  obtains s' where "Server_HandleEvent Handle e (listenfd s, READ_EVENT) s = Inr s'" "keeps_rest s s'" "app s' = app s"
    "return_values s' = return_values s" "\<forall>fd'. interest (trace s') fd' = None \<longleftrightarrow> interest (trace s) fd' = None \<and> fd' \<noteq> fd"
    "fd \<noteq> listenfd s" "interest (trace s') fd = Some (EPOLL_FLAGS_IN_ONESHOT OR EPOLLET, True)"
proof -
  have L: "valid_fd (listenfd s)" "listen_routes s" "interest (trace s) (listenfd s) \<noteq> None" "ExtraFlags s = EPOLLET"
    using assms(1) by (auto simp: server_ok_def)
  have fresh: "interest (trace s) fd = None" using assms(2,3,6) by (auto simp: accept_fresh_def)
  obtain s' where s': "ServerTransport_HandleReadEvent (en_accept e) (listenfd s) s = Inr s'"
    using HandleReadEvent_ok [of "en_accept e" fd s] assms(2-5) by blast
  then show thesis
  proof (cases rule: HandleReadEvent_accepts)
    case (1 fd1 s1)
    show thesis
      by (rule that [of s']) (use s' 1 assms(2) fresh L in \<open>auto simp: HandleEvent_listen(1) keeps_rest_def\<close>)
  qed
qed

lemma service_for_cong: "dictionary s' = dictionary s \<Longrightarrow> service_for m s' = service_for m s"
  by (simp add: service_for_def split: sum.split)

lemma dictionary_preds:
  assumes "dictionary s' = dictionary s"
  shows "served_by Handle s' = served_by Handle s" "good_call Q s' = good_call Q s"
  by (rule ext, simp add: served_by_def service_for_cong [OF assms], rule ext, simp add: good_call_def assms)

lemma peer_ok_cong:
  assumes "dictionary s' = dictionary s" "queue_of s' p = queue_of s p"
  shows "peer_ok Handle Q parse s' p = peer_ok Handle Q parse s p"
  by (intro ext) (simp only: peer_ok_def dictionary_preds [OF assms(1)] assms(2))

section \<open>One connection\<close>

lemma queue_simps [simp]: "chan p = Some fd \<Longrightarrow> queue_of s p = return_values s fd" "chan p = None \<Longrightarrow> queue_of s p = []"
  by (simp_all add: queue_of_def)

lemma good_call_travels:
  assumes "good_call Q s m" "is_wire b m"
  shows "request_of (RecvOk (take 48 b)) (RecvOk (drop 48 b)) = Some m" "need_return (header m)"
    "\<exists>svc. service_for m s = Some svc \<and> Q svc m"
proof -
  obtain pr i t svc where m: "m = call_message pr i t" "call_fits pr t" "no_nul (ServiceName pr)"
    "dictionary s (ServiceName pr) = Some svc" "Q svc m" using assms(1) by (auto simp: good_call_def)
  obtain pad where b: "length pad = 3" "b = wire pad m" using assms(2) by (auto simp: is_wire_def)
  show "request_of (RecvOk (take 48 b)) (RecvOk (drop 48 b)) = Some m"
    unfolding b(2) m(1) by (rule request_travels [OF m(2) b(1)])
  show "need_return (header m)" by (simp add: m(1) call_message_def)
  show "\<exists>svc. service_for m s = Some svc \<and> Q svc m"
    using m by (simp add: call_service)
qed

text \<open>The server serves the first packet of the connection.\<close>

lemma serve_peer:
  assumes p: "peer_ok Handle Q parse s p ms rs consumed" and fd: "chan p = Some fd" and b: "c2s p = b # bs"
    and wb: "well_behaved Handle A Q" "A (app s)"
  obtains m svc res a' where "request_of (RecvOk (take 48 b)) (RecvOk (drop 48 b)) = Some m"
    "service_for m s = Some svc" "Handle svc m (app s) = Inr (res, a')" "need_return (header m)" "A a'"
    "\<And>s'. keeps_rest s s' \<Longrightarrow> return_values s' fd = return_values s fd @ [res\<lparr>result_seqno := seqno (header m)\<rparr>] \<Longrightarrow>
      peer_ok Handle Q parse s' (p\<lparr>c2s := bs, history := history p @ [(m, res\<lparr>result_seqno := seqno (header m)\<rparr>)]\<rparr>) (tl ms) rs consumed"
proof -
  obtain m ms' where ms: "ms = m # ms'" "is_wire b m" "list_all2 is_wire bs ms'"
    using p b by (auto simp: peer_ok_def list_all2_Cons1)
  have gc: "good_call Q s m" using p ms(1) by (simp add: peer_ok_def)
  note T = good_call_travels [OF gc ms(2)]
  obtain svc where svc: "service_for m s = Some svc" "Q svc m" using T(3) by blast
  obtain res a' where H: "Handle svc m (app s) = Inr (res, a')" "A a'" "wf_result res" "\<exists>t. cstr (return_buffer res) = Inr t"
    using wb svc(2) unfolding well_behaved_def by blast
  let ?x = "res\<lparr>result_seqno := seqno (header m)\<rparr>"
  have sb: "served_by Handle s (m, ?x)"
    using svc H by (auto simp: served_by_def wf_result_def)
  have "peer_ok Handle Q parse s' (p\<lparr>c2s := bs, history := history p @ [(m, ?x)]\<rparr>) (tl ms) rs consumed"
    if k: "keeps_rest s s'" and rv: "return_values s' fd = return_values s fd @ [?x]" for s'
  proof -
    have "dictionary s' = dictionary s" using k by (simp add: keeps_rest_def)
    note e = dictionary_preds [OF this]
    show ?thesis using p ms sb fd rv by (simp add: peer_ok_def e rids_def seqnos_def)
  qed
  with T(1,2) svc(1) H(1,2) show thesis by (intro that)
qed

text \<open>The server sends the first result of the connection's queue.\<close>

lemma reply_peer:
  assumes p: "peer_ok Handle Q parse s p ms rs consumed" and fd: "chan p = Some fd" and x: "return_values s fd = x # xs"
    and k: "keeps_rest s s'" "return_values s' fd = xs"
  shows "peer_ok Handle Q parse s' (p\<lparr>s2c := s2c p @ [result_bytes x]\<rparr>) ms (rs @ [x]) consumed"
proof -
  have "dictionary s' = dictionary s" using k(1) by (simp add: keeps_rest_def)
  note e = dictionary_preds [OF this]
  show ?thesis using p fd x k(2) by (simp add: peer_ok_def e rids_def)
qed

lemma call_peer:
  assumes p: "peer_ok Handle Q parse s p ms rs consumed"
    and call: "linked pr" "call_fits pr (until_nul (ser P))" "no_nul (ServiceName pr)"
      "dictionary s (ServiceName pr) = Some svc" "\<And>i. Q svc (call_message pr i (until_nul (ser P)))"
      "card (guid_live (ids (cli p))) < 1023"
  shows "\<exists>c. CallRPCAsync stale ser pr P cb (cli p) = Inr c \<and>
    peer_ok Handle Q parse s (p\<lparr>cli := c, calls := calls p @ [(cb, last (PendingRequests c))]\<rparr>) ms rs consumed"
proof -
  let ?out = "rids rs @ rids (queue_of s p) @ seqnos ms" let ?t = "until_nul (ser P)"
  have ok: "client_ok ?out (cli p)" using p by (simp add: peer_ok_def)
  obtain i g c where c: "GetGuid stale (ids (cli p)) = (i, g)" "CallRPCAsync stale ser pr P cb (cli p) = Inr c"
    "client_ok ?out c" "PendingRequests c = PendingRequests (cli p) @ [call_message pr i ?t]"
    "CallidCallbackMapping c = (CallidCallbackMapping (cli p))(i := Some cb)" "CallidCallbackMapping (cli p) i = None"
    "completed c = completed (cli p)" "1 \<le> i" "i \<le> 1023" "Connfd c = Connfd (cli p)"
    "guid_live (ids c) = insert i (guid_live (ids (cli p)))" "i \<notin> guid_live (ids (cli p))"
    by (rule CallRPCAsync_ok [of ?out "cli p" pr ser P stale cb, OF ok call(1,2,6)])
  let ?p = "p\<lparr>cli := c, calls := calls p @ [(cb, last (PendingRequests c))]\<rparr>"
  have q: "queue_of s ?p = queue_of s p" by (simp add: queue_of_def)
  have new: "seqnos [call_message pr i ?t] = [i]" using c(8,9) by (simp add: seqnos_def call_message_def sint_small)
  have out: "set (?out @ seqnos (PendingRequests (cli p))) = guid_live (ids (cli p))"
    using ok by (auto simp: client_ok_def)
  have "map (\<lambda>j. the (CallidCallbackMapping c j)) (?out @ seqnos (PendingRequests (cli p))) =
      map (\<lambda>j. the (CallidCallbackMapping (cli p) j)) (?out @ seqnos (PendingRequests (cli p)))"
    using c(12) out by (intro map_cong) (auto simp: c(5))
  moreover have "seqnos (PendingRequests c) = seqnos (PendingRequests (cli p)) @ [i]"
    using new by (simp add: c(4) seqnos_def)
  moreover have "good_call Q s (call_message pr i ?t)" unfolding good_call_def using call(2-5) by blast
  ultimately have "peer_ok Handle Q parse s ?p ms rs consumed"
    using p c(3,4,7) unfolding peer_ok_def q by (simp add: c(5))
  with c(2) show ?thesis by blast
qed

lemma push_peer:
  assumes p: "peer_ok Handle Q parse s p ms rs consumed" and len: "length pad = 3" "length buf = MAX_BUFFER"
  shows "\<exists>c. Client_HandleEvent parse pad buf data sr rr (Connfd (cli p), WRITE_EVENT) (cli p) = Inr c \<and>
    peer_ok Handle Q parse s (p\<lparr>cli := c, c2s := c2s p @ sent_between (cli p) c\<rparr>)
      (ms @ take 1 (PendingRequests (cli p))) rs consumed"
proof -
  let ?out = "rids rs @ rids (queue_of s p) @ seqnos ms"
  have ok: "client_ok ?out (cli p)" using p by (simp add: peer_ok_def)
  obtain c where c: "Client_HandleEvent parse pad buf data sr rr (Connfd (cli p), WRITE_EVENT) (cli p) = Inr c"
    "client_ok (?out @ seqnos (take 1 (PendingRequests (cli p)))) c" "CallidCallbackMapping c = CallidCallbackMapping (cli p)"
    "ids c = ids (cli p)" "completed c = completed (cli p)"
    "sends (trace c) = sends (trace (cli p)) @ map (wire pad) (take 1 (PendingRequests (cli p)))"
    "PendingRequests c = tl (PendingRequests (cli p))"
    by (rule write_step [where parse = parse and data = data and sr = sr and rr = rr, OF ok len]) (rule that; assumption)
  let ?p = "p\<lparr>cli := c, c2s := c2s p @ sent_between (cli p) c\<rparr>"
  have q: "queue_of s ?p = queue_of s p" by (simp add: queue_of_def)
  have w: "list_all2 is_wire (map (wire pad) l) l" for l using len(1) by (induction l) (auto simp: is_wire_def)
  have "sent_between (cli p) c = map (wire pad) (take 1 (PendingRequests (cli p)))"
    using c(6) by (simp add: sent_between_def)
  moreover have "ms @ PendingRequests (cli p) = (ms @ take 1 (PendingRequests (cli p))) @ PendingRequests c"
    by (cases "PendingRequests (cli p)") (simp_all add: c(7))
  moreover from this have "seqnos ms @ seqnos (PendingRequests (cli p)) = seqnos (ms @ take 1 (PendingRequests (cli p))) @ seqnos (PendingRequests c)"
    by (metis seqnos_def map_append)
  ultimately have "peer_ok Handle Q parse s ?p (ms @ take 1 (PendingRequests (cli p))) rs consumed"
    using p c(2,3,5) w [of "take 1 (PendingRequests (cli p))"] unfolding peer_ok_def q
    by (auto simp: list_all2_appendI seqnos_def)
  with c(1) show ?thesis by blast
qed

text \<open>The client receives the first packet of the channel, the answer to its oldest unanswered call.\<close>

lemma receive_peer:
  assumes p: "peer_ok Handle Q parse s p ms rs consumed" and b: "s2c p = b # bs" and data: "length data = 4096"
  shows "\<exists>c x. Client_HandleEvent parse pad buf data sr (RecvOk b) (Connfd (cli p), READ_EVENT) (cli p) = Inr c \<and>
    peer_ok Handle Q parse s (p\<lparr>cli := c, s2c := bs\<rparr>) ms (tl rs) (consumed @ [x])"
proof -
  obtain x rs' where rs: "rs = x # rs'" "b = result_bytes x" "bs = map result_bytes rs'"
    using p b by (cases rs) (auto simp: peer_ok_def)
  have "x \<in> set (map snd (history p))" using p rs(1) by (simp add: peer_ok_def)
  then obtain m where "(m, x) \<in> set (history p)" by auto
  with p have "served_by Handle s (m, x)" by (auto simp: peer_ok_def list_all_iff)
  then obtain t where t: "wf_result x" "cstr (return_buffer x) = Inr t" by (auto simp: served_by_def)
  then obtain junk where j: "no_nul t" "return_buffer x = t @ NUL # junk" using cstr_Inr_decomp by blast
  let ?i = "sint (result_seqno x)"
  have x: "x = answer ?i t junk" using j(2) by (simp add: answer_def)
  have fit: "answer_fits t junk" using t(1) j by (simp add: answer_fits_def wf_result_def)
  let ?rest = "rids rs' @ rids (queue_of s p) @ seqnos ms"
  have ok: "client_ok (?i # ?rest) (cli p)" using p by (simp add: peer_ok_def rs(1) rids_def)
  have i: "?i \<in> set (?i # ?rest)" by simp
  obtain cb c where c: "CallidCallbackMapping (cli p) ?i = Some cb"
    "Client_HandleEvent parse pad buf data sr (RecvOk (result_bytes (answer ?i t junk))) (Connfd (cli p), READ_EVENT) (cli p) = Inr c"
    "client_ok (remove1 ?i (?i # ?rest)) c" "completed c = completed (cli p) @ [(cb, parse cb t)]"
    "CallidCallbackMapping c = (CallidCallbackMapping (cli p))(?i := None)" "PendingRequests c = PendingRequests (cli p)"
    by (rule answer_step [where parse = parse and pad = pad and buf = buf and sr = sr, OF ok i fit data]) (rule that; assumption)
  let ?p = "p\<lparr>cli := c, s2c := bs\<rparr>"
  have q: "queue_of s ?p = queue_of s p" by (simp add: queue_of_def)
  have "distinct (?i # ?rest @ seqnos (PendingRequests (cli p)))" using ok by (auto simp: client_ok_def)
  then have "map (\<lambda>j. the (CallidCallbackMapping c j)) (?rest @ seqnos (PendingRequests (cli p))) =
      map (\<lambda>j. the (CallidCallbackMapping (cli p) j)) (?rest @ seqnos (PendingRequests (cli p)))"
    by (intro map_cong) (auto simp: c(5))
  moreover have "received parse (cb, parse cb t) x" using t(2) by (simp add: received_def)
  moreover have "client_ok ?rest c" using c(3) by simp
  ultimately have "peer_ok Handle Q parse s ?p ms rs' (consumed @ [x])"
    using p c(1,4,6) rs unfolding peer_ok_def q by (simp add: rids_def list_all2_appendI)
  moreover have "Client_HandleEvent parse pad buf data sr (RecvOk b) (Connfd (cli p), READ_EVENT) (cli p) = Inr c"
    using c(2) by (simp add: rs(2) flip: x)
  ultimately show ?thesis using rs(1) by auto
qed

section \<open>Every step keeps the invariant\<close>

lemma sys_okD:
  assumes "sys_ok Handle A Q parse st"
  shows "machine_ok (srv st)" "A (app (sys (srv st)))" "tasks_ok st" "chans_ok (sys (srv st)) (map chan (peers st))"
    "\<And>p. p \<in> set (peers st) \<Longrightarrow> \<exists>ms rs consumed. peer_ok Handle Q parse (sys (srv st)) p ms rs consumed"
  using assms by (simp_all add: sys_ok_def)

text \<open>The server works on its own: its queues, services and registrations stay.\<close>

lemma server_alone_ok:
  assumes ok: "sys_ok Handle A Q parse st" and m: "machine_ok r" and t: "tasks_ok (put_srv r st)"
    and same: "dictionary (sys r) = dictionary (sys (srv st))" "return_values (sys r) = return_values (sys (srv st))"
      "listenfd (sys r) = listenfd (sys (srv st))" "app (sys r) = app (sys (srv st))"
      "\<And>fd. interest (trace (sys r)) fd = None \<longleftrightarrow> interest (trace (sys (srv st))) fd = None"
  shows "sys_ok Handle A Q parse (put_srv r st)"
proof -
  have "chans_ok (sys r) (map chan (peers st))" using sys_okD(4) [OF ok] same by (simp add: chans_ok_def)
  moreover have "peer_ok Handle Q parse (sys r) p = peer_ok Handle Q parse (sys (srv st)) p" if "p \<in> set (peers st)" for p
    by (rule peer_ok_cong [OF same(1)]) (simp only: queue_of_def same(2))
  ultimately show ?thesis using sys_okD [OF ok] m t same(4) by (simp add: sys_ok_def)
qed

text \<open>The tasks still to be handled after a step; \<open>P\<close> are the descriptors they may be for.\<close>

lemma tasks_step:
  assumes t: "tasks_ok st" and k: "k < length (peers st)" "p = peers st ! k"
    and fl: "\<And>t'. t' \<in> set (in_flight r) \<Longrightarrow> t' \<in> set (in_flight (srv st)) \<and> P (fst t')"
    and l: "listenfd (sys r) = listenfd (sys (srv st))"
    and none: "chan p = None \<Longrightarrow> P (listenfd (sys r)) \<Longrightarrow> chan p' = None"
    and data: "\<And>fd. P fd \<Longrightarrow> chan p = Some fd \<Longrightarrow> c2s p \<noteq> [] \<Longrightarrow> chan p' = Some fd \<and> c2s p' \<noteq> []"
  shows "tasks_ok (put_srv r (put_peer k p' st))"
proof -
  have stays: "\<exists>q \<in> set ((peers st)[k := p']). G q"
    if ex: "\<exists>q \<in> set (peers st). G q" and G: "G p \<Longrightarrow> G p'" for G
  proof -
    obtain j where j: "j < length (peers st)" "G (peers st ! j)" using ex by (metis in_set_conv_nth)
    show ?thesis
    proof (cases "j = k")
      case True
      with j k G have "G p'" by simp
      with k(1) show ?thesis by (meson set_update_memI)
    next
      case False
      with update_in [OF j(1) this, of p'] j(2) show ?thesis by blast
    qed
  qed
  have "task_fits (listenfd (sys r)) ((peers st)[k := p']) t'" if "t' \<in> set (in_flight r)" for t'
  proof -
    have old: "task_fits (listenfd (sys r)) (peers st) t'" and P: "P (fst t')"
      using fl [OF that] t l by (auto simp: tasks_ok_def)
    show ?thesis
      using old stays [of "\<lambda>q. chan q = None"] stays [of "\<lambda>q. chan q = Some (fst t') \<and> c2s q \<noteq> []"] P none data
      unfolding task_fits_def by (auto split: if_splits)
  qed
  then show ?thesis by (simp add: tasks_ok_def)
qed

lemma tasks_fewer:
  assumes "tasks_ok st" "set (in_flight r) \<subseteq> set (in_flight (srv st))" "listenfd (sys r) = listenfd (sys (srv st))"
  shows "tasks_ok (put_srv r st)"
  using assms unfolding tasks_ok_def by auto

text \<open>A step on connection \<open>k\<close>.\<close>

lemma connection_ok:
  assumes ok: "sys_ok Handle A Q parse st" and k: "k < length (peers st)" and m: "machine_ok r" "A (app (sys r))"
    and rest: "keeps_rest (sys (srv st)) (sys r)"
    and others: "\<And>j. j < length (peers st) \<Longrightarrow> j \<noteq> k \<Longrightarrow> queue_of (sys r) (peers st ! j) = queue_of (sys (srv st)) (peers st ! j)"
    and p: "peer_ok Handle Q parse (sys r) p ms rs consumed"
    and c: "chans_ok (sys r) ((map chan (peers st))[k := chan p])" and t: "tasks_ok (put_srv r (put_peer k p st))"
  shows "sys_ok Handle A Q parse (put_srv r (put_peer k p st))"
proof -
  have d: "dictionary (sys r) = dictionary (sys (srv st))" using rest by (simp add: keeps_rest_def)
  have "\<exists>ms rs consumed. peer_ok Handle Q parse (sys r) q ms rs consumed" if "q \<in> set ((peers st)[k := p])" for q
    using in_update [OF that]
  proof
    assume "q = p"
    with p show ?thesis by blast
  next
    assume "\<exists>j < length (peers st). j \<noteq> k \<and> q = peers st ! j"
    then obtain j where j: "j < length (peers st)" "j \<noteq> k" "q = peers st ! j" by blast
    with sys_okD(5) [OF ok, of q] peer_ok_cong [OF d, of q] others [OF j(1,2)] show ?thesis by simp
  qed
  then show ?thesis using m c t by (simp add: sys_ok_def map_update)
qed

lemma handled_in_flight:
  assumes "machine_ok r" "i < length (workers (pool r))" "workers (pool r) ! i = Running t" "t' \<in> set (in_flight (handled i s r))"
  shows "t' \<in> set (in_flight r) \<and> fst t' \<noteq> fst t"
proof -
  have d: "distinct (map fst (in_flight r))" using assms(1) by (simp add: machine_ok_def)
  note D = in_flight_drop [OF in_flight_finish [OF assms(2,3), of s] d]
  show ?thesis using D(2,3) assms(4) by (auto simp: handled_def)
qed

lemma running_in_flight:
  "i < length (workers (pool r)) \<Longrightarrow> workers (pool r) ! i = Running t \<Longrightarrow> t \<in> set (in_flight r)"
  using running_mem [of i "pool r" t] by (simp add: in_flight_def)

text \<open>Where a connection stands in the server.\<close>

lemma connection_facts:
  assumes ok: "sys_ok Handle A Q parse st" and k: "k < length (peers st)" "chan (peers st ! k) = Some fd"
  shows "fd \<noteq> listenfd (sys (srv st))" "interest (trace (sys (srv st))) fd \<noteq> None" "valid_fd fd" "conn_routes (sys (srv st)) fd"
    "\<And>j. j < length (peers st) \<Longrightarrow> j \<noteq> k \<Longrightarrow> chan (peers st ! j) \<noteq> Some fd"
proof -
  note C = sys_okD(4) [OF ok, unfolded chans_ok_def]
  have here: "Some fd \<in> set (map chan (peers st))" using k nth_mem by (metis length_map nth_map)
  with C show l: "fd \<noteq> listenfd (sys (srv st))" by metis
  with C here show i: "interest (trace (sys (srv st))) fd \<noteq> None" by blast
  have "server_ok (sys (srv st))" using sys_okD(1) [OF ok] by (simp add: machine_ok_def)
  with l i show "valid_fd fd" "conn_routes (sys (srv st)) fd" by (auto simp: server_ok_def)
  fix j assume j: "j < length (peers st)" "j \<noteq> k"
  have "\<forall>k < length (peers st). \<forall>k' < length (peers st). \<forall>fd. chan (peers st ! k) = Some fd \<longrightarrow> chan (peers st ! k') = Some fd \<longrightarrow> k = k'"
    using C by simp
  with j k show "chan (peers st ! j) \<noteq> Some fd" by blast
qed

text \<open>Only queue \<open>fd\<close> of the server changes.\<close>

lemma other_queues:
  assumes ok: "sys_ok Handle A Q parse st" and k: "k < length (peers st)" "chan (peers st ! k) = Some fd"
    and "return_values s = (return_values (sys (srv st)))(fd := xs)" "j < length (peers st)" "j \<noteq> k"
  shows "queue_of s (peers st ! j) = queue_of (sys (srv st)) (peers st ! j)"
  using connection_facts(5) [OF ok k assms(5,6)] assms(4) by (auto simp: queue_of_def split: option.split)

lemma same_chans_ok:
  assumes ok: "sys_ok Handle A Q parse st" and k: "k < length (peers st)" "chan (peers st ! k) = Some fd"
    and "return_values s = (return_values (sys (srv st)))(fd := xs)" "keeps_rest (sys (srv st)) s"
    and "\<forall>fd'. interest (trace s) fd' = None \<longleftrightarrow> interest (trace (sys (srv st))) fd' = None"
  shows "chans_ok s ((map chan (peers st))[k := Some fd])"
proof -
  have e: "(map chan (peers st))[k := Some fd] = map chan (peers st)" using k by (metis length_map list_update_id nth_map)
  have "Some fd \<in> set (map chan (peers st))" using k nth_mem by (metis length_map nth_map)
  with sys_okD(4) [OF ok] assms(4-6) show ?thesis unfolding e by (auto simp: chans_ok_def keeps_rest_def)
qed

lemma poll_ok:
  assumes ok: "sys_ok Handle A Q parse st" and p: "pending (srv st) = []"
    and ev: "epoll_reports (interest (trace (sys (srv st)))) evs" "events_true st evs"
    and poll: "Reactor_poll so_error evs (srv st) = Inr r"
  shows "sys_ok Handle A Q parse (put_srv r st)"
proof (rule server_alone_ok [OF ok machine_poll [OF sys_okD(1) [OF ok] p ev(1) poll]])
  note P = poll_effect [OF poll]
  note F = world_more_fields [OF P(3)]
  show "dictionary (sys r) = dictionary (sys (srv st))" "return_values (sys r) = return_values (sys (srv st))"
    "listenfd (sys r) = listenfd (sys (srv st))" "app (sys r) = app (sys (srv st))" by (rule F)+
  show "interest (trace (sys r)) fd = None \<longleftrightarrow> interest (trace (sys (srv st))) fd = None" for fd
    unfolding P(1) poll_interest by (simp split: option.split)
  have fl: "in_flight r = map (\<lambda>(fd, m). (fd, the (type_of_mask m))) evs @ in_flight (srv st)"
    using p P(2,4) by (simp add: in_flight_def)
  have "task_fits (listenfd (sys r)) (peers st) (fd, the (type_of_mask m))" if "(fd, m) \<in> set evs" for fd m
  proof -
    have "type_of_mask m \<noteq> None" using P(5) that by auto
    moreover have "m AND EPOLLERR = 0" "m AND EPOLLRDHUP = 0"
      "if fd = listenfd (sys r) then m AND EPOLLIN \<noteq> 0 \<and> (\<exists>p \<in> set (peers st). chan p = None)
       else m AND EPOLLIN \<noteq> 0 \<longrightarrow> (\<exists>p \<in> set (peers st). chan p = Some fd \<and> c2s p \<noteq> [])"
      using ev(2) that unfolding events_true_def F by blast+
    ultimately show ?thesis by (auto simp: task_fits_def type_of_mask_def split: if_splits)
  qed
  with sys_okD(3) [OF ok] show "tasks_ok (put_srv r st)" by (auto simp: tasks_ok_def fl F)
qed

lemma pool_ok:
  assumes ok: "sys_ok Handle A Q parse st" and m: "machine_ok r" and same: "sys r = sys (srv st)"
    and fl: "set (in_flight r) \<subseteq> set (in_flight (srv st))"
  shows "sys_ok Handle A Q parse (put_srv r st)"
  using server_alone_ok [OF ok m tasks_fewer [OF sys_okD(3) [OF ok] fl]] same by simp

lemma hand_over_ok:
  assumes ok: "sys_ok Handle A Q parse st" and t: "pending (srv st) = t # ts" and w: "may_notify w (workers (pool (srv st)))"
  shows "sys_ok Handle A Q parse (put_srv (Reactor_add w (srv st)) st)"
proof (rule pool_ok [OF ok])
  show "machine_ok (Reactor_add w (srv st))"
    by (rule server_step_ok [OF server_step.add [OF t w refl] sys_okD(1) [OF ok]])
  show "sys (Reactor_add w (srv st)) = sys (srv st)" using t by (simp add: Reactor_add_def)
  have "mset (in_flight (Reactor_add w (srv st))) \<subseteq># mset (in_flight (srv st))"
    using in_flight_add [OF w t] by (simp split: if_split_asm)
  then show "set (in_flight (Reactor_add w (srv st))) \<subseteq> set (in_flight (srv st))" using set_mset_mono by fastforce
qed

text \<open>The list of connections after an accept.\<close>

lemma new_chan:
  assumes "k < length cs" "cs ! k = None"
  shows "Some x \<in> set (cs[k := Some fd]) \<longleftrightarrow> x = fd \<or> Some x \<in> set cs"
    "Some fd \<notin> set cs \<Longrightarrow> \<forall>a < length cs. \<forall>b < length cs. \<forall>x. cs ! a = Some x \<longrightarrow> cs ! b = Some x \<longrightarrow> a = b \<Longrightarrow>
      \<forall>a < length (cs[k := Some fd]). \<forall>b < length (cs[k := Some fd]). \<forall>x.
        cs[k := Some fd] ! a = Some x \<longrightarrow> cs[k := Some fd] ! b = Some x \<longrightarrow> a = b"
proof -
  show "Some x \<in> set (cs[k := Some fd]) \<longleftrightarrow> x = fd \<or> Some x \<in> set cs"
    using assms
  proof (induction cs arbitrary: k)
    case (Cons c cs)
    then show ?case by (cases k) auto
  qed simp
  show "\<forall>a < length (cs[k := Some fd]). \<forall>b < length (cs[k := Some fd]). \<forall>x.
      cs[k := Some fd] ! a = Some x \<longrightarrow> cs[k := Some fd] ! b = Some x \<longrightarrow> a = b"
    if new: "Some fd \<notin> set cs" and inj: "\<forall>a < length cs. \<forall>b < length cs. \<forall>x. cs ! a = Some x \<longrightarrow> cs ! b = Some x \<longrightarrow> a = b"
  proof (intro allI impI)
    fix a b x
    assume ab: "a < length (cs[k := Some fd])" "b < length (cs[k := Some fd])"
      "cs[k := Some fd] ! a = Some x" "cs[k := Some fd] ! b = Some x"
    have "cs ! j \<noteq> Some fd" if "j < length cs" for j using new that nth_mem by metis
    with ab inj show "a = b" using assms(1) by (auto simp: nth_list_update split: if_splits)
  qed
qed

lemma accept_ok:
  assumes ok: "sys_ok Handle A Q parse st"
    and i: "i < length (workers (pool (srv st)))" "workers (pool (srv st)) ! i = Running (listenfd (sys (srv st)), READ_EVENT)"
    and k: "k < length (peers st)" "chan (peers st ! k) = None"
    and e: "acc_ret (en_accept e) = fd" "valid_fd fd" "accept_fresh e (sys (srv st))"
      "acc_rcvbuf (en_accept e) = None" "acc_sndbuf (en_accept e) = None"
  shows "\<exists>s. Server_HandleEvent Handle e (listenfd (sys (srv st)), READ_EVENT) (sys (srv st)) = Inr s \<and>
    sys_ok Handle A Q parse (put_srv (handled i s (srv st)) (put_peer k ((peers st ! k)\<lparr>chan := Some fd\<rparr>) st))"
proof -
  let ?r = "srv st" let ?s = "sys ?r" and ?p = "peers st ! k" let ?p' = "?p\<lparr>chan := Some fd\<rparr>"
  note M = sys_okD(1) [OF ok]
  then have sok: "server_ok ?s" by (simp add: machine_ok_def)
  obtain s where s: "Server_HandleEvent Handle e (listenfd ?s, READ_EVENT) ?s = Inr s" "keeps_rest ?s s" "app s = app ?s"
    "return_values s = return_values ?s" "\<forall>fd'. interest (trace s) fd' = None \<longleftrightarrow> interest (trace ?s) fd' = None \<and> fd' \<noteq> fd"
    "fd \<noteq> listenfd ?s"
    by (rule accept_server [OF sok e(1,2,4,5,3), of Handle]) blast
  have fresh: "interest (trace ?s) fd = None" using e(1-3) by (auto simp: accept_fresh_def)
  let ?cs = "map chan (peers st)"
  have C: "\<And>fd. fd \<noteq> listenfd ?s \<Longrightarrow> interest (trace ?s) fd \<noteq> None \<longleftrightarrow> Some fd \<in> set ?cs" "Some (listenfd ?s) \<notin> set ?cs"
    "\<forall>k < length ?cs. \<forall>k' < length ?cs. \<forall>fd. ?cs ! k = Some fd \<longrightarrow> ?cs ! k' = Some fd \<longrightarrow> k = k'"
    "\<And>fd. Some fd \<notin> set ?cs \<Longrightarrow> return_values ?s fd = []"
    using sys_okD(4) [OF ok] unfolding chans_ok_def by blast+
  have new: "Some fd \<notin> set ?cs" using C(1) [OF s(6)] fresh by blast
  have len: "k < length ?cs" "?cs ! k = None" using k by simp_all
  note el = new_chan(1) [OF len] and inj = new_chan(2) [OF len new C(3)]
  have chans: "chans_ok s (?cs[k := Some fd])"
    unfolding chans_ok_def el
    using C(1,2,4) s(2,4,5,6) inj new by (auto simp: keeps_rest_def)
  have H: "machine_ok (handled i s ?r)"
    unfolding handled_def by (rule machine_handle [OF M i e(3) s(1)])
  have t: "tasks_ok (put_srv (handled i s ?r) (put_peer k ?p' st))"
  proof (rule tasks_step [OF sys_okD(3) [OF ok] k(1) refl, of _ "\<lambda>x. x \<noteq> listenfd ?s"])
    show "\<And>t'. t' \<in> set (in_flight (handled i s ?r)) \<Longrightarrow> t' \<in> set (in_flight ?r) \<and> fst t' \<noteq> listenfd ?s"
      using handled_in_flight [OF M i] by auto
  qed (use s(2) k(2) in \<open>simp_all add: keeps_rest_def\<close>)
  obtain ms rs consumed where p: "peer_ok Handle Q parse ?s ?p ms rs consumed"
    using sys_okD(5) [OF ok nth_mem [OF k(1)]] by blast
  have d: "dictionary s = dictionary ?s" using s(2) by (simp add: keeps_rest_def)
  have rv: "return_values s fd = []" using C(4) new s(4) by simp
  have "peer_ok Handle Q parse s ?p' ms rs consumed"
    using p k(2) rv unfolding peer_ok_def dictionary_preds [OF d] by simp
  moreover have "queue_of s (peers st ! j) = queue_of ?s (peers st ! j)" for j by (simp only: queue_of_def s(4))
  ultimately have "sys_ok Handle A Q parse (put_srv (handled i s ?r) (put_peer k ?p' st))"
    using s(2,3) H sys_okD(2) [OF ok] chans t by (intro connection_ok [OF ok k(1)]) simp_all
  with s(1) show ?thesis by blast
qed

lemma connection_step_ok:
  assumes ok: "sys_ok Handle A Q parse st"
    and i: "i < length (workers (pool (srv st)))" "workers (pool (srv st)) ! i = Running (fd, ty)"
    and k: "k < length (peers st)" "chan (peers st ! k) = Some fd" "accept_fresh e (sys (srv st))"
    and h: "Server_HandleEvent Handle e (fd, ty) (sys (srv st)) = Inr s" "keeps_rest (sys (srv st)) s" "A (app s)"
      "return_values s = (return_values (sys (srv st)))(fd := xs)"
      "\<forall>fd'. interest (trace s) fd' = None \<longleftrightarrow> interest (trace (sys (srv st))) fd' = None"
    and p: "peer_ok Handle Q parse s p ms rs consumed" "chan p = Some fd"
  shows "sys_ok Handle A Q parse (put_srv (handled i s (srv st)) (put_peer k p st))"
proof (rule connection_ok [OF ok k(1)])
  note M = sys_okD(1) [OF ok]
  show "machine_ok (handled i s (srv st))" unfolding handled_def by (rule machine_handle [OF M i k(3) h(1)])
  show "chans_ok (sys (handled i s (srv st))) ((map chan (peers st))[k := chan p])"
    using same_chans_ok [OF ok k(1,2) h(4,2,5)] by (simp add: p(2))
  show "tasks_ok (put_srv (handled i s (srv st)) (put_peer k p st))"
  proof (rule tasks_step [OF sys_okD(3) [OF ok] k(1) refl, of _ "\<lambda>x. x \<noteq> fd"])
    show "\<And>t'. t' \<in> set (in_flight (handled i s (srv st))) \<Longrightarrow> t' \<in> set (in_flight (srv st)) \<and> fst t' \<noteq> fd"
      using handled_in_flight [OF M i] by auto
  qed (use h(2) k(2) in \<open>simp_all add: keeps_rest_def\<close>)
  show "\<And>j. j < length (peers st) \<Longrightarrow> j \<noteq> k \<Longrightarrow>
      queue_of (sys (handled i s (srv st))) (peers st ! j) = queue_of (sys (srv st)) (peers st ! j)"
    using other_queues [OF ok k(1,2) h(4)] by simp
qed (use h p in simp_all)

lemma serve_ok:
  assumes ok: "sys_ok Handle A Q parse st" and wb: "well_behaved Handle A Q"
    and i: "i < length (workers (pool (srv st)))" "workers (pool (srv st)) ! i = Running (fd, READ_EVENT)"
    and k: "k < length (peers st)" "chan (peers st ! k) = Some fd" "accept_fresh e (sys (srv st))"
    and b: "c2s (peers st ! k) = b # bs" "en_recv_header e = RecvOk (take 48 b)" "en_recv_body e = RecvOk (drop 48 b)"
  shows "\<exists>s m. Server_HandleEvent Handle e (fd, READ_EVENT) (sys (srv st)) = Inr s \<and>
    request_of (RecvOk (take 48 b)) (RecvOk (drop 48 b)) = Some m \<and> rearmed fd (sys (srv st)) s \<and>
    sys_ok Handle A Q parse (put_srv (handled i s (srv st))
      (put_peer k ((peers st ! k)\<lparr>c2s := bs, history := history (peers st ! k) @ [(m, last (return_values s fd))]\<rparr>) st))"
proof -
  let ?s = "sys (srv st)" let ?p = "peers st ! k"
  note F = connection_facts [OF ok k(1,2)]
  obtain ms rs consumed where p: "peer_ok Handle Q parse ?s ?p ms rs consumed"
    using sys_okD(5) [OF ok nth_mem [OF k(1)]] by blast
  obtain m svc res a' where m: "request_of (RecvOk (take 48 b)) (RecvOk (drop 48 b)) = Some m"
    "service_for m ?s = Some svc" "Handle svc m (app ?s) = Inr (res, a')" "need_return (header m)" "A a'"
    "\<And>s'. keeps_rest ?s s' \<Longrightarrow> return_values s' fd = return_values ?s fd @ [res\<lparr>result_seqno := seqno (header m)\<rparr>] \<Longrightarrow>
      peer_ok Handle Q parse s' (?p\<lparr>c2s := bs, history := history ?p @ [(m, res\<lparr>result_seqno := seqno (header m)\<rparr>)]\<rparr>) (tl ms) rs consumed"
    by (rule serve_peer [OF p k(2) b(1) wb sys_okD(2) [OF ok]]) blast
  obtain s where s: "Server_HandleEvent Handle e (fd, READ_EVENT) ?s = Inr s" "keeps_rest ?s s" "app s = a'"
    "return_values s = (return_values ?s)(fd := return_values ?s fd @ [res\<lparr>result_seqno := seqno (header m)\<rparr>])"
    "\<forall>fd'. interest (trace s) fd' = None \<longleftrightarrow> interest (trace ?s) fd' = None"
    by (rule serve_server [where Handle = Handle and svc = svc and res = res and a' = a', OF F(4,3,2) b(2,3) m(1-4)]) blast
  have l: "last (return_values s fd) = res\<lparr>result_seqno := seqno (header m)\<rparr>" by (simp add: s(4))
  have A: "A (app s)" using m(5) s(3) by simp
  have "sys_ok Handle A Q parse (put_srv (handled i s (srv st))
      (put_peer k (?p\<lparr>c2s := bs, history := history ?p @ [(m, res\<lparr>result_seqno := seqno (header m)\<rparr>)]\<rparr>) st))"
    by (rule connection_step_ok [OF ok i k s(1,2) A s(4,5) m(6) [OF s(2)]]) (simp_all add: s(4) k(2))
  moreover have "rearmed fd ?s s"
  proof -
    have "RequestHandler_HandleReadEvent Handle (en_recv_header e) (en_recv_body e) fd ?s = Inr s"
      using s(1) HandleEvent_conn(1) [OF F(3,4)] by simp
    from HandleReadEvent_effect [OF this F(2,3)] have "same_but_log ?s s \<or> rearmed fd ?s s" .
    moreover have "\<not> same_but_log ?s s"
    proof
      assume "same_but_log ?s s"
      then have "return_values s fd = return_values ?s fd" by (simp add: same_but_log_fields)
      then show False by (simp add: s(4))
    qed
    ultimately show ?thesis by blast
  qed
  ultimately show ?thesis using s(1) m(1) l by auto
qed

lemma reply_ok:
  assumes ok: "sys_ok Handle A Q parse st"
    and i: "i < length (workers (pool (srv st)))" "workers (pool (srv st)) ! i = Running (fd, WRITE_EVENT)"
    and k: "k < length (peers st)" "chan (peers st ! k) = Some fd" "accept_fresh e (sys (srv st))"
    and e: "en_send e = SendOk n"
  shows "\<exists>s. Server_HandleEvent Handle e (fd, WRITE_EVENT) (sys (srv st)) = Inr s \<and>
    length (sent_between (sys (srv st)) s) = 1 \<and>
    sys_ok Handle A Q parse (put_srv (handled i s (srv st))
      (put_peer k ((peers st ! k)\<lparr>s2c := s2c (peers st ! k) @ sent_between (sys (srv st)) s\<rparr>) st))"
proof -
  let ?s = "sys (srv st)" let ?p = "peers st ! k"
  note F = connection_facts [OF ok k(1,2)]
  obtain ms rs consumed where p: "peer_ok Handle Q parse ?s ?p ms rs consumed"
    using sys_okD(5) [OF ok nth_mem [OF k(1)]] by blast
  have "task_ok ?s (fd, WRITE_EVENT)" using sys_okD(1) [OF ok] running_in_flight [OF i] by (auto simp: machine_ok_def)
  then obtain x xs where x: "return_values ?s fd = x # xs" by (auto simp: task_ok_def neq_Nil_conv)
  obtain s where s: "Server_HandleEvent Handle e (fd, WRITE_EVENT) ?s = Inr s" "keeps_rest ?s s" "app s = app ?s"
    "return_values s = (return_values ?s)(fd := xs)" "sends (trace s) = sends (trace ?s) @ [result_bytes x]"
    "\<forall>fd'. interest (trace s) fd' = None \<longleftrightarrow> interest (trace ?s) fd' = None"
    by (rule reply_server [OF F(4,3,2) e x, of Handle]) blast
  have b: "sent_between ?s s = [result_bytes x]" using s(5) by (simp add: sent_between_def)
  have rv: "return_values s fd = xs" by (simp add: s(4))
  have A: "A (app s)" using sys_okD(2) [OF ok] s(3) by simp
  have "sys_ok Handle A Q parse (put_srv (handled i s (srv st)) (put_peer k (?p\<lparr>s2c := s2c ?p @ [result_bytes x]\<rparr>) st))"
    by (rule connection_step_ok [OF ok i k s(1,2) A s(4,6) reply_peer [OF p k(2) x s(2) rv]]) (simp add: k(2))
  with s(1) b show ?thesis by simp
qed

text \<open>A client's step: the server stays, no packet or connection of the client goes.\<close>

lemma client_ok_step:
  assumes ok: "sys_ok Handle A Q parse st" and k: "k < length (peers st)"
    and p: "peer_ok Handle Q parse (sys (srv st)) p ms rs consumed" "chan p = chan (peers st ! k)"
      "c2s (peers st ! k) \<noteq> [] \<Longrightarrow> c2s p \<noteq> []"
  shows "sys_ok Handle A Q parse (put_peer k p st)"
proof -
  have e: "put_peer k p st = put_srv (srv st) (put_peer k p st)" by (simp add: put_srv_def put_peer_def)
  have c: "(map chan (peers st))[k := chan p] = map chan (peers st)" using k p(2) by (metis length_map list_update_id nth_map)
  have t: "tasks_ok (put_srv (srv st) (put_peer k p st))"
    by (rule tasks_step [OF sys_okD(3) [OF ok] k refl, of _ "\<lambda>_. True"]) (use p(2,3) in auto)
  have rest: "keeps_rest (sys (srv st)) (sys (srv st))" by (simp add: keeps_rest_def)
  have "sys_ok Handle A Q parse (put_srv (srv st) (put_peer k p st))"
    using connection_ok [OF ok k sys_okD(1,2) [OF ok] rest refl p(1) _ t] sys_okD(4) [OF ok] c by simp
  then show ?thesis by (simp only: e [symmetric])
qed

lemma sys_step_ok:
  assumes step: "sys_step Handle Q ser parse a st st'" and ok: "sys_ok Handle A Q parse st" and wb: "well_behaved Handle A Q"
  shows "sys_ok Handle A Q parse st'"
  using step
proof (cases rule: sys_step.cases)
  case (poll r evs so_error r')
  with poll_ok [OF ok] show ?thesis by simp
next
  case (hand_over r t ts w)
  with hand_over_ok [OF ok] show ?thesis by simp
next
  case (work r i)
  have "sys_ok Handle A Q parse (put_srv (r\<lparr>pool := worker_step i (pool r)\<rparr>) st)"
  proof (rule pool_ok [OF ok])
    show "machine_ok (r\<lparr>pool := worker_step i (pool r)\<rparr>)"
      by (rule server_step_ok [OF server_step.work [OF work(4,5) refl]]) (simp add: work sys_okD(1) [OF ok])
    show "set (in_flight (r\<lparr>pool := worker_step i (pool r)\<rparr>)) \<subseteq> set (in_flight (srv st))"
      using arg_cong [OF in_flight_work [OF work(4,5)], of set_mset] work(3) by simp
  qed (simp add: work)
  with work show ?thesis by simp
next
  case (wake r i)
  let ?r = "r\<lparr>pool := (pool r)\<lparr>workers := (workers (pool r))[i := Notified]\<rparr>\<rparr>"
  have "sys_ok Handle A Q parse (put_srv ?r st)"
  proof (rule pool_ok [OF ok])
    show "machine_ok ?r"
      by (rule server_step_ok [OF server_step.wake [OF wake(4,5) refl]]) (simp add: wake sys_okD(1) [OF ok])
    show "set (in_flight ?r) \<subseteq> set (in_flight (srv st))"
      using arg_cong [OF in_flight_wake [OF wake(4,5)], of set_mset] wake(3) by simp
  qed (simp add: wake)
  with wake show ?thesis by simp
next
  case (accept r i k p e fd s)
  with accept_ok [OF ok, of i k e fd] show ?thesis by auto
next
  case (serve r i fd k p b bs e s m x)
  with serve_ok [OF ok wb, of i fd k e b bs] show ?thesis by auto
next
  case (reply r i fd k p e n s)
  with reply_ok [OF ok, of i fd k e n] show ?thesis by auto
next
  case (call k p pr P svc stale cb c)
  obtain ms rs consumed where p: "peer_ok Handle Q parse (sys (srv st)) p ms rs consumed"
    using sys_okD(5) [OF ok nth_mem [OF call(3)]] call(4) by blast
  from call_peer [where ser = ser and P = P and stale = stale and cb = cb, OF p call(5-10)] call(11)
  have "peer_ok Handle Q parse (sys (srv st)) (p\<lparr>cli := c, calls := calls p @ [(cb, last (PendingRequests c))]\<rparr>) ms rs consumed"
    by simp
  from client_ok_step [OF ok call(3) this] show ?thesis unfolding call(2) using call(4) by simp
next
  case (push k p pad buf data n rr c)
  obtain ms rs consumed where p: "peer_ok Handle Q parse (sys (srv st)) p ms rs consumed"
    using sys_okD(5) [OF ok nth_mem [OF push(3)]] push(4) by blast
  from push_peer [OF p push(5,6), of data "SendOk n" rr] push(7)
  have "peer_ok Handle Q parse (sys (srv st)) (p\<lparr>cli := c, c2s := c2s p @ sent_between (cli p) c\<rparr>)
      (ms @ take 1 (PendingRequests (cli p))) rs consumed" by simp
  from client_ok_step [OF ok push(3) this] show ?thesis unfolding push(2) using push(4) by simp
next
  case (receive k p b bs data pad buf sr c)
  obtain ms rs consumed where p: "peer_ok Handle Q parse (sys (srv st)) p ms rs consumed"
    using sys_okD(5) [OF ok nth_mem [OF receive(3)]] receive(4) by blast
  from receive_peer [OF p receive(5,6), of pad buf sr] receive(7)
  obtain x where "peer_ok Handle Q parse (sys (srv st)) (p\<lparr>cli := c, s2c := bs\<rparr>) ms (tl rs) (consumed @ [x])"
    by auto
  from client_ok_step [OF ok receive(3) this] show ?thesis unfolding receive(2) using receive(4) by simp
qed

lemma system_init_ok:
  assumes r: "server_start J e opt svcs ep g a = Inr r" and a: "A a" and cs: "list_all fresh_client cs"
  shows "sys_ok Handle A Q parse (system_init r cs)"
proof -
  note S = server_start_state [OF r]
  have "in_flight r = []" using S(8-10) by (simp add: in_flight_def running_def numeral_eq_Suc)
  then have "tasks_ok (system_init r cs)" by (simp add: tasks_ok_def system_init_def)
  moreover have "chans_ok (sys r) (map chan (peers (system_init r cs)))"
    by (auto simp: chans_ok_def system_init_def S)
  moreover have "\<exists>ms rs consumed. peer_ok Handle Q parse (sys r) p ms rs consumed"
    if p: "p \<in> set (peers (system_init r cs))" for p
  proof -
    obtain c where c: "c \<in> set cs" "p = \<lparr>cli = c, chan = None, c2s = [], s2c = [], calls = [], history = []\<rparr>"
      using p by (auto simp: system_init_def)
    then have "client_ok [] c \<and> completed c = [] \<and> guid_live (ids c) = {} \<and> PendingRequests c = []"
      using cs GetRpcClient_ok by (fastforce simp: list_all_iff fresh_client_def)
    then have "peer_ok Handle Q parse (sys r) p [] [] []"
      by (simp add: c(2) peer_ok_def queue_of_def rids_def seqnos_def)
    then show ?thesis by blast
  qed
  ultimately show ?thesis
    using server_start_machine_ok [OF r] server_start_binds [OF r] a by (simp add: sys_ok_def system_init_def)
qed

lemma sys_reachable_ok:
  assumes "sys_reachable Handle A Q ser parse st" "well_behaved Handle A Q"
  shows "sys_ok Handle A Q parse st"
  using assms(1) by (induction rule: sys_reachable.induct) (use assms(2) in \<open>auto intro: system_init_ok sys_step_ok\<close>)

section \<open>A concrete run\<close>

text \<open>One client, one call: it is made, sent, accepted, served, answered and received.\<close>

definition demo_reach :: "(nat, nat) machine \<Rightarrow> (nat, string) peer \<Rightarrow> bool" where
  "demo_reach r p \<longleftrightarrow> sys_reachable demo_Handle (\<lambda>_. True) (\<lambda>_ _. True) (\<lambda>s. s) (\<lambda>_ s. s) \<lparr>srv = r, peers = [p]\<rparr>"

lemma demo_well_behaved: "well_behaved demo_Handle (\<lambda>_. True) (\<lambda>_ _. True)"
  by (simp add: well_behaved_def demo_Handle_def demo_result_def wf_result_def rpc_consts cstr_until_nul)

lemma demo_ok:
  assumes "demo_reach r p"
  shows "sys_ok demo_Handle (\<lambda>_. True) (\<lambda>_ _. True) (\<lambda>_ s. s) \<lparr>srv = r, peers = [p]\<rparr>" "server_ok (sys r)"
    "\<exists>ms rs consumed. peer_ok demo_Handle (\<lambda>_ _. True) (\<lambda>_ s. s) (sys r) p ms rs consumed"
proof -
  show ok: "sys_ok demo_Handle (\<lambda>_. True) (\<lambda>_ _. True) (\<lambda>_ s. s) \<lparr>srv = r, peers = [p]\<rparr>"
    using sys_reachable_ok [OF _ demo_well_behaved] assms by (simp add: demo_reach_def)
  show "server_ok (sys r)" using sys_okD(1) [OF ok] by (simp add: machine_ok_def)
  show "\<exists>ms rs consumed. peer_ok demo_Handle (\<lambda>_ _. True) (\<lambda>_ s. s) (sys r) p ms rs consumed"
    using sys_okD(5) [OF ok, of p] by simp
qed

lemma demo_srv_step:
  assumes "demo_reach r p" "sys_step demo_Handle (\<lambda>_ _. True) (\<lambda>s. s) (\<lambda>_ s. s) a \<lparr>srv = r, peers = [p]\<rparr>
    (put_srv r' (put_peer 0 p' \<lparr>srv = r, peers = [p]\<rparr>))"
  shows "demo_reach r' p'"
proof -
  have e: "put_srv r' (put_peer 0 p' \<lparr>srv = r, peers = [p]\<rparr>) = \<lparr>srv = r', peers = [p']\<rparr>"
    by (simp add: put_srv_def put_peer_def)
  show ?thesis using assms sys_reachable.step unfolding demo_reach_def e by fast
qed

lemma demo_client_step:
  assumes "demo_reach r p" "sys_step demo_Handle (\<lambda>_ _. True) (\<lambda>s. s) (\<lambda>_ s. s) a \<lparr>srv = r, peers = [p]\<rparr>
    (put_peer 0 p' \<lparr>srv = r, peers = [p]\<rparr>)"
  shows "demo_reach r p'"
  by (rule demo_srv_step [OF assms(1), of a]) (use assms(2) in \<open>simp add: put_srv_def put_peer_def\<close>)

lemma demo_poll:
  assumes p: "demo_reach r p" and q: "quiet r"
    and ev: "epoll_reports (interest (trace (sys r))) [(fd, m)]" "type_of_mask m = Some ty"
      "events_true \<lparr>srv = r, peers = [p]\<rparr> [(fd, m)]"
  obtains r' where "demo_reach r' p" "busy (fd, ty) r'" "world.more (sys r') = world.more (sys r)"
    "interest (trace (sys r')) = interest_step (EpollWait [(fd, m)]) (interest (trace (sys r)))"
proof -
  obtain r1 where r1: "Reactor_poll (\<lambda>_. None) [(fd, m)] r = Inr r1" "pending r1 = [(fd, ty)]"
    "may_notify None (workers (pool r1))" "workers (pool (Reactor_add None r1)) ! 0 = Ready"
    "0 < length (workers (pool (Reactor_add None r1)))"
    "busy (fd, ty) ((Reactor_add None r1)\<lparr>pool := worker_step 0 (pool (Reactor_add None r1))\<rparr>)"
    "sys (Reactor_add None r1) = sys r1" "world.more (sys r1) = world.more (sys r)"
    "interest (trace (sys r1)) = interest_step (EpollWait [(fd, m)]) (interest (trace (sys r)))"
    by (rule run_one_parts [OF q ev(2)])
  let ?r2 = "Reactor_add None r1"
  let ?r3 = "?r2\<lparr>pool := worker_step 0 (pool ?r2)\<rparr>"
  have same: "put_srv y \<lparr>srv = x, peers = [p]\<rparr> = put_srv y (put_peer 0 p \<lparr>srv = x, peers = [p]\<rparr>)" for x y :: "(nat, nat) machine"
    by (simp add: put_srv_def put_peer_def)
  have d1: "demo_reach r1 p"
    by (rule demo_srv_step [OF p], fold same, rule sys_step.poll) (use q ev r1(1) in \<open>auto simp: quiet_def\<close>)
  have d2: "demo_reach ?r2 p"
    by (rule demo_srv_step [OF d1], fold same, rule sys_step.hand_over) (use r1(2,3) in auto)
  have "demo_reach ?r3 p"
    by (rule demo_srv_step [OF d2], fold same, rule sys_step.work) (use r1(4,5) in auto)
  with r1(6-9) show thesis by (intro that [of ?r3]) simp_all
qed

lemma busy_quiet:
  assumes "busy t r"
  shows "quiet (handled 0 s r)" "workers (pool r) ! 0 = Running t" "0 < length (workers (pool r))"
  using assms by (simp_all add: busy_def handled_def quiet_def worker_step_def replicate4)

text \<open>The client has made its call and sent it.\<close>

lemma demo_called:
  obtains r p b where "demo_reach r p" "quiet r" "listenfd (sys r) = 4" "map fst (calls p) = [7]" "chan p = None" "c2s p = [b]"
    "interest (trace (sys r)) = (\<lambda>_. None)(4 := Some (EPOLL_FLAGS_IN_ONESHOT OR EPOLLET, True))"
    "return_values (sys r) = (\<lambda>_. [])"
proof -
  obtain r where r: "server_start demo_json0 demo_listen demo_options demo_services 3 (-1) (0::nat) = Inr r"
    using server_start_ok [of demo_listen 3 demo_json0 demo_options demo_services "-1" "0::nat"]
    by (auto simp: demo_listen_def MAX_FILE_DESCRIPTORS_def)
  note S = server_start_state [OF r]
  have e: "0 < (9::int)" "connects demo_connect" by (simp_all add: connects_def demo_connect_def)
  obtain c :: "(nat, string) client" where c: "bindE (RpcClient_init 9 Guid_init) (RpcClient_Initialize demo_connect demo_copt) = Inr c"
    "guid_live (ids c) = {}" "PendingRequests c = []"
    by (rule client_start [OF e, of demo_copt]) blast
  let ?p = "\<lparr>cli = c, chan = None, c2s = [], s2c = [], calls = [], history = []\<rparr> :: (nat, string) peer"
  have "list_all fresh_client [c]" using c(1) by (auto simp: fresh_client_def GetRpcClient_def)
  from sys_reachable.init [OF r _ this, of "\<lambda>_. True"] have 0: "demo_reach r ?p" by (simp add: demo_reach_def system_init_def)
  then obtain ms rs consumed where p0: "peer_ok demo_Handle (\<lambda>_ _. True) (\<lambda>_ s. s) (sys r) ?p ms rs consumed"
    using demo_ok(3) by blast
  have d: "no_nul (ServiceName demo_proxy)" "dictionary (sys r) (ServiceName demo_proxy) = Some 0"
    by (simp_all add: demo_proxy_def GetProxy_def S(7) demo_services_def)
  have fit: "call_fits demo_proxy (until_nul ((\<lambda>s. s) ''key''))" using demo_proxy(2) by simp
  have room: "card (guid_live (ids (cli ?p))) < 1023" by (simp add: c(2))
  obtain c1 where c1: "CallRPCAsync 0 (\<lambda>s. s) demo_proxy ''key'' 7 (cli ?p) = Inr c1"
    "peer_ok demo_Handle (\<lambda>_ _. True) (\<lambda>_ s. s) (sys r) (?p\<lparr>cli := c1, calls := calls ?p @ [(7, last (PendingRequests c1))]\<rparr>) ms rs consumed"
    using call_peer [where ser = "\<lambda>s. s" and P = "''key''" and stale = 0 and cb = 7, OF p0 demo_proxy(1) fit d _ room] by blast
  let ?p1 = "?p\<lparr>cli := c1, calls := [(7, last (PendingRequests c1))]\<rparr>"
  have "sys_step demo_Handle (\<lambda>_ _. True) (\<lambda>s. s) (\<lambda>_ s. s) (Client 0) \<lparr>srv = r, peers = [?p]\<rparr>
      (put_peer 0 (?p\<lparr>cli := c1, calls := calls ?p @ [(7, last (PendingRequests c1))]\<rparr>) \<lparr>srv = r, peers = [?p]\<rparr>)"
    by (rule sys_step.call [of 0 _ _ demo_proxy "\<lambda>s. s" "''key''" 0 _ 0 7]) (use d fit room demo_proxy(1) c1(1) in simp_all)
  then have 1: "demo_reach r ?p1" using demo_client_step [OF 0] by simp
  have len: "length [NUL, NUL, NUL] = 3" "length (replicate 1024 NUL) = MAX_BUFFER" by (simp_all add: rpc_consts)
  obtain ms' rs' consumed' where p1: "peer_ok demo_Handle (\<lambda>_ _. True) (\<lambda>_ s. s) (sys r) ?p1 ms' rs' consumed'"
    using demo_ok(3) [OF 1] by blast
  obtain c2 where c2: "Client_HandleEvent (\<lambda>_ s. s) [NUL, NUL, NUL] (replicate 1024 NUL) [] (SendOk 52) (RecvErr 11)
      (Connfd (cli ?p1), WRITE_EVENT) (cli ?p1) = Inr c2"
    "peer_ok demo_Handle (\<lambda>_ _. True) (\<lambda>_ s. s) (sys r) (?p1\<lparr>cli := c2, c2s := c2s ?p1 @ sent_between (cli ?p1) c2\<rparr>)
      (ms' @ take 1 (PendingRequests (cli ?p1))) rs' consumed'"
    using push_peer [OF p1 len] by blast
  let ?p2 = "?p1\<lparr>cli := c2, c2s := sent_between (cli ?p1) c2\<rparr>"
  have "sys_step demo_Handle (\<lambda>_ _. True) (\<lambda>s. s) (\<lambda>_ s. s) (Client 0) \<lparr>srv = r, peers = [?p1]\<rparr>
      (put_peer 0 (?p1\<lparr>cli := c2, c2s := c2s ?p1 @ sent_between (cli ?p1) c2\<rparr>) \<lparr>srv = r, peers = [?p1]\<rparr>)"
    by (rule sys_step.push [of 0 _ _ "[NUL, NUL, NUL]" "replicate 1024 NUL" _ "[]" 52 "RecvErr 11"]) (use len c2(1) in simp_all)
  then have 2: "demo_reach r ?p2" using demo_client_step [OF 1] by simp
  have "PendingRequests c1 \<noteq> []" "ms' = []"
    using c1(2) p1 c(3) by (auto simp: peer_ok_def)
  then obtain m where "ms' @ take 1 (PendingRequests c1) = [m]" by (cases "PendingRequests c1") auto
  then obtain b where b: "sent_between c1 c2 = [b]" using c2(2) by (auto simp: peer_ok_def list_all2_Cons2)
  have "listenfd (sys r) = 4" "interest (trace (sys r)) = (\<lambda>_. None)(4 := Some (EPOLL_FLAGS_IN_ONESHOT OR EPOLLET, True))"
    using S(2,4) by (simp_all add: demo_listen_def)
  with 2 start_quiet [OF r] S(5) b show thesis by (intro that [of r ?p2]) simp_all
qed

lemma demo_handled:
  assumes "demo_reach r p" "sys_step demo_Handle (\<lambda>_ _. True) (\<lambda>s. s) (\<lambda>_ s. s) a \<lparr>srv = r, peers = [p]\<rparr>
    (put_srv (handled 0 s r) (put_peer 0 p' \<lparr>srv = r, peers = [p]\<rparr>))" "busy t r"
  obtains r' where "demo_reach r' p'" "quiet r'" "sys r' = s"
  using that [of "handled 0 s r"] demo_srv_step [OF assms(1,2)] busy_quiet(1) [OF assms(3)] by simp

lemma epoll_bits_apart: "EPOLLIN AND EPOLLERR = 0" "EPOLLIN AND EPOLLRDHUP = 0" "EPOLLOUT AND EPOLLERR = 0"
  "EPOLLOUT AND EPOLLRDHUP = 0" "EPOLLOUT AND EPOLLIN = 0" "EPOLLIN \<noteq> 0"
  by (simp_all add: epoll_bits)

text \<open>A worker is about to read the request, which is in the channel.\<close>

lemma demo_arrived:
  obtains r p b where "demo_reach r p" "busy (6, READ_EVENT) r" "listenfd (sys r) = 4" "map fst (calls p) = [7]" "chan p = Some 6"
    "c2s p = [b]" "return_values (sys r) 6 = []" "interest (trace (sys r)) 6 \<noteq> None" "ExtraFlags (sys r) = EPOLLET"
proof -
  obtain r p b where 0: "demo_reach r p" "quiet r" "listenfd (sys r) = 4" "map fst (calls p) = [7]" "chan p = None" "c2s p = [b]"
    "interest (trace (sys r)) = (\<lambda>_. None)(4 := Some (EPOLL_FLAGS_IN_ONESHOT OR EPOLLET, True))" "return_values (sys r) = (\<lambda>_. [])"
    by (rule demo_called)
  have arm: "interest (trace (sys r)) 4 = Some (EPOLL_FLAGS_IN_ONESHOT OR EPOLLET, True)" by (simp add: 0(7))
  have ev: "events_true \<lparr>srv = r, peers = [p]\<rparr> [(4, EPOLLIN)]" using 0(3,5) by (simp add: events_true_def epoll_bits_apart)
  obtain r1 where 1: "demo_reach r1 p" "busy (4, READ_EVENT) r1" "world.more (sys r1) = world.more (sys r)"
    "interest (trace (sys r1)) = interest_step (EpollWait [(4, EPOLLIN)]) (interest (trace (sys r)))"
    by (rule demo_poll [OF 0(1,2) demo_reports(1) demo_reports(3) ev]) (rule arm)
  note F1 = world_more_fields [OF 1(3)]
  have acc: "acc_ret (en_accept demo_env) = 6" "valid_fd 6" "acc_rcvbuf (en_accept demo_env) = None" "acc_sndbuf (en_accept demo_env) = None"
    by (simp_all add: demo_env_def demo_accept_def MAX_FILE_DESCRIPTORS_def)
  have fresh: "accept_fresh demo_env (sys r1)" using 1(4) 0(7) by (simp add: accept_fresh_def acc)
  have l: "listenfd (sys r1) = 4" using F1 0(3) by simp
  obtain s where s: "Server_HandleEvent demo_Handle demo_env (listenfd (sys r1), READ_EVENT) (sys r1) = Inr s" "keeps_rest (sys r1) s"
    "app s = app (sys r1)" "return_values s = return_values (sys r1)"
    "\<forall>fd'. interest (trace s) fd' = None \<longleftrightarrow> interest (trace (sys r1)) fd' = None \<and> fd' \<noteq> 6" "6 \<noteq> listenfd (sys r1)"
    "interest (trace s) 6 = Some (EPOLL_FLAGS_IN_ONESHOT OR EPOLLET, True)"
    by (rule accept_server [OF demo_ok(2) [OF 1(1)] acc fresh, of demo_Handle])
  have "sys_step demo_Handle (\<lambda>_ _. True) (\<lambda>s. s) (\<lambda>_ s. s) (SrvWorker 0) \<lparr>srv = r1, peers = [p]\<rparr>
      (put_srv (handled 0 s r1) (put_peer 0 (p\<lparr>chan := Some 6\<rparr>) \<lparr>srv = r1, peers = [p]\<rparr>))"
    by (rule sys_step.accept [of _ _ 0 0 p demo_env 6 demo_Handle s])
      (use busy_quiet(2,3) [OF 1(2)] 0(5) acc fresh s(1) l in simp_all)
  then obtain r2 where 2: "demo_reach r2 (p\<lparr>chan := Some 6\<rparr>)" "quiet r2" "sys r2 = s"
    by (rule demo_handled [OF 1(1) _ 1(2)])
  have l2: "listenfd (sys r2) = 4" using s(2) l 2(3) by (simp add: keeps_rest_def)
  have arm2: "interest (trace (sys r2)) 6 = Some (EPOLL_FLAGS_IN_ONESHOT OR EPOLLET, True)" using 2(3) s(7) by simp
  have ev2: "events_true \<lparr>srv = r2, peers = [p\<lparr>chan := Some 6\<rparr>]\<rparr> [(6, EPOLLIN)]"
    using l2 0(6) by (simp add: events_true_def epoll_bits_apart)
  obtain r3 where 3: "demo_reach r3 (p\<lparr>chan := Some 6\<rparr>)" "busy (6, READ_EVENT) r3" "world.more (sys r3) = world.more (sys r2)"
    "interest (trace (sys r3)) = interest_step (EpollWait [(6, EPOLLIN)]) (interest (trace (sys r2)))"
    by (rule demo_poll [OF 2(1,2) demo_reports(1) demo_reports(3) ev2]) (rule arm2)
  note F3 = world_more_fields [OF 3(3)]
  have "ExtraFlags (sys r3) = EPOLLET" using demo_ok(2) [OF 3(1)] by (simp add: server_ok_def)
  then show thesis
    using 3 F3 l2 0 s(4) F1 2(3) arm2 by (intro that [of r3 "p\<lparr>chan := Some 6\<rparr>" b]) simp_all
qed

text \<open>The call is answered.\<close>

lemma demo_answered:
  obtains r p where "demo_reach r p" "map fst (calls p) = [7]" "completed (cli p) \<noteq> []"
proof -
  obtain r p b where 0: "demo_reach r p" "busy (6, READ_EVENT) r" "listenfd (sys r) = 4" "map fst (calls p) = [7]" "chan p = Some 6"
    "c2s p = [b]" "return_values (sys r) 6 = []" "interest (trace (sys r)) 6 \<noteq> None" "ExtraFlags (sys r) = EPOLLET"
    by (rule demo_arrived)
  let ?st = "\<lparr>srv = r, peers = [p]\<rparr>"
  obtain ms rs consumed where p: "peer_ok demo_Handle (\<lambda>_ _. True) (\<lambda>_ s. s) (sys r) p ms rs consumed"
    using demo_ok(3) [OF 0(1)] by blast
  obtain m svc res a' where m: "request_of (RecvOk (take 48 b)) (RecvOk (drop 48 b)) = Some m"
    "service_for m (sys r) = Some svc" "demo_Handle svc m (app (sys r)) = Inr (res, a')" "need_return (header m)"
    by (rule serve_peer [OF p 0(5,6) demo_well_behaved]) auto
  let ?e = "\<lparr>en_accept = demo_accept\<lparr>acc_ret := -1\<rparr>, en_recv_header = RecvOk (take 48 b), en_recv_body = RecvOk (drop 48 b),
      en_send = SendOk 484\<rparr>"
  have v: "valid_fd 6" by (simp add: MAX_FILE_DESCRIPTORS_def)
  have C: "conn_routes (sys r) 6"
    using demo_ok(2) [OF 0(1)] 0(3,8) by (auto simp: server_ok_def)
  have env: "en_recv_header ?e = RecvOk (take 48 b)" "en_recv_body ?e = RecvOk (drop 48 b)" "en_send ?e = SendOk 484"
    "accept_fresh ?e s" for s :: "(nat, nat) server" by (simp_all add: accept_fresh_def)
  obtain s where s: "Server_HandleEvent demo_Handle ?e (6, READ_EVENT) (sys r) = Inr s" "keeps_rest (sys r) s" "app s = a'"
    "return_values s = (return_values (sys r))(6 := return_values (sys r) 6 @ [res\<lparr>result_seqno := seqno (header m)\<rparr>])"
    "\<forall>fd'. interest (trace s) fd' = None \<longleftrightarrow> interest (trace (sys r)) fd' = None"
    "interest (trace s) 6 = Some (EPOLL_FLAGS_INOUT_ONESHOT OR ExtraFlags (sys r), True)"
    by (rule serve_server [where Handle = demo_Handle and svc = svc and res = res and a' = a', OF C v 0(8) env(1,2) m])
  let ?x = "last (return_values s 6)"
  let ?p1 = "p\<lparr>c2s := [], history := history p @ [(m, ?x)]\<rparr>"
  have "sys_step demo_Handle (\<lambda>_ _. True) (\<lambda>s. s) (\<lambda>_ s. s) (SrvWorker 0) ?st (put_srv (handled 0 s r) (put_peer 0 ?p1 ?st))"
    by (rule sys_step.serve [of _ _ 0 6 0 p b "[]" ?e demo_Handle s m ?x])
      (use busy_quiet(2,3) [OF 0(2)] 0(5,6) env s(1) m(1) in simp_all)
  then obtain r1 where 1: "demo_reach r1 ?p1" "quiet r1" "sys r1 = s" by (rule demo_handled [OF 0(1) _ 0(2)])
  have l1: "listenfd s = 4" using s(2) 0(3) by (simp add: keeps_rest_def)
  have arm: "interest (trace (sys r1)) 6 = Some (EPOLL_FLAGS_INOUT_ONESHOT OR EPOLLET, True)" using 1(3) s(6) 0(9) by simp
  have ev: "events_true \<lparr>srv = r1, peers = [?p1]\<rparr> [(6, EPOLLOUT)]" using 1(3) l1 by (simp add: events_true_def epoll_bits_apart)
  obtain r2 where 2: "demo_reach r2 ?p1" "busy (6, WRITE_EVENT) r2" "world.more (sys r2) = world.more (sys r1)"
    "interest (trace (sys r2)) = interest_step (EpollWait [(6, EPOLLOUT)]) (interest (trace (sys r1)))"
    by (rule demo_poll [OF 1(1,2) demo_reports(2) demo_reports(4) ev]) (rule arm)
  note F2 = world_more_fields [OF 2(3)]
  have l2: "listenfd (sys r2) = 4" using F2 1(3) l1 by simp
  have I2: "interest (trace (sys r2)) 6 \<noteq> None" using 2(4) arm by simp
  then have C2: "conn_routes (sys r2) 6" using demo_ok(2) [OF 2(1)] l2 by (auto simp: server_ok_def)
  have rv: "return_values (sys r2) 6 = ?x # []" using F2 1(3) s(4) 0(7) by simp
  obtain s2 where s2: "Server_HandleEvent demo_Handle ?e (6, WRITE_EVENT) (sys r2) = Inr s2"
    "keeps_rest (sys r2) s2" "app s2 = app (sys r2)" "return_values s2 = (return_values (sys r2))(6 := [])"
    "sends (trace s2) = sends (trace (sys r2)) @ [result_bytes ?x]"
    "\<forall>fd'. interest (trace s2) fd' = None \<longleftrightarrow> interest (trace (sys r2)) fd' = None"
    by (rule reply_server [OF C2 v I2 env(3) rv, of demo_Handle])
  let ?p2 = "?p1\<lparr>s2c := s2c ?p1 @ sent_between (sys r2) s2\<rparr>"
  have "sys_step demo_Handle (\<lambda>_ _. True) (\<lambda>s. s) (\<lambda>_ s. s) (SrvWorker 0) \<lparr>srv = r2, peers = [?p1]\<rparr>
      (put_srv (handled 0 s2 r2) (put_peer 0 ?p2 \<lparr>srv = r2, peers = [?p1]\<rparr>))"
    by (rule sys_step.reply [of _ _ 0 6 0 ?p1 ?e 484 demo_Handle s2])
      (use busy_quiet(2,3) [OF 2(2)] 0(5) env s2(1) in simp_all)
  then obtain r3 where 3: "demo_reach r3 ?p2" by (rule demo_handled [OF 2(1) _ 2(2)])
  obtain b' bs where b: "s2c ?p2 = b' # bs"
    using s2(5) by (cases "s2c p") (simp_all add: sent_between_def)
  obtain ms' rs' consumed' where p2: "peer_ok demo_Handle (\<lambda>_ _. True) (\<lambda>_ s. s) (sys r3) ?p2 ms' rs' consumed'"
    using demo_ok(3) [OF 3] by blast
  have len: "length (replicate 4096 NUL) = 4096" by simp
  obtain c x where c: "Client_HandleEvent (\<lambda>_ s. s) [] [] (replicate 4096 NUL) (SendOk 0) (RecvOk b') (Connfd (cli ?p2), READ_EVENT) (cli ?p2) = Inr c"
    "peer_ok demo_Handle (\<lambda>_ _. True) (\<lambda>_ s. s) (sys r3) (?p2\<lparr>cli := c, s2c := bs\<rparr>) ms' (tl rs') (consumed' @ [x])"
    using receive_peer [OF p2 b len] by blast
  let ?p3 = "?p2\<lparr>cli := c, s2c := bs\<rparr>"
  have "sys_step demo_Handle (\<lambda>_ _. True) (\<lambda>s. s) (\<lambda>_ s. s) (Client 0) \<lparr>srv = r3, peers = [?p2]\<rparr>
      (put_peer 0 ?p3 \<lparr>srv = r3, peers = [?p2]\<rparr>)"
    by (rule sys_step.receive [of 0 _ ?p2 b' bs "replicate 4096 NUL" _ "[]" "[]" "SendOk 0"]) (use b c(1) len in simp_all)
  then have "demo_reach r3 ?p3" by (rule demo_client_step [OF 3])
  moreover have "completed (cli ?p3) \<noteq> []" using c(2) by (auto simp: peer_ok_def)
  ultimately show thesis using 0(4) by (intro that [of r3 ?p3]) simp_all
qed

section \<open>What can happen next\<close>

text \<open>The environment of a handler of descriptor \<open>fd\<close>, as the network provides it.\<close>

definition delivers :: "('svc, 'app, 'cb, 'v) rpc_system \<Rightarrow> int \<Rightarrow> server_env \<Rightarrow> bool" where
  "delivers st fd e \<longleftrightarrow> accept_fresh e (sys (srv st)) \<and> (\<exists>n. en_send e = SendOk n) \<and>
     (fd = listenfd (sys (srv st)) \<longrightarrow> valid_fd (acc_ret (en_accept e)) \<and>
        acc_rcvbuf (en_accept e) = None \<and> acc_sndbuf (en_accept e) = None) \<and>
     (\<forall>p \<in> set (peers st). \<forall>b bs. chan p = Some fd \<longrightarrow> c2s p = b # bs \<longrightarrow>
        en_recv_header e = RecvOk (take 48 b) \<and> en_recv_body e = RecvOk (drop 48 b))"

lemma handler_runs:
  assumes ok: "sys_ok Handle A Q parse st" and wb: "well_behaved Handle A Q"
    and i: "i < length (workers (pool (srv st)))" "workers (pool (srv st)) ! i = Running (fd, ty)" and e: "delivers st fd e"
  shows "\<exists>s st'. Server_HandleEvent Handle e (fd, ty) (sys (srv st)) = Inr s \<and>
    sys_step Handle Q ser parse (SrvWorker i) st st' \<and> sys (srv st') = s"
proof -
  let ?s = "sys (srv st)"
  have fit: "task_fits (listenfd ?s) (peers st) (fd, ty)"
    using sys_okD(3) [OF ok] running_in_flight [OF i] by (simp add: tasks_ok_def)
  have fresh: "accept_fresh e ?s" using e by (simp add: delivers_def)
  show ?thesis
  proof (cases "fd = listenfd ?s")
    case True
    with fit have ty: "ty = READ_EVENT" and "\<exists>p \<in> set (peers st). chan p = None" by (auto simp: task_fits_def)
    then obtain k where k: "k < length (peers st)" "chan (peers st ! k) = None" by (metis in_set_conv_nth)
    have a: "acc_ret (en_accept e) = acc_ret (en_accept e)" "valid_fd (acc_ret (en_accept e))" "acc_rcvbuf (en_accept e) = None"
      "acc_sndbuf (en_accept e) = None" using e True by (auto simp: delivers_def)
    have i': "workers (pool (srv st)) ! i = Running (listenfd ?s, READ_EVENT)" using i(2) True ty by simp
    obtain s where s: "Server_HandleEvent Handle e (listenfd ?s, READ_EVENT) ?s = Inr s"
      using accept_ok [OF ok i(1) i' k a(1,2) fresh a(3,4)] by blast
    from sys_step.accept [OF refl i(1) i' k(1) refl k(2) a(1,2) fresh a(3,4) s, of Q ser parse] s True ty
    show ?thesis by (intro exI conjI) (simp, assumption, simp)
  next
    case False
    then have here: "ty = WRITE_EVENT \<or> ty = READ_EVENT \<and> (\<exists>p \<in> set (peers st). chan p = Some fd \<and> c2s p \<noteq> [])"
      using fit by (simp add: task_fits_def)
    have "task_ok ?s (fd, ty)" using sys_okD(1) [OF ok] running_in_flight [OF i] by (auto simp: machine_ok_def)
    then have "interest (trace ?s) fd \<noteq> None" by (auto simp: task_ok_def)
    then have "Some fd \<in> set (map chan (peers st))" using sys_okD(4) [OF ok] False by (simp add: chans_ok_def)
    then obtain k0 where k0: "k0 < length (peers st)" "chan (peers st ! k0) = Some fd" by (auto simp: in_set_conv_nth)
    from here show ?thesis
    proof
      assume ty: "ty = WRITE_EVENT"
      obtain n where n: "en_send e = SendOk n" using e by (auto simp: delivers_def)
      have i': "workers (pool (srv st)) ! i = Running (fd, WRITE_EVENT)" using i(2) ty by simp
      obtain s where s: "Server_HandleEvent Handle e (fd, WRITE_EVENT) ?s = Inr s"
        using reply_ok [OF ok i(1) i' k0 fresh n] by blast
      from sys_step.reply [OF refl i(1) i' k0(1) refl k0(2) fresh n s, of Q ser parse] s ty
      show ?thesis by (intro exI conjI) (simp, assumption, simp)
    next
      assume "ty = READ_EVENT \<and> (\<exists>p \<in> set (peers st). chan p = Some fd \<and> c2s p \<noteq> [])"
      then obtain k where ty: "ty = READ_EVENT" and k: "k < length (peers st)" "chan (peers st ! k) = Some fd" "c2s (peers st ! k) \<noteq> []"
        by (auto simp: in_set_conv_nth)
      then obtain b bs where b: "c2s (peers st ! k) = b # bs" by (cases "c2s (peers st ! k)") auto
      with e k(1,2) have r: "en_recv_header e = RecvOk (take 48 b)" "en_recv_body e = RecvOk (drop 48 b)"
        by (auto simp: delivers_def)
      have i': "workers (pool (srv st)) ! i = Running (fd, READ_EVENT)" using i(2) ty by simp
      obtain s m where s: "Server_HandleEvent Handle e (fd, READ_EVENT) ?s = Inr s"
        "request_of (RecvOk (take 48 b)) (RecvOk (drop 48 b)) = Some m"
        using serve_ok [OF ok wb i(1) i' k(1,2) fresh b r] by blast
      from sys_step.serve [OF refl i(1) i' k(1) refl k(2) b fresh r s refl, of Q ser parse] s ty
      show ?thesis by (intro exI conjI) (simp, assumption, simp)
    qed
  qed
qed

text \<open>The answers of a connection, in the order of its calls.\<close>

lemma answers:
  assumes "peer_ok Handle Q parse s p ms rs consumed"
  shows "length (completed (cli p)) \<le> length (history p)" "length (history p) \<le> length (calls p)"
    "map fst (history p) = map snd (take (length (history p)) (calls p))"
    "map fst (completed (cli p)) = map fst (take (length (completed (cli p))) (calls p))"
    "j < length (completed (cli p)) \<Longrightarrow> \<exists>x. history p ! j = (snd (calls p ! j), x) \<and>
       served_by Handle s (snd (calls p ! j), x) \<and> received parse (completed (cli p) ! j) x"
    "PendingRequests (cli p) = [] \<Longrightarrow> c2s p = [] \<Longrightarrow> queue_of s p = [] \<Longrightarrow> s2c p = [] \<Longrightarrow>
       length (completed (cli p)) = length (calls p)"
proof -
  have C: "map snd (calls p) = map fst (history p) @ ms @ PendingRequests (cli p)"
    and H: "map snd (history p) = consumed @ rs @ queue_of s p"
    and R: "list_all2 (received parse) (completed (cli p)) consumed"
    and F: "map fst (calls p) = map fst (completed (cli p)) @
      map (\<lambda>i. the (CallidCallbackMapping (cli p) i)) (rids rs @ rids (queue_of s p) @ seqnos ms @ seqnos (PendingRequests (cli p)))"
    and S: "list_all (served_by Handle s) (history p)"
    and W: "list_all2 is_wire (c2s p) ms" "s2c p = map result_bytes rs"
    using assms by (simp_all add: peer_ok_def)
  have lc: "length (completed (cli p)) = length consumed" using R by (rule list_all2_lengthD)
  have lh: "length (history p) = length consumed + length rs + length (queue_of s p)"
    using arg_cong [OF H, of length] by simp
  have la: "length (calls p) = length (history p) + length ms + length (PendingRequests (cli p))"
    using arg_cong [OF C, of length] by simp
  show "length (completed (cli p)) \<le> length (history p)" "length (history p) \<le> length (calls p)" using lc lh la by simp_all
  show hc: "map fst (history p) = map snd (take (length (history p)) (calls p))"
    using arg_cong [OF C, of "take (length (history p))"] by (simp add: take_map)
  show "map fst (completed (cli p)) = map fst (take (length (completed (cli p))) (calls p))"
    using arg_cong [OF F, of "take (length (completed (cli p)))"] by (simp add: take_map)
  show "\<exists>x. history p ! j = (snd (calls p ! j), x) \<and> served_by Handle s (snd (calls p ! j), x) \<and> received parse (completed (cli p) ! j) x"
    if j: "j < length (completed (cli p))"
  proof -
    have jh: "j < length (history p)" using j lc lh by simp
    have "fst (history p ! j) = snd (calls p ! j)"
      using arg_cong [OF hc, of "\<lambda>l. l ! j"] jh la by simp
    moreover have "snd (history p ! j) = consumed ! j"
      using arg_cong [OF H, of "\<lambda>l. l ! j"] jh j lc by (simp add: nth_append)
    moreover have "received parse (completed (cli p) ! j) (consumed ! j)" using R j by (rule list_all2_nthD)
    moreover have "served_by Handle s (history p ! j)" using S jh by (simp add: list_all_length)
    ultimately show ?thesis by (metis prod.collapse)
  qed
  show "length (completed (cli p)) = length (calls p)"
    if "PendingRequests (cli p) = []" "c2s p = []" "queue_of s p = []" "s2c p = []"
    using that W lc lh la by simp
qed

section \<open>Properties\<close>

text \<open>
  C9. Nothing on either side can fail while clients and server work together: in every reachable
  state of the system each task a worker holds is handled without a fault, whichever free
  descriptor an accept returns and whatever the reads and sends return that the network allows;
  each client's write handler runs; and the packet that waits for a client is received.
\<close>

theorem system_never_fails:
  assumes "sys_reachable Handle A Q ser parse st" "well_behaved Handle A Q"
  shows "(\<forall>i fd ty e. i < length (workers (pool (srv st))) \<and> workers (pool (srv st)) ! i = Running (fd, ty) \<and> delivers st fd e \<longrightarrow>
      (\<exists>s st'. Server_HandleEvent Handle e (fd, ty) (sys (srv st)) = Inr s \<and>
        sys_step Handle Q ser parse (SrvWorker i) st st' \<and> sys (srv st') = s)) \<and>
    (\<forall>p \<in> set (peers st). \<forall>pad buf data sr rr. length pad = 3 \<and> length buf = MAX_BUFFER \<longrightarrow>
      (\<exists>c. Client_HandleEvent parse pad buf data sr rr (Connfd (cli p), WRITE_EVENT) (cli p) = Inr c)) \<and>
    (\<forall>p \<in> set (peers st). \<forall>b bs pad buf data sr. s2c p = b # bs \<and> length data = 4096 \<longrightarrow>
      (\<exists>c. Client_HandleEvent parse pad buf data sr (RecvOk b) (Connfd (cli p), READ_EVENT) (cli p) = Inr c \<and>
        length (completed c) = Suc (length (completed (cli p)))))"
proof (intro conjI)
  note ok = sys_reachable_ok [OF assms]
  show "\<forall>i fd ty e. i < length (workers (pool (srv st))) \<and> workers (pool (srv st)) ! i = Running (fd, ty) \<and> delivers st fd e \<longrightarrow>
      (\<exists>s st'. Server_HandleEvent Handle e (fd, ty) (sys (srv st)) = Inr s \<and>
        sys_step Handle Q ser parse (SrvWorker i) st st' \<and> sys (srv st') = s)"
    using handler_runs [OF ok assms(2)] by blast
  show "\<forall>p \<in> set (peers st). \<forall>pad buf data sr rr. length pad = 3 \<and> length buf = MAX_BUFFER \<longrightarrow>
      (\<exists>c. Client_HandleEvent parse pad buf data sr rr (Connfd (cli p), WRITE_EVENT) (cli p) = Inr c)"
    using sys_okD(5) [OF ok] push_peer by meson
  show "\<forall>p \<in> set (peers st). \<forall>b bs pad buf data sr. s2c p = b # bs \<and> length data = 4096 \<longrightarrow>
      (\<exists>c. Client_HandleEvent parse pad buf data sr (RecvOk b) (Connfd (cli p), READ_EVENT) (cli p) = Inr c \<and>
        length (completed c) = Suc (length (completed (cli p))))"
  proof (intro ballI allI impI)
    fix p b bs and pad buf data :: "byte list" and sr
    assume p: "p \<in> set (peers st)" and b: "s2c p = b # bs \<and> length data = 4096"
    obtain ms rs consumed where old: "peer_ok Handle Q parse (sys (srv st)) p ms rs consumed" using sys_okD(5) [OF ok p] by blast
    then obtain c x where c: "Client_HandleEvent parse pad buf data sr (RecvOk b) (Connfd (cli p), READ_EVENT) (cli p) = Inr c"
      "peer_ok Handle Q parse (sys (srv st)) (p\<lparr>cli := c, s2c := bs\<rparr>) ms (tl rs) (consumed @ [x])"
      using receive_peer b by blast
    then have "list_all2 (received parse) (completed (cli p)) consumed" "list_all2 (received parse) (completed c) (consumed @ [x])"
      using old by (simp_all add: peer_ok_def)
    then have "length (completed c) = Suc (length (completed (cli p)))" by (auto dest!: list_all2_lengthD)
    with c(1) show "\<exists>c. Client_HandleEvent parse pad buf data sr (RecvOk b) (Connfd (cli p), READ_EVENT) (cli p) = Inr c \<and>
        length (completed c) = Suc (length (completed (cli p)))" by blast
  qed
qed

theorem system_never_fails_witness:
  "\<exists>(st :: (nat, nat, nat, string) rpc_system) e s. sys_reachable demo_Handle (\<lambda>_. True) (\<lambda>_ _. True) (\<lambda>s. s) (\<lambda>_ s. s) st \<and>
    workers (pool (srv st)) ! 0 = Running (6, READ_EVENT) \<and> map fst (calls (peers st ! 0)) = [7] \<and>
    Server_HandleEvent demo_Handle e (6, READ_EVENT) (sys (srv st)) = Inr s"
proof -
  obtain r p b where r: "demo_reach r p" "busy (6, READ_EVENT) r" "listenfd (sys r) = 4" "map fst (calls p) = [7]" "chan p = Some 6" "c2s p = [b]"
    "return_values (sys r) 6 = []" "interest (trace (sys r)) 6 \<noteq> None" "ExtraFlags (sys r) = EPOLLET"
    by (rule demo_arrived)
  let ?st = "\<lparr>srv = r, peers = [p]\<rparr>"
  let ?e = "\<lparr>en_accept = demo_accept\<lparr>acc_ret := -1\<rparr>, en_recv_header = RecvOk (take 48 b), en_recv_body = RecvOk (drop 48 b),
      en_send = SendOk 484\<rparr>"
  have st: "sys_reachable demo_Handle (\<lambda>_. True) (\<lambda>_ _. True) (\<lambda>s. s) (\<lambda>_ s. s) ?st" using r(1) by (simp add: demo_reach_def)
  have "delivers ?st 6 ?e" using r(3,6) by (simp add: delivers_def accept_fresh_def)
  then have "\<exists>s. Server_HandleEvent demo_Handle ?e (6, READ_EVENT) (sys r) = Inr s"
    using system_never_fails [OF st demo_well_behaved] busy_quiet(2,3) [OF r(2)] by fastforce
  then show ?thesis using st busy_quiet(2) [OF r(2)] r(4) by (intro exI [of _ ?st] exI [of _ ?e]) simp
qed

text \<open>
  C2. Each call of each client is served at most once, in the order of the calls, and answered at
  most once, in the same order, with the result the service returned for its own request. When
  nothing of a connection waits in the client, the channel or the server, every call is answered.
\<close>

theorem calls_answered_in_order:
  assumes "sys_reachable Handle A Q ser parse st" "well_behaved Handle A Q" "p \<in> set (peers st)"
  shows "length (completed (cli p)) \<le> length (history p) \<and> length (history p) \<le> length (calls p) \<and>
    map fst (history p) = map snd (take (length (history p)) (calls p)) \<and>
    map fst (completed (cli p)) = map fst (take (length (completed (cli p))) (calls p)) \<and>
    (\<forall>j < length (completed (cli p)). \<exists>x. history p ! j = (snd (calls p ! j), x) \<and>
      served_by Handle (sys (srv st)) (snd (calls p ! j), x) \<and> received parse (completed (cli p) ! j) x) \<and>
    (PendingRequests (cli p) = [] \<and> c2s p = [] \<and> queue_of (sys (srv st)) p = [] \<and> s2c p = [] \<longrightarrow>
      length (completed (cli p)) = length (calls p))"
proof -
  obtain ms rs consumed where "peer_ok Handle Q parse (sys (srv st)) p ms rs consumed"
    using sys_okD(5) [OF sys_reachable_ok [OF assms(1,2)] assms(3)] by blast
  note A = answers [OF this]
  show ?thesis using A by blast
qed

theorem calls_answered_in_order_witness:
  "\<exists>(st :: (nat, nat, nat, string) rpc_system) p v. sys_reachable demo_Handle (\<lambda>_. True) (\<lambda>_ _. True) (\<lambda>s. s) (\<lambda>_ s. s) st \<and>
    p \<in> set (peers st) \<and> map fst (calls p) = [7] \<and> completed (cli p) = [(7, v)] \<and> length (history p) = 1"
proof -
  obtain r p where r: "demo_reach r p" "map fst (calls p) = [7]" "completed (cli p) \<noteq> []" by (rule demo_answered)
  let ?st = "\<lparr>srv = r, peers = [p]\<rparr>"
  have st: "sys_reachable demo_Handle (\<lambda>_. True) (\<lambda>_ _. True) (\<lambda>s. s) (\<lambda>_ s. s) ?st" using r(1) by (simp add: demo_reach_def)
  have len: "length (calls p) = 1" using arg_cong [OF r(2), of length] by simp
  have "1 \<le> length (completed (cli p))" using r(3) by (cases "completed (cli p)") simp_all
  moreover have "length (completed (cli p)) \<le> length (history p) \<and> length (history p) \<le> length (calls p) \<and>
      map fst (completed (cli p)) = map fst (take (length (completed (cli p))) (calls p))"
    using calls_answered_in_order [OF st demo_well_behaved, of p] by simp
  ultimately have "length (completed (cli p)) = 1" "length (history p) = 1" "map fst (completed (cli p)) = [7]"
    using len r(2) by (simp_all add: take_map)
  then have "\<exists>v. completed (cli p) = [(7, v)]" by (cases "completed (cli p)") auto
  with st r(2) \<open>length (history p) = 1\<close> show ?thesis by (intro exI [of _ ?st] exI [of _ p]) auto
qed

end
