(* ===== verification/ServerProgress.thy ===== *)
theory ServerProgress
  imports ServerMachine
begin

text \<open>
  Progress of the running server: between two polls every task is worked off.

  A step of \<open>busy_step\<close> is a hand-over of a task, a turn of a worker that is not asleep, or a handler,
  so everything but polls and spurious wake-ups. Lemmas: the pool inside the server is a reachable
  pool that is never stopped, so the facts of \<open>ThreadPool\<close> apply; each busy step uses up a measure;
  a server with work left can take a busy step unless the handler of a task fails.
\<close>

section \<open>The pool of the server\<close>

lemma server_step_pool:
  assumes "server_step Handle r r'" "pool_reachable n cap (pool r, acc, st)" "\<not> m_stop (pool r)"
  shows "\<exists>acc' st'. pool_reachable n cap (pool r', acc', st') \<and> \<not> m_stop (pool r')"
proof -
  note next_pool = pool_reachable.step [OF assms(2)]
  have turn: "\<not> m_stop (worker_step i (pool r))" if "i < length (workers (pool r))" for i
    using that assms(3) by (cases rule: worker_step_cases) auto
  show ?thesis
    using assms(1)
  proof cases
    case (poll evs so_error)
    then have "pool r' = pool r" using poll_effect(2) by blast
    with assms(2,3) show ?thesis by auto
  next
    case (add t ts w)
    obtain ok p where a: "AddTask w t (pool r) = (ok, p)" by fastforce
    then have "pool r' = p" using add by (simp add: Reactor_add_def)
    moreover have "\<not> m_stop p" using a assms(3) by (auto simp: AddTask_def split: prod.splits)
    ultimately show ?thesis using next_pool [OF pool_step.add [OF add(2) a]] by auto
  next
    case (work i)
    with next_pool [OF pool_step.run [OF work(1) refl refl]] turn show ?thesis by fastforce
  next
    case (wake i)
    with next_pool [OF pool_step.spurious [OF wake(1,2)]] assms(3) show ?thesis by auto
  next
    case (handle i t e s')
    with next_pool [OF pool_step.run [OF handle(1) refl refl]] turn show ?thesis by fastforce
  qed
qed

lemma server_pool:
  "server_reachable Handle r \<Longrightarrow> \<exists>acc st. pool_reachable 4 10000 (pool r, acc, st) \<and> \<not> m_stop (pool r)"
proof (induction rule: server_reachable.induct)
  case (start J e opt svcs ep g a r)
  from server_start_state [OF start] pool_reachable.init show ?case by blast
next
  case (step r r')
  then show ?case using server_step_pool by blast
qed

lemma server_pool_inv:
  assumes "server_reachable Handle r"
  shows "length (workers (pool r)) = 4" "Finished \<notin> set (workers (pool r))"
    "sq_q (tasks (pool r)) \<noteq> [] \<Longrightarrow> \<exists>w \<in> set (workers (pool r)). w \<noteq> Waiting"
    "length (sq_q (tasks (pool r))) \<le> 10000" "sq_maxsize (tasks (pool r)) = 10000"
  using server_pool [OF assms] pool_reachable_inv by (fastforce simp: pool_inv_def)+

section \<open>Busy steps\<close>

inductive busy_step :: "('svc, 'app) service_handle \<Rightarrow> ('svc, 'app) machine \<Rightarrow> ('svc, 'app) machine \<Rightarrow> bool"
  for Handle where
  add: "pending r = t # ts \<Longrightarrow> may_notify w (workers (pool r)) \<Longrightarrow> busy_step Handle r (Reactor_add w r)"
| work: "i < length (workers (pool r)) \<Longrightarrow> workers (pool r) ! i \<in> {Ready, Notified} \<Longrightarrow>
    busy_step Handle r (r\<lparr>pool := worker_step i (pool r)\<rparr>)"
| handle: "i < length (workers (pool r)) \<Longrightarrow> workers (pool r) ! i = Running t \<Longrightarrow> accept_fresh e (sys r) \<Longrightarrow>
    Server_HandleEvent Handle e t (sys r) = Inr s' \<Longrightarrow>
    busy_step Handle r (r\<lparr>sys := s', pool := worker_step i (pool r)\<rparr>)"

lemma busy_step_step: "busy_step Handle r r' \<Longrightarrow> server_step Handle r r'"
  by (induction rule: busy_step.induct) (auto intro: server_step.intros)

lemma busy_steps_reachable:
  "(busy_step Handle ^^ n) r r' \<Longrightarrow> server_reachable Handle r \<Longrightarrow> server_reachable Handle r'"
  by (induction n arbitrary: r') (auto intro: server_reachable.step busy_step_step)

fun weight :: "'a worker \<Rightarrow> nat" where
  "weight Ready = 1"
| "weight Waiting = 0"
| "weight Notified = 2"
| "weight (Running t) = 2"
| "weight Finished = 0"

definition work_left :: "('svc, 'app) machine \<Rightarrow> nat" where
  "work_left r = 5 * length (pending r) + 2 * length (sq_q (tasks (pool r))) + sum_list (map weight (workers (pool r)))"

lemma weight_update:
  "i < length ws \<Longrightarrow> sum_list (map weight (ws[i := w])) + weight (ws ! i) = sum_list (map weight ws) + weight w"
  by (induction ws arbitrary: i) (auto split: nat.split)

lemma weight_turn:
  assumes "i < length (workers p)" "workers p ! i \<notin> {Waiting, Finished}"
  shows "2 * length (sq_q (tasks (worker_step i p))) + sum_list (map weight (workers (worker_step i p))) <
    2 * length (sq_q (tasks p)) + sum_list (map weight (workers p))"
  using assms(1)
proof (cases rule: worker_step_cases)
  case stopping
  with weight_update [OF assms(1), of Finished] show ?thesis by simp
next
  case wait
  with weight_update [OF assms(1), of Waiting] show ?thesis by simp
next
  case (take t ts)
  with weight_update [OF assms(1), of "Running t"] show ?thesis by auto
next
  case again
  with weight_update [OF assms(1), of Ready] show ?thesis by simp
next
  case (ended t)
  with weight_update [OF assms(1), of Ready] show ?thesis by simp
next
  case idle
  with assms(2) show ?thesis by simp
qed

lemma weight_notify:
  assumes "may_notify w ws"
  shows "sum_list (map weight (notify w ws)) \<le> sum_list (map weight ws) + 2"
proof (cases w)
  case (Some i)
  with assms weight_update [of i ws Notified] show ?thesis by (simp add: may_notify_def notify_def)
qed (simp add: notify_def)

lemma busy_step_uses: "busy_step Handle r r' \<Longrightarrow> work_left r' < work_left r"
proof (induction rule: busy_step.induct)
  case (add r t ts w)
  obtain ok p where a: "AddTask w t (pool r) = (ok, p)" by fastforce
  then show ?case
    using add weight_notify [OF add(2)]
    by (cases rule: AddTask_cases) (use a in \<open>auto simp: work_left_def Reactor_add_def\<close>)
next
  case (work i r)
  with weight_turn [of i "pool r"] show ?case by (auto simp: work_left_def)
next
  case (handle i r t e s')
  with weight_turn [of i "pool r"] show ?case by (auto simp: work_left_def)
qed

lemma busy_steps_use: "(busy_step Handle ^^ n) r r' \<Longrightarrow> n + work_left r' \<le> work_left r"
  by (induction n arbitrary: r') (auto dest!: busy_step_uses, fastforce)

lemma weight_le: "weight x \<le> 2"
  by (cases x) simp_all

lemma weights_le: "sum_list (map weight ws) \<le> 2 * length ws"
proof (induction ws)
  case (Cons w ws)
  then show ?case using weight_le [of w] by simp
qed simp

lemma work_left_le:
  "length (workers (pool r)) = 4 \<Longrightarrow> work_left r \<le> 5 * length (pending r) + 2 * length (sq_q (tasks (pool r))) + 8"
  using weights_le [of "workers (pool r)"] by (simp add: work_left_def)

section \<open>No deadlock\<close>

text \<open>The handler of a task fails whatever the system calls it makes return.\<close>

definition must_fail :: "('svc, 'app) service_handle \<Rightarrow> task \<Rightarrow> ('svc, 'app) server \<Rightarrow> bool" where
  "must_fail Handle t s \<longleftrightarrow> (\<forall>e. accept_fresh e s \<longrightarrow> (\<exists>f. Server_HandleEvent Handle e t s = Inl f))"

lemma may_notify_exists: "\<exists>w. may_notify w ws"
proof (cases "Waiting \<in> set ws")
  case True
  then obtain i where "i < length ws" "ws ! i = Waiting" by (auto simp: in_set_conv_nth)
  then show ?thesis by (intro exI [of _ "Some i"]) (simp add: may_notify_def)
qed (auto intro: exI [of _ None] simp: may_notify_def)

lemma running_progress:
  assumes "i < length (workers (pool r))" "workers (pool r) ! i = Running t"
  shows "(\<exists>r'. busy_step Handle r r') \<or> must_fail Handle t (sys r)"
proof (cases "must_fail Handle t (sys r)")
  case False
  then obtain e where e: "accept_fresh e (sys r)" "\<not> (\<exists>f. Server_HandleEvent Handle e t (sys r) = Inl f)"
    by (auto simp: must_fail_def)
  then obtain s' where "Server_HandleEvent Handle e t (sys r) = Inr s'"
    by (cases "Server_HandleEvent Handle e t (sys r)") auto
  from busy_step.handle [OF assms e(1) this] show ?thesis by blast
qed simp

lemma busy_progress:
  assumes "server_reachable Handle r" "in_flight r \<noteq> []"
  shows "(\<exists>r'. busy_step Handle r r') \<or> (\<exists>t \<in> set (running (pool r)). must_fail Handle t (sys r))"
proof (cases "pending r")
  case (Cons t ts)
  with may_notify_exists [of "workers (pool r)"] busy_step.add [OF Cons] show ?thesis by blast
next
  case Nil
  note P = server_pool_inv [OF assms(1)]
  have "\<exists>i < length (workers (pool r)). workers (pool r) ! i \<notin> {Waiting, Finished}"
  proof (cases "sq_q (tasks (pool r)) = []")
    case True
    with Nil assms(2) have "running (pool r) \<noteq> []" by (simp add: in_flight_def)
    then obtain w where "w \<in> set (workers (pool r))" "running_of w \<noteq> []" by (auto simp: running_def)
    then show ?thesis by (force simp: in_set_conv_nth)
  next
    case False
    with P(2,3) show ?thesis by (metis in_set_conv_nth insertE singletonD)
  qed
  then obtain i where i: "i < length (workers (pool r))" "workers (pool r) ! i \<notin> {Waiting, Finished}" by blast
  show ?thesis
  proof (cases "workers (pool r) ! i")
    case (Running t)
    with running_progress [OF i(1) this] running_mem [OF i(1) this] show ?thesis by blast
  qed (use i busy_step.work [OF i(1)] in auto)
qed

section \<open>Properties\<close>

text \<open>
  C14. The server works off every batch of tasks: without another poll and without spurious wake-ups
  it can take only so many steps, at most 5 for a task to be handed over, 2 for a queued one, and 8
  for its workers; and where no further step is possible every task has been finished, unless the
  handler of a running task cannot but fail.
\<close>

theorem server_drains:
  assumes "server_reachable Handle r" "(busy_step Handle ^^ n) r r'"
  shows "n \<le> 5 * length (pending r) + 2 * length (sq_q (tasks (pool r))) + 8 \<and>
    ((\<exists>r''. busy_step Handle r' r'') \<or> in_flight r' = [] \<or> (\<exists>t \<in> set (running (pool r')). must_fail Handle t (sys r')))"
  using busy_steps_use [OF assms(2)] work_left_le [OF server_pool_inv(1) [OF assms(1)]]
    busy_progress [OF busy_steps_reachable [OF assms(2,1)]] by auto

theorem server_drains_witness:
  "\<exists>(r :: (nat, nat) machine) r'. server_reachable demo_Handle r \<and> in_flight r = [(6, READ_EVENT)] \<and>
    (busy_step demo_Handle ^^ 1) r r' \<and>
    ((\<exists>r''. busy_step demo_Handle r' r'') \<or> in_flight r' = [] \<or>
      (\<exists>t \<in> set (running (pool r')). must_fail demo_Handle t (sys r')))"
proof -
  let ?e = "demo_env\<lparr>en_accept := demo_accept\<lparr>acc_ret := -1\<rparr>, en_recv_header := RecvOk ''short''\<rparr>"
  obtain r :: "(nat, nat) machine" where r: "server_reachable demo_Handle r" "busy (6, READ_EVENT) r"
    "listenfd (sys r) = 4" "conn_routes (sys r) 6" "ExtraFlags (sys r) = EPOLLET" "interest (trace (sys r)) 6 \<noteq> None"
    by (rule demo_reading)
  have w: "0 < length (workers (pool r))" "workers (pool r) ! 0 = Running (6, READ_EVENT)"
    using r(2) by (simp_all add: busy_def)
  obtain s' where s': "Server_HandleEvent demo_Handle ?e (6, READ_EVENT) (sys r) = Inr s'"
    using HandleEvent_conn(1) [OF _ r(4)] by (auto simp: MAX_FILE_DESCRIPTORS_def RequestHandler_HandleReadEvent_def
        demo_env_def sizeof_RpcHeader_def)
  have fresh: "accept_fresh ?e (sys r)" by (simp add: accept_fresh_def demo_env_def demo_accept_def)
  have step: "(busy_step demo_Handle ^^ 1) r (r\<lparr>sys := s', pool := worker_step 0 (pool r)\<rparr>)"
    using busy_step.handle [OF w fresh s'] by (simp only: relpowp_1)
  from server_drains [OF r(1) step] r(1) step busy_in_flight [OF r(2)] show ?thesis by blast
qed

end
