(* ===== verification/SystemProgress.thy ===== *)
theory SystemProgress
  imports System ServerProgress
begin

text \<open>
  Progress of the system of \<open>System\<close>: from every reachable state it can answer every call.

  Two facts about the server carry it. A connection that is registered is armed, for output too iff
  results wait, or has a task in flight: nothing is ever forgotten, since with fewer than 10000
  clients the queue of the pool cannot be full and no request is refused. And a task in flight can
  be brought to a worker and handled, as in \<open>ServerProgress\<close>. Each handler, and each write and
  read of a client, takes a call one station further; \<open>todo\<close> counts the stations left.
\<close>

section \<open>Armed or in flight\<close>

definition awake :: "('svc, 'app) machine \<Rightarrow> bool" where
  "awake r \<longleftrightarrow> (\<forall>fd. interest (trace (sys r)) fd \<noteq> None \<longrightarrow>
     interest (trace (sys r)) fd = Some (rearm_mask (return_values (sys r) fd) OR EPOLLET, True) \<or>
     fd \<in> fst ` set (in_flight r))"

lemma sys_reachable_server: "sys_reachable Handle A Q ser parse st \<Longrightarrow> server_reachable Handle (srv st)"
proof (induction rule: sys_reachable.induct)
  case (init J e opt svcs ep g a r cs)
  then show ?case by (auto simp: system_init_def intro: server_reachable.start)
next
  case (step st a st')
  with sys_step_srv [OF step(2)] show ?case by (auto intro: server_reachable.step)
qed

lemma step_keeps_length: "sys_step Handle Q ser parse a st st' \<Longrightarrow> length (peers st') = length (peers st)"
  by (induction rule: sys_step.induct) simp_all

text \<open>There are no more tasks in flight than registered descriptors.\<close>

lemma registered_few:
  assumes "sys_ok Handle A Q parse st"
  shows "{fd. interest (trace (sys (srv st))) fd \<noteq> None} \<subseteq> insert (listenfd (sys (srv st))) (the ` chan ` set (peers st))"
    "finite {fd. interest (trace (sys (srv st))) fd \<noteq> None}"
    "card {fd. interest (trace (sys (srv st))) fd \<noteq> None} \<le> Suc (length (peers st))"
    "length (in_flight (srv st)) \<le> Suc (length (peers st))"
proof -
  let ?I = "{fd. interest (trace (sys (srv st))) fd \<noteq> None}"
  let ?S = "insert (listenfd (sys (srv st))) (the ` chan ` set (peers st))"
  show sub: "?I \<subseteq> ?S"
  proof
    fix fd assume fd: "fd \<in> ?I"
    show "fd \<in> ?S"
    proof (cases "fd = listenfd (sys (srv st))")
      case False
      with fd sys_okD(4) [OF assms] have "Some fd \<in> chan ` set (peers st)" by (simp add: chans_ok_def)
      then have "the (Some fd) \<in> the ` chan ` set (peers st)" by (rule imageI)
      then show ?thesis by simp
    qed simp
  qed
  then show fin: "finite ?I" by (rule finite_subset) simp
  have "card ?S \<le> Suc (card (the ` chan ` set (peers st)))" by (rule card_insert_le_m1) simp_all
  also have "card (the ` chan ` set (peers st)) \<le> length (peers st)"
    by (metis card_image_le card_length finite_set le_trans finite_imageI)
  finally have "card ?S \<le> Suc (length (peers st))" by simp
  with card_mono [OF _ sub] show c: "card ?I \<le> Suc (length (peers st))" by simp
  have M: "machine_ok (srv st)" by (rule sys_okD(1) [OF assms])
  have "fst ` set (in_flight (srv st)) \<subseteq> ?I" using M by (force simp: machine_ok_def task_ok_def)
  from card_mono [OF fin this] M c show "length (in_flight (srv st)) \<le> Suc (length (peers st))"
    using distinct_card [of "map fst (in_flight (srv st))"] by (simp add: machine_ok_def)
qed

text \<open>So no task is dropped.\<close>

lemma hand_over_all:
  assumes ok: "sys_ok Handle A Q parse st" and reach: "server_reachable Handle (srv st)" and few: "length (peers st) < 10000"
    and t: "pending (srv st) = t # ts" and w: "may_notify w (workers (pool (srv st)))"
  shows "mset (in_flight (Reactor_add w (srv st))) = mset (in_flight (srv st))" "sys (Reactor_add w (srv st)) = sys (srv st)"
proof -
  have "length (in_flight (srv st)) \<le> 10000" using registered_few(4) [OF ok] few by simp
  then have "length (sq_q (tasks (pool (srv st)))) < 10000" using t by (simp add: in_flight_def)
  then show "mset (in_flight (Reactor_add w (srv st))) = mset (in_flight (srv st))"
    using in_flight_add [OF w t] server_pool_inv(5) [OF reach] by simp
  show "sys (Reactor_add w (srv st)) = sys (srv st)" using t by (simp add: Reactor_add_def)
qed

lemma awake_same:
  "awake r \<Longrightarrow> mset (in_flight r') = mset (in_flight r) \<Longrightarrow> sys r' = sys r \<Longrightarrow> awake r'"
  using mset_eq_setD [of "in_flight r'" "in_flight r"] by (simp add: awake_def)

lemma awake_handled:
  assumes a: "awake r" and i: "i < length (workers (pool r))" "workers (pool r) ! i = Running (fd, ty)"
    and here: "interest (trace s) fd = Some (rearm_mask (return_values s fd) OR EPOLLET, True)"
    and others: "\<And>x. x \<noteq> fd \<Longrightarrow> interest (trace s) x = Some (rearm_mask (return_values s x) OR EPOLLET, True) \<or>
      interest (trace s) x = interest (trace (sys r)) x \<and> return_values s x = return_values (sys r) x"
  shows "awake (handled i s r)"
proof -
  have "set (in_flight r) = insert (fd, ty) (set (in_flight (handled i s r)))"
    using arg_cong [OF in_flight_finish [OF i, of s], of set_mset] by (simp add: handled_def)
  then have fl: "x \<in> fst ` set (in_flight (handled i s r))" if "x \<in> fst ` set (in_flight r)" "x \<noteq> fd" for x
    using that by auto
  show ?thesis
    unfolding awake_def
  proof (intro allI impI)
    fix x assume x: "interest (trace (sys (handled i s r))) x \<noteq> None"
    show "interest (trace (sys (handled i s r))) x = Some (rearm_mask (return_values (sys (handled i s r)) x) OR EPOLLET, True) \<or>
      x \<in> fst ` set (in_flight (handled i s r))"
    proof (cases "x = fd")
      case False
      from others [OF this] show ?thesis
      proof
        assume same: "interest (trace s) x = interest (trace (sys r)) x \<and> return_values s x = return_values (sys r) x"
        with x a have "interest (trace (sys r)) x = Some (rearm_mask (return_values (sys r) x) OR EPOLLET, True) \<or>
          x \<in> fst ` set (in_flight r)" by (simp add: awake_def)
        with same fl False show ?thesis by auto
      qed simp
    qed (use here in simp)
  qed
qed

lemma awake_rearmed:
  assumes "awake r" "machine_ok r" "i < length (workers (pool r))" "workers (pool r) ! i = Running (fd, ty)"
    and "rearmed fd (sys r) s"
  shows "awake (handled i s r)"
  using assms(2,5)
  by (intro awake_handled [OF assms(1,3,4)]) (auto simp: rearmed_def machine_ok_def server_ok_def)

lemma awake_accepted:
  assumes ok: "sys_ok Handle A Q parse st" and a: "awake (srv st)"
    and i: "i < length (workers (pool (srv st)))" "workers (pool (srv st)) ! i = Running (listenfd (sys (srv st)), READ_EVENT)"
    and fresh: "accept_fresh e (sys (srv st))" and v: "valid_fd (acc_ret (en_accept e))"
    and h: "Server_HandleEvent Handle e (listenfd (sys (srv st)), READ_EVENT) (sys (srv st)) = Inr s"
  shows "awake (handled i s (srv st))"
proof -
  let ?s = "sys (srv st)" let ?fd = "acc_ret (en_accept e)"
  have S: "valid_fd (listenfd ?s)" "listen_routes ?s" "ExtraFlags ?s = EPOLLET" "interest (trace ?s) (listenfd ?s) \<noteq> None"
    using sys_okD(1) [OF ok] by (auto simp: machine_ok_def server_ok_def)
  have new: "interest (trace ?s) ?fd = None" using fresh v by (auto simp: accept_fresh_def)
  then have neq: "?fd \<noteq> listenfd ?s" using S(4) by auto
  note C = sys_okD(4) [OF ok, unfolded chans_ok_def]
  have "Some ?fd \<notin> set (map chan (peers st))" "Some (listenfd ?s) \<notin> set (map chan (peers st))" using C neq new by blast+
  then have rv: "return_values ?s ?fd = []" "return_values ?s (listenfd ?s) = []" using C by blast+
  have "ServerTransport_HandleReadEvent (en_accept e) (listenfd ?s) ?s = Inr s"
    using h HandleEvent_listen(1) [OF S(1,2)] by simp
  then show ?thesis
  proof (cases rule: HandleReadEvent_accepts)
    case (1 fd s1)
    note I = 1(5) [unfolded 1(4)] and R = 1(6)
    have one: "rearm_mask [] = EPOLL_FLAGS_IN_ONESHOT" by (simp add: rearm_mask_def)
    show ?thesis
    proof (rule awake_handled [OF a i])
      show "interest (trace s) (listenfd ?s) = Some (rearm_mask (return_values s (listenfd ?s)) OR EPOLLET, True)"
        using I S(3,4) neq by (simp add: R rv one)
      show "interest (trace s) x = Some (rearm_mask (return_values s x) OR EPOLLET, True) \<or>
          interest (trace s) x = interest (trace ?s) x \<and> return_values s x = return_values ?s x" if "x \<noteq> listenfd ?s" for x
        using I S(3) that new by (cases "x = ?fd") (simp_all add: R rv one)
    qed
  qed
qed

lemma awake_polled:
  assumes "awake r" "Reactor_poll so_error evs r = Inr r'" "pending r = []"
  shows "awake r'"
proof -
  note P = poll_effect [OF assms(2)]
  note F = world_more_fields [OF P(3)]
  have fl: "in_flight r' = map (\<lambda>(fd, m). (fd, the (type_of_mask m))) evs @ in_flight r"
    using assms(3) P(2,4) by (simp add: in_flight_def)
  show ?thesis
    unfolding awake_def
  proof (intro allI impI)
    fix fd assume "interest (trace (sys r')) fd \<noteq> None"
    then have "interest (trace (sys r)) fd \<noteq> None" unfolding P(1) poll_interest by (simp split: option.splits)
    with assms(1) have "interest (trace (sys r)) fd = Some (rearm_mask (return_values (sys r) fd) OR EPOLLET, True) \<or>
      fd \<in> fst ` set (in_flight r)" by (simp add: awake_def)
    moreover have "fd \<in> fst ` set (in_flight r')" if "fd \<in> fst ` set evs" using that by (force simp: fl)
    moreover have "fst ` set (in_flight r) \<subseteq> fst ` set (in_flight r')" by (auto simp: fl)
    ultimately show "interest (trace (sys r')) fd = Some (rearm_mask (return_values (sys r') fd) OR EPOLLET, True) \<or>
        fd \<in> fst ` set (in_flight r')"
      unfolding P(1) poll_interest F(1) by (auto split: option.splits)
  qed
qed

lemma awake_step:
  assumes step: "sys_step Handle Q ser parse a st st'" and ok: "sys_ok Handle A Q parse st" and wb: "well_behaved Handle A Q"
    and reach: "server_reachable Handle (srv st)" and few: "length (peers st) < 10000" and aw: "awake (srv st)"
  shows "awake (srv st')"
  using step
proof (cases rule: sys_step.cases)
  case (poll r evs so_error r')
  with awake_polled [of r] aw show ?thesis by simp
next
  case (hand_over r t ts w)
  have "awake (Reactor_add w (srv st))"
    using awake_same [OF aw] hand_over_all [OF ok reach few, of t ts w] hand_over by simp
  with hand_over show ?thesis by simp
next
  case (work r i)
  have "awake (r\<lparr>pool := worker_step i (pool r)\<rparr>)"
    using awake_same [OF aw, of "r\<lparr>pool := worker_step i (pool r)\<rparr>"] in_flight_work [OF work(4,5)] work(3) by simp
  with work show ?thesis by simp
next
  case (wake r i)
  have "awake (r\<lparr>pool := (pool r)\<lparr>workers := (workers (pool r))[i := Notified]\<rparr>\<rparr>)"
    using awake_same [OF aw, of "r\<lparr>pool := (pool r)\<lparr>workers := (workers (pool r))[i := Notified]\<rparr>\<rparr>"]
      in_flight_wake [OF wake(4,5)] wake(3) by simp
  with wake show ?thesis by simp
next
  case (accept r i k p e fd s)
  with awake_accepted [OF ok aw, of i e s] show ?thesis by simp
next
  case (serve r i fd k p b bs e s m x)
  with serve_ok [OF ok wb, of i fd k e b bs] have "rearmed fd (sys (srv st)) s" by auto
  with awake_rearmed [OF aw sys_okD(1) [OF ok], of i fd READ_EVENT s] serve show ?thesis by simp
next
  case (reply r i fd k p e n s)
  have c: "k < length (peers st)" "chan (peers st ! k) = Some fd" using reply by simp_all
  note F = connection_facts [OF ok c]
  have "ResultSender_HandleWriteEvent (en_send e) fd (sys (srv st)) = Inr s"
    using reply HandleEvent_conn(2) [OF F(3,4)] by simp
  from HandleWriteEvent_effect [OF this F(2,3)] have "rearmed fd (sys (srv st)) s" .
  with awake_rearmed [OF aw sys_okD(1) [OF ok], of i fd WRITE_EVENT s] reply show ?thesis by simp
qed (use aw in simp_all)

lemma sys_reachable_awake:
  assumes "sys_reachable Handle A Q ser parse st" "well_behaved Handle A Q" "length (peers st) < 10000"
  shows "awake (srv st)"
  using assms(1,3)
proof (induction rule: sys_reachable.induct)
  case (init J e opt svcs ep g a r cs)
  note S = server_start_state [OF init(1)]
  show ?case using S(4) by (auto simp: awake_def system_init_def S(5) rearm_mask_def)
next
  case (step st a st')
  have few: "length (peers st) < 10000" using step step_keeps_length by metis
  show ?case
    by (rule awake_step [OF step(2) sys_reachable_ok [OF step(1) assms(2)] assms(2) sys_reachable_server [OF step(1)] few step(3) [OF few]])
qed

section \<open>The way a call has to go\<close>

definition peer_todo :: "('svc, 'app) server \<Rightarrow> ('cb, 'v) peer \<Rightarrow> nat" where
  "peer_todo s p = 4 * length (PendingRequests (cli p)) + 3 * length (c2s p) + 2 * length (queue_of s p) + length (s2c p) +
     (if chan p = None then 1 else 0)"

definition todo :: "('svc, 'app, 'cb, 'v) rpc_system \<Rightarrow> nat" where
  "todo st = (\<Sum>p\<leftarrow>peers st. peer_todo (sys (srv st)) p)"

text \<open>Calls and results are conserved.\<close>

lemma peer_lengths:
  assumes "sys_ok Handle A Q parse st" "p \<in> set (peers st)"
  shows "length (calls p) = length (history p) + length (c2s p) + length (PendingRequests (cli p))"
    "length (history p) = length (completed (cli p)) + length (s2c p) + length (queue_of (sys (srv st)) p)"
proof -
  obtain ms rs consumed where p: "peer_ok Handle Q parse (sys (srv st)) p ms rs consumed"
    using sys_okD(5) [OF assms] by blast
  then have C: "map snd (calls p) = map fst (history p) @ ms @ PendingRequests (cli p)"
    and H: "map snd (history p) = consumed @ rs @ queue_of (sys (srv st)) p"
    and L: "list_all2 is_wire (c2s p) ms" "s2c p = map result_bytes rs" "list_all2 (received parse) (completed (cli p)) consumed"
    by (simp_all add: peer_ok_def)
  show "length (calls p) = length (history p) + length (c2s p) + length (PendingRequests (cli p))"
    using arg_cong [OF C, of length] list_all2_lengthD [OF L(1)] by simp
  show "length (history p) = length (completed (cli p)) + length (s2c p) + length (queue_of (sys (srv st)) p)"
    using arg_cong [OF H, of length] list_all2_lengthD [OF L(3)] L(2) by simp
qed

lemma sum_list_one_less:
  fixes f g :: "'a \<Rightarrow> nat"
  assumes "k < length xs" "\<And>j. j < length xs \<Longrightarrow> j \<noteq> k \<Longrightarrow> g (xs ! j) = f (xs ! j)" "g y < f (xs ! k)"
  shows "(\<Sum>x\<leftarrow>xs[k := y]. g x) < (\<Sum>x\<leftarrow>xs. f x)"
proof -
  have e: "(\<Sum>x\<leftarrow>zs. h x) = (\<Sum>i = 0..<length zs. h (zs ! i))" for zs and h :: "'a \<Rightarrow> nat" by (simp add: sum_list_sum_nth)
  have "(\<Sum>i = 0..<length xs. g (xs[k := y] ! i)) < (\<Sum>i = 0..<length xs. f (xs ! i))"
    by (rule sum_strict_mono_ex1) (use assms in \<open>auto simp: nth_list_update\<close>)
  then show ?thesis by (simp add: e)
qed

text \<open>A step of one connection that uses it up; the others' queues stay as long as they were.\<close>

lemma todo_less:
  assumes ok: "sys_ok Handle A Q parse st" and ok': "sys_ok Handle A Q parse (put_srv r (put_peer k p st))"
    and k: "k < length (peers st)" and less: "peer_todo (sys r) p < peer_todo (sys (srv st)) (peers st ! k)"
  shows "todo (put_srv r (put_peer k p st)) < todo st"
proof -
  have "peer_todo (sys r) (peers st ! j) = peer_todo (sys (srv st)) (peers st ! j)" if j: "j < length (peers st)" "j \<noteq> k" for j
  proof -
    have "peers st ! j \<in> set ((peers st)[k := p])" by (rule update_in [OF j])
    with peer_lengths(2) [OF ok', of "peers st ! j"] peer_lengths(2) [OF ok nth_mem [OF j(1)]] show ?thesis
      by (simp add: peer_todo_def)
  qed
  then show ?thesis unfolding todo_def using sum_list_one_less [OF k] less by simp
qed

lemma put_in: "k < length (peers st) \<Longrightarrow> p \<in> set (peers (put_srv r (put_peer k p st)))"
  by (simp add: set_update_memI)

lemma calls_put [simp]: "k < length ps \<Longrightarrow> calls p = calls (ps ! k) \<Longrightarrow> map calls (ps[k := p]) = map calls ps"
  by (metis length_map list_update_id map_update nth_map)

lemma handler_uses:
  assumes ok: "sys_ok Handle A Q parse st" and ok': "sys_ok Handle A Q parse st'"
    and step: "sys_step Handle Q ser parse (SrvWorker i) st st'" and run: "workers (pool (srv st)) ! i = Running t"
  shows "todo st' < todo st \<and> map calls (peers st') = map calls (peers st)"
  using step
proof (cases rule: sys_step.cases)
  case (work r)
  with run show ?thesis by simp
next
  case (accept r k p e fd s)
  let ?p = "p\<lparr>chan := Some fd\<rparr>"
  have k: "k < length (peers st)" "p = peers st ! k" using accept by simp_all
  note L = peer_lengths(2) [OF ok nth_mem [OF k(1)]] and L' = peer_lengths(2) [OF ok', unfolded accept(1), OF put_in [OF k(1)]]
  have "peer_todo s ?p < peer_todo (sys (srv st)) (peers st ! k)"
    using L L' accept k by (simp add: peer_todo_def)
  with todo_less [OF ok ok'[unfolded accept(1)] k(1)] accept k show ?thesis by simp
next
  case (serve r fd k p b bs e s m x)
  let ?p = "p\<lparr>c2s := bs, history := history p @ [(m, x)]\<rparr>"
  have k: "k < length (peers st)" "p = peers st ! k" using serve by simp_all
  note L = peer_lengths(2) [OF ok nth_mem [OF k(1)]] and L' = peer_lengths(2) [OF ok', unfolded serve(1), OF put_in [OF k(1)]]
  have "peer_todo s ?p < peer_todo (sys (srv st)) (peers st ! k)"
    using L L' serve k by (simp add: peer_todo_def)
  with todo_less [OF ok ok'[unfolded serve(1)] k(1)] serve k show ?thesis by simp
next
  case (reply r fd k p e n s)
  let ?p = "p\<lparr>s2c := s2c p @ sent_between (sys r) s\<rparr>"
  have k: "k < length (peers st)" "p = peers st ! k" using reply by simp_all
  note L = peer_lengths(2) [OF ok nth_mem [OF k(1)]] and L' = peer_lengths(2) [OF ok', unfolded reply(1), OF put_in [OF k(1)]]
  have "length (sent_between (sys r) s) = 1" using reply_ok [OF ok, of i fd k e n] reply by auto
  then have "peer_todo s ?p < peer_todo (sys (srv st)) (peers st ! k)"
    using L L' reply k by (simp add: peer_todo_def)
  with todo_less [OF ok ok'[unfolded reply(1)] k(1)] reply k show ?thesis by simp
qed

section \<open>Every station can be passed\<close>

definition sys_run ::
  "('svc, 'app) service_handle \<Rightarrow> ('svc \<Rightarrow> RpcMessage \<Rightarrow> bool) \<Rightarrow> ('p \<Rightarrow> string) \<Rightarrow> ('cb \<Rightarrow> string \<Rightarrow> 'v) \<Rightarrow>
   ('svc, 'app, 'cb, 'v) rpc_system \<Rightarrow> ('svc, 'app, 'cb, 'v) rpc_system \<Rightarrow> bool" where
  "sys_run Handle Q ser parse = (\<lambda>st st'. \<exists>a. sys_step Handle Q ser parse a st st')\<^sup>*\<^sup>*"

lemma sys_run_intros:
  "sys_run Handle Q ser parse st st"
  "sys_step Handle Q ser parse a st st' \<Longrightarrow> sys_run Handle Q ser parse st' st'' \<Longrightarrow> sys_run Handle Q ser parse st st''"
  "sys_run Handle Q ser parse st st' \<Longrightarrow> sys_run Handle Q ser parse st' st'' \<Longrightarrow> sys_run Handle Q ser parse st st''"
  unfolding sys_run_def by (auto intro: converse_rtranclp_into_rtranclp)

lemma sys_run_reachable:
  assumes "sys_run Handle Q ser parse st st'" "sys_reachable Handle A Q ser parse st"
  shows "sys_reachable Handle A Q ser parse st'"
  using assms unfolding sys_run_def by (induction rule: rtranclp_induct) (auto intro: sys_reachable.step)

text \<open>An environment for a handler: a free descriptor, the packet that waits.\<close>

lemma delivers_exists:
  assumes ok: "sys_ok Handle A Q parse st" and few: "length (peers st) < 10000"
  shows "\<exists>e. delivers st fd e"
proof -
  let ?s = "sys (srv st)"
  have "\<exists>x. valid_fd x \<and> interest (trace ?s) x = None"
  proof (rule ccontr)
    assume no: "\<nexists>x. valid_fd x \<and> interest (trace ?s) x = None"
    have used: "interest (trace ?s) x \<noteq> None" if "0 \<le> x" "x < MAX_FILE_DESCRIPTORS" for x using no that by metis
    have "{0..<MAX_FILE_DESCRIPTORS} \<subseteq> {x. interest (trace ?s) x \<noteq> None}"
      by (intro subsetI CollectI used) simp_all
    from card_mono [OF registered_few(2) [OF ok] this] registered_few(3) [OF ok] few show False
      by (simp add: MAX_FILE_DESCRIPTORS_def)
  qed
  then obtain x where x: "valid_fd x" "interest (trace ?s) x = None" by blast
  have "\<exists>B. \<forall>p \<in> set (peers st). \<forall>b bs. chan p = Some fd \<longrightarrow> c2s p = b # bs \<longrightarrow> b = B"
  proof (cases "\<exists>k < length (peers st). chan (peers st ! k) = Some fd")
    case True
    then obtain k where k: "k < length (peers st)" "chan (peers st ! k) = Some fd" by blast
    have "p = peers st ! k" if p: "p \<in> set (peers st)" "chan p = Some fd" for p
    proof -
      obtain j where j: "j < length (peers st)" "p = peers st ! j" using p(1) by (metis in_set_conv_nth)
      with connection_facts(5) [OF ok k j(1)] p(2) show ?thesis by metis
    qed
    then show ?thesis by (intro exI [of _ "hd (c2s (peers st ! k))"]) fastforce
  next
    case False
    then show ?thesis by (metis in_set_conv_nth)
  qed
  then obtain B where B: "\<And>p b bs. p \<in> set (peers st) \<Longrightarrow> chan p = Some fd \<Longrightarrow> c2s p = b # bs \<Longrightarrow> b = B" by blast
  let ?e = "\<lparr>en_accept = \<lparr>acc_ret = x, acc_errno = 0, acc_rcvbuf = None, acc_sndbuf = None\<rparr>,
    en_recv_header = RecvOk (take 48 B), en_recv_body = RecvOk (drop 48 B), en_send = SendOk 0\<rparr>"
  have "delivers st fd ?e" using x B by (auto simp: delivers_def accept_fresh_def)
  then show ?thesis by blast
qed

text \<open>With nothing in flight the next poll reports a connection that has something to do.\<close>

lemma poll_possible:
  assumes ok: "sys_ok Handle A Q parse st" and aw: "awake (srv st)" and idle: "in_flight (srv st) = []"
    and p: "p \<in> set (peers st)" "c2s p \<noteq> [] \<or> queue_of (sys (srv st)) p \<noteq> []"
  obtains st' where "sys_step Handle Q ser parse SrvLoop st st'" "in_flight (srv st') \<noteq> []" "todo st' = todo st"
    "peers st' = peers st"
proof -
  let ?s = "sys (srv st)"
  note C = sys_okD(4) [OF ok, unfolded chans_ok_def]
  have pend: "pending (srv st) = []" using idle by (simp add: in_flight_def)
  have armed: "interest (trace ?s) fd = Some (rearm_mask (return_values ?s fd) OR EPOLLET, True)"
    if "interest (trace ?s) fd \<noteq> None" for fd
    using aw idle that by (simp add: awake_def)
  note result = that
  have step: thesis
    if m: "type_of_mask m = Some ty" and ev: "epoll_reports (interest (trace ?s)) [(fd, m)]" "events_true st [(fd, m)]" for fd m ty
  proof -
    obtain r1 where r1: "Reactor_poll (\<lambda>_. None) [(fd, m)] (srv st) = Inr r1" using poll_one [OF m] by blast
    note P = poll_effect [OF r1]
    have q: "queue_of (sys r1) = queue_of ?s" by (rule ext) (simp only: queue_of_def world_more_fields(1) [OF P(3)])
    have "in_flight r1 \<noteq> []" using P(4) by (simp add: in_flight_def)
    moreover have "todo (put_srv r1 st) = todo st" by (simp add: todo_def peer_todo_def q)
    ultimately show thesis 
      by (intro result [OF sys_step.poll [OF refl pend ev r1]]) simp_all
  qed
  show thesis
  proof (cases "chan p")
    case None
    then have "c2s p \<noteq> []" using p(2) by simp
    let ?l = "listenfd ?s"
    have "interest (trace ?s) ?l \<noteq> None" using sys_okD(1) [OF ok] by (simp add: machine_ok_def server_ok_def)
    moreover have "return_values ?s ?l = []" using C by blast
    ultimately have "interest (trace ?s) ?l = Some (EPOLL_FLAGS_IN_ONESHOT OR EPOLLET, True)"
      using armed [of ?l] by (simp add: rearm_mask_def)
    moreover have "events_true st [(?l, EPOLLIN)]" using None p(1) by (auto simp: events_true_def epoll_bits_apart)
    ultimately show thesis using step [OF demo_reports(3) demo_reports(1)] by blast
  next
    case (Some fd)
    obtain k where k: "k < length (peers st)" "p = peers st ! k" using p(1) by (metis in_set_conv_nth)
    have c: "chan (peers st ! k) = Some fd" using Some k(2) by simp
    note F = connection_facts [OF ok k(1) c]
    show thesis
    proof (cases "return_values ?s fd = []")
      case True
      then have "interest (trace ?s) fd = Some (EPOLL_FLAGS_IN_ONESHOT OR EPOLLET, True)"
        using armed [OF F(2)] by (simp add: rearm_mask_def)
      moreover have "c2s p \<noteq> []" using p(2) Some True by simp
      then have "events_true st [(fd, EPOLLIN)]" using F(1) Some p(1) by (auto simp: events_true_def epoll_bits_apart)
      ultimately show thesis using step [OF demo_reports(3) demo_reports(1)] by blast
    next
      case False
      then have "interest (trace ?s) fd = Some (EPOLL_FLAGS_INOUT_ONESHOT OR EPOLLET, True)"
        using armed [OF F(2)] by (simp add: rearm_mask_def)
      moreover have "events_true st [(fd, EPOLLOUT)]" using F(1) by (auto simp: events_true_def epoll_bits_apart)
      ultimately show thesis using step [OF demo_reports(4) demo_reports(2)] by blast
    qed
  qed
qed

text \<open>A task in flight can be brought to a worker and handled.\<close>

lemma handled_soon:
  assumes "sys_reachable Handle A Q ser parse st" "well_behaved Handle A Q" "length (peers st) < 10000" "in_flight (srv st) \<noteq> []"
  shows "\<exists>st'. sys_run Handle Q ser parse st st' \<and> todo st' < todo st \<and> map calls (peers st') = map calls (peers st)"
  using assms(1,3,4)
proof (induction "work_left (srv st)" arbitrary: st rule: less_induct)
  case less
  let ?r = "srv st"
  note ok = sys_reachable_ok [OF less.prems(1) assms(2)] and reach = sys_reachable_server [OF less.prems(1)]
  have again: ?case if step: "sys_step Handle Q ser parse a st (put_srv r' st)" and b: "busy_step Handle ?r r'"
      and same: "mset (in_flight r') = mset (in_flight ?r)" "sys r' = sys ?r" for a r'
  proof -
    have "in_flight r' \<noteq> []" using less.prems(3) same(1) by auto
    then obtain st'' where "sys_run Handle Q ser parse (put_srv r' st) st''" "todo st'' < todo (put_srv r' st)"
      "map calls (peers st'') = map calls (peers (put_srv r' st))"
      using less.hyps [of "put_srv r' st"] busy_step_uses [OF b] sys_reachable.step [OF less.prems(1) step] less.prems(2) by auto
    moreover have "todo (put_srv r' st) = todo st" by (simp add: todo_def same(2))
    ultimately show ?thesis using sys_run_intros(2) [OF step] by auto
  qed
  show ?case
  proof (cases "\<exists>i t. i < length (workers (pool ?r)) \<and> workers (pool ?r) ! i = Running t")
    case True
    then obtain i fd ty where i: "i < length (workers (pool ?r))" "workers (pool ?r) ! i = Running (fd, ty)" by force
    obtain e where e: "delivers st fd e" using delivers_exists [OF ok less.prems(2)] by blast
    obtain st' where st': "sys_step Handle Q ser parse (SrvWorker i) st st'" using handler_runs [OF ok assms(2) i e] by blast
    from handler_uses [OF ok sys_step_ok [OF st' ok assms(2)] st' i(2)] sys_run_intros(2) [OF st' sys_run_intros(1)]
    show ?thesis by blast
  next
    case False
    have "running_of w = []" if w: "w \<in> set (workers (pool ?r))" for w
    proof -
      obtain i where "i < length (workers (pool ?r))" "w = workers (pool ?r) ! i" using w by (auto simp: in_set_conv_nth)
      with False show ?thesis by (cases w) (auto dest!: sym [of "Running _"])
    qed
    then have idle: "running (pool ?r) = []" by (simp add: running_def)
    show ?thesis
    proof (cases "pending ?r")
      case (Cons t ts)
      obtain w where w: "may_notify w (workers (pool ?r))" using may_notify_exists by blast
      show ?thesis
        by (rule again [OF sys_step.hand_over [OF refl Cons w] busy_step.add [OF Cons w] hand_over_all [OF ok reach less.prems(2) Cons w]])
    next
      case Nil
      with less.prems(3) idle have "sq_q (tasks (pool ?r)) \<noteq> []" by (simp add: in_flight_def)
      with server_pool_inv(2,3) [OF reach] obtain i where i: "i < length (workers (pool ?r))" "workers (pool ?r) ! i \<noteq> Waiting"
        "workers (pool ?r) ! i \<noteq> Finished" by (metis in_set_conv_nth)
      then have ready: "workers (pool ?r) ! i \<in> {Ready, Notified}" using False by (cases "workers (pool ?r) ! i") auto
      then have free: "running_of (workers (pool ?r) ! i) = []" by auto
      show ?thesis
        by (rule again [OF sys_step.work [OF refl i(1) free] busy_step.work [OF i(1) ready] in_flight_work [OF i(1) free]]) simp
    qed
  qed
qed

text \<open>As long as a call is unanswered the system can take one further.\<close>

lemma todo_progress:
  assumes reach: "sys_reachable Handle A Q ser parse st" and wb: "well_behaved Handle A Q" and few: "length (peers st) < 10000"
    and p: "p \<in> set (peers st)" "length (completed (cli p)) \<noteq> length (calls p)"
  shows "\<exists>st'. sys_run Handle Q ser parse st st' \<and> todo st' < todo st \<and> map calls (peers st') = map calls (peers st)"
proof -
  note ok = sys_reachable_ok [OF reach wb]
  obtain k where k: "k < length (peers st)" "p = peers st ! k" using p(1) by (metis in_set_conv_nth)
  obtain ms rs consumed where peer: "peer_ok Handle Q parse (sys (srv st)) p ms rs consumed" using sys_okD(5) [OF ok p(1)] by blast
  note L = peer_lengths [OF ok p(1)]
  have put: "put_peer k q st = put_srv (srv st) (put_peer k q st)" for q by (simp add: put_srv_def put_peer_def)
  have client: ?thesis if step: "sys_step Handle Q ser parse (Client k) st (put_peer k q st)"
      and q: "peer_todo (sys (srv st)) q < peer_todo (sys (srv st)) p" "calls q = calls p" for q
  proof -
    have "sys_ok Handle A Q parse (put_srv (srv st) (put_peer k q st))" using sys_step_ok [OF step ok wb] by (simp only: put [symmetric])
    then have "todo (put_srv (srv st) (put_peer k q st)) < todo st" by (rule todo_less [OF ok _ k(1)]) (use q(1) k(2) in simp)
    then have "todo (put_peer k q st) < todo st" by (simp only: put [symmetric])
    moreover have "map calls (peers (put_peer k q st)) = map calls (peers st)" using k q(2) by simp
    ultimately show ?thesis using sys_run_intros(2) [OF step sys_run_intros(1)] by blast
  qed
  consider "PendingRequests (cli p) \<noteq> []" | "s2c p \<noteq> []" | "c2s p \<noteq> [] \<or> queue_of (sys (srv st)) p \<noteq> []"
    using L p(2) by fastforce
  then show ?thesis
  proof cases
    case 1
    have len: "length [NUL, NUL, NUL] = 3" "length (replicate 1024 NUL) = MAX_BUFFER" by (simp_all add: rpc_consts)
    obtain c where c: "Client_HandleEvent parse [NUL, NUL, NUL] (replicate 1024 NUL) [] (SendOk 0) (RecvErr EAGAIN)
        (Connfd (cli p), WRITE_EVENT) (cli p) = Inr c"
      "peer_ok Handle Q parse (sys (srv st)) (p\<lparr>cli := c, c2s := c2s p @ sent_between (cli p) c\<rparr>)
        (ms @ take 1 (PendingRequests (cli p))) rs consumed"
      using push_peer [OF peer len] by blast
    have "length (c2s p @ sent_between (cli p) c) = length ms + 1" "length (c2s p) = length ms"
      using c(2) peer 1 by (auto simp: peer_ok_def Suc_le_eq dest!: list_all2_lengthD)
    moreover have "length (calls p) = length (history p) + length ms + 1 + length (PendingRequests c)"
      using arg_cong [OF conjunct1 [OF conjunct2 [OF conjunct2 [OF c(2) [unfolded peer_ok_def]]]], of length] 1
      by (simp add: Suc_le_eq)
    ultimately have "peer_todo (sys (srv st)) (p\<lparr>cli := c, c2s := c2s p @ sent_between (cli p) c\<rparr>) < peer_todo (sys (srv st)) p"
      using L by (simp add: peer_todo_def queue_of_def)
    then show ?thesis by (rule client [OF sys_step.push [OF k(1) k(2) len c(1)]]) simp
  next
    case 2
    then obtain b bs where b: "s2c p = b # bs" by (cases "s2c p") auto
    have data: "length (replicate 4096 NUL) = 4096" by simp
    obtain c x where c: "Client_HandleEvent parse [] [] (replicate 4096 NUL) (SendOk 0) (RecvOk b) (Connfd (cli p), READ_EVENT) (cli p) = Inr c"
      "peer_ok Handle Q parse (sys (srv st)) (p\<lparr>cli := c, s2c := bs\<rparr>) ms (tl rs) (consumed @ [x])"
      using receive_peer [OF peer b data] by blast
    have "length (calls p) = length (history p) + length ms + length (PendingRequests c)" "length (c2s p) = length ms"
      using arg_cong [OF conjunct1 [OF conjunct2 [OF conjunct2 [OF c(2) [unfolded peer_ok_def]]]], of length] peer
      by (auto simp: peer_ok_def dest!: list_all2_lengthD)
    then have "peer_todo (sys (srv st)) (p\<lparr>cli := c, s2c := bs\<rparr>) < peer_todo (sys (srv st)) p"
      using L b by (simp add: peer_todo_def queue_of_def)
    then show ?thesis by (rule client [OF sys_step.receive [OF k(1) k(2) b data c(1)]]) simp
  next
    case 3
    show ?thesis
    proof (cases "in_flight (srv st) = []")
      case True
      obtain st1 where 1: "sys_step Handle Q ser parse SrvLoop st st1" "in_flight (srv st1) \<noteq> []" "todo st1 = todo st" "peers st1 = peers st"
        by (rule poll_possible [OF ok sys_reachable_awake [OF reach wb few] True p(1) 3])
      with handled_soon [OF sys_reachable.step [OF reach 1(1)] wb] few sys_run_intros(2) [OF 1(1)] show ?thesis by metis
    qed (use handled_soon [OF reach wb few] in blast)
  qed
qed

lemma all_answered:
  assumes "sys_reachable Handle A Q ser parse st" "well_behaved Handle A Q" "length (peers st) < 10000"
  shows "\<exists>st'. sys_run Handle Q ser parse st st' \<and> map calls (peers st') = map calls (peers st) \<and>
    (\<forall>p \<in> set (peers st'). length (completed (cli p)) = length (calls p))"
  using assms(1,3)
proof (induction "todo st" arbitrary: st rule: less_induct)
  case less
  show ?case
  proof (cases "\<forall>p \<in> set (peers st). length (completed (cli p)) = length (calls p)")
    case True
    with sys_run_intros(1) show ?thesis by blast
  next
    case False
    then obtain st' where st': "sys_run Handle Q ser parse st st'" "todo st' < todo st" "map calls (peers st') = map calls (peers st)"
      using todo_progress [OF less.prems(1) assms(2) less.prems(2)] by blast
    have few: "length (peers st') < 10000" using less.prems(2) arg_cong [OF st'(3), of length] by simp
    from less.hyps [OF st'(2) sys_run_reachable [OF st'(1) less.prems(1)] few] st'(1,3) sys_run_intros(3) [OF st'(1)]
    show ?thesis by metis
  qed
qed

section \<open>Properties\<close>

text \<open>
  C3. Every call can be answered: from every reachable state of fewer than 10000 clients and
  the server, whatever has happened so far, the system can run to a state in which each call made
  has been answered with the result of the service for its own request. So no interleaving loses a
  request, a result, a wake-up or the registration of a descriptor, or blocks the two sides.
\<close>

theorem every_call_can_be_answered:
  assumes "sys_reachable Handle A Q ser parse st" "well_behaved Handle A Q" "length (peers st) < 10000"
  shows "\<exists>st'. sys_run Handle Q ser parse st st' \<and> map calls (peers st') = map calls (peers st) \<and>
    (\<forall>p \<in> set (peers st'). length (completed (cli p)) = length (calls p) \<and>
      (\<forall>j < length (calls p). fst (completed (cli p) ! j) = fst (calls p ! j) \<and>
        (\<exists>x. served_by Handle (sys (srv st')) (snd (calls p ! j), x) \<and> received parse (completed (cli p) ! j) x)))"
proof -
  obtain st' where st': "sys_run Handle Q ser parse st st'" "map calls (peers st') = map calls (peers st)"
    "\<forall>p \<in> set (peers st'). length (completed (cli p)) = length (calls p)" using all_answered [OF assms] by blast
  note ok = sys_reachable_ok [OF sys_run_reachable [OF st'(1) assms(1)] assms(2)]
  have "fst (completed (cli p) ! j) = fst (calls p ! j) \<and>
      (\<exists>x. served_by Handle (sys (srv st')) (snd (calls p ! j), x) \<and> received parse (completed (cli p) ! j) x)"
    if p: "p \<in> set (peers st')" and j: "j < length (calls p)" for p j
  proof -
    obtain ms rs consumed where "peer_ok Handle Q parse (sys (srv st')) p ms rs consumed" using sys_okD(5) [OF ok p] by blast
    note A = answers [OF this]
    have n: "length (completed (cli p)) = length (calls p)" using st'(3) p by blast
    then have "map fst (completed (cli p)) = map fst (calls p)" using A(4) by simp
    from arg_cong [OF this, of "\<lambda>l. l ! j"] A(5) [of j] j n show ?thesis by auto
  qed
  with st' show ?thesis by blast
qed

theorem every_call_can_be_answered_witness:
  "\<exists>(st :: (nat, nat, nat, string) rpc_system) st' p v. sys_reachable demo_Handle (\<lambda>_. True) (\<lambda>_ _. True) (\<lambda>s. s) (\<lambda>_ s. s) st \<and>
    (\<forall>p \<in> set (peers st). chan p = None) \<and> sys_run demo_Handle (\<lambda>_ _. True) (\<lambda>s. s) (\<lambda>_ s. s) st st' \<and>
    peers st' = [p] \<and> completed (cli p) = [(7, v)]"
proof -
  obtain r p b where r: "demo_reach r p" "quiet r" "listenfd (sys r) = 4" "map fst (calls p) = [7]" "chan p = None" "c2s p = [b]"
    "interest (trace (sys r)) = (\<lambda>_. None)(4 := Some (EPOLL_FLAGS_IN_ONESHOT OR EPOLLET, True))" "return_values (sys r) = (\<lambda>_. [])"
    by (rule demo_called)
  let ?st = "\<lparr>srv = r, peers = [p]\<rparr>"
  have st: "sys_reachable demo_Handle (\<lambda>_. True) (\<lambda>_ _. True) (\<lambda>s. s) (\<lambda>_ s. s) ?st" using r(1) by (simp add: demo_reach_def)
  obtain st' where st': "sys_run demo_Handle (\<lambda>_ _. True) (\<lambda>s. s) (\<lambda>_ s. s) ?st st'" "map calls (peers st') = [calls p]"
    "\<forall>q \<in> set (peers st'). length (completed (cli q)) = length (calls q) \<and>
      (\<forall>j < length (calls q). fst (completed (cli q) ! j) = fst (calls q ! j))"
    using every_call_can_be_answered [OF st demo_well_behaved] by fastforce
  then obtain q where q: "peers st' = [q]" "calls q = calls p" by auto
  obtain m where m: "calls p = [(7, m)]" using r(4) by auto
  then have "length (completed (cli q)) = 1" "fst (completed (cli q) ! 0) = 7" using st'(3) q by simp_all
  then have "\<exists>v. completed (cli q) = [(7, v)]" by (cases "completed (cli q)") auto
  with st st'(1) q(1) r(5) show ?thesis by (intro exI [of _ ?st] exI [of _ st'] exI [of _ q]) auto
qed

end
