(* ===== verification/ClientProgram.thy ===== *)
theory ClientProgram
  imports Apps ClientMachine
begin

text \<open>
  \<open>main\<close> of the client program (\<open>source/apps/Client.cc\<close>), up to the start of its two threads: the
  options, the two clients of the factory, and the process in which \<open>crazy_read\<close> and \<open>crazy_write\<close>
  (\<open>Apps\<close>) run. The two clients share the allocator of sequence numbers, so the process is one of
  \<open>ClientMachine\<close> with two threads and two clients.
\<close>

section \<open>The program\<close>

text \<open>
  \<open>cu1\<close>, \<open>e1\<close>, \<open>ep1\<close> answer the calls made for the first client, \<open>cu2\<close>, \<open>e2\<close>, \<open>ep2\<close> those for the
  second; \<open>u1\<close> and \<open>u2\<close> are the uninitialised options in \<open>MakeRpcClient\<close>. Each thread
  dereferences its client at once. \<open>None\<close>: an exception of jsoncpp.
\<close>

definition client_main ::
  "('f, 'j) json_lib \<Rightarrow> curl_answer \<Rightarrow> curl_answer \<Rightarrow> connect_env \<Rightarrow> connect_env \<Rightarrow> int \<Rightarrow> int \<Rightarrow>
   client_options \<Rightarrow> client_options \<Rightarrow> string list \<Rightarrow> 'a world_scheme \<Rightarrow>
   ((kv_callback, kv_value) process option \<times> 'a world_scheme) result" where
  "client_main J cu1 cu2 e1 e2 ep1 ep2 u1 u2 argv w =
     bindE (Client_GetOptions argv) (\<lambda>options.
     bindE (MakeRpcClient J cu1 e1 ep1 Guid_init options u1 ''KVGetter'' w) (\<lambda>(getter, w).
       case getter of
         None \<Rightarrow> Inr (None, w)
       | Some getter \<Rightarrow>
           bindE (MakeRpcClient J cu2 e2 ep2 Guid_init options u2 ''KVSetter'' w) (\<lambda>(setter, w).
             case setter of
               None \<Rightarrow> Inr (None, w)
             | Some setter \<Rightarrow>
                 bindE (deref getter) (\<lambda>g. bindE (deref setter) (\<lambda>s.
                   Inr (Some (process_init 2 [g, s]), w))))))"

section \<open>Lemmas\<close>

lemma GetRpcClient_connects:
  assumes "0 < ep" "connects e"
  shows "\<exists>c. GetRpcClient e ep Guid_init opt = Inr c \<and> Connect (con_socket e) (svr_ip opt) (svr_port opt) \<in> set (trace c)"
  using assms
  by (simp add: GetRpcClient_def RpcClient_init_def ClientTransport_init_def Poller_init_def RpcClient_Initialize_def
      ClientTransport_Connect_def ConnectTo_eq(1) EventHandlerRouter_init_def)
    (simp add: emit_def AddEvent_def CtrlEvent_def setnonblocking_def connects_def)

text \<open>What the factory makes of the answer of the name service.\<close>

type_synonym kv_client = "(kv_callback, kv_value) client"

lemma MakeRpcClient_found:
  assumes "RequestServiceList J cu \<lparr>svr_ip = svr_ip opt, svr_port = svr_port opt\<rparr> name w = Inr (Some rs, w')"
    and "0 < ep" "connects e"
  shows "rs = [] \<Longrightarrow> MakeRpcClient J cu e ep Guid_init opt u name w = Inr (Some (None :: kv_client option), w')"
    "rs \<noteq> [] \<Longrightarrow> \<exists>c :: kv_client. MakeRpcClient J cu e ep Guid_init opt u name w = Inr (Some (Some c), w') \<and> fresh_client c \<and>
      Connect (con_socket e) (d_ip (hd rs)) (d_port (hd rs)) \<in> set (trace c)"
proof -
  show "MakeRpcClient J cu e ep Guid_init opt u name w = Inr (Some (None :: kv_client option), w')" if "rs = []"
    using assms(1) that by (simp add: MakeRpcClient_def DiscoverServer_def)
  show "\<exists>c :: kv_client. MakeRpcClient J cu e ep Guid_init opt u name w = Inr (Some (Some c), w') \<and> fresh_client c \<and>
      Connect (con_socket e) (d_ip (hd rs)) (d_port (hd rs)) \<in> set (trace c)" if "rs \<noteq> []"
  proof -
    let ?opt = "u\<lparr>svr_ip := d_ip (hd rs), svr_port := d_port (hd rs)\<rparr>"
    obtain c :: kv_client where c: "GetRpcClient e ep Guid_init ?opt = Inr c"
      "Connect (con_socket e) (svr_ip ?opt) (svr_port ?opt) \<in> set (trace c)"
      using GetRpcClient_connects [OF assms(2,3), of ?opt] by blast
    then have "fresh_client c" by (auto simp: fresh_client_def)
    with c that assms(1) show ?thesis by (simp add: MakeRpcClient_def DiscoverServer_def)
  qed
qed

section \<open>Properties\<close>

text \<open>
  C40. The client program without \<open>-ip=\<close> or \<open>-port=\<close> exits with status 1. With them, and when its
  sockets connect, it starts a process with two threads and two clients, connected to the first
  address the name service gave for KVGetter and for KVSetter, from which everything proved of
  client processes holds; if the name service knows no server of one of them, it dereferences a null
  pointer.
\<close>

theorem client_main_starts:
  assumes "parse_int argv ''-port='' = Inr p"
    and "0 < ep1" "0 < ep2" "connects e1" "connects e2"
    and "RequestServiceList J cu1 \<lparr>svr_ip = the (parse_str argv ''-ip=''), svr_port = p\<rparr> ''KVGetter'' w = Inr (Some rs1, w1)"
    and "RequestServiceList J cu2 \<lparr>svr_ip = the (parse_str argv ''-ip=''), svr_port = p\<rparr> ''KVSetter'' w1 = Inr (Some rs2, w2)"
  shows "if parse_str argv ''-ip='' = None \<or> p = -1 then
      client_main J cu1 cu2 e1 e2 ep1 ep2 u1 u2 argv w = Inl (ProcessExit 1)
    else if rs1 = [] \<or> rs2 = [] then client_main J cu1 cu2 e1 e2 ep1 ep2 u1 u2 argv w = Inl NullDeref
    else \<exists>st g s. client_main J cu1 cu2 e1 e2 ep1 ep2 u1 u2 argv w = Inr (Some st, w2) \<and>
      proc_reachable ser parse st \<and> length (users st) = 2 \<and> map node_obj (nodes st) = [g, s] \<and>
      Connect (con_socket e1) (d_ip (hd rs1)) (d_port (hd rs1)) \<in> set (trace g) \<and>
      Connect (con_socket e2) (d_ip (hd rs2)) (d_port (hd rs2)) \<in> set (trace s)"
proof (cases "parse_str argv ''-ip='' = None \<or> p = -1")
  case True
  then show ?thesis using assms(1) by (simp add: client_main_def Client_GetOptions_def)
next
  case False
  then obtain ip where ip: "parse_str argv ''-ip='' = Some ip" by auto
  let ?opt = "\<lparr>svr_ip = ip, svr_port = p, callee = []\<rparr>"
  have o: "Client_GetOptions argv = Inr ?opt" using assms(1) ip False by (simp add: Client_GetOptions_def std_string_def)
  have q: "RequestServiceList J cu1 \<lparr>svr_ip = svr_ip ?opt, svr_port = svr_port ?opt\<rparr> ''KVGetter'' w = Inr (Some rs1, w1)"
    "RequestServiceList J cu2 \<lparr>svr_ip = svr_ip ?opt, svr_port = svr_port ?opt\<rparr> ''KVSetter'' w1 = Inr (Some rs2, w2)"
    using assms(6,7) ip by simp_all
  note G = MakeRpcClient_found [OF q(1) assms(2,4), of u1] and S = MakeRpcClient_found [OF q(2) assms(3,5), of u2]
  have null: "client_main J cu1 cu2 e1 e2 ep1 ep2 u1 u2 argv w = Inl NullDeref" if "rs1 = [] \<or> rs2 = []"
    using that G S by (cases "rs1 = []"; cases "rs2 = []") (auto simp: client_main_def o deref_def)
  have start: "\<exists>st g s. client_main J cu1 cu2 e1 e2 ep1 ep2 u1 u2 argv w = Inr (Some st, w2) \<and>
      proc_reachable ser parse st \<and> length (users st) = 2 \<and> map node_obj (nodes st) = [g, s] \<and>
      Connect (con_socket e1) (d_ip (hd rs1)) (d_port (hd rs1)) \<in> set (trace g) \<and>
      Connect (con_socket e2) (d_ip (hd rs2)) (d_port (hd rs2)) \<in> set (trace s)" if ne: "rs1 \<noteq> []" "rs2 \<noteq> []"
  proof -
    obtain g :: kv_client where g: "MakeRpcClient J cu1 e1 ep1 Guid_init ?opt u1 ''KVGetter'' w = Inr (Some (Some g), w1)" "fresh_client g"
      "Connect (con_socket e1) (d_ip (hd rs1)) (d_port (hd rs1)) \<in> set (trace g)" using G(2) [OF ne(1)] by blast
    obtain s :: kv_client where s: "MakeRpcClient J cu2 e2 ep2 Guid_init ?opt u2 ''KVSetter'' w1 = Inr (Some (Some s), w2)" "fresh_client s"
      "Connect (con_socket e2) (d_ip (hd rs2)) (d_port (hd rs2)) \<in> set (trace s)" using S(2) [OF ne(2)] by blast
    have "proc_reachable ser parse (process_init 2 [g, s])" using g(2) s(2) by (intro proc_reachable.init) simp
    with g s show ?thesis
      by (intro exI [of _ "process_init 2 [g, s]"] exI [of _ g] exI [of _ s]) (simp add: client_main_def o deref_def process_init_def)
  qed
  show ?thesis unfolding if_not_P [OF False] using null start by (simp only: split: if_split) blast
qed

theorem client_main_starts_witness:
  "\<exists>st w g s. client_main demo_json demo_answer demo_answer demo_connect demo_connect 3 5 demo_copt demo_copt
      [''client'', ''-ip=ns'', ''-port=5000''] \<lparr>trace = []\<rparr> = Inr (Some st, w) \<and>
    length (users st) = 2 \<and> map node_obj (nodes st) = [g, s]"
proof -
  let ?argv = "[''client'', ''-ip=ns'', ''-port=5000'']"
  have args: "parse_int ?argv ''-port='' = Inr 5000" "parse_str ?argv ''-ip='' = Some ''ns''" by code_simp+
  have con: "connects demo_connect" by (simp add: connects_def demo_connect_def)
  have "\<exists>rs w'. RequestServiceList demo_json demo_answer opt name w = Inr (Some rs, w') \<and> rs \<noteq> []" for opt name and w :: world
    by (simp add: RequestServiceList_def demo_answer_def demo_json_def urls Let_def)
  then obtain rs1 w1 rs2 w2 where q:
    "RequestServiceList demo_json demo_answer \<lparr>svr_ip = the (parse_str ?argv ''-ip=''), svr_port = 5000\<rparr> ''KVGetter'' \<lparr>trace = []\<rparr> =
      Inr (Some rs1, w1)" "rs1 \<noteq> []"
    "RequestServiceList demo_json demo_answer \<lparr>svr_ip = the (parse_str ?argv ''-ip=''), svr_port = 5000\<rparr> ''KVSetter'' w1 =
      Inr (Some rs2, w2)" "rs2 \<noteq> []" by metis
  from client_main_starts [where ser = "\<lambda>s. s" and parse = "\<lambda>_ _. undefined", OF args(1) _ _ con con q(1,3), of 3 5 demo_copt demo_copt]
  show ?thesis using args(2) q(2,4) by auto
qed

end
