(* ===== verification/KVServer.thy ===== *)
theory KVServer
  imports ServerMachine Apps
begin

text \<open>
  The key-value server program as a whole: \<open>main\<close> of \<open>source/apps/Server.cc\<close> starts the machine of
  \<open>ServerMachine\<close> with the services of \<open>KVService\<close>.

  The locale \<open>service_contract\<close> is what a service owes the server: a relation between its state and
  the result packets it has produced, kept by \<open>Handle\<close>. Inside it the relation is shown to hold in
  every reachable state for the packets the server has sent or still holds. Its interpretation for
  the store: the packets are the responses of one sequence of requests, which also gives the
  contents of the store.
\<close>

section \<open>The packets of a server\<close>

text \<open>The results sent to any peer, or waiting in a queue.\<close>

definition answers :: "('svc, 'app) server \<Rightarrow> byte list set" where
  "answers s = {bs. (\<exists>fd. Send fd bs \<in> set (trace s)) \<or> (\<exists>fd. bs \<in> result_bytes ` set (return_values s fd))}"

definition sent_packets :: "io list \<Rightarrow> byte list set" where
  "sent_packets tr = {bs. \<exists>fd. Send fd bs \<in> set tr}"

lemma answers_eq: "answers s = sent_packets (trace s) \<union> (\<Union>fd. result_bytes ` set (return_values s fd))"
  by (auto simp: answers_def sent_packets_def)

lemma sent_packets_simps [simp]:
  "sent_packets [] = {}" "sent_packets (xs @ ys) = sent_packets xs \<union> sent_packets ys"
  "sent_packets (Send fd bs # xs) = insert bs (sent_packets xs)"
  "sent_packets (LogDev f as # xs) = sent_packets xs" "sent_packets (LogErr f as # xs) = sent_packets xs"
  "sent_packets (Recv fd n # xs) = sent_packets xs" "sent_packets (Accept fd # xs) = sent_packets xs"
  "sent_packets (SetSockBuf fd # xs) = sent_packets xs" "sent_packets (Close fd # xs) = sent_packets xs"
  "sent_packets (SetNonblocking fd # xs) = sent_packets xs" "sent_packets (EpollCtl a fd ev # xs) = sent_packets xs"
  "sent_packets (EpollWait evs # xs) = sent_packets xs" "sent_packets (Socket # xs) = sent_packets xs"
  "sent_packets (Bind fd ip p # xs) = sent_packets xs" "sent_packets (Listen fd k # xs) = sent_packets xs"
  "sent_packets (HttpInit # xs) = sent_packets xs" "sent_packets (HttpPost url x # xs) = sent_packets xs"
  "sent_packets (HttpCleanup # xs) = sent_packets xs"
  by (auto simp: sent_packets_def)

lemma answers_cong:
  "sent_packets (trace s') = sent_packets (trace s) \<Longrightarrow> return_values s' = return_values s \<Longrightarrow> answers s' = answers s"
  by (simp add: answers_eq)

text \<open>No handler but the sender sends.\<close>

lemma handle_message_sent:
  assumes "handle_message Handle fd m s = Inr s'"
  shows "sent_packets (trace s') = sent_packets (trace s)"
  using assms
  by (auto simp: handle_message_def Let_def bindE_eq_Inr FileDescriptorEventDone_eq Pipe_Write_eq
      split: if_split_asm option.split_asm)

lemma Accept_sent:
  fixes s :: "('svc, 'app) server"
  shows "sent_packets (trace (snd (ServerTransport_Accept e s))) = sent_packets (trace s)"
  by (cases "acc_ret e < 0"; cases "acc_rcvbuf e"; cases "acc_sndbuf e")
    (simp_all add: ServerTransport_Accept_def Let_def)

lemma accept_sent:
  fixes s :: "('svc, 'app) server"
  assumes "ServerTransport_HandleReadEvent e fd s = Inr s'"
  shows "sent_packets (trace s') = sent_packets (trace s)"
proof -
  obtain c s1 where acc: "ServerTransport_Accept e s = (c, s1)" by fastforce
  with Accept_sent [of e s] have "sent_packets (trace s1) = sent_packets (trace s)" by simp
  moreover obtain l where "s' = ModEvent (listenfd s1) EPOLL_FLAGS_IN_ONESHOT
      (AddEvent c EPOLL_FLAGS_IN_ONESHOT (s1\<lparr>handler_list := l\<rparr>))"
    using assms acc by (auto simp: ServerTransport_HandleReadEvent_def Let_def bindE_eq_Inr split: if_splits)
  ultimately show ?thesis by simp
qed

lemma close_sent:
  fixes s :: "('svc, 'app) server"
  shows    "ServerTransport_HandleCloseEvent fd s = Inr s' \<Longrightarrow> sent_packets (trace s') = sent_packets (trace s)"
  by (auto simp: ServerTransport_HandleCloseEvent_def Let_def bindE_eq_Inr)
lemma RequestHandler_sent:
  assumes "RequestHandler_HandleReadEvent Handle r1 r2 fd s = Inr s'"
  shows "sent_packets (trace s') = sent_packets (trace s)"
proof (cases "request_of r1 r2")
  case (Some m)
  then have "handle_message Handle fd m (recv_trace fd r1 s) = Inr s'" using assms by (simp add: HandleReadEvent_request)
  from handle_message_sent [OF this] show ?thesis by (simp add: recv_trace_def split: recv_result.split_asm)
next
  case None
  with assms show ?thesis
    by (auto simp: request_of_def RequestHandler_HandleReadEvent_def Let_def init_parameters rpc_consts
        write_at_def split: recv_result.split_asm if_split_asm)
qed
lemma ResultSender_sends:
  assumes "ResultSender_HandleWriteEvent r fd s = Inr s'"
  shows "\<exists>x xs. return_values s fd = x # xs \<and> return_values s' = (return_values s)(fd := xs) \<and>
    sent_packets (trace s') = insert (result_bytes x) (sent_packets (trace s)) \<and> app s' = app s"
  using assms
  by (cases r) (auto simp: ResultSender_HandleWriteEvent_def Pipe_Read_def pipe_at_def Let_def bindE_eq_Inr neq_Nil_conv
        assertE_eq_Inr FileDescriptorEventDone_eq emit_def split: if_split_asm)
lemma Dispatch_sent:
  "Dispatch so_error evs w = Inr (ts, w') \<Longrightarrow> sent_packets (trace w') = sent_packets (trace w)"
proof -
  have one: "sent_packets (trace w') = sent_packets (trace w)" if "Dispatch_event so_error ev w = Inr (t, w')" for ev t w w'
    using that by (auto simp: Dispatch_event_def Let_def split: if_splits option.splits prod.splits)
  have "sent_packets (trace w') = sent_packets (trace w)" if "Dispatch_loop so_error evs w = Inr (ts, w')" for evs ts w w'
    using that by (induction evs arbitrary: w ts) (auto simp: bindE_eq_Inr dest: one)
  then show "Dispatch so_error evs w = Inr (ts, w') \<Longrightarrow> sent_packets (trace w') = sent_packets (trace w)"
    by (fastforce simp: Dispatch_def)
qed

text \<open>What a handler does to the services' state and the packets.\<close>

definition produces :: "('svc, 'app) service_handle \<Rightarrow> ('svc, 'app) server \<Rightarrow> ('svc, 'app) server \<Rightarrow> bool" where
  "produces Handle s s' \<longleftrightarrow>
     (app s' = app s \<and> answers s' \<subseteq> answers s) \<or>
     (\<exists>svc m res. Handle svc m (app s) = Inr (res, app s') \<and>
        answers s' \<subseteq> insert (result_bytes (res\<lparr>result_seqno := seqno (header m)\<rparr>)) (answers s))"

lemma RequestHandler_produces:
  assumes "RequestHandler_HandleReadEvent Handle r1 r2 fd s = Inr s'" "valid_fd fd"
  shows "produces Handle s s'"
proof -
  note sent = RequestHandler_sent [OF assms(1)]
  have same: ?thesis if "same_but_log s s'"
    using same_but_log_fields [OF that] answers_cong [OF sent] by (simp add: produces_def)
  show ?thesis
  proof (cases "request_of r1 r2")
    case None
    with assms(1) HandleReadEvent_no_request same show ?thesis by blast
  next
    case (Some m)
    let ?s = "recv_trace fd r1 s"
    from assms(1) Some have h: "handle_message Handle fd m ?s = Inr s'" by (simp add: HandleReadEvent_request)
    show ?thesis
    proof (cases "service_for m s")
      case None
      with h have "same_but_log ?s s'" by (intro handle_message_refused [of m]) simp_all
      with same_but_log_trans [OF recv_trace_same] same show ?thesis by blast
    next
      case svc: (Some svc)
      then obtain name where "magic (header m) = RPC_MAGIC_NUMBER" "version (header m) = RPC_VERSION"
        "cstr (servicename (header m)) = Inr name" "dictionary ?s name = Some svc"
        by (auto simp: service_for_def split: if_splits sum.splits)
      then obtain res app' where H: "Handle svc m (app s) = Inr (res, app')"
        using h by (auto simp: handle_message_def Let_def bindE_eq_Inr)
      with handle_message_served [of m ?s svc Handle res app' fd] svc assms(2) h
      have s': "s' = served fd m res app' ?s" by simp
      then have "app s' = app'" "\<And>fd'. set (return_values s' fd') \<subseteq>
          insert (res\<lparr>result_seqno := seqno (header m)\<rparr>) (set (return_values s fd'))"
        by (auto simp: served_def Let_def)
      moreover from this have "answers s' \<subseteq> insert (result_bytes (res\<lparr>result_seqno := seqno (header m)\<rparr>)) (answers s)"
        unfolding answers_eq sent by blast
      ultimately show ?thesis using H unfolding produces_def by blast
    qed
  qed
qed

lemma ResultSender_produces:
  assumes "ResultSender_HandleWriteEvent r fd s = Inr s'"
  shows "produces Handle s s'"
proof -
  obtain x xs where x: "return_values s fd = x # xs" "return_values s' = (return_values s)(fd := xs)"
    "sent_packets (trace s') = insert (result_bytes x) (sent_packets (trace s))" "app s' = app s"
    using ResultSender_sends [OF assms] by blast
  have "result_bytes x \<in> answers s" using x(1) by (auto simp: answers_eq intro!: exI [of _ fd])
  moreover have "set (return_values s' fd') \<subseteq> set (return_values s fd')" for fd' using x(1,2) by auto
  ultimately have "answers s' \<subseteq> answers s"
    unfolding answers_eq x(3) by blast
  with x(4) show ?thesis by (simp add: produces_def)
qed

lemma HandleEvent_log_sent:
  assumes "handler_of (handler_list s) fd ty = None" "valid_fd fd" "is_event ty"
    "Server_HandleEvent Handle e (fd, ty) s = Inr s'"
  shows "produces Handle s s'"
  using assms by (auto simp: HandleEvent_event produces_def answers_eq)

lemma handler_produces:
  fixes s :: "('svc, 'app) server"
  assumes ok: "server_ok s" "task_ok s (fd, ty)" and h: "Server_HandleEvent Handle e (fd, ty) s = Inr s'"
  shows "produces Handle s s'"
proof -
  note v = task_valid [OF ok]
  have "ty = 0 \<or> is_event ty" using ok(2) by (auto simp: task_ok_def)
  then show ?thesis
  proof
    assume "ty = 0"
    with h show ?thesis by (simp add: HandleEvent_zero produces_def)
  next
    assume ty: "is_event ty"
    show ?thesis
    proof (cases "fd = listenfd s")
      case True
      have L: "valid_fd (listenfd s)" "listen_routes s" using ok by (auto simp: server_ok_def)
      show ?thesis
      proof (cases "ty = READ_EVENT")
        case r: True
        with h True L have a: "ServerTransport_HandleReadEvent (en_accept e) (listenfd s) s = Inr s'"
          by (simp add: HandleEvent_listen)
        then have "app s' = app s" "return_values s' = return_values s"
          by (cases rule: HandleReadEvent_accepts; simp)+
        with answers_cong [OF accept_sent [OF a]] show ?thesis by (simp add: produces_def)
      next
        case False
        with L ty True have "handler_of (handler_list s) fd ty = None" by (simp add: listen_routes_def)
        from HandleEvent_log_sent [OF this _ ty h] v show ?thesis by simp
      qed
    next
      case False
      then have C: "conn_routes s fd" using ok(1) v by (auto simp: server_ok_def)
      note H = HandleEvent_conn [OF _ C, of Handle e]
      from ty consider "ty = READ_EVENT" | "ty = WRITE_EVENT" | "ty = CLOSE_EVENT" by (auto simp: is_event_def)
      then show ?thesis
      proof cases
        case 1
        with h v H RequestHandler_produces [of Handle _ _ fd s s'] show ?thesis by simp
      next
        case 2
        with h v H ResultSender_produces [of _ fd s s'] show ?thesis by simp
      next
        case 3
        with h v H have c: "ServerTransport_HandleCloseEvent fd s = Inr s'" by simp
        obtain s1 where "ServerTransport_HandleCloseEvent fd s = Inr s1" "app s1 = app s" "return_values s1 = return_values s"
          by (rule HandleCloseEvent_closes [of fd s]) (use v in simp_all)
        with c answers_cong [OF close_sent [OF c]] show ?thesis by (simp add: produces_def)
      qed
    qed
  qed
qed

lemma step_produces:
  assumes "server_step Handle r r'" "machine_ok r"
  shows "produces Handle (sys r) (sys r')"
  using assms(1)
proof (cases rule: server_step.cases)
  case (poll evs so_error)
  then obtain ts where "Dispatch so_error evs (sys r) = Inr (ts, sys r')"
    by (auto simp: Reactor_poll_def bindE_eq_Inr)
  from Dispatch_sent [OF this] world_more_fields [OF poll_effect(3) [OF poll(3)]] show ?thesis
    by (simp add: produces_def answers_eq)
next
  case (handle i t e s')
  have "t \<in> set (in_flight r)" using running_mem [OF handle(1,2)] by (simp add: in_flight_def)
  with assms(2) handle show ?thesis
    by (cases t) (auto simp: machine_ok_def intro!: handler_produces)
qed (simp_all add: produces_def Reactor_add_def split: list.split)

section \<open>What a service owes the server\<close>

locale service_contract =
  fixes Handle :: "'svc \<Rightarrow> RpcMessage \<Rightarrow> 'app \<Rightarrow> (RpcResult \<times> 'app) result"
    and J :: "'app \<Rightarrow> byte list set \<Rightarrow> bool"
  assumes keeps: "J a Q \<Longrightarrow> Handle svc m a = Inr (r, a') \<Longrightarrow> J a' (insert (result_bytes (r\<lparr>result_seqno := i\<rparr>)) Q)"
    and fewer: "J a Q \<Longrightarrow> Q' \<subseteq> Q \<Longrightarrow> J a Q'"
begin

lemma produces_keeps: "produces Handle s s' \<Longrightarrow> J (app s) (answers s) \<Longrightarrow> J (app s') (answers s')"
  unfolding produces_def using keeps fewer by metis

lemma steps_keep:
  "(server_step Handle)\<^sup>*\<^sup>* r r' \<Longrightarrow> machine_ok r \<Longrightarrow> J (app (sys r)) (answers (sys r)) \<Longrightarrow>
   machine_ok r' \<and> J (app (sys r')) (answers (sys r'))"
proof (induction rule: rtranclp_induct)
  case (step r1 r2)
  with server_step_ok [OF step(2)] produces_keeps [OF step_produces [OF step(2)]] show ?case by blast
qed simp

end

section \<open>The store keeps the contract\<close>

fun kv_encode :: "kv_proto \<Rightarrow> kv_out \<Rightarrow> string" where
  "kv_encode P (OGet rsp) = ser_GetValueRsp P rsp"
| "kv_encode P (OSet rsp) = ser_SetValueRsp P rsp"

text \<open>A packet of a response: as long as an \<open>RpcResult\<close>, and its buffer holds the encoded response.\<close>

definition kv_packet :: "kv_proto \<Rightarrow> kv_out \<Rightarrow> byte list \<Rightarrow> bool" where
  "kv_packet P out bs \<longleftrightarrow> length bs = sizeof_RpcResult \<and> cstr (drop 4 bs) = Inr (until_nul (kv_encode P out))"

definition kv_history :: "kv_proto \<Rightarrow> kv \<Rightarrow> byte list set \<Rightarrow> bool" where
  "kv_history P b Q \<longleftrightarrow> (\<exists>ops outs. kv_run ops KVServiceBase_init = Inr (outs, b) \<and>
     (\<forall>bs \<in> Q. \<exists>out \<in> set outs. kv_packet P out bs))"

lemma kv_run_append:
  "kv_run xs b = Inr (outs, b') \<Longrightarrow> kv_run ys b' = Inr (outs', b'') \<Longrightarrow> kv_run (xs @ ys) b = Inr (outs @ outs', b'')"
proof (induction xs arbitrary: b outs)
  case (Cons op xs)
  then show ?case by (cases op) (auto simp: bindE_eq_Inr)
qed simp

lemma kv_run_valid: "kv_run ops b = Inr (outs, b') \<Longrightarrow> list_all kv_op_valid ops"
proof (induction ops arbitrary: b outs)
  case (Cons op ops)
  then show ?case
    by (cases op)
      (auto simp: bindE_eq_Inr KVGetterImpl_GetValue_def KVSetterImpl_SetValue_def GetValueInternal_def
        SetValueInternal_def dict_at_valid Let_def split: if_splits)
qed simp

lemma ToRpcResult_packet:
  assumes "ToRpcResult ser res rsp = Inr r" "wf_result res" "kv_encode P out = ser rsp"
  shows "kv_packet P out (result_bytes (r\<lparr>result_seqno := i\<rparr>))"
proof -
  obtain buf where "r = res\<lparr>return_buffer := buf\<rparr>"
    "write_at 0 (until_nul (ser rsp) @ [NUL]) (return_buffer res) = Inr buf"
    using assms(1) by (auto simp: ToRpcResult_def bindE_eq_Inr PackProtoStruct_until_nul)
  with assms(2,3) show ?thesis
    by (auto simp: kv_packet_def result_bytes_def sizeof_RpcResult_def wf_result_def rpc_consts write_at_eq_Inr
        cstr_append_NUL)
qed

lemma HandleRPC_packet:
  assumes "HandleRPC data res parse ser F m b = Inr (r, b')" "wf_result res"
  obtains req rsp where "F req b = Inr (rsp, b')" "\<And>P out i. kv_encode P out = ser rsp \<Longrightarrow>
    kv_packet P out (result_bytes (r\<lparr>result_seqno := i\<rparr>))"
  using assms ToRpcResult_packet [of ser res] by (auto simp: HandleRPC_def bindE_eq_Inr)

lemma KV_Handle_packet:
  assumes "KV_Handle P data res svc m b = Inr (r, b')" "wf_result res"
  shows "\<exists>op out. kv_run [op] b = Inr ([out], b') \<and> kv_packet P out (result_bytes (r\<lparr>result_seqno := i\<rparr>))"
proof (cases svc)
  case KVGetterImpl
  with assms(1) have "HandleRPC data res (parse_GetValueReq P) (ser_GetValueRsp P) KVGetterImpl_GetValue m b = Inr (r, b')"
    by (simp add: KV_Handle_def)
  then obtain req rsp where "KVGetterImpl_GetValue req b = Inr (rsp, b')"
    "kv_packet P (OGet rsp) (result_bytes (r\<lparr>result_seqno := i\<rparr>))"
    by (rule HandleRPC_packet [OF _ assms(2)]) auto
  then show ?thesis by (intro exI [of _ "KGet req"] exI [of _ "OGet rsp"]) simp
next
  case KVSetterImpl
  with assms(1) have "HandleRPC data res (parse_SetValueReq P) (ser_SetValueRsp P) KVSetterImpl_SetValue m b = Inr (r, b')"
    by (simp add: KV_Handle_def)
  then obtain req rsp where "KVSetterImpl_SetValue req b = Inr (rsp, b')"
    "kv_packet P (OSet rsp) (result_bytes (r\<lparr>result_seqno := i\<rparr>))"
    by (rule HandleRPC_packet [OF _ assms(2)]) auto
  then show ?thesis by (intro exI [of _ "KSet req"] exI [of _ "OSet rsp"]) simp
qed

interpretation kv_contract: service_contract "KV_Handle P data res" "\<lambda>b Q. wf_result res \<longrightarrow> kv_history P b Q"
  for P data res
proof
  fix b Q svc m r b' i
  assume hist: "wf_result res \<longrightarrow> kv_history P b Q" and h: "KV_Handle P data res svc m b = Inr (r, b')"
  show "wf_result res \<longrightarrow> kv_history P b' (insert (result_bytes (r\<lparr>result_seqno := i\<rparr>)) Q)"
  proof
    assume "wf_result res"
    with h obtain op out where op: "kv_run [op] b = Inr ([out], b')" "kv_packet P out (result_bytes (r\<lparr>result_seqno := i\<rparr>))"
      using KV_Handle_packet by blast
    obtain ops outs where "kv_run ops KVServiceBase_init = Inr (outs, b)" "\<forall>bs \<in> Q. \<exists>out \<in> set outs. kv_packet P out bs"
      using hist \<open>wf_result res\<close> by (auto simp: kv_history_def)
    with op kv_run_append [of ops KVServiceBase_init outs b "[op]" "[out]" b'] show
      "kv_history P b' (insert (result_bytes (r\<lparr>result_seqno := i\<rparr>)) Q)"
      unfolding kv_history_def by (intro exI [of _ "ops @ [op]"] exI [of _ "outs @ [out]"]) auto
  qed
qed (unfold kv_history_def, blast)

text \<open>Nothing is sent while the server starts.\<close>

lemma register_all_sent:
  "register_all J opt l s = Inr s' \<Longrightarrow> sent_packets (trace s') = sent_packets (trace s)"
proof (induction l arbitrary: s)
  case (Cons x l)
  then obtain name svc c s1 where x: "x = (name, svc, c)" and s1: "RegisterService J c opt name svc s = Inr s1"
    and s': "register_all J opt l s1 = Inr s'" by (cases x) (auto simp: bindE_eq_Inr)
  have "sent_packets (trace s1) = sent_packets (trace s)"
    using s1 by (auto simp: RegisterService_def RegisterMyself_def AddProxy_def Let_def urls split: if_split_asm)
  with Cons.IH [OF s'] show ?case by simp
qed simp

lemma server_start_answers:
  assumes "server_start J e opt svcs ep g a = Inr r"
  shows "answers (sys r) = {} \<and> app (sys r) = a"
proof -
  obtain s0 s s' where s0: "RpcServer_init ep g a = Inr s0" and s: "register_all J opt svcs s0 = Inr s"
    and s': "ServerTransport_Listen e (ip_addr opt) (port opt) s = Inr s'" and r: "Reactor_init s' = Inr r"
    using assms by (auto simp: server_start_def Main_start_def bindE_eq_Inr)
  have "sent_packets (trace s0) = {}" using s0 by (auto simp: RpcServer_init_def Poller_init_def bindE_eq_Inr)
  moreover have "sent_packets (trace s') = sent_packets (trace s)"
    using s' by (auto simp: ServerTransport_Listen_def create_listenfd_def Let_def bindE_eq_Inr assertE_eq_Inr
        split: if_split_asm)
  ultimately have "sent_packets (trace s') = {}" using register_all_sent [OF s] by simp
  moreover have "sys r = s'" using r by (auto simp: Reactor_init_def bindE_eq_Inr)
  ultimately show ?thesis
    using server_start_state(5) [OF assms] server_start_binds [OF assms] by (simp add: answers_eq)
qed

lemma server_main_started:
  assumes "server_main J e c1 c2 ep g argv = Inr r"
  obtains opt where "server_start J e opt [(''KVGetter'', KVGetterImpl, c1), (''KVSetter'', KVSetterImpl, c2)] ep g KVServiceBase_init = Inr r"
proof -
  obtain opt where "Server_GetOptions argv = Inr opt" using assms by (auto simp: server_main_def bindE_eq_Inr)
  with assms that show thesis by (simp add: server_main_start)
qed

lemma kv_server_history:
  assumes "server_main J e c1 c2 ep g argv = Inr r0" "(server_step (KV_Handle P data res))\<^sup>*\<^sup>* r0 r" "wf_result res"
  shows "kv_history P (app (sys r)) (answers (sys r))"
proof -
  obtain opt where st: "server_start J e opt [(''KVGetter'', KVGetterImpl, c1), (''KVSetter'', KVSetterImpl, c2)] ep g KVServiceBase_init = Inr r0"
    by (rule server_main_started [OF assms(1)])
  have "kv_history P (app (sys r0)) (answers (sys r0))"
    using server_start_answers [OF st] by (auto simp: kv_history_def intro!: exI [of _ "[]"])
  with kv_contract.steps_keep [OF assms(2) server_start_machine_ok [OF st]] assms(3) show ?thesis by blast
qed

section \<open>An example\<close>

text \<open>A server that was started, accepted connection 6 and answered a request for a value on it.\<close>

definition demo_proto :: kv_proto where
  "demo_proto = \<lparr>ser_GetValueReq = (\<lambda>_. []), parse_GetValueReq = (\<lambda>_. \<lparr>get_id = 7\<rparr>), ser_GetValueRsp = rsp_name,
     parse_GetValueRsp = (\<lambda>s. \<lparr>rsp_name = s\<rparr>), ser_SetValueReq = (\<lambda>_. []), parse_SetValueReq = (\<lambda>s. \<lparr>set_id = 7, set_name = s\<rparr>),
     ser_SetValueRsp = (\<lambda>_. []), parse_SetValueRsp = (\<lambda>_. \<lparr>rsp_code = 0\<rparr>)\<rparr>"

abbreviation demo_KV :: "kv_service \<Rightarrow> RpcMessage \<Rightarrow> kv \<Rightarrow> (RpcResult \<times> kv) result" where
  "demo_KV \<equiv> KV_Handle demo_proto (replicate 4096 NUL) demo_result"

lemma demo_KV_get: "\<exists>r b'. demo_KV KVGetterImpl demo_message KVServiceBase_init = Inr (r, b')"
proof -
  have v: "kv_valid 7" by (simp add: kv_valid_nonneg)
  have "NUL # replicate 479 NUL = replicate 480 NUL" by (simp flip: replicate_Suc)
  then have "ParseProtoStruct (replicate 4096 NUL) (parse_GetValueReq demo_proto) (parameters (body demo_message)) = Inr \<lparr>get_id = 7\<rparr>"
    using ParseProtoStruct_cstr [of "[]" "replicate 4096 NUL" "parse_GetValueReq demo_proto" "replicate 479 NUL"]
    by (simp add: demo_message_def demo_proto_def)
  moreover have "KVGetterImpl_GetValue \<lparr>get_id = 7\<rparr> KVServiceBase_init =
      Inr (\<lparr>rsp_name = ''not found''\<rparr>, emit (LogDev ''KVGetterImpl::GetValue return %s\<newline>'' [LStr ''not found'']) KVServiceBase_init)"
    by (simp add: KVGetterImpl_GetValue_def GetValueInternal_abs v) (simp add: kv_abs_def KVServiceBase_init_def)
  moreover have "\<exists>r. ToRpcResult (ser_GetValueRsp demo_proto) demo_result \<lparr>rsp_name = ''not found''\<rparr> = Inr r"
    by (simp add: ToRpcResult_def PackProtoStruct_until_nul demo_proto_def demo_result_def write_at_def rpc_consts)
  ultimately show ?thesis by (auto simp: KV_Handle_def HandleRPC_def)
qed

lemma demo_KV_run:
  obtains r0 r where "server_main demo_json0 demo_listen demo_answer demo_answer 3 (-1) [''server'', ''-namesvr_ip=ns''] = Inr r0"
    "(server_step demo_KV)\<^sup>*\<^sup>* r0 r" "return_values (sys r) 6 \<noteq> []"
proof -
  let ?argv = "[''server'', ''-namesvr_ip=ns'']"
  have a: "parse_int ?argv ''-namesvr_port='' = Inr (-1)" "parse_int ?argv ''-port='' = Inr (-1)"
    "parse_str ?argv ''-namesvr_ip='' = Some ''ns''" "parse_str ?argv ''-ip='' = None" by code_simp+
  then obtain opt where opt: "Server_GetOptions ?argv = Inr opt"
    by (cases "parse_str ?argv ''-log=''") (auto simp: Server_GetOptions_def std_string_def)
  let ?svcs = "[(''KVGetter'', KVGetterImpl, demo_answer), (''KVSetter'', KVSetterImpl, demo_answer)]"
  obtain r0 where st: "server_start demo_json0 demo_listen opt ?svcs 3 (-1) KVServiceBase_init = Inr r0"
    using server_start_ok [of demo_listen 3 demo_json0 opt ?svcs "-1" KVServiceBase_init]
    by (auto simp: demo_listen_def MAX_FILE_DESCRIPTORS_def)
  then have main: "server_main demo_json0 demo_listen demo_answer demo_answer 3 (-1) ?argv = Inr r0"
    by (simp add: server_main_start [OF opt])
  note S = server_start_state [OF st]
  obtain r where r: "(server_step demo_KV)\<^sup>*\<^sup>* r0 r" "server_reachable demo_KV r" "busy (6, READ_EVENT) r" "listenfd (sys r) = 4"
    "interest (trace (sys r)) 6 \<noteq> None" "return_values (sys r) = (\<lambda>_. [])" "ExtraFlags (sys r) = EPOLLET"
    "dictionary (sys r) = dictionary (sys r0)" "app (sys r) = app (sys r0)" "conn_routes (sys r) 6"
    by (rule run_accept [OF server_reachable.start [OF st] start_quiet [OF st]]) (simp_all add: S demo_listen_def)
  obtain res b' where H: "demo_KV KVGetterImpl demo_message (app (sys r)) = Inr (res, b')"
    using demo_KV_get server_start_answers [OF st] r(9) by auto
  have "service_for demo_message (sys r) = Some KVGetterImpl"
    using demo_service S(7) r(8) by (simp add: service_for_def demo_server_def demo_message_def demo_header_def
        split: if_splits sum.splits)
  then have "RequestHandler_HandleReadEvent demo_KV demo_recv (RecvOk []) 6 (sys r) =
      Inr (served 6 demo_message res b' (recv_trace 6 demo_recv (sys r)))"
    using handle_message_served [of demo_message "recv_trace 6 demo_recv (sys r)" KVGetterImpl demo_KV res b' 6] H
    by (simp add: HandleReadEvent_request [OF demo_request] MAX_FILE_DESCRIPTORS_def)
  then have h: "Server_HandleEvent demo_KV (demo_env\<lparr>en_accept := demo_accept\<lparr>acc_ret := -1\<rparr>\<rparr>) (6, READ_EVENT) (sys r) =
      Inr (served 6 demo_message res b' (recv_trace 6 demo_recv (sys r)))"
    using HandleEvent_conn(1) [OF _ r(10)] by (simp add: demo_env_def MAX_FILE_DESCRIPTORS_def)
  have fresh: "accept_fresh (demo_env\<lparr>en_accept := demo_accept\<lparr>acc_ret := -1\<rparr>\<rparr>) (sys r)"
    by (simp add: accept_fresh_def)
  obtain r' where r': "server_step demo_KV r r'" "sys r' = served 6 demo_message res b' (recv_trace 6 demo_recv (sys r))"
    by (rule finish_one [OF r(2,3) fresh h])
  have "return_values (sys r') 6 \<noteq> []"
    unfolding r'(2) by (simp add: served_def Let_def demo_message_def demo_header_def)
  with main r(1) r'(1) that show thesis by (meson rtranclp.rtrancl_into_rtrancl)
qed

section \<open>Properties\<close>

text \<open>
  C26. Every result of the running key-value server is a well-formed packet: whatever it has sent to
  a peer or still holds in a queue has exactly the size of an \<open>RpcResult\<close>, and its buffer ends in a
  terminated string, so the client's parser stays inside it.
\<close>

theorem kv_server_packets_typed:
  assumes "server_main J e c1 c2 ep g argv = Inr r0" "(server_step (KV_Handle P data res))\<^sup>*\<^sup>* r0 r" "wf_result res"
  shows "\<forall>bs \<in> answers (sys r). length bs = sizeof_RpcResult \<and> wf_result (result_of_bytes bs) \<and>
    (\<exists>s. cstr (return_buffer (result_of_bytes bs)) = Inr s)"
  using kv_server_history [OF assms]
  by (fastforce simp: kv_history_def kv_packet_def result_of_bytes_def wf_result_def sizeof_RpcResult_def rpc_consts)

theorem kv_server_packets_typed_witness:
  "\<exists>(r :: (kv_service, kv) machine) x. x \<in> set (return_values (sys r) 6) \<and> length (result_bytes x) = 484"
proof -
  obtain r0 r where r: "server_main demo_json0 demo_listen demo_answer demo_answer 3 (-1) [''server'', ''-namesvr_ip=ns''] = Inr r0"
    "(server_step demo_KV)\<^sup>*\<^sup>* r0 r" "return_values (sys r) 6 \<noteq> []" by (rule demo_KV_run)
  then obtain x where x: "x \<in> set (return_values (sys r) 6)" using hd_in_set by blast
  then have "result_bytes x \<in> answers (sys r)" by (auto simp: answers_def)
  moreover have "wf_result demo_result" by (simp add: wf_result_def demo_result_def rpc_consts)
  ultimately have "length (result_bytes x) = sizeof_RpcResult" using kv_server_packets_typed [OF r(1,2)] by blast
  with x show ?thesis by (auto simp: sizeof_RpcResult_def rpc_consts)
qed



end
