(* ===== verification/KVConcurrent.thy ===== *)
theory KVConcurrent
  imports KVService
begin

text \<open>
  The key-value store under the server's workers: \<open>KVServiceBase::GetValueInternal\<close> and
  \<open>SetValueInternal\<close> (\<open>source/apps/kv/KVService.cc\<close>) at the granularity of the bucket locks.

  A worker is outside the two operations, has computed the bucket of its request, holds the
  bucket's lock, has the result of \<open>find\<close>, or has built the response and not yet given the lock
  back. Steps of different workers interleave freely. \<open>hist\<close> records each request with its
  response at the moment the bucket is read or written.

  Lemmas: one worker at a time is inside a bucket, so what \<open>find\<close> saw stays true; the responses are
  those of one map that serves the requests one after the other, in the order of \<open>hist\<close>.
\<close>

section \<open>The model\<close>

fun op_id :: "kv_op \<Rightarrow> int32" where
  "op_id (KGet req) = get_id req"
| "op_id (KSet req) = set_id req"

definition op_bucket :: "kv_op \<Rightarrow> int" where
  "op_bucket op = getAllottedBucket (op_id op)"

text \<open>Whether \<open>dicts[index].find(req.id())\<close> finds the id.\<close>

definition kv_find :: "kv_op \<Rightarrow> kv \<Rightarrow> bool" where
  "kv_find op b \<longleftrightarrow> dicts b (op_bucket op) (op_id op) \<noteq> None"

text \<open>The branches after \<open>find\<close>: read through the iterator, or write.\<close>

fun kv_update :: "kv_op \<Rightarrow> bool \<Rightarrow> kv \<Rightarrow> kv_out \<times> kv" where
  "kv_update (KGet req) found b =
     (OGet \<lparr>rsp_name = (if found then the (dicts b (getAllottedBucket (get_id req)) (get_id req)) else ''not found'')\<rparr>, b)"
| "kv_update (KSet req) found b =
     (let index = getAllottedBucket (set_id req);
          b' = b\<lparr>dicts := (dicts b)(index := (dicts b index)(set_id req := Some (set_name req)))\<rparr>
      in (OSet \<lparr>rsp_code = (if found then 1 else 2)\<rparr>, b'))"

datatype kv_pc = Out | Calling kv_op | Locked kv_op | Looked kv_op bool | Updated kv_op kv_out

record kv_conc =
  store :: kv
  dict_locks :: "int \<Rightarrow> nat option"
  pcs :: "kv_pc list"
  hist :: "(nat \<times> kv_op \<times> kv_out) list"

definition kv_conc_init :: "nat \<Rightarrow> kv_conc" where
  "kv_conc_init n = \<lparr>store = KVServiceBase_init, dict_locks = (\<lambda>_. None), pcs = replicate n Out, hist = []\<rparr>"

definition goto :: "nat \<Rightarrow> kv_pc \<Rightarrow> kv_conc \<Rightarrow> kv_conc" where
  "goto i pc c = c\<lparr>pcs := (pcs c)[i := pc]\<rparr>"

text \<open>A step of worker \<open>i\<close>; \<open>lock\<close> waits until the bucket is free.\<close>

inductive kv_step :: "nat \<Rightarrow> kv_conc \<Rightarrow> kv_conc \<Rightarrow> bool" for i where
  call: "i < length (pcs c) \<Longrightarrow> pcs c ! i = Out \<Longrightarrow> kv_op_valid op \<Longrightarrow> kv_step i c (goto i (Calling op) c)"
| lock: "i < length (pcs c) \<Longrightarrow> pcs c ! i = Calling op \<Longrightarrow> dict_locks c (op_bucket op) = None \<Longrightarrow>
    kv_step i c (goto i (Locked op) (c\<lparr>dict_locks := (dict_locks c)(op_bucket op := Some i)\<rparr>))"
| find: "i < length (pcs c) \<Longrightarrow> pcs c ! i = Locked op \<Longrightarrow> kv_step i c (goto i (Looked op (kv_find op (store c))) c)"
| update: "i < length (pcs c) \<Longrightarrow> pcs c ! i = Looked op found \<Longrightarrow> kv_update op found (store c) = (out, b) \<Longrightarrow>
    kv_step i c (goto i (Updated op out) (c\<lparr>store := b, hist := hist c @ [(i, op, out)]\<rparr>))"
| unlock: "i < length (pcs c) \<Longrightarrow> pcs c ! i = Updated op out \<Longrightarrow>
    kv_step i c (goto i Out (c\<lparr>dict_locks := (dict_locks c)(op_bucket op := None)\<rparr>))"

inductive kv_reachable :: "nat \<Rightarrow> kv_conc \<Rightarrow> bool" for n where
  init: "kv_reachable n (kv_conc_init n)"
| step: "kv_reachable n c \<Longrightarrow> kv_step i c c' \<Longrightarrow> kv_reachable n c'"

section \<open>The operations without interleaving\<close>

text \<open>\<open>find\<close> and the branch after it, run without a break, are the operations of \<open>KVService\<close>.\<close>

lemma kv_update_atomic:
  assumes "kv_op_valid op"
  shows "case op of
      KGet req \<Rightarrow> GetValueInternal req b = (case kv_update op (kv_find op b) b of (OGet r, b') \<Rightarrow> Inr r | _ \<Rightarrow> Inl AssertFailed)
    | KSet req \<Rightarrow> SetValueInternal req b = (case kv_update op (kv_find op b) b of (OSet r, b') \<Rightarrow> Inr (r, b') | _ \<Rightarrow> Inl AssertFailed)"
  using assms
  by (cases op) (auto simp: GetValueInternal_def SetValueInternal_def dict_at_valid kv_find_def op_bucket_def Let_def
      split: option.split)

fun map_step :: "kv_op \<Rightarrow> (int32 \<Rightarrow> string option) \<Rightarrow> kv_out \<times> (int32 \<Rightarrow> string option)" where
  "map_step (KGet req) m = (OGet \<lparr>rsp_name = (case m (get_id req) of Some v \<Rightarrow> v | None \<Rightarrow> ''not found'')\<rparr>, m)"
| "map_step (KSet req) m = (OSet \<lparr>rsp_code = (if m (set_id req) = None then 2 else 1)\<rparr>, m(set_id req := Some (set_name req)))"

lemma map_run_Cons:
  "map_run (op # ops) m = (case map_step op m of (out, m') \<Rightarrow> case map_run ops m' of (outs, m'') \<Rightarrow> (out # outs, m''))"
  by (cases op) (simp_all add: case_prod_beta)

lemma map_run_snoc:
  "map_run (ops @ [op]) m = (case map_run ops m of (outs, m') \<Rightarrow> case map_step op m' of (out, m'') \<Rightarrow> (outs @ [out], m''))"
proof (induction ops arbitrary: m)
  case Nil
  show ?case using map_run_Cons [of op "[]" m] by simp
next
  case (Cons o1 ops)
  show ?case by (simp only: append_Cons map_run_Cons Cons.IH) (simp add: case_prod_beta)
qed

lemma kv_update_abs:
  "kv_update op (kv_find op b) b = (out, b') \<Longrightarrow> map_step op (kv_abs b) = (out, kv_abs b')"
  by (cases op) (auto simp: kv_find_def op_bucket_def kv_abs_def Let_def fun_eq_iff split: option.split)

text \<open>What a request sees is in its own bucket, so a write to another bucket does not change it.\<close>

lemma kv_update_other:
  assumes "kv_update op found b = (out, b')" "op_bucket op' \<noteq> op_bucket op"
  shows "kv_find op' b' = kv_find op' b"
  using assms by (cases op) (auto simp: kv_find_def op_bucket_def Let_def)

section \<open>The invariant\<close>

fun section_of :: "kv_pc \<Rightarrow> kv_op option" where
  "section_of Out = None"
| "section_of (Calling op) = None"
| "section_of (Locked op) = Some op"
| "section_of (Looked op found) = Some op"
| "section_of (Updated op out) = Some op"

definition kv_conc_inv :: "kv_conc \<Rightarrow> bool" where
  "kv_conc_inv c \<longleftrightarrow>
     (\<forall>i b. dict_locks c b = Some i \<longleftrightarrow> i < length (pcs c) \<and> (\<exists>op. section_of (pcs c ! i) = Some op \<and> op_bucket op = b)) \<and>
     (\<forall>i < length (pcs c). \<forall>op found. pcs c ! i = Looked op found \<longrightarrow> found = kv_find op (store c)) \<and>
     (\<forall>i < length (pcs c). \<forall>op out. pcs c ! i = Updated op out \<longrightarrow> (i, op, out) \<in> set (hist c)) \<and>
     map_run (map (fst \<circ> snd) (hist c)) (\<lambda>_. None) = (map (snd \<circ> snd) (hist c), kv_abs (store c))"

lemma kv_abs_init: "kv_abs KVServiceBase_init = (\<lambda>_. None)"
  by (simp add: kv_abs_def KVServiceBase_init_def fun_eq_iff)

lemma kv_conc_inv_init: "kv_conc_inv (kv_conc_init n)"
  by (auto simp: kv_conc_inv_def kv_conc_init_def kv_abs_init)

lemma section_locked:
  assumes "kv_conc_inv c" "i < length (pcs c)" "section_of (pcs c ! i) = Some op"
  shows "dict_locks c (op_bucket op) = Some i"
proof -
  have "dict_locks c b = Some i \<longleftrightarrow> i < length (pcs c) \<and> (\<exists>op. section_of (pcs c ! i) = Some op \<and> op_bucket op = b)" for b
    using assms(1) by (simp add: kv_conc_inv_def)
  with assms(2,3) show ?thesis by simp
qed

lemma kv_exclusive:
  assumes "kv_conc_inv c" "i < length (pcs c)" "j < length (pcs c)"
    "section_of (pcs c ! i) = Some op" "section_of (pcs c ! j) = Some op'" "op_bucket op = op_bucket op'"
  shows "i = j"
  using section_locked [OF assms(1,2,4)] section_locked [OF assms(1,3,5)] assms(6) by simp

lemma kv_step_inv: "kv_step i c c' \<Longrightarrow> kv_conc_inv c \<Longrightarrow> kv_conc_inv c'"
proof (induction rule: kv_step.induct)
  case (call c op)
  then show ?case by (auto simp: kv_conc_inv_def goto_def nth_list_update)
next
  case (lock c op)
  have "op_bucket op' \<noteq> op_bucket op" if "j < length (pcs c)" "section_of (pcs c ! j) = Some op'" for j op'
    using section_locked [OF lock(4) that] lock(3) by auto
  with lock show ?case by (auto simp: kv_conc_inv_def goto_def nth_list_update)
next
  case (find c op)
  then show ?case by (auto simp: kv_conc_inv_def goto_def nth_list_update)
next
  case (update c op found out b)
  have found: "found = kv_find op (store c)" using update by (auto simp: kv_conc_inv_def)
  have other: "kv_find op' b = kv_find op' (store c)"
    if "j < length (pcs c)" "pcs c ! j = Looked op' f" "j \<noteq> i" for j op' f
  proof -
    have "op_bucket op' \<noteq> op_bucket op"
      using kv_exclusive [OF update(4,1) that(1), of op op'] update(2) that(2,3) by auto
    from kv_update_other [OF update(3) this] show ?thesis .
  qed
  have "map_step op (kv_abs (store c)) = (out, kv_abs b)" using kv_update_abs update(3) found by blast
  then have run: "map_run (map (fst \<circ> snd) (hist c @ [(i, op, out)])) (\<lambda>_. None) =
      (map (snd \<circ> snd) (hist c @ [(i, op, out)]), kv_abs b)"
    using update(4) by (simp add: kv_conc_inv_def map_run_snoc)
  let ?c = "goto i (Updated op out) (c\<lparr>store := b, hist := hist c @ [(i, op, out)]\<rparr>)"
  have sec: "section_of (pcs ?c ! j) = section_of (pcs c ! j)" for j
    using update(1,2) by (cases "j = i") (auto simp: goto_def)
  have F: "length (pcs ?c) = length (pcs c)" "dict_locks ?c = dict_locks c" "store ?c = b" "hist ?c = hist c @ [(i, op, out)]"
    by (simp_all add: goto_def)
  have c1: "\<forall>j b. dict_locks ?c b = Some j \<longleftrightarrow> j < length (pcs ?c) \<and> (\<exists>op. section_of (pcs ?c ! j) = Some op \<and> op_bucket op = b)"
    using update(4) unfolding kv_conc_inv_def sec F by (rule conjunct1)
  have c2: "found' = kv_find op' b" if "j < length (pcs c)" "pcs ?c ! j = Looked op' found'" for j op' found'
    using that update(1,4) other by (cases "j = i") (auto simp: goto_def kv_conc_inv_def)
  have c3: "(j, op', out') \<in> set (hist ?c)" if "j < length (pcs c)" "pcs ?c ! j = Updated op' out'" for j op' out'
    using that update(1,4) by (cases "j = i") (auto simp: goto_def kv_conc_inv_def)
  show ?case
    unfolding kv_conc_inv_def F(1,3)
  proof (intro conjI)
    show "\<forall>j b. dict_locks ?c b = Some j \<longleftrightarrow> j < length (pcs c) \<and> (\<exists>op. section_of (pcs ?c ! j) = Some op \<and> op_bucket op = b)"
      using c1 unfolding F(1) .
    show "map_run (map (fst \<circ> snd) (hist ?c)) (\<lambda>_. None) = (map (snd \<circ> snd) (hist ?c), kv_abs b)"
      using run unfolding F(4) .
  qed (use c2 c3 in blast)+
next
  case (unlock c op out)
  have "op_bucket op' \<noteq> op_bucket op" if "j < length (pcs c)" "j \<noteq> i" "section_of (pcs c ! j) = Some op'" for j op'
    using kv_exclusive [OF unlock(3,1) that(1), of op op'] unlock(2) that(2,3) by auto
  with unlock show ?case by (auto simp: kv_conc_inv_def goto_def nth_list_update)
qed

lemma kv_reachable_inv: "kv_reachable n c \<Longrightarrow> kv_conc_inv c \<and> length (pcs c) = n"
proof (induction rule: kv_reachable.induct)
  case init
  show ?case using kv_conc_inv_init [of n] by (simp add: kv_conc_init_def)
next
  case (step c i c')
  from step(2) have "length (pcs c') = length (pcs c)" by cases (simp_all add: goto_def)
  with step kv_step_inv show ?case by auto
qed

section \<open>Properties\<close>

text \<open>
  C23. The store is linearizable: in every interleaving of the workers, the requests in the order in
  which they read or wrote their bucket, served one after the other by a single map, give exactly
  the responses the workers computed and the contents of the five buckets; each response on its
  way to a caller is in that order; and no two workers are inside the same bucket.
\<close>

theorem kv_linearizable:
  assumes "kv_reachable n c"
  shows "map_run (map (fst \<circ> snd) (hist c)) (\<lambda>_. None) = (map (snd \<circ> snd) (hist c), kv_abs (store c)) \<and>
    (\<forall>i < n. \<forall>op out. pcs c ! i = Updated op out \<longrightarrow> (i, op, out) \<in> set (hist c)) \<and>
    (\<forall>i < n. \<forall>j < n. \<forall>op op'. section_of (pcs c ! i) = Some op \<and> section_of (pcs c ! j) = Some op' \<and>
      op_bucket op = op_bucket op' \<longrightarrow> i = j)"
  using kv_reachable_inv [OF assms] kv_exclusive [of c] unfolding kv_conc_inv_def by blast

text \<open>
  C24. The bucket locks cannot deadlock: while some worker is inside an operation, a worker that is
  inside an operation can take a step.
\<close>

theorem kv_no_deadlock:
  assumes "kv_reachable n c" "i < n" "pcs c ! i \<noteq> Out"
  shows "\<exists>j < n. pcs c ! j \<noteq> Out \<and> (\<exists>c'. kv_step j c c')"
proof -
  have inv: "kv_conc_inv c" and n: "length (pcs c) = n" using kv_reachable_inv [OF assms(1)] by simp_all
  have inside: "\<exists>c'. kv_step j c c'" if "j < n" "section_of (pcs c ! j) \<noteq> None" for j
  proof (cases "pcs c ! j")
    case (Locked op)
    with kv_step.find [of j c op] that n show ?thesis by blast
  next
    case (Looked op found)
    obtain out b where "kv_update op found (store c) = (out, b)" by fastforce
    with kv_step.update [of j c op found] Looked that n show ?thesis by blast
  next
    case (Updated op out)
    with kv_step.unlock [of j c op out] that n show ?thesis by blast
  qed (use that in simp_all)
  show ?thesis
  proof (cases "\<exists>op. pcs c ! i = Calling op \<and> dict_locks c (op_bucket op) = None")
    case True
    with kv_step.lock [of i c] assms n show ?thesis by auto
  next
    case False
    have "\<exists>j < n. section_of (pcs c ! j) \<noteq> None"
    proof (cases "pcs c ! i")
      case (Calling op)
      with False obtain j where "dict_locks c (op_bucket op) = Some j" by auto
      with inv n show ?thesis unfolding kv_conc_inv_def by blast
    qed (use assms in auto)
    then obtain j where j: "j < n" "section_of (pcs c ! j) \<noteq> None" by blast
    then have "pcs c ! j \<noteq> Out" by auto
    with inside [OF j] j(1) show ?thesis by blast
  qed
qed

section \<open>An example\<close>

lemma kv_demo:
  obtains c where "kv_reachable 2 c" "pcs c ! 0 = Updated (KSet \<lparr>set_id = 7, set_name = ''a''\<rparr>) (OSet \<lparr>rsp_code = 2\<rparr>)"
    "hist c = [(0, KSet \<lparr>set_id = 7, set_name = ''a''\<rparr>, OSet \<lparr>rsp_code = 2\<rparr>)]"
proof -
  let ?op = "KSet \<lparr>set_id = 7, set_name = ''a''\<rparr>"
  let ?c0 = "kv_conc_init 2"
  let ?c1 = "goto 0 (Calling ?op) ?c0"
  let ?c2 = "goto 0 (Locked ?op) (?c1\<lparr>dict_locks := (dict_locks ?c1)(op_bucket ?op := Some 0)\<rparr>)"
  let ?c3 = "goto 0 (Looked ?op (kv_find ?op (store ?c2))) ?c2"
  obtain out b where u: "kv_update ?op (kv_find ?op (store ?c2)) (store ?c3) = (out, b)" by fastforce
  let ?c4 = "goto 0 (Updated ?op out) (?c3\<lparr>store := b, hist := hist ?c3 @ [(0, ?op, out)]\<rparr>)"
  have out: "out = OSet \<lparr>rsp_code = 2\<rparr>"
    using u by (auto simp: kv_find_def goto_def kv_conc_init_def KVServiceBase_init_def Let_def)
  have s1: "kv_step 0 ?c0 ?c1"
    by (rule kv_step.call) (simp_all add: kv_conc_init_def kv_valid_nonneg)
  have s2: "kv_step 0 ?c1 ?c2"
    by (rule kv_step.lock) (simp_all add: kv_conc_init_def goto_def)
  have s3: "kv_step 0 ?c2 ?c3"
    by (rule kv_step.find) (simp_all add: kv_conc_init_def goto_def)
  have s4: "kv_step 0 ?c3 ?c4"
    by (rule kv_step.update [OF _ _ u]) (simp_all add: kv_conc_init_def goto_def)
  note R = kv_reachable.step [OF kv_reachable.step [OF kv_reachable.step [OF kv_reachable.step [OF kv_reachable.init s1] s2] s3] s4]
  from R show thesis by (rule that) (simp_all add: kv_conc_init_def goto_def out)
qed

theorem kv_linearizable_witness:
  "\<exists>c. kv_reachable 2 c \<and>
    map_run [KSet \<lparr>set_id = 7, set_name = ''a''\<rparr>] (\<lambda>_. None) = ([OSet \<lparr>rsp_code = 2\<rparr>], kv_abs (store c))"
proof -
  obtain c where c: "kv_reachable 2 c" "hist c = [(0, KSet \<lparr>set_id = 7, set_name = ''a''\<rparr>, OSet \<lparr>rsp_code = 2\<rparr>)]"
    by (rule kv_demo)
  from kv_linearizable [OF c(1)] c show ?thesis by (intro exI [of _ c]) simp
qed

theorem kv_no_deadlock_witness:
  "\<exists>c. kv_reachable 2 c \<and> (\<exists>j < 2. pcs c ! j \<noteq> Out \<and> (\<exists>c'. kv_step j c c'))"
proof -
  obtain c where c: "kv_reachable 2 c"
    "pcs c ! 0 = Updated (KSet \<lparr>set_id = 7, set_name = ''a''\<rparr>) (OSet \<lparr>rsp_code = 2\<rparr>)" by (rule kv_demo)
  from kv_no_deadlock [OF c(1), of 0] c show ?thesis by (intro exI [of _ c]) auto
qed

end
