(* ===== verification/Logger.thy ===== *)
theory Logger
  imports Cformat
begin

text \<open>
  \<open>include/common/Logger.hh\<close>, \<open>source/common/Logger.cc\<close>: the log file.

  The state is the global \<open>logfile\<close>: no file, an open file with its contents, or a pointer to a file
  that was closed. \<open>ts\<close> is the time stamp, \<open>current_timestamp\<close> of the local time. \<open>log_dev\<close> and \<open>log_err\<close> format their
  arguments and pass the result to \<open>log_internal\<close> as a format string, so the text is formatted twice.
\<close>

section \<open>The model\<close>

text \<open>
  The broken-down local time; \<open>strftime\<close> with \<open>%Y-%m-%d %H:%M:%S\<close>. Years after 9999 are printed in full.
\<close>

record tm =
  tm_year :: nat
  tm_mon :: nat
  tm_mday :: nat
  tm_hour :: nat
  tm_min :: nat
  tm_sec :: nat

definition pad2 :: "nat \<Rightarrow> string" where
  "pad2 n = (if n < 10 then CHR ''0'' # dec_nat n else dec_nat n)"

definition current_timestamp :: "tm \<Rightarrow> string" where
  "current_timestamp t =
     dec_nat (1900 + tm_year t) @ ''-'' @ pad2 (tm_mon t + 1) @ ''-'' @ pad2 (tm_mday t) @ '' '' @
     pad2 (tm_hour t) @ '':'' @ pad2 (tm_min t) @ '':'' @ pad2 (tm_sec t)"

datatype logfile = NoFile | Open string | Dangling

text \<open>\<open>opened\<close>: whether \<open>fopen\<close> succeeds.\<close>

definition start_log :: "bool \<Rightarrow> logfile \<Rightarrow> logfile" where
  "start_log opened f = (if opened then Open [] else NoFile)"

definition log_internal :: "string \<Rightarrow> string \<Rightarrow> log_arg list \<Rightarrow> logfile \<Rightarrow> logfile result" where
  "log_internal ts format args f =
     (case f of
        NoFile \<Rightarrow> Inr NoFile
      | Dangling \<Rightarrow> Inl OutOfBounds
      | Open content \<Rightarrow>
          bindE (c_snprintf 10240 format args) (\<lambda>buffer.
            let log_stream = ''['' @ ts @ ''] '' @ buffer
            in Inr (Open (content @ until_nul log_stream))))"

definition log_prefixed :: "string \<Rightarrow> string \<Rightarrow> string \<Rightarrow> log_arg list \<Rightarrow> logfile \<Rightarrow> logfile result" where
  "log_prefixed prefix ts format args f =
     (if f = NoFile then Inr NoFile
      else bindE (c_snprintf 10240 format args) (\<lambda>buffer.
        log_internal ts (until_nul (prefix @ buffer)) [] f))"

definition log_dev :: "string \<Rightarrow> string \<Rightarrow> log_arg list \<Rightarrow> logfile \<Rightarrow> logfile result" where
  "log_dev ts format args f = log_prefixed ''Debug: '' ts format args f"

definition log_err :: "string \<Rightarrow> string \<Rightarrow> log_arg list \<Rightarrow> logfile \<Rightarrow> logfile result" where
  "log_err ts format args f = log_prefixed ''Error: '' ts format args f"

definition stop_log :: "logfile \<Rightarrow> logfile result" where
  "stop_log f =
     (case f of NoFile \<Rightarrow> Inl NullDeref | Open content \<Rightarrow> Inr Dangling | Dangling \<Rightarrow> Inl OutOfBounds)"

section \<open>Lemmas\<close>

lemma dec_nat_plain: "c \<in> set (dec_nat n) \<Longrightarrow> is_digit c"
  using dec_nat_digits [of n] by (auto simp: list_all_iff)

lemma timestamp_plain: "no_nul (current_timestamp t)" "CHR ''%'' \<notin> set (current_timestamp t)"
proof -
  have d: "c \<in> set (pad2 n) \<Longrightarrow> is_digit c" for c n
    using dec_nat_plain [of c n] by (auto simp: pad2_def is_digit_def split: if_splits)
  have n: "\<not> is_digit NUL" "\<not> is_digit (CHR ''%'')" by (simp_all add: is_digit_def)
  show "no_nul (current_timestamp t)" "CHR ''%'' \<notin> set (current_timestamp t)"
    using d n dec_nat_plain by (auto simp: current_timestamp_def)
qed

text \<open>With fields in range the stamp and its NUL fit the buffer of 80.\<close>

lemma timestamp_fits:
  assumes "tm_year t < 10 ^ 9" "tm_mon t < 12" "tm_mday t < 32" "tm_hour t < 24" "tm_min t < 60" "tm_sec t < 61"
  shows "length (current_timestamp t) < 80"
proof -
  have p: "n < 100 \<Longrightarrow> length (pad2 n) \<le> 2" for n
    using length_dec_nat [of n 1] length_dec_nat [of n 2] by (auto simp: pad2_def)
  have "length (dec_nat (1900 + tm_year t)) \<le> 10" using assms(1) by (intro length_dec_nat) auto
  then show ?thesis
    using p [of "tm_mon t + 1"] p [of "tm_mday t"] p [of "tm_hour t"] p [of "tm_min t"] p [of "tm_sec t"] assms
    by (simp add: current_timestamp_def)
qed

text \<open>The first conversion without an argument stops the second pass.\<close>

lemma c_printf_no_args:
  "CHR ''%'' \<notin> set a \<Longrightarrow> k \<noteq> CHR ''%'' \<Longrightarrow> c_printf (a @ CHR ''%'' # k # b) [] = Inl OutOfBounds"
  by (simp add: c_printf_append_plain)

lemma until_nul_append: "no_nul a \<Longrightarrow> until_nul (a @ b) = a @ until_nul b"
  by (induction a) auto

lemma log_prefixed_text:
  assumes "c_printf format args = Inr text" "length text < 10000" "no_nul text" "length prefix = 7" "no_nul prefix"
    "CHR ''%'' \<notin> set prefix" "no_nul ts"
  shows "CHR ''%'' \<notin> set text \<Longrightarrow>
      log_prefixed prefix ts format args (Open content) = Inr (Open (content @ ''['' @ ts @ ''] '' @ prefix @ text))"
    and "text = a @ CHR ''%'' # k # b \<Longrightarrow> CHR ''%'' \<notin> set a \<Longrightarrow> k \<noteq> CHR ''%'' \<Longrightarrow>
      log_prefixed prefix ts format args (Open content) = Inl OutOfBounds"
proof -
  have u: "until_nul (prefix @ text) = prefix @ text" using assms(3,5) by (simp add: until_nul_append until_nul_id)
  have e: "log_prefixed prefix ts format args (Open content) = log_internal ts (prefix @ text) [] (Open content)"
    using assms(2) by (simp only: log_prefixed_def c_snprintf_def assms(1) until_nul_id [OF assms(3)]) (simp add: u)
  show "log_prefixed prefix ts format args (Open content) = Inr (Open (content @ ''['' @ ts @ ''] '' @ prefix @ text))"
    if "CHR ''%'' \<notin> set text"
  proof -
    have "c_printf (prefix @ text) [] = Inr (prefix @ text)" using that assms(6) by (intro c_printf_plain) auto
    then show ?thesis
      unfolding e using assms(2-5,7) by (simp add: log_internal_def c_snprintf_def until_nul_append until_nul_id)
  qed
  show "log_prefixed prefix ts format args (Open content) = Inl OutOfBounds"
    if "text = a @ CHR ''%'' # k # b" "CHR ''%'' \<notin> set a" "k \<noteq> CHR ''%''"
  proof -
    have "c_printf ((prefix @ a) @ CHR ''%'' # k # b) [] = Inl OutOfBounds"
      using that assms(6) by (intro c_printf_no_args) auto
    then show ?thesis unfolding e that(1) by (simp add: log_internal_def c_snprintf_def)
  qed
qed

section \<open>Properties\<close>

text \<open>
  A stored value is used as a format string when it is logged: the line
  "KVGetterImpl::GetValue return v" is written with time stamp and prefix when v has no percent
  sign, but if the first percent sign of v starts a conversion (as in "100%s"), the second
  formatting pass reads arguments that were never passed.
\<close>

theorem logged_value_is_a_format:
  assumes "no_nul v" "length v < 9000" "no_nul ts"
  shows "(CHR ''%'' \<notin> set v \<longrightarrow>
      log_dev ts ''KVGetterImpl::GetValue return %s\<newline>'' [LStr v] (Open content) =
        Inr (Open (content @ ''['' @ ts @ ''] Debug: KVGetterImpl::GetValue return '' @ v @ ''\<newline>''))) \<and>
    (\<forall>a k b. v = a @ CHR ''%'' # k # b \<and> CHR ''%'' \<notin> set a \<and> k \<noteq> CHR ''%'' \<longrightarrow>
      log_dev ts ''KVGetterImpl::GetValue return %s\<newline>'' [LStr v] (Open content) = Inl OutOfBounds)"
proof -
  let ?f = "''KVGetterImpl::GetValue return %s\<newline>''"
  have t: "c_printf ?f [LStr v] = Inr (''KVGetterImpl::GetValue return '' @ v @ ''\<newline>'')"
    using assms(1) by (simp add: until_nul_id)
  have n: "length (''KVGetterImpl::GetValue return '' @ v @ ''\<newline>'') < 10000"
    "no_nul (''KVGetterImpl::GetValue return '' @ v @ ''\<newline>'')" using assms(1,2) by simp_all
  note L = log_prefixed_text [OF t n, of "''Debug: ''" ts]
  have d: "log_dev ts ?f [LStr v] (Open content) = log_prefixed ''Debug: '' ts ?f [LStr v] (Open content)"
    by (simp only: log_dev_def)
  have 1: "log_dev ts ?f [LStr v] (Open content) =
      Inr (Open (content @ ''['' @ ts @ ''] Debug: KVGetterImpl::GetValue return '' @ v @ ''\<newline>''))" if "CHR ''%'' \<notin> set v"
    unfolding d using that assms(3) by (subst L(1)) simp_all
  have 2: "log_dev ts ?f [LStr v] (Open content) = Inl OutOfBounds"
    if "v = a @ CHR ''%'' # k # b" "CHR ''%'' \<notin> set a" "k \<noteq> CHR ''%''" for a k b
    unfolding d
    by (rule L(2) [of "''KVGetterImpl::GetValue return '' @ a" k "b @ ''\<newline>''"]) (use that assms(3) in simp_all)
  show ?thesis using 1 2 by blast
qed

theorem logged_value_is_a_format_witness:
  "log_dev ''t'' ''KVGetterImpl::GetValue return %s\<newline>'' [LStr ''100%s''] (Open []) = Inl OutOfBounds"
proof -
  have "no_nul ''100%s''" "length ''100%s'' < 9000" "no_nul ''t''" by simp_all
  from logged_value_is_a_format [OF this, of "[]"] have
    "\<And>a k b. ''100%s'' = a @ CHR ''%'' # k # b \<Longrightarrow> CHR ''%'' \<notin> set a \<Longrightarrow> k \<noteq> CHR ''%'' \<Longrightarrow>
      log_dev ''t'' ''KVGetterImpl::GetValue return %s\<newline>'' [LStr ''100%s''] (Open []) = Inl OutOfBounds" by blast
  from this [of "''100''" "CHR ''s''" "[]"] show ?thesis by simp
qed

end
