(* ===== verification/Shutdown.thy ===== *)
theory Shutdown
  imports ServerMachine Logger
begin

text \<open>
  The end of a server: the destructors of \<open>RpcServer\<close> (\<open>source/server/RpcServer.cc\<close>) and of its
  members, in the order of C++: the body, then the members from the last to the first. Here the
  log calls matter, so they are written to the log file of the theory \<open>Logger\<close>.
\<close>

text \<open>The log calls of a trace, written to the file with time stamp \<open>ts\<close>.\<close>

fun write_log :: "string \<Rightarrow> io list \<Rightarrow> logfile \<Rightarrow> logfile result" where
  "write_log ts [] f = Inr f"
| "write_log ts (LogDev format args # tr) f = bindE (log_dev ts format args f) (write_log ts tr)"
| "write_log ts (LogErr format args # tr) f = bindE (log_err ts format args f) (write_log ts tr)"
| "write_log ts (_ # tr) f = write_log ts tr f"

text \<open>
  The body stops the log; of the members the transport closes its listening descriptor, which logs,
  and its reactor ends the poller and the pool.
\<close>

definition RpcServer_destroy ::
  "string \<Rightarrow> int \<Rightarrow> logfile \<Rightarrow> ('svc, 'app) server reactor \<Rightarrow> (logfile \<times> ('svc, 'app) server reactor) result" where
  "RpcServer_destroy ts Epollfd f r =
     bindE (stop_log f) (\<lambda>f.
     bindE (ServerTransport_destroy (sys r)) (\<lambda>s.
     bindE (write_log ts (drop (length (trace (sys r))) (trace s)) f) (\<lambda>f.
     bindE (Reactor_destroy Epollfd (r\<lparr>sys := s\<rparr>)) (\<lambda>r. Inr (f, r)))))"

text \<open>
  A server cannot be destroyed: without a log file the body closes a null file, and with one the
  transport's destructor logs to the file that was just closed.
\<close>

theorem server_destructor_fails:
  assumes "server_reachable Handle r" "f \<noteq> Dangling"
  shows "RpcServer_destroy ts Epollfd f r = Inl (if f = NoFile then NullDeref else OutOfBounds)"
proof -
  have v: "valid_fd (listenfd (sys r))"
    using server_reachable_ok [OF assms(1)] by (simp add: machine_ok_def server_ok_def)
  let ?s = "emit (LogDev ''ServerTransport::HandleCloseEvent Close fd [%d]\<newline>'' [LInt (listenfd (sys r))]) (sys r)"
  obtain l where l: "DetachEventHandler (listenfd (sys r)) (READ_EVENT OR WRITE_EVENT OR CLOSE_EVENT) (handler_list (sys r)) = Inr l"
    by (rule HandleCloseEvent_closes [OF v, of "sys r"])
      (auto simp: ServerTransport_HandleCloseEvent_def Let_def bindE_eq_Inr emit_def)
  then have "ServerTransport_destroy (sys r) =
      Inr (emit (Close (listenfd (sys r))) (DelEvent (listenfd (sys r)) 0 (?s\<lparr>handler_list := l\<rparr>)))"
    using v by (simp add: ServerTransport_destroy_def ServerTransport_HandleCloseEvent_def Let_def emit_def)
  then show ?thesis
    using assms(2)
    by (cases f) (simp_all add: RpcServer_destroy_def stop_log_def emit_def log_dev_def log_prefixed_def
        log_internal_def c_snprintf_def)
qed

theorem server_destructor_fails_witness:
  "\<exists>r :: (nat, nat) machine. server_reachable demo_Handle r \<and>
    RpcServer_destroy ''2025'' 3 (Open []) r = Inl OutOfBounds"
proof -
  obtain r :: "(nat, nat) machine" where r: "server_reachable demo_Handle r" by (rule demo_start)
  from server_destructor_fails [OF r, of "Open []" "''2025''" 3] r show ?thesis by auto
qed

end
