(* ===== verification/Timer.thy ===== *)
theory Timer
  imports RpcTypes
begin

text \<open>
  \<open>include/common/Timer.hh\<close>, \<open>source/common/Timer.cc\<close>: tasks run by an alarm clock, and its RAII
  wrapper \<open>GlobalTimer\<close>.

  The state is the queue \<open>timers\<close>, the pending alarm, whether the signal thread runs, and the
  counter of \<open>GlobalTimer\<close>. \<open>std::priority_queue\<close> keeps a task with the least \<open>Expire\<close> at the top and
  leaves the choice among equals open: \<open>topi\<close> is a parameter that gives the index of the top
  (\<open>valid_top\<close>). \<open>exec\<close> runs a task, on the state since a task may call \<open>AddTimer\<close>. \<open>now n\<close> is the
  clock at the n-th round of \<open>Tick\<close>; the rounds are bounded by fuel, with \<open>None\<close> when it runs out.
  The results of the thread calls inside the asserts are arguments.
\<close>

section \<open>The model\<close>

type_synonym 'a timer_task = "int \<times> 'a"

record 'a timer_state =
  timers :: "'a timer_task list"
  alarm_sec :: int
  thread_running :: bool
  ConstructCounter :: int

definition Timer_init :: "'a timer_state" where
  "Timer_init = \<lparr>timers = [], alarm_sec = 0, thread_running = False, ConstructCounter = 0\<rparr>"

definition Timer_Start :: "int \<Rightarrow> int \<Rightarrow> 'a timer_state \<Rightarrow> 'a timer_state result" where
  "Timer_Start sigmask create st =
     bindE (assertE (sigmask = 0)) (\<lambda>_. bindE (assertE (create = 0)) (\<lambda>_.
       Inr (st\<lparr>thread_running := True, alarm_sec := TICK_INTERVAL\<rparr>)))"

definition Timer_AddTimer :: "int \<Rightarrow> int \<Rightarrow> 'a \<Rightarrow> 'a timer_state \<Rightarrow> 'a timer_state" where
  "Timer_AddTimer CurrentTime sec func st = st\<lparr>timers := timers st @ [(CurrentTime + sec, func)]\<rparr>"

definition remove_nth :: "nat \<Rightarrow> 'b list \<Rightarrow> 'b list" where
  "remove_nth n xs = take n xs @ drop (Suc n) xs"

fun Tick_loop ::
  "('a timer_task list \<Rightarrow> nat) \<Rightarrow> ('a \<Rightarrow> 'a timer_state \<times> 'e list \<Rightarrow> 'a timer_state \<times> 'e list) \<Rightarrow> (nat \<Rightarrow> int) \<Rightarrow> nat \<Rightarrow>
   'a timer_state \<times> 'e list \<Rightarrow> ('a timer_state \<times> 'e list) option" where
  "Tick_loop topi exec now 0 st = None"
| "Tick_loop topi exec now (Suc n) st =
     (if timers (fst st) = [] then Some st
      else case timers (fst st) ! topi (timers (fst st)) of (Expire, Execution) \<Rightarrow>
        if now 0 \<ge> Expire then
          let st = exec Execution st;
              st = ((fst st)\<lparr>timers := remove_nth (topi (timers (fst st))) (timers (fst st))\<rparr>, snd st)
          in Tick_loop topi exec (\<lambda>k. now (Suc k)) n st
        else Some st)"

definition Timer_Tick ::
  "('a timer_task list \<Rightarrow> nat) \<Rightarrow> ('a \<Rightarrow> 'a timer_state \<times> 'e list \<Rightarrow> 'a timer_state \<times> 'e list) \<Rightarrow> (nat \<Rightarrow> int) \<Rightarrow> nat \<Rightarrow>
   'a timer_state \<times> 'e list \<Rightarrow> ('a timer_state \<times> 'e list) option" where
  "Timer_Tick topi exec now fuel st =
     (case Tick_loop topi exec now fuel st of
        None \<Rightarrow> None
      | Some st \<Rightarrow> Some ((fst st)\<lparr>alarm_sec := TICK_INTERVAL\<rparr>, snd st))"

text \<open>
  One turn of the signal thread: \<open>s\<close> is what \<open>sigwait\<close> returned, \<open>sig\<close> the signal it took.
\<close>

definition SIGALRM :: int where "SIGALRM = 14"

definition sig_thread_turn ::
  "('a timer_task list \<Rightarrow> nat) \<Rightarrow> ('a \<Rightarrow> 'a timer_state \<times> 'e list \<Rightarrow> 'a timer_state \<times> 'e list) \<Rightarrow> (nat \<Rightarrow> int) \<Rightarrow> nat \<Rightarrow>
   int \<Rightarrow> int \<Rightarrow> 'a timer_state \<times> 'e list \<Rightarrow> ('a timer_state \<times> 'e list) result option" where
  "sig_thread_turn topi exec now fuel s sig st =
     (if s \<noteq> 0 then Some (Inl AssertFailed)
      else if sig = SIGALRM then map_option Inr (Timer_Tick topi exec now fuel st)
      else Some (Inr st))"

definition Timer_Stop :: "int \<Rightarrow> 'a timer_state \<Rightarrow> 'a timer_state result" where
  "Timer_Stop cancel st =
     (let st = st\<lparr>alarm_sec := 0\<rparr>; st = st\<lparr>timers := []\<rparr>
      in bindE (assertE (cancel = 0)) (\<lambda>_. Inr (st\<lparr>thread_running := False\<rparr>)))"

definition GlobalTimer_construct :: "int \<Rightarrow> int \<Rightarrow> 'a timer_state \<Rightarrow> 'a timer_state result" where
  "GlobalTimer_construct sigmask create st =
     (if ConstructCounter st = 0 then
        bindE (Timer_Start sigmask create st) (\<lambda>st. Inr (st\<lparr>ConstructCounter := ConstructCounter st + 1\<rparr>))
      else Inr st)"

definition GlobalTimer_destruct :: "int \<Rightarrow> 'a timer_state \<Rightarrow> 'a timer_state result" where
  "GlobalTimer_destruct cancel st =
     (if ConstructCounter st = 1 then
        bindE (Timer_Stop cancel st) (\<lambda>st. Inr (st\<lparr>ConstructCounter := ConstructCounter st - 1\<rparr>))
      else Inr st)"

section \<open>Lemmas\<close>

definition valid_top :: "('a timer_task list \<Rightarrow> nat) \<Rightarrow> bool" where
  "valid_top topi \<longleftrightarrow> (\<forall>q. q \<noteq> [] \<longrightarrow> topi q < length q \<and> (\<forall>t \<in> set q. fst (q ! topi q) \<le> fst t))"

lemma mset_remove_nth: "n < length xs \<Longrightarrow> mset xs = add_mset (xs ! n) (mset (remove_nth n xs))"
  by (subst id_take_nth_drop [of n xs]) (simp_all add: remove_nth_def)

lemma length_remove_nth: "n < length xs \<Longrightarrow> Suc (length (remove_nth n xs)) = length xs"
  by (simp add: remove_nth_def)

text \<open>A task that only has an effect of its own, recorded in the list, and leaves the timer alone.\<close>

definition record_exec :: "'a \<Rightarrow> 'a timer_state \<times> 'a list \<Rightarrow> 'a timer_state \<times> 'a list" where
  "record_exec x st = (fst st, snd st @ [x])"

text \<open>The tasks in the order in which the loop takes them.\<close>

lemma Tick_loop_runs:
  assumes "valid_top topi"
  shows "length (timers st) < n \<Longrightarrow>
    \<exists>done rest. Tick_loop topi record_exec (\<lambda>_. t) n (st, log) = Some (st\<lparr>timers := rest\<rparr>, log @ map snd done) \<and>
      mset (timers st) = mset done + mset rest \<and> sorted (map fst done) \<and>
      (\<forall>x \<in> set done. fst x \<le> t) \<and> (\<forall>x \<in> set rest. t < fst x)"
proof (induction n arbitrary: st log)
  case (Suc n)
  show ?case
  proof (cases "timers st = []")
    case True
    then show ?thesis by (intro exI [of _ "[]"]) simp
  next
    case False
    define i where "i = topi (timers st)"
    have i: "i < length (timers st)" "\<forall>x \<in> set (timers st). fst (timers st ! i) \<le> fst x"
      using assms False by (auto simp: valid_top_def i_def)
    obtain e x where ex: "timers st ! i = (e, x)" by fastforce
    show ?thesis
    proof (cases "e \<le> t")
      case True
      let ?st = "st\<lparr>timers := remove_nth i (timers st)\<rparr>"
      have l: "length (timers ?st) < n" using Suc.prems length_remove_nth [OF i(1)] by simp
      from Suc.IH [OF l, of "log @ [x]"] obtain dn rest where
        IH: "Tick_loop topi record_exec (\<lambda>_. t) n (?st, log @ [x]) = Some (?st\<lparr>timers := rest\<rparr>, (log @ [x]) @ map snd dn)"
        "mset (timers ?st) = mset dn + mset rest" "sorted (map fst dn)" "\<forall>x \<in> set dn. fst x \<le> t" "\<forall>x \<in> set rest. t < fst x"
        by blast
      have m: "mset (timers st) = mset ((e, x) # dn) + mset rest"
        using mset_remove_nth [OF i(1)] IH(2) ex by simp
      have "set dn \<subseteq> set (timers st)" using mset_eq_setD [of "timers st" "((e, x) # dn) @ rest"] m by auto
      then have "sorted (map fst ((e, x) # dn))" using IH(3) i(2) ex by auto
      moreover have "Tick_loop topi record_exec (\<lambda>_. t) (Suc n) (st, log) =
          Some (st\<lparr>timers := rest\<rparr>, log @ map snd ((e, x) # dn))"
        using False True IH(1) ex by (simp add: i_def [symmetric] record_exec_def)
      ultimately show ?thesis using m IH(4,5) True by (intro exI [of _ "(e, x) # dn"] exI [of _ rest]) simp
    next
      case b: False
      then have "\<forall>x \<in> set (timers st). t < fst x" using i(2) ex by force
      then show ?thesis
        using False b ex by (intro exI [of _ "[]"] exI [of _ "timers st"]) (simp add: i_def [symmetric])
    qed
  qed
qed simp

section \<open>Properties\<close>

text \<open>
  A tick terminates and runs exactly the expired tasks, each once, in the order of their times,
  keeps all others, and sets the next alarm, however the queue orders equal times; one round more
  than there are tasks is enough. (Tasks that do not add timers themselves.)
\<close>

theorem tick_runs_expired:
  assumes "valid_top topi" "length (timers st) < fuel"
  shows "\<exists>done rest. Timer_Tick topi record_exec (\<lambda>_. t) fuel (st, []) =
      Some (st\<lparr>timers := rest, alarm_sec := TICK_INTERVAL\<rparr>, map snd done) \<and>
    mset done = filter_mset (\<lambda>x. fst x \<le> t) (mset (timers st)) \<and>
    mset rest = filter_mset (\<lambda>x. t < fst x) (mset (timers st)) \<and> sorted (map fst done)"
proof -
  obtain dn rest where d: "Tick_loop topi record_exec (\<lambda>_. t) fuel (st, []) = Some (st\<lparr>timers := rest\<rparr>, map snd dn)"
    "mset (timers st) = mset dn + mset rest" "sorted (map fst dn)" "\<forall>x \<in> set dn. fst x \<le> t" "\<forall>x \<in> set rest. t < fst x"
    using Tick_loop_runs [OF assms, of t "[]"] by auto
  have "filter_mset (\<lambda>x. fst x \<le> t) (mset dn) = mset dn" "filter_mset (\<lambda>x. fst x \<le> t) (mset rest) = {#}"
    "filter_mset (\<lambda>x. t < fst x) (mset dn) = {#}" "filter_mset (\<lambda>x. t < fst x) (mset rest) = mset rest"
    using d(4,5) by (fastforce simp: filter_mset_eq_conv)+
  with d show ?thesis by (intro exI [of _ dn] exI [of _ rest]) (simp add: Timer_Tick_def)
qed

text \<open>A top that satisfies the hypothesis: the first of the least.\<close>

fun first_min :: "'a timer_task list \<Rightarrow> nat" where
  "first_min [] = 0"
| "first_min [x] = 0"
| "first_min (x # xs) = (if fst x \<le> fst (xs ! first_min xs) then 0 else Suc (first_min xs))"

lemma valid_first_min: "valid_top first_min"
proof -
  have "q \<noteq> [] \<Longrightarrow> first_min q < length q \<and> (\<forall>t \<in> set q. fst (q ! first_min q) \<le> fst t)" for q :: "'a timer_task list"
    by (induction q rule: first_min.induct) force+
  then show ?thesis by (simp add: valid_top_def)
qed

theorem tick_runs_expired_witness:
  "\<exists>done rest. Timer_Tick first_min record_exec (\<lambda>_. 10) 4
      (Timer_init\<lparr>timers := [(12, ''c''), (9, ''b''), (5, ''a'')]\<rparr>, []) =
      Some (Timer_init\<lparr>timers := rest, alarm_sec := TICK_INTERVAL\<rparr>, map snd done) \<and>
    mset done = {#(9::int, ''b''), (5, ''a'')#} \<and> mset rest = {#(12, ''c'')#} \<and> sorted (map fst done)"
proof -
  let ?st = "Timer_init\<lparr>timers := [(12, ''c''), (9, ''b''), (5, ''a'')]\<rparr>"
  have "length (timers ?st) < 4" by simp
  from tick_runs_expired [OF valid_first_min this, of 10] obtain dn rest where
    "Timer_Tick first_min record_exec (\<lambda>_. 10) 4 (?st, []) =
       Some (?st\<lparr>timers := rest, alarm_sec := TICK_INTERVAL\<rparr>, map snd dn)"
    "mset dn = filter_mset (\<lambda>x. fst x \<le> 10) (mset (timers ?st))"
    "mset rest = filter_mset (\<lambda>x. 10 < fst x) (mset (timers ?st))" "sorted (map fst dn)" by blast
  then show ?thesis by (intro exI [of _ dn] exI [of _ rest]) simp
qed

text \<open>
  The counter of \<open>GlobalTimer\<close> never exceeds 1: with two live instances the destruction of
  either one stops the clock, drops every pending task and cancels the thread, and the destruction
  of the other one does nothing.
\<close>

theorem global_timer_nested:
  "\<exists>st1 st2. bindE (GlobalTimer_construct 0 0 Timer_init) (GlobalTimer_construct 0 0) = Inr st1 \<and>
    ConstructCounter st1 = 1 \<and> thread_running st1 \<and>
    GlobalTimer_destruct 0 (Timer_AddTimer now sec f st1) = Inr st2 \<and>
    timers st2 = [] \<and> alarm_sec st2 = 0 \<and> \<not> thread_running st2 \<and>
    GlobalTimer_destruct 0 st2 = Inr st2"
  by (simp add: GlobalTimer_construct_def GlobalTimer_destruct_def Timer_Start_def Timer_Stop_def
      Timer_init_def Timer_AddTimer_def)

end
