(* ===== verification/Sysutils.thy ===== *)
theory Sysutils
  imports ArgsParser
begin

text \<open>
  \<open>include/common/Sysutils.hh\<close>, \<open>source/common/Sysutils.cc\<close>: the load the heartbeat reports.

  The contents of \<open>/proc/stat\<close> and \<open>/proc/meminfo\<close> are arguments, as lines. Fields are separated by
  white space and numeric fields are decimal, as the kernel writes them; a line of \<open>/proc/stat\<close> with
  fewer than eight numbers would leave locals uninitialised and is a fault. The two static
  variables are the state, \<open>None\<close> before the first call. The counters are exact integers (the code
  has 64 bits), and the floating point formula is the function \<open>usage\<close> of its two operands.
\<close>

section \<open>The model\<close>

fun fields_from :: "string \<Rightarrow> string \<Rightarrow> string list" where
  "fields_from acc [] = (if acc = [] then [] else [acc])"
| "fields_from acc (c # s) =
     (if is_space c then (if acc = [] then fields_from [] s else acc # fields_from [] s)
      else fields_from (acc @ [c]) s)"

definition fields :: "string \<Rightarrow> string list" where
  "fields line = fields_from [] line"

definition number :: "string \<Rightarrow> int" where
  "number s = int (digits_val 0 (takeWhile is_digit s))"

definition get_cpu_usage :: "(int \<Rightarrow> int \<Rightarrow> 'f) \<Rightarrow> string \<Rightarrow> (int \<times> int) option \<Rightarrow> ('f \<times> (int \<times> int) option) result" where
  "get_cpu_usage usage line statics =
     (case map number (drop 1 (fields line)) of
        user # nice # system # idle # iowait # irq # softirq # steal # _ \<Rightarrow>
          (let total = user + nice + system + idle + iowait + irq + softirq + steal;
               idle_time = idle + iowait;
               (prev_total, prev_idle) = (case statics of None \<Rightarrow> (total, idle_time) | Some p \<Rightarrow> p);
               total_diff = total - prev_total;
               idle_diff = idle_time - prev_idle
           in Inr (usage (total_diff - idle_diff) total_diff, Some (total, idle_time)))
      | _ \<Rightarrow> Inl OutOfBounds)"

definition memory_line :: "string \<Rightarrow> int \<times> int \<Rightarrow> int \<times> int" where
  "memory_line line m =
     (case m of (total_memory, free_memory) \<Rightarrow>
        let value = (\<lambda>old. case drop 1 (fields line) of [] \<Rightarrow> old | v # _ \<Rightarrow> number v) in
        if has_prefix ''MemTotal:'' line then (value total_memory, free_memory)
        else if has_prefix ''MemFree:'' line then (total_memory, value free_memory)
        else m)"

definition get_memory_usage :: "(int \<Rightarrow> int \<Rightarrow> 'f) \<Rightarrow> string list \<Rightarrow> 'f" where
  "get_memory_usage usage file =
     (case fold memory_line file (0, 0) of (total_memory, free_memory) \<Rightarrow>
        usage (total_memory - free_memory) total_memory)"

section \<open>Lemmas\<close>

lemma fields_from_word:
  "list_all (\<lambda>c. \<not> is_space c) w \<Longrightarrow> fields_from acc (w @ CHR '' '' # s) =
    (if acc @ w = [] then fields_from [] s else (acc @ w) # fields_from [] s)"
  by (induction w arbitrary: acc) (auto simp: is_space_def)

lemma fields_from_end: "list_all (\<lambda>c. \<not> is_space c) w \<Longrightarrow> fields_from acc w = (if acc @ w = [] then [] else [acc @ w])"
  by (induction w arbitrary: acc) auto

lemma dec_nat_no_space: "list_all (\<lambda>c. \<not> is_space c) (dec_nat n)"
  using dec_nat_digits [of n] digit_not_special by (auto simp: list_all_iff)

lemma number_dec_nat [simp]: "number (dec_nat n) = int n"
  by (simp add: number_def takeWhile_dec_nat digits_val_dec_nat)

text \<open>The line the kernel writes: the name, and the counters in decimal.\<close>

fun stat_line :: "string \<Rightarrow> nat list \<Rightarrow> string" where
  "stat_line name [] = name"
| "stat_line name (n # ns) = name @ CHR '' '' # stat_line (dec_nat n) ns"

lemma fields_stat_line:
  "name \<noteq> [] \<Longrightarrow> list_all (\<lambda>c. \<not> is_space c) name \<Longrightarrow> fields (stat_line name ns) = name # map dec_nat ns"
proof (induction ns arbitrary: name)
  case Nil
  then show ?case by (simp add: fields_def fields_from_end)
next
  case (Cons n ns)
  have "dec_nat n \<noteq> []" using dec_nat_digits by blast
  from Cons.IH [OF this dec_nat_no_space] show ?case
    using Cons.prems by (simp add: fields_def fields_from_word)
qed

section \<open>The load between two readings\<close>

text \<open>
  The first call reports no load; a later one reports the busy share of the ticks between the two
  readings, which is between none and all of them when no counter went back.
\<close>

theorem cpu_usage_between_readings:
  assumes "length ns = 8" "length ms = 8" "list_all2 (\<le>) ns ms"
  obtains st where "get_cpu_usage Pair (stat_line ''cpu'' ns) None = Inr ((0, 0), Some st)"
    "get_cpu_usage Pair (stat_line ''cpu'' ms) (Some st) =
      Inr ((int (sum_list ms) - int (sum_list ns) - (int (ms ! 3 + ms ! 4) - int (ns ! 3 + ns ! 4)),
        int (sum_list ms) - int (sum_list ns)),
      Some (int (sum_list ms), int (ms ! 3 + ms ! 4)))"
    "0 \<le> int (sum_list ms) - int (sum_list ns) - (int (ms ! 3 + ms ! 4) - int (ns ! 3 + ns ! 4))"
    "int (ns ! 3 + ns ! 4) \<le> int (ms ! 3 + ms ! 4)"
proof -
  have cpu: "list_all (\<lambda>c. \<not> is_space c) ''cpu''" by (simp add: is_space_def)
  have F: "map number (drop 1 (fields (stat_line ''cpu'' l))) = map int l" for l
    by (simp add: fields_stat_line [OF _ cpu] del: stat_line.simps)
  show ?thesis
    using assms
    by (intro that [of "(int (sum_list ns), int (ns ! 3 + ns ! 4))"])
      (unfold get_cpu_usage_def F, auto simp: numeral_eq_Suc length_Suc_conv list_all2_Cons1 Let_def)
qed

end
