(* ===== verification/Registry.thy ===== *)
theory Registry
  imports Cformat "HOL-Library.AList"
begin

text \<open>
  The registry of the name server: what the endpoints and the monitor of
  \<open>namesvr/run_node.py\<close> do to the dictionary \<open>servers\<close>.

  The dictionary is an association list in insertion order, which is the order in which Python
  iterates over it. Times and loads are a linearly ordered ring \<open>'f\<close>: the rounding of Python's
  floats is not modelled. A field of a request is an option: \<open>None\<close> when \<open>data[...]\<close> or its
  conversion by \<open>str\<close> or \<open>int\<close> raises, which Flask answers with status 500.
\<close>

section \<open>Data\<close>

datatype svr_status = ONLINE | OFFLINE

record 'f svr =
  s_ip :: string
  s_port :: int
  services :: "string list"
  alive_timestamp :: 'f
  svr_status :: svr_status
  cpu_usage :: 'f
  memory_usage :: 'f

type_synonym 'f registry = "(string \<times> 'f svr) list"

datatype http_reply =
    StatusSuccess
  | ServerList "(string \<times> int) list"
  | BadRequest string
  | ServerError

definition MAX_INACTIVITY_TIME :: "'f::linordered_idom" where
  "MAX_INACTIVITY_TIME = 30"

definition MAX_OFFLINE_TIME :: "'f::linordered_idom" where
  "MAX_OFFLINE_TIME = 30"

definition svr_id :: "string \<Rightarrow> int \<Rightarrow> string" where
  "svr_id ip port = ip @ '':'' @ dec port"

section \<open>The endpoints\<close>

text \<open>
  Each gives the reply, the dictionary as it leaves it and whether it hands the dictionary to
  \<open>node.client_request\<close>.
\<close>

record register_request =
  rr_ip :: "string option"
  rr_port :: "int option"
  rr_service_name :: "string option"

definition register_endpoint ::
  "'f::linordered_idom \<Rightarrow> register_request \<Rightarrow> 'f registry \<Rightarrow> http_reply \<times> 'f registry \<times> bool" where
  "register_endpoint now data servers =
     (case (rr_ip data, rr_port data, rr_service_name data) of
        (Some ip, Some port, Some service_name) \<Rightarrow>
          let k = svr_id ip port;
              servers = (if k \<notin> set (map fst servers)
                then AList.update k \<lparr>s_ip = ip, s_port = port, services = [], alive_timestamp = now,
                  svr_status = ONLINE, cpu_usage = 0, memory_usage = 0\<rparr> servers
                else servers)
          in case map_of servers k of
               None \<Rightarrow> (ServerError, servers, False)
             | Some s \<Rightarrow>
                 if service_name \<in> set (services s) then
                   (BadRequest (''Duplicate service '' @ service_name @ '' on '' @ ip @ '':'' @ dec port), servers, False)
                 else
                   (StatusSuccess, AList.update k (s\<lparr>services := services s @ [service_name],
                      alive_timestamp := now, svr_status := ONLINE\<rparr>) servers, True)
      | _ \<Rightarrow> (ServerError, servers, False))"

text \<open>\<open>data.get('cpu_usage', 0)\<close>: the load fields may be absent.\<close>

record 'f heartbeat_request =
  hr_ip :: "string option"
  hr_port :: "int option"
  hr_cpu_usage :: "'f option"
  hr_memory_usage :: "'f option"

definition get_or :: "'a \<Rightarrow> 'a option \<Rightarrow> 'a" where
  "get_or d x = (case x of None \<Rightarrow> d | Some y \<Rightarrow> y)"

definition heartbeat_endpoint ::
  "'f::linordered_idom \<Rightarrow> 'f heartbeat_request \<Rightarrow> 'f registry \<Rightarrow> http_reply \<times> 'f registry \<times> bool" where
  "heartbeat_endpoint now data servers =
     (case (hr_ip data, hr_port data) of
        (Some ip, Some port) \<Rightarrow>
          (let k = svr_id ip port in
           case map_of servers k of
             None \<Rightarrow> (BadRequest ''not-registered.'', servers, False)
           | Some s \<Rightarrow>
               (StatusSuccess, AList.update k (s\<lparr>alive_timestamp := now, svr_status := ONLINE,
                  cpu_usage := get_or 0 (hr_cpu_usage data), memory_usage := get_or 0 (hr_memory_usage data)\<rparr>) servers,
                True))
      | _ \<Rightarrow> (ServerError, servers, False))"

text \<open>
  The loop of \<open>discover_endpoint\<close>; \<open>best\<close> is the pair of \<open>best_load\<close> and \<open>best_svr\<close>, \<open>None\<close> standing
  for the initial load of infinity and the initial server \<open>None\<close>.
\<close>

definition svr_load :: "'f::linordered_idom svr \<Rightarrow> 'f" where
  "svr_load s = cpu_usage s + memory_usage s"

fun best_server :: "string \<Rightarrow> ('f::linordered_idom \<times> 'f svr) option \<Rightarrow> 'f registry \<Rightarrow> ('f \<times> 'f svr) option" where
  "best_server callee best [] = best"
| "best_server callee best ((_, s) # r) =
     (if callee \<notin> set (services s) then best_server callee best r
      else let total_load = svr_load s in
        if (case best of None \<Rightarrow> True | Some (best_load, _) \<Rightarrow> total_load < best_load)
        then best_server callee (Some (total_load, s)) r
        else best_server callee best r)"

definition discover_endpoint :: "string option \<Rightarrow> 'f::linordered_idom registry \<Rightarrow> http_reply" where
  "discover_endpoint callee servers =
     (case callee of
        None \<Rightarrow> BadRequest ([CHR 0x27] @ ''callee'' @ [CHR 0x27] @ '' parameter is required.'')
      | Some callee \<Rightarrow>
          (case best_server callee None servers of
             Some (_, s) \<Rightarrow> ServerList [(s_ip s, s_port s)]
           | None \<Rightarrow> ServerList []))"

section \<open>The monitor\<close>

text \<open>One turn of the loop over the keys, and the pass over all of them.\<close>

definition monitor_key :: "'f::linordered_idom \<Rightarrow> string \<Rightarrow> 'f registry \<Rightarrow> 'f registry" where
  "monitor_key current_time k servers =
     (case map_of servers k of
        None \<Rightarrow> servers
      | Some s \<Rightarrow>
          (case svr_status s of
             ONLINE \<Rightarrow>
               if current_time - alive_timestamp s > MAX_INACTIVITY_TIME
               then AList.update k (s\<lparr>svr_status := OFFLINE\<rparr>) servers else servers
           | OFFLINE \<Rightarrow>
               if current_time - alive_timestamp s > MAX_INACTIVITY_TIME + MAX_OFFLINE_TIME
               then AList.delete k servers else servers))"

definition monitor_pass :: "'f::linordered_idom \<Rightarrow> 'f registry \<Rightarrow> 'f registry" where
  "monitor_pass current_time servers = fold (monitor_key current_time) (map fst servers) servers"

section \<open>Keys\<close>

lemma dec_no_colon: "CHR '':'' \<notin> set (dec p)"
proof -
  have "\<not> is_digit (CHR '':'')" by (simp add: is_digit_def)
  then have d: "CHR '':'' \<notin> set (dec_nat n)" for n
    using dec_nat_digits [of n] by (auto simp: list_all_iff)
  show ?thesis using d by (simp add: dec_def)
qed

lemma dec_inj: "dec p = dec q \<Longrightarrow> p = q"
proof -
  assume e: "dec p = dec q"
  have m: "CHR ''-'' \<noteq> hd (dec_nat n)" for n
    using dec_nat_digits [of n] by (cases "dec_nat n") (auto simp: is_digit_def)
  have i: "dec_nat m = dec_nat n \<Longrightarrow> m = n" for m n
    using digits_val_dec_nat by metis
  have h: "dec_nat m \<noteq> CHR ''-'' # dec_nat n" for m n
    using m [of m] by auto
  show ?thesis
    using e h h [symmetric] by (auto simp: dec_def dest!: i split: if_splits)
qed

lemma split_last_eq:
  "c \<notin> set y \<Longrightarrow> c \<notin> set y' \<Longrightarrow> x @ c # y = x' @ c # y' \<longleftrightarrow> x = x' \<and> y = y'"
  by (auto simp: append_eq_append_conv2 append_eq_Cons_conv Cons_eq_append_conv)

lemma svr_id_inj [simp]: "svr_id ip p = svr_id ip' p' \<longleftrightarrow> ip = ip' \<and> p = p'"
  using dec_inj by (auto simp: svr_id_def split_last_eq dec_no_colon)

section \<open>Well-formed registries\<close>

text \<open>
  Every server is registered once, under the id made of its own address, with at least one
  service and no service twice.
\<close>

definition registry_ok :: "'f registry \<Rightarrow> bool" where
  "registry_ok servers \<longleftrightarrow> distinct (map fst servers) \<and>
     (\<forall>(k, s) \<in> set servers. k = svr_id (s_ip s) (s_port s) \<and> services s \<noteq> [] \<and> distinct (services s))"

lemma registry_ok_Nil [simp]: "registry_ok []"
  by (simp add: registry_ok_def)

lemma set_update_distinct:
  "distinct (map fst al) \<Longrightarrow> set (AList.update k v al) = insert (k, v) (set al - {x. fst x = k})"
  by (induction al) (auto simp: image_iff)

lemma registry_ok_update:
  "registry_ok servers \<Longrightarrow> k = svr_id (s_ip s) (s_port s) \<Longrightarrow> services s \<noteq> [] \<Longrightarrow> distinct (services s) \<Longrightarrow>
   registry_ok (AList.update k s servers)"
  by (auto simp: registry_ok_def set_update_distinct distinct_update)

lemma registry_ok_delete: "registry_ok servers \<Longrightarrow> registry_ok (AList.delete k servers)"
  using distinct_delete [of servers k] by (auto simp: registry_ok_def AList.delete_eq)

lemma registry_ok_entry:
  "registry_ok servers \<Longrightarrow> map_of servers k = Some s \<Longrightarrow>
   k = svr_id (s_ip s) (s_port s) \<and> services s \<noteq> [] \<and> distinct (services s)"
  by (auto simp: registry_ok_def dest!: map_of_SomeD)

lemma registry_ok_change:
  "registry_ok servers \<Longrightarrow> map_of servers k = Some s \<Longrightarrow>
   s_ip s' = s_ip s \<Longrightarrow> s_port s' = s_port s \<Longrightarrow> services s' = services s \<Longrightarrow>
   registry_ok (AList.update k s' servers)"
  using registry_ok_entry [of servers k s] by (auto intro!: registry_ok_update)

section \<open>The monitor pass, server by server\<close>

text \<open>What a pass does to one server, whatever else is registered; \<open>None\<close>: the server is removed.\<close>

definition monitor_svr :: "'f::linordered_idom \<Rightarrow> 'f svr \<Rightarrow> 'f svr option" where
  "monitor_svr now s =
     (if svr_status s = ONLINE
      then Some (if now - alive_timestamp s > 30 then s\<lparr>svr_status := OFFLINE\<rparr> else s)
      else if now - alive_timestamp s > 60 then None else Some s)"

lemma monitor_key_map_of:
  assumes "distinct (map fst servers)"
  shows "map_of (monitor_key now k servers) =
    (map_of servers)(k := Option.bind (map_of servers k) (monitor_svr now))"
proof (cases "map_of servers k")
  case (Some s)
  from Some show ?thesis
    by (cases "svr_status s")
      (auto simp: monitor_key_def monitor_svr_def update_conv' delete_conv' fun_eq_iff
          MAX_INACTIVITY_TIME_def MAX_OFFLINE_TIME_def)
qed (auto simp: monitor_key_def fun_eq_iff)

lemma monitor_key_keys:
  "distinct (map fst servers) \<Longrightarrow> distinct (map fst (monitor_key now k servers))"
  by (auto simp: monitor_key_def distinct_update distinct_delete split: option.splits svr_status.splits)

lemma monitor_pass_map_of:
  assumes "distinct (map fst servers)"
  shows "map_of (monitor_pass now servers) k = Option.bind (map_of servers k) (monitor_svr now)"
proof -
  have "distinct (map fst al) \<Longrightarrow> distinct ks \<Longrightarrow> map_of (fold (monitor_key now) ks al) k =
    (if k \<in> set ks then Option.bind (map_of al k) (monitor_svr now) else map_of al k)" for ks al
    by (induction ks arbitrary: al) (auto simp: monitor_key_map_of monitor_key_keys)
  from this [OF assms assms] show ?thesis
    by (cases "k \<in> set (map fst servers)")
      (simp_all add: monitor_pass_def, metis bind_eq_None_conv map_of_eq_None_iff)
qed

lemma monitor_key_ok: "registry_ok servers \<Longrightarrow> registry_ok (monitor_key now k servers)"
  by (auto simp: monitor_key_def registry_ok_delete split: option.splits svr_status.splits
      intro!: registry_ok_change)

lemma monitor_pass_ok: "registry_ok servers \<Longrightarrow> registry_ok (monitor_pass now servers)"
proof -
  have "registry_ok al \<Longrightarrow> registry_ok (fold (monitor_key now) ks al)" for ks al
    by (induction ks arbitrary: al) (auto simp: monitor_key_ok)
  then show "registry_ok servers \<Longrightarrow> ?thesis" by (simp add: monitor_pass_def)
qed

section \<open>Operations\<close>

datatype 'f reg_op =
    Register register_request
  | SendBeat "'f heartbeat_request"
  | Discover "string option"
  | Monitor

text \<open>
  The monitor replies nobody; its reply is \<open>StatusSuccess\<close> here. \<open>True\<close>: the dictionary is handed to
  \<open>client_request\<close>.
\<close>

fun registry_op :: "'f::linordered_idom \<Rightarrow> 'f reg_op \<Rightarrow> 'f registry \<Rightarrow> http_reply \<times> 'f registry \<times> bool" where
  "registry_op now (Register data) servers = register_endpoint now data servers"
| "registry_op now (SendBeat data) servers = heartbeat_endpoint now data servers"
| "registry_op now (Discover callee) servers = (discover_endpoint callee servers, servers, False)"
| "registry_op now Monitor servers = (StatusSuccess, monitor_pass now servers, True)"

lemma register_keeps_ok: "registry_ok servers \<Longrightarrow> registry_ok (fst (snd (register_endpoint now data servers)))"
proof (cases "rr_ip data"; cases "rr_port data"; cases "rr_service_name data")
  fix ip p n
  assume ok: "registry_ok servers" and d: "rr_ip data = Some ip" "rr_port data = Some p" "rr_service_name data = Some n"
  show ?thesis
  proof (cases "map_of servers (svr_id ip p)")
    case None
    then have n: "svr_id ip p \<notin> set (map fst servers)" by (metis map_of_eq_None_iff image_set)
    with ok d show ?thesis
      by (auto simp: register_endpoint_def update_conv' update_Some_unfold intro!: registry_ok_update)
  next
    case (Some s)
    then have n: "svr_id ip p \<in> set (map fst servers)" by (metis map_of_eq_None_iff option.distinct(1) image_set)
    with Some ok d show ?thesis
      using registry_ok_entry [OF ok Some]
      by (auto simp: register_endpoint_def intro!: registry_ok_update)
  qed
qed (auto simp: register_endpoint_def)

lemma heartbeat_ok: "registry_ok servers \<Longrightarrow> registry_ok (fst (snd (heartbeat_endpoint now data servers)))"
  by (auto simp: heartbeat_endpoint_def Let_def split: option.splits intro!: registry_ok_change)

lemma registry_op_ok: "registry_ok servers \<Longrightarrow> registry_ok (fst (snd (registry_op now op servers)))"
  by (cases op) (simp_all add: register_keeps_ok heartbeat_ok monitor_pass_ok)

section \<open>The directory: what the registry promises\<close>

text \<open>
  The abstract state maps an address to what is known of the server there. \<open>dir_next\<close> is its next
  state and \<open>dir_reply\<close> says which replies are right.
\<close>

type_synonym 'f directory = "string \<times> int \<Rightarrow> 'f svr option"

definition directory_of :: "'f registry \<Rightarrow> 'f directory" where
  "directory_of servers = (\<lambda>(ip, port). map_of servers (svr_id ip port))"

definition new_svr :: "'f::linordered_idom \<Rightarrow> string \<Rightarrow> int \<Rightarrow> 'f svr" where
  "new_svr now ip port = \<lparr>s_ip = ip, s_port = port, services = [], alive_timestamp = now,
     svr_status = ONLINE, cpu_usage = 0, memory_usage = 0\<rparr>"

fun dir_next :: "'f::linordered_idom \<Rightarrow> 'f reg_op \<Rightarrow> 'f directory \<Rightarrow> 'f directory" where
  "dir_next now (Register data) d =
     (case (rr_ip data, rr_port data, rr_service_name data) of
        (Some ip, Some port, Some name) \<Rightarrow>
          let s = get_or (new_svr now ip port) (d (ip, port)) in
          if name \<in> set (services s) then d
          else d((ip, port) \<mapsto> s\<lparr>services := services s @ [name], alive_timestamp := now, svr_status := ONLINE\<rparr>)
      | _ \<Rightarrow> d)"
| "dir_next now (SendBeat data) d =
     (case (hr_ip data, hr_port data) of
        (Some ip, Some port) \<Rightarrow>
          (case d (ip, port) of None \<Rightarrow> d
           | Some s \<Rightarrow> d((ip, port) \<mapsto> s\<lparr>alive_timestamp := now, svr_status := ONLINE,
               cpu_usage := get_or 0 (hr_cpu_usage data), memory_usage := get_or 0 (hr_memory_usage data)\<rparr>))
      | _ \<Rightarrow> d)"
| "dir_next now (Discover callee) d = d"
| "dir_next now Monitor d = (\<lambda>a. Option.bind (d a) (monitor_svr now))"

definition least_loaded :: "string \<Rightarrow> 'f::linordered_idom directory \<Rightarrow> string \<times> int \<Rightarrow> bool" where
  "least_loaded callee d a \<longleftrightarrow> (\<exists>s. d a = Some s \<and> callee \<in> set (services s) \<and>
     (\<forall>a' s'. d a' = Some s' \<longrightarrow> callee \<in> set (services s') \<longrightarrow> svr_load s \<le> svr_load s'))"

fun dir_reply :: "'f::linordered_idom reg_op \<Rightarrow> 'f directory \<Rightarrow> http_reply \<Rightarrow> bool" where
  "dir_reply (Register data) d r =
     (case (rr_ip data, rr_port data, rr_service_name data) of
        (Some ip, Some port, Some name) \<Rightarrow>
          if (case d (ip, port) of None \<Rightarrow> False | Some s \<Rightarrow> name \<in> set (services s))
          then (\<exists>m. r = BadRequest m) else r = StatusSuccess
      | _ \<Rightarrow> r = ServerError)"
| "dir_reply (SendBeat data) d r =
     (case (hr_ip data, hr_port data) of
        (Some ip, Some port) \<Rightarrow> if d (ip, port) = None then (\<exists>m. r = BadRequest m) else r = StatusSuccess
      | _ \<Rightarrow> r = ServerError)"
| "dir_reply (Discover callee) d r =
     (case callee of None \<Rightarrow> (\<exists>m. r = BadRequest m)
      | Some c \<Rightarrow> if \<exists>a s. d a = Some s \<and> c \<in> set (services s)
          then (\<exists>a. r = ServerList [a] \<and> least_loaded c d a) else r = ServerList [])"
| "dir_reply Monitor d r = (r = StatusSuccess)"

lemma directory_of_update:
  "directory_of (AList.update (svr_id ip port) s servers) = (directory_of servers)((ip, port) \<mapsto> s)"
  by (auto simp: directory_of_def update_conv' fun_eq_iff)

lemma directory_of_Nil [simp]: "directory_of [] = Map.empty"
  by (auto simp: directory_of_def)

lemma directory_of_eq: "directory_of servers (ip, port) = map_of servers (svr_id ip port)"
  by (simp add: directory_of_def)

lemma directory_of_Some:
  "registry_ok servers \<Longrightarrow> directory_of servers a = Some s \<longleftrightarrow>
   (svr_id (fst a) (snd a), s) \<in> set servers"
  by (cases a) (auto simp: directory_of_def registry_ok_def)

lemma registry_ok_in:
  "registry_ok servers \<Longrightarrow> (k, s) \<in> set servers \<Longrightarrow> directory_of servers (s_ip s, s_port s) = Some s"
  by (auto simp: directory_of_Some registry_ok_def)

lemma directory_of_address:
  "registry_ok servers \<Longrightarrow> directory_of servers a = Some s \<Longrightarrow> a = (s_ip s, s_port s)"
  by (cases a) (auto simp: directory_of_Some registry_ok_def)

text \<open>The search keeps a server offering the service with the least load of those seen.\<close>

lemma best_server_from:
  "best_server callee best r = Some (l, s) \<Longrightarrow>
   best = Some (l, s) \<or> l = svr_load s \<and> callee \<in> set (services s) \<and> (\<exists>k. (k, s) \<in> set r)"
  by (induction callee best r rule: best_server.induct) (fastforce simp: Let_def split: if_splits)+

lemma best_server_le:
  "best_server callee best r = Some (l, s) \<Longrightarrow> best = Some (l', s') \<Longrightarrow> l \<le> l'"
proof (induction callee best r arbitrary: l' s' rule: best_server.induct)
  case (2 callee best k s0 r)
  then show ?case
    by (cases "callee \<in> set (services s0) \<and> svr_load s0 < l'") (fastforce simp: Let_def split: if_splits)+
qed simp

lemma best_server_least:
  "best_server callee best r = Some (l, s) \<Longrightarrow> (k, s') \<in> set r \<Longrightarrow> callee \<in> set (services s') \<Longrightarrow>
   l \<le> svr_load s'"
proof (induction callee best r rule: best_server.induct)
  case (2 callee best k0 s0 r)
  show ?case
  proof (cases "(k, s') = (k0, s0)")
    case True
    show ?thesis
    proof (cases best)
      case None
      with True 2(4,6) show ?thesis using best_server_le by fastforce
    next
      case (Some b)
      with True 2(4,6) show ?thesis
        by (cases b) (auto simp: Let_def not_less split: if_splits dest: best_server_le
          intro: order_trans [OF best_server_le])
    qed
  next
    case False
    with 2 show ?thesis by (auto simp: Let_def split: if_splits)
  qed
qed simp

lemma best_server_None:
  "best_server callee best r = None \<longleftrightarrow> best = None \<and> (\<forall>(k, s) \<in> set r. callee \<notin> set (services s))"
  by (induction callee best r rule: best_server.induct) (auto simp: Let_def split: option.splits)

lemma discover_least:
  assumes "registry_ok servers"
  shows "dir_reply (Discover callee) (directory_of servers) (discover_endpoint callee servers)"
proof (cases callee)
  case (Some c)
  show ?thesis
  proof (cases "best_server c None servers")
    case None
    then have "\<forall>(k, s) \<in> set servers. c \<notin> set (services s)"
      by (simp add: best_server_None)
    then show ?thesis
      using Some None assms by (fastforce simp: discover_endpoint_def directory_of_Some)
  next
    case (Some x)
    then obtain l s where x: "best_server c None servers = Some (l, s)" by (cases x) auto
    then obtain k where s: "(k, s) \<in> set servers" "c \<in> set (services s)" "l = svr_load s"
      using best_server_from by fastforce
    have le: "(k', s') \<in> set servers \<Longrightarrow> c \<in> set (services s') \<Longrightarrow> l \<le> svr_load s'" for k' s'
      using best_server_least [OF x] .
    have "least_loaded c (directory_of servers) (s_ip s, s_port s)"
      using s(2,3) le registry_ok_in [OF assms s(1)]
      by (auto simp: least_loaded_def directory_of_Some [OF assms])
    with x s registry_ok_in [OF assms s(1)] \<open>callee = Some c\<close> show ?thesis
      by (auto simp: discover_endpoint_def)
  qed
qed (simp add: discover_endpoint_def)

lemma register_refines:
  assumes ok: "registry_ok servers"
  shows "dir_reply (Register data) (directory_of servers) (fst (register_endpoint now data servers))"
    and "directory_of (fst (snd (register_endpoint now data servers))) =
      dir_next now (Register data) (directory_of servers)"
proof -
  have "dir_reply (Register data) (directory_of servers) (fst (register_endpoint now data servers)) \<and>
    directory_of (fst (snd (register_endpoint now data servers))) = dir_next now (Register data) (directory_of servers)"
  proof (cases "rr_ip data"; cases "rr_port data"; cases "rr_service_name data")
    fix ip p n
    assume d: "rr_ip data = Some ip" "rr_port data = Some p" "rr_service_name data = Some n"
    show ?thesis
    proof (cases "map_of servers (svr_id ip p)")
      case None
      then have n: "svr_id ip p \<notin> set (map fst servers)" by (metis map_of_eq_None_iff image_set)
      with None d show ?thesis
        by (simp add: register_endpoint_def update_conv' directory_of_eq directory_of_update get_or_def new_svr_def
            Let_def)
    next
      case (Some s)
      then have n: "svr_id ip p \<in> set (map fst servers)"
        by (metis map_of_eq_None_iff option.distinct(1) image_set)
      with Some d show ?thesis
        by (simp add: register_endpoint_def directory_of_eq directory_of_update get_or_def Let_def)
    qed
  qed (auto simp: register_endpoint_def)
  then show "dir_reply (Register data) (directory_of servers) (fst (register_endpoint now data servers))"
    "directory_of (fst (snd (register_endpoint now data servers))) = dir_next now (Register data) (directory_of servers)"
    by blast+
qed

lemma heartbeat_refines:
  "dir_reply (SendBeat data) (directory_of servers) (fst (heartbeat_endpoint now data servers))"
  "directory_of (fst (snd (heartbeat_endpoint now data servers))) = dir_next now (SendBeat data) (directory_of servers)"
  by (auto simp: heartbeat_endpoint_def directory_of_eq directory_of_update Let_def split: option.splits)

lemma monitor_refines:
  "registry_ok servers \<Longrightarrow>
   directory_of (monitor_pass now servers) = dir_next now Monitor (directory_of servers)"
  by (auto simp: directory_of_def registry_ok_def monitor_pass_map_of fun_eq_iff)

lemma registry_op_refines:
  assumes "registry_ok servers"
  shows "dir_reply op (directory_of servers) (fst (registry_op now op servers))"
    and "directory_of (fst (snd (registry_op now op servers))) = dir_next now op (directory_of servers)"
  by (cases op; simp add: discover_least [OF assms] register_refines [OF assms] heartbeat_refines
      monitor_refines [OF assms] del: dir_reply.simps(1-3) dir_next.simps(1,2,4))+

text \<open>A sequence of operations, each at its time, with the replies.\<close>

fun dir_run :: "'f::linordered_idom directory \<Rightarrow> ('f \<times> 'f reg_op) list \<Rightarrow> http_reply list \<Rightarrow> bool" where
  "dir_run d [] replies = (replies = [])"
| "dir_run d ((now, op) # ops) replies =
     (case replies of [] \<Rightarrow> False | r # rs \<Rightarrow> dir_reply op d r \<and> dir_run (dir_next now op d) ops rs)"

fun ops_run ::
  "('f \<Rightarrow> 'f reg_op \<Rightarrow> 's \<Rightarrow> http_reply \<times> 's) \<Rightarrow> 's \<Rightarrow> ('f \<times> 'f reg_op) list \<Rightarrow> http_reply list \<times> 's" where
  "ops_run perform s [] = ([], s)"
| "ops_run perform s ((now, op) # ops) =
     (let (reply, s') = perform now op s; (replies, s'') = ops_run perform s' ops in (reply # replies, s''))"

lemma ops_run_Cons [simp]:
  "fst (ops_run perform s ((now, op) # ops)) = fst (perform now op s) # fst (ops_run perform (snd (perform now op s)) ops)"
  "snd (ops_run perform s ((now, op) # ops)) = snd (ops_run perform (snd (perform now op s)) ops)"
  by (simp_all add: Let_def split: prod.splits)

declare ops_run.simps(2) [simp del]

text \<open>
  What the clients of a name server rely on: it keeps a directory, replies as the directory allows
  and changes it as the directory says.
\<close>

locale directory_service =
  fixes perform :: "'f::linordered_idom \<Rightarrow> 'f reg_op \<Rightarrow> 's \<Rightarrow> http_reply \<times> 's"
    and known :: "'s \<Rightarrow> 'f directory"
    and ok :: "'s \<Rightarrow> bool"
  assumes keeps_ok: "ok s \<Longrightarrow> ok (snd (perform now op s))"
    and replies: "ok s \<Longrightarrow> dir_reply op (known s) (fst (perform now op s))"
    and moves: "ok s \<Longrightarrow> known (snd (perform now op s)) = dir_next now op (known s)"
begin

lemma run_simulates:
  "ok s \<Longrightarrow> ok (snd (ops_run perform s ops)) \<and> dir_run (known s) ops (fst (ops_run perform s ops)) \<and>
   known (snd (ops_run perform s ops)) = fold (\<lambda>(now, op). dir_next now op) ops (known s)"
proof (induction ops arbitrary: s)
  case (Cons o1 ops)
  obtain now op where o: "o1 = (now, op)" by (cases o1)
  show ?case
    using Cons.IH [OF keeps_ok [OF Cons.prems, where now = now and op = op]]
      replies [OF Cons.prems, where op = op and now = now] moves [OF Cons.prems, where now = now and op = op]
    by (simp add: o)
qed simp

text \<open>Once registered, a service is offered, and a discovery finds a server for it.\<close>

lemma registered_offers:
  "ok s \<Longrightarrow> \<exists>v. known (snd (perform now (Register \<lparr>rr_ip = Some ip, rr_port = Some p, rr_service_name = Some name\<rparr>) s)) (ip, p) =
     Some v \<and> name \<in> set (services v)"
  by (cases "known s (ip, p)") (auto simp: moves get_or_def Let_def new_svr_def)

lemma register_reply:
  "ok s \<Longrightarrow>
   fst (perform now (Register \<lparr>rr_ip = Some ip, rr_port = Some p, rr_service_name = Some name\<rparr>) s) = StatusSuccess \<longleftrightarrow>
   \<not> (\<exists>v. known s (ip, p) = Some v \<and> name \<in> set (services v))"
  using replies [of s "Register \<lparr>rr_ip = Some ip, rr_port = Some p, rr_service_name = Some name\<rparr>" now]
  by (cases "known s (ip, p)") (auto split: if_splits)

lemma offered_is_found:
  "ok s \<Longrightarrow> known s a = Some v \<Longrightarrow> name \<in> set (services v) \<Longrightarrow>
   \<exists>a'. fst (perform now (Discover (Some name)) s) = ServerList [a'] \<and> least_loaded name (known s) a'"
  using replies [of s "Discover (Some name)" now] by (cases a) (fastforce split: if_splits)

end

definition registry_perform :: "'f::linordered_idom \<Rightarrow> 'f reg_op \<Rightarrow> 'f registry \<Rightarrow> http_reply \<times> 'f registry" where
  "registry_perform now op servers = (case registry_op now op servers of (reply, servers', _) \<Rightarrow> (reply, servers'))"

lemma registry_perform_simps:
  "fst (registry_perform now op servers) = fst (registry_op now op servers)"
  "snd (registry_perform now op servers) = fst (snd (registry_op now op servers))"
  by (simp_all add: registry_perform_def split: prod.splits)

interpretation registry_dir: directory_service registry_perform directory_of registry_ok
  by unfold_locales (simp_all add: registry_perform_simps registry_op_ok registry_op_refines)

definition registry_run ::
  "'f::linordered_idom registry \<Rightarrow> ('f \<times> 'f reg_op) list \<Rightarrow> http_reply list \<times> 'f registry" where
  "registry_run = ops_run registry_perform"

lemma registry_run_simps [simp]:
  "registry_run servers [] = ([], servers)"
  "fst (registry_run servers ((now, op) # ops)) =
     fst (registry_op now op servers) # fst (registry_run (fst (snd (registry_op now op servers))) ops)"
  "snd (registry_run servers ((now, op) # ops)) = snd (registry_run (fst (snd (registry_op now op servers))) ops)"
  by (simp_all add: registry_run_def registry_perform_simps)

lemmas registry_run_simulates = registry_dir.run_simulates [folded registry_run_def]

section \<open>A server that has gone silent\<close>

text \<open>Neither registered nor heard from at \<open>a\<close>.\<close>

fun quiet :: "string \<times> int \<Rightarrow> 'f reg_op \<Rightarrow> bool" where
  "quiet a (Register data) \<longleftrightarrow> (rr_ip data, rr_port data) \<noteq> (Some (fst a), Some (snd a))"
| "quiet a (SendBeat data) \<longleftrightarrow> (hr_ip data, hr_port data) \<noteq> (Some (fst a), Some (snd a))"
| "quiet a _ \<longleftrightarrow> True"

text \<open>The times of the passes of the monitor.\<close>

fun passes :: "('f \<times> 'f reg_op) list \<Rightarrow> 'f list" where
  "passes [] = []"
| "passes ((now, Monitor) # ops) = now # passes ops"
| "passes (_ # ops) = passes ops"

lemma dir_next_quiet:
  "quiet a op \<Longrightarrow> op \<noteq> Monitor \<Longrightarrow> dir_next now op d a = d a"
  by (cases op; cases a) (auto simp: Let_def split: option.splits)

lemma fold_quiet:
  "\<forall>(now, op) \<in> set ops. quiet a op \<Longrightarrow>
   fold (\<lambda>(now, op). dir_next now op) ops d a = fold (\<lambda>now x. Option.bind x (monitor_svr now)) (passes ops) (d a)"
proof (induction ops arbitrary: d)
  case (Cons o1 ops)
  obtain now op where o: "o1 = (now, op)" by (cases o1)
  show ?case
  proof (cases "op = Monitor")
    case True
    with Cons o show ?thesis by simp
  next
    case False
    then have "passes (o1 # ops) = passes ops" by (cases op) (auto simp: o)
    with Cons o False dir_next_quiet [of a op now d] show ?thesis by simp
  qed
qed simp

text \<open>What the passes at the given times leave of an online server last heard of at \<open>t\<close>.\<close>

definition silent :: "'f::linordered_idom \<Rightarrow> 'f list \<Rightarrow> 'f svr \<Rightarrow> 'f svr option" where
  "silent t ts s =
     (case dropWhile (\<lambda>now. now - t \<le> 30) ts of
        [] \<Rightarrow> Some s
      | _ # later \<Rightarrow> if \<exists>now \<in> set later. now - t > 60 then None else Some (s\<lparr>svr_status := OFFLINE\<rparr>))"

lemma fold_bind_None: "fold (\<lambda>now x. Option.bind x (f now)) ts None = None"
  by (induction ts) simp_all

lemma silent_offline:
  "svr_status s = OFFLINE \<Longrightarrow> fold (\<lambda>now x. Option.bind x (monitor_svr now)) ts (Some s) =
   (if \<exists>now \<in> set ts. now - alive_timestamp s > 60 then None else Some s)"
  by (induction ts) (auto simp: monitor_svr_def fold_bind_None)

lemma silent_online:
  "svr_status s = ONLINE \<Longrightarrow> fold (\<lambda>now x. Option.bind x (monitor_svr now)) ts (Some s) =
   silent (alive_timestamp s) ts s"
  by (induction ts) (auto simp: monitor_svr_def silent_def silent_offline)

section \<open>Properties\<close>

text \<open>
  The registry implements the directory: from the empty registry, after any sequence of
  registrations, heartbeats, discoveries and monitor passes at any times, every reply is one the
  directory allows (a discovery gets the address of a server offering the service with the least
  load, or the empty list when there is none), the final registry represents the final directory,
  and it is well formed (one entry per address, under its own id, no service twice).
\<close>

theorem registry_is_a_directory:
  "dir_run Map.empty ops (fst (registry_run [] ops)) \<and>
   directory_of (snd (registry_run [] ops)) = fold (\<lambda>(now, op). dir_next now op) ops Map.empty \<and>
   registry_ok (snd (registry_run [] ops))"
  using registry_run_simulates [of "[]" ops] by simp

text \<open>
  C33. What becomes of a server the name server no longer hears from: after any operations that are
  not its own, it is unchanged until the first pass of the monitor more than 30 seconds after its
  last sign of life, then offline, and removed by the first later pass more than 60 seconds after
  it. So it takes two passes to remove a server, however long it has been silent.
\<close>

theorem silent_server_expires:
  assumes "registry_ok servers" "directory_of servers a = Some s" "svr_status s = ONLINE"
    and "\<forall>(now, op) \<in> set ops. quiet a op"
  shows "directory_of (snd (registry_run servers ops)) a = silent (alive_timestamp s) (passes ops) s"
  using registry_run_simulates [OF assms(1), of ops] fold_quiet [OF assms(4)] silent_online [OF assms(3)] assms(2)
  by simp

definition demo_svr :: "int svr" where
  "demo_svr = \<lparr>s_ip = ''10.0.0.1'', s_port = 8888, services = [''KVSetter''], alive_timestamp = 0,
     svr_status = ONLINE, cpu_usage = 20, memory_usage = 30\<rparr>"

definition demo_registry :: "int registry" where
  "demo_registry = [(svr_id ''10.0.0.1'' 8888, demo_svr)]"

theorem silent_server_expires_witness:
  "directory_of (snd (registry_run demo_registry [(10, Monitor), (31, Monitor), (50, Discover None), (61, Monitor)]))
     (''10.0.0.1'', 8888) = None"
proof -
  have "registry_ok demo_registry" by (simp add: registry_ok_def demo_registry_def demo_svr_def)
  moreover have "directory_of demo_registry (''10.0.0.1'', 8888) = Some demo_svr"
    by (simp add: directory_of_def demo_registry_def)
  ultimately show ?thesis
    using silent_server_expires [of demo_registry "(''10.0.0.1'', 8888)" demo_svr
        "[(10, Monitor), (31, Monitor), (50, Discover None), (61, Monitor)]"]
    by (simp add: demo_svr_def silent_def)
qed

text \<open>
  Discovery does not look at the status: marking every server offline changes no answer.
\<close>

theorem discover_ignores_status:
  "discover_endpoint callee (map (\<lambda>(k, s). (k, s\<lparr>svr_status := OFFLINE\<rparr>)) servers) = discover_endpoint callee servers"
proof -
  have "map_option (\<lambda>(l, s). (l, s_ip s, s_port s))
      (best_server c b' (map (\<lambda>(k, s). (k, s\<lparr>svr_status := OFFLINE\<rparr>)) servers)) =
    map_option (\<lambda>(l, s). (l, s_ip s, s_port s)) (best_server c b servers)"
    if "map_option (\<lambda>(l, s). (l, s_ip s, s_port s)) b' = map_option (\<lambda>(l, s). (l, s_ip s, s_port s)) b" for c b b'
    using that
  proof (induction servers arbitrary: b b')
    case (Cons e servers)
    then show ?case
      by (cases e; cases b; cases b') (auto simp: svr_load_def Let_def)
  qed simp
  note same = this
  show ?thesis
  proof (cases callee)
    case (Some c)
    with same [of None None c] show ?thesis
      by (cases "best_server c None servers") (auto simp: discover_endpoint_def)
  qed (simp add: discover_endpoint_def)
qed

end
