(* ===== verification/EndpointThreads.thy ===== *)
theory EndpointThreads
  imports Registry
begin

text \<open>
  The endpoints of \<open>namesvr/run_node.py\<close> as threads: Flask runs every request in a thread of its own
  and the monitor is one more, and they share the dictionary of servers without a lock. Here each
  statement that touches the dictionary is one step (the interpreter's lock makes it so), and any
  interleaving of the steps is allowed. \<open>Registry\<close> has each endpoint as one step; an endpoint that
  nobody interrupts does what it says there.

  All threads of a run share one dictionary, that is, no commit of the replication falls between
  them. The position of an iteration is exact unless a server is both removed and added during it.
\<close>

section \<open>Threads\<close>

text \<open>The statement a thread is about to execute.\<close>

datatype 'f endpoint =
    RegCheck string int string
  | RegInsert string int string
  | RegDuplicate string int string
  | RegAppend string int string
  | RegAlive string int string
  | RegOnline string int string
  | RegRequest string int string
  | BeatCheck string int 'f 'f
  | BeatAlive string int 'f 'f
  | BeatOnline string int 'f 'f
  | BeatCpu string int 'f 'f
  | BeatMemory string int 'f 'f
  | BeatRequest
  | DiscIter string
  | DiscNext string nat nat "('f \<times> 'f svr) option"
  | MonKeys 'f
  | MonKey 'f "string list"
  | MonIdle 'f string "string list"
  | MonOffline string 'f "string list"
  | MonTest 'f string "string list"
  | MonGone 'f string "string list"
  | MonPop string 'f "string list"
  | Replied http_reply

text \<open>A request as its thread begins, and the monitor with the time it has read.\<close>

fun endpoint_start :: "'f::linordered_idom \<Rightarrow> 'f reg_op \<Rightarrow> 'f endpoint" where
  "endpoint_start now (Register data) =
     (case (rr_ip data, rr_port data, rr_service_name data) of
        (Some ip, Some port, Some name) \<Rightarrow> RegCheck ip port name | _ \<Rightarrow> Replied ServerError)"
| "endpoint_start now (SendBeat data) =
     (case (hr_ip data, hr_port data) of
        (Some ip, Some port) \<Rightarrow> BeatCheck ip port (get_or 0 (hr_cpu_usage data)) (get_or 0 (hr_memory_usage data))
      | _ \<Rightarrow> Replied ServerError)"
| "endpoint_start now (Discover callee) =
     (case callee of None \<Rightarrow> Replied (discover_endpoint None ([] :: 'f registry)) | Some c \<Rightarrow> DiscIter c)"
| "endpoint_start now Monitor = MonKeys now"

text \<open>
  \<open>servers[k]\<close>: a missing key is a \<open>KeyError\<close>, status 500. \<open>change\<close> is what a statement does to the
  server, \<open>goto\<close> the next statement.
\<close>

definition at_key :: "string \<Rightarrow> ('f svr \<Rightarrow> 'f svr) \<Rightarrow> ('f svr \<Rightarrow> 'f endpoint) \<Rightarrow> 'f registry \<Rightarrow> 'f endpoint \<times> 'f registry" where
  "at_key k change goto servers =
     (case map_of servers k of
        None \<Rightarrow> (Replied ServerError, servers)
      | Some s \<Rightarrow> (goto s, AList.update k (change s) servers))"

text \<open>
  One statement: the next one, the dictionary, and whether the dictionary was handed to
  \<open>node.client_request\<close>. \<open>now\<close> is what \<open>time.time()\<close> gives.
\<close>

fun endpoint_step :: "'f::linordered_idom \<Rightarrow> 'f endpoint \<Rightarrow> 'f registry \<Rightarrow> ('f endpoint \<times> 'f registry) \<times> bool" where
  "endpoint_step now (RegCheck ip p name) servers =
     ((if svr_id ip p \<notin> set (map fst servers) then RegInsert ip p name else RegDuplicate ip p name, servers), False)"
| "endpoint_step now (RegInsert ip p name) servers =
     ((RegDuplicate ip p name, AList.update (svr_id ip p) (new_svr now ip p) servers), False)"
| "endpoint_step now (RegDuplicate ip p name) servers =
     (at_key (svr_id ip p) id (\<lambda>s. if name \<in> set (services s)
        then Replied (BadRequest (''Duplicate service '' @ name @ '' on '' @ ip @ '':'' @ dec p))
        else RegAppend ip p name) servers, False)"
| "endpoint_step now (RegAppend ip p name) servers =
     (at_key (svr_id ip p) (\<lambda>s. s\<lparr>services := services s @ [name]\<rparr>) (\<lambda>_. RegAlive ip p name) servers, False)"
| "endpoint_step now (RegAlive ip p name) servers =
     (at_key (svr_id ip p) (\<lambda>s. s\<lparr>alive_timestamp := now\<rparr>) (\<lambda>_. RegOnline ip p name) servers, False)"
| "endpoint_step now (RegOnline ip p name) servers =
     (at_key (svr_id ip p) (\<lambda>s. s\<lparr>svr_status := ONLINE\<rparr>) (\<lambda>_. RegRequest ip p name) servers, False)"
| "endpoint_step now (RegRequest ip p name) servers = ((Replied StatusSuccess, servers), True)"
| "endpoint_step now (BeatCheck ip p cpu mem) servers =
     ((if svr_id ip p \<notin> set (map fst servers) then Replied (BadRequest ''not-registered.'') else BeatAlive ip p cpu mem,
       servers), False)"
| "endpoint_step now (BeatAlive ip p cpu mem) servers =
     (at_key (svr_id ip p) (\<lambda>s. s\<lparr>alive_timestamp := now\<rparr>) (\<lambda>_. BeatOnline ip p cpu mem) servers, False)"
| "endpoint_step now (BeatOnline ip p cpu mem) servers =
     (at_key (svr_id ip p) (\<lambda>s. s\<lparr>svr_status := ONLINE\<rparr>) (\<lambda>_. BeatCpu ip p cpu mem) servers, False)"
| "endpoint_step now (BeatCpu ip p cpu mem) servers =
     (at_key (svr_id ip p) (\<lambda>s. s\<lparr>cpu_usage := cpu\<rparr>) (\<lambda>_. BeatMemory ip p cpu mem) servers, False)"
| "endpoint_step now (BeatMemory ip p cpu mem) servers =
     (at_key (svr_id ip p) (\<lambda>s. s\<lparr>memory_usage := mem\<rparr>) (\<lambda>_. BeatRequest) servers, False)"
| "endpoint_step now BeatRequest servers = ((Replied StatusSuccess, servers), True)"
| "endpoint_step now (DiscIter callee) servers = ((DiscNext callee (length servers) 0 None, servers), False)"
| "endpoint_step now (DiscNext callee n i best) servers =
     ((if length servers \<noteq> n then Replied ServerError
       else if i < n then DiscNext callee n (Suc i) (best_server callee best [servers ! i])
       else Replied (case best of Some (_, s) \<Rightarrow> ServerList [(s_ip s, s_port s)] | None \<Rightarrow> ServerList []), servers), False)"
| "endpoint_step now (MonKeys t) servers = ((MonKey t (map fst servers), servers), False)"
| "endpoint_step now (MonKey t ks) servers =
     (case ks of
        [] \<Rightarrow> ((Replied StatusSuccess, servers), True)
      | k # ks \<Rightarrow> (at_key k id (\<lambda>s. if svr_status s = ONLINE then MonIdle t k ks else MonTest t k ks) servers, False))"
| "endpoint_step now (MonIdle t k ks) servers =
     (at_key k id (\<lambda>s. if t - alive_timestamp s > MAX_INACTIVITY_TIME then MonOffline k t ks else MonKey t ks) servers, False)"
| "endpoint_step now (MonOffline k t ks) servers = (at_key k (\<lambda>s. s\<lparr>svr_status := OFFLINE\<rparr>) (\<lambda>_. MonKey t ks) servers, False)"
| "endpoint_step now (MonTest t k ks) servers =
     (at_key k id (\<lambda>s. if svr_status s = OFFLINE then MonGone t k ks else MonKey t ks) servers, False)"
| "endpoint_step now (MonGone t k ks) servers =
     (at_key k id (\<lambda>s. if t - alive_timestamp s > MAX_INACTIVITY_TIME + MAX_OFFLINE_TIME then MonPop k t ks
        else MonKey t ks) servers, False)"
| "endpoint_step now (MonPop k t ks) servers = ((MonKey t ks, AList.delete k servers), False)"
| "endpoint_step now (Replied r) servers = ((Replied r, servers), False)"

text \<open>Threads over one dictionary; a schedule names the thread of each step and its time.\<close>

record 'f threads =
  running_eps :: "'f endpoint list"
  table :: "'f registry"
  handed :: nat

definition thread_step :: "nat \<Rightarrow> 'f::linordered_idom \<Rightarrow> 'f threads \<Rightarrow> 'f threads" where
  "thread_step i now w =
     (if i < length (running_eps w) then
        (case endpoint_step now (running_eps w ! i) (table w) of
           ((e, servers), requested) \<Rightarrow>
             \<lparr>running_eps = (running_eps w)[i := e], table = servers,
              handed = (if requested then Suc (handed w) else handed w)\<rparr>)
      else w)"

definition threads_run :: "(nat \<times> 'f::linordered_idom) list \<Rightarrow> 'f threads \<Rightarrow> 'f threads" where
  "threads_run sched w = fold (\<lambda>(i, now). thread_step i now) sched w"

definition threads_start :: "'f::linordered_idom \<Rightarrow> 'f reg_op list \<Rightarrow> 'f registry \<Rightarrow> 'f threads" where
  "threads_start now ops servers = \<lparr>running_eps = map (endpoint_start now) ops, table = servers, handed = 0\<rparr>"

section \<open>A thread on its own\<close>

definition alone_step :: "'f::linordered_idom \<Rightarrow> 'f endpoint \<times> 'f registry \<times> bool \<Rightarrow> 'f endpoint \<times> 'f registry \<times> bool" where
  "alone_step now x = (case x of (e, servers, requested) \<Rightarrow>
     case endpoint_step now e servers of ((e, servers), r) \<Rightarrow> (e, servers, requested \<or> r))"

definition leads_to :: "'f::linordered_idom \<Rightarrow> 'f endpoint \<times> 'f registry \<times> bool \<Rightarrow> 'f endpoint \<times> 'f registry \<times> bool \<Rightarrow> bool" where
  "leads_to now x y \<longleftrightarrow> (\<exists>n. (alone_step now ^^ n) x = y)"

lemma leads_to_refl: "leads_to now x x"
  unfolding leads_to_def by (rule exI [of _ 0]) simp

fun replied :: "'f endpoint \<Rightarrow> bool" where
  "replied (Replied r) = True"
| "replied _ = False"

lemma leads_to_step: "\<not> replied (fst x) \<Longrightarrow> leads_to now (alone_step now x) y \<Longrightarrow> leads_to now x y"
proof -
  assume "leads_to now (alone_step now x) y"
  then obtain n where "(alone_step now ^^ n) (alone_step now x) = y" by (auto simp: leads_to_def)
  then have "(alone_step now ^^ Suc n) x = y" by (simp add: funpow_Suc_right del: funpow.simps)
  then show ?thesis unfolding leads_to_def by blast
qed

lemma leads_to_trans: "leads_to now x y \<Longrightarrow> leads_to now y z \<Longrightarrow> leads_to now x z"
proof -
  assume "leads_to now x y" "leads_to now y z"
  then obtain m n where "(alone_step now ^^ m) x = y" "(alone_step now ^^ n) y = z" by (auto simp: leads_to_def)
  then have "(alone_step now ^^ (n + m)) x = z" by (simp add: funpow_add)
  then show ?thesis unfolding leads_to_def by blast
qed

lemma update_same: "map_of al k = Some v \<Longrightarrow> AList.update k v al = al"
  by (induction al) auto

lemma at_key_simps [simp]:
  "map_of servers k = Some s \<Longrightarrow> at_key k change goto servers = (goto s, AList.update k (change s) servers)"
  "map_of servers k = None \<Longrightarrow> at_key k change goto servers = (Replied ServerError, servers)"
  by (simp_all add: at_key_def)

lemmas alone_simps = alone_step_def update_same update_conv

lemma key_None: "map_of al k = None \<longleftrightarrow> k \<notin> set (map fst al)"
  by (simp add: map_of_eq_None_iff)

lemma key_Some: "map_of al k = Some s \<Longrightarrow> k \<in> set (map fst al)"
  by (metis key_None option.distinct(1))

text \<open>A registration from the test for duplicates on, the server being there.\<close>

lemma register_alone_known:
  assumes "map_of servers (svr_id ip p) = Some s"
  shows "leads_to now (RegDuplicate ip p name, servers, False)
    (if name \<in> set (services s) then (Replied (BadRequest (''Duplicate service '' @ name @ '' on '' @ ip @ '':'' @ dec p)), servers, False)
     else (Replied StatusSuccess,
       AList.update (svr_id ip p) (s\<lparr>services := services s @ [name], alive_timestamp := now, svr_status := ONLINE\<rparr>) servers, True))"
proof (cases "name \<in> set (services s)")
  case True
  show ?thesis by (rule leads_to_step) (use assms True in \<open>simp_all add: alone_simps leads_to_refl\<close>)
next
  case False
  have "alone_step now (RegDuplicate ip p name, servers, False) = (RegAppend ip p name, servers, False)"
    using assms False by (simp add: alone_simps)
  then show ?thesis
    using assms False
    by (intro leads_to_step [of "(RegDuplicate ip p name, servers, False)" now])
      (simp, simp, (rule leads_to_step, (simp; fail), simp add: alone_step_def update_conv)+, rule leads_to_refl)
qed

lemma register_alone:
  "leads_to now (endpoint_start now (Register d), servers, False)
     (Replied (fst (register_endpoint now d servers)), fst (snd (register_endpoint now d servers)), snd (snd (register_endpoint now d servers)))"
proof (cases "rr_ip d"; cases "rr_port d"; cases "rr_service_name d")
  fix ip p name
  assume d: "rr_ip d = Some ip" "rr_port d = Some p" "rr_service_name d = Some name"
  show ?thesis
  proof (cases "map_of servers (svr_id ip p)")
    case None
    let ?S = "AList.update (svr_id ip p) (new_svr now ip p) servers"
    have k: "svr_id ip p \<notin> set (map fst servers)" using None key_None by metis
    have "leads_to now (RegDuplicate ip p name, ?S, False)
        (Replied (fst (register_endpoint now d servers)), fst (snd (register_endpoint now d servers)), snd (snd (register_endpoint now d servers)))"
      using register_alone_known [of ?S ip p "new_svr now ip p" now name] d k None
      by (simp add: register_endpoint_def update_conv new_svr_def Let_def)
    then have "leads_to now (RegInsert ip p name, servers, False)
        (Replied (fst (register_endpoint now d servers)), fst (snd (register_endpoint now d servers)), snd (snd (register_endpoint now d servers)))"
      by (intro leads_to_step [of "(RegInsert ip p name, servers, False)" now]) (simp_all add: alone_step_def)
    then show ?thesis using d k by (intro leads_to_step [of "(endpoint_start now (Register d), servers, False)" now]) (simp_all add: alone_step_def)
  next
    case (Some s)
    show ?thesis
      using register_alone_known [OF Some, of now name] d Some key_Some [OF Some]
      by (intro leads_to_step [of "(endpoint_start now (Register d), servers, False)" now])
        (simp_all add: alone_step_def register_endpoint_def Let_def split: if_splits)
  qed
qed (simp_all add: register_endpoint_def leads_to_refl)

lemma heartbeat_alone:
  "leads_to now (endpoint_start now (SendBeat d), servers, False)
     (Replied (fst (heartbeat_endpoint now d servers)), fst (snd (heartbeat_endpoint now d servers)), snd (snd (heartbeat_endpoint now d servers)))"
proof (cases "hr_ip d"; cases "hr_port d")
  fix ip p
  assume d: "hr_ip d = Some ip" "hr_port d = Some p"
  show ?thesis
  proof (cases "map_of servers (svr_id ip p)")
    case None
    then have "svr_id ip p \<notin> set (map fst servers)" using key_None by metis
    with None d show ?thesis
      by (intro leads_to_step [of "(endpoint_start now (SendBeat d), servers, False)" now])
        (simp_all add: alone_step_def heartbeat_endpoint_def leads_to_refl)
  next
    case (Some s)
    with d key_Some [OF Some] show ?thesis
      by (simp add: heartbeat_endpoint_def)
        ((rule leads_to_step, (simp; fail), simp add: alone_step_def update_conv)+, rule leads_to_refl)
  qed
qed (simp_all add: heartbeat_endpoint_def leads_to_refl)

lemma best_server_Cons: "best_server c best (x # xs) = best_server c (best_server c best [x]) xs"
  by (cases x) (simp add: Let_def)

lemma discover_alone_from:
  "i \<le> length servers \<Longrightarrow> leads_to now (DiscNext c (length servers) i best, servers, False)
     (Replied (case best_server c best (drop i servers) of Some (_, s) \<Rightarrow> ServerList [(s_ip s, s_port s)] | None \<Rightarrow> ServerList []),
      servers, False)"
proof (induction "length servers - i" arbitrary: i best)
  case 0
  then show ?case by (intro leads_to_step [of "(DiscNext c (length servers) i best, servers, False)" now])
    (simp_all add: alone_step_def leads_to_refl)
next
  case (Suc n)
  then have "drop i servers = servers ! i # drop (Suc i) servers" by (simp add: Cons_nth_drop_Suc)
  then have "best_server c best (drop i servers) = best_server c (best_server c best [servers ! i]) (drop (Suc i) servers)"
    by (simp only: best_server_Cons [of c best "servers ! i" "drop (Suc i) servers"])
  moreover have "i < length servers" using Suc.hyps(2) by simp
  ultimately show ?case
    using Suc.hyps(1) [of "Suc i" "best_server c best [servers ! i]"] Suc.hyps(2)
    by (intro leads_to_step [of "(DiscNext c (length servers) i best, servers, False)" now]) (simp_all add: alone_step_def)
qed

lemma discover_alone:
  "leads_to now (endpoint_start now (Discover callee), servers, False) (Replied (discover_endpoint callee servers), servers, False)"
proof (cases callee)
  case (Some c)
  with discover_alone_from [of 0 servers now c None] show ?thesis
    by (intro leads_to_step [of "(endpoint_start now (Discover callee), servers, False)" now])
      (simp_all add: alone_step_def discover_endpoint_def)
qed (simp add: leads_to_refl discover_endpoint_def)

text \<open>One key of the monitor, and all of them.\<close>

lemma monitor_key_alone:
  assumes "map_of servers k = Some s"
  shows "leads_to now (MonKey t (k # ks), servers, False) (MonKey t ks, monitor_key t k servers, False)"
proof -
  note u = update_same [OF assms]
  show ?thesis
  proof (cases "svr_status s")
    case ONLINE
    have "leads_to now (MonOffline k t ks, servers, False) (MonKey t ks, AList.update k (s\<lparr>svr_status := OFFLINE\<rparr>) servers, False)"
      by (rule leads_to_step) (use assms in \<open>simp_all add: alone_step_def leads_to_refl\<close>)
    then have "leads_to now (MonIdle t k ks, servers, False) (MonKey t ks, monitor_key t k servers, False)"
      by (intro leads_to_step [of "(MonIdle t k ks, servers, False)" now])
        (use assms u ONLINE in \<open>auto simp: alone_step_def monitor_key_def leads_to_refl\<close>)
    then show ?thesis
      using assms u ONLINE by (intro leads_to_step [of "(MonKey t (k # ks), servers, False)" now]) (simp_all add: alone_step_def)
  next
    case OFFLINE
    have "leads_to now (MonPop k t ks, servers, False) (MonKey t ks, AList.delete k servers, False)"
      by (rule leads_to_step) (simp_all add: alone_step_def leads_to_refl)
    then have "leads_to now (MonGone t k ks, servers, False) (MonKey t ks, monitor_key t k servers, False)"
      by (intro leads_to_step [of "(MonGone t k ks, servers, False)" now])
        (use assms u OFFLINE in \<open>auto simp: alone_step_def monitor_key_def leads_to_refl\<close>)
    then have "leads_to now (MonTest t k ks, servers, False) (MonKey t ks, monitor_key t k servers, False)"
      using assms u OFFLINE by (intro leads_to_step [of "(MonTest t k ks, servers, False)" now]) (simp_all add: alone_step_def)
    then show ?thesis
      using assms u OFFLINE by (intro leads_to_step [of "(MonKey t (k # ks), servers, False)" now]) (simp_all add: alone_step_def)
  qed
qed

lemma monitor_alone_from:
  "distinct (map fst servers) \<Longrightarrow> distinct ks \<Longrightarrow> set ks \<subseteq> set (map fst servers) \<Longrightarrow>
   leads_to now (MonKey t ks, servers, False) (Replied StatusSuccess, fold (monitor_key t) ks servers, True)"
proof (induction ks arbitrary: servers)
  case Nil
  show ?case by (rule leads_to_step) (simp_all add: alone_step_def leads_to_refl)
next
  case (Cons k ks)
  obtain s where s: "map_of servers k = Some s" using Cons.prems(3) key_None [of servers k] by fastforce
  let ?S = "monitor_key t k servers"
  have "k' \<in> set (map fst ?S)" if "k' \<in> set ks" for k'
  proof -
    have "k' \<noteq> k" "map_of servers k' \<noteq> None" using that Cons.prems key_None [of servers k'] by auto
    then show ?thesis using monitor_key_map_of [OF Cons.prems(1), of t k] key_None [of ?S k'] by auto
  qed
  then have "leads_to now (MonKey t ks, ?S, False) (Replied StatusSuccess, fold (monitor_key t) ks ?S, True)"
    using Cons.prems by (intro Cons.IH) (auto simp: monitor_key_keys)
  then show ?case using leads_to_trans [OF monitor_key_alone [OF s]] by simp
qed

section \<open>Threads together\<close>

text \<open>What a thread has established so far, and what it still relies on.\<close>

definition offers :: "string \<Rightarrow> int \<Rightarrow> string \<Rightarrow> 'f registry \<Rightarrow> bool" where
  "offers ip p name servers \<longleftrightarrow>
     (case map_of servers (svr_id ip p) of None \<Rightarrow> False | Some s \<Rightarrow> name \<in> set (services s))"

definition known_at :: "string \<Rightarrow> int \<Rightarrow> 'f registry \<Rightarrow> bool" where
  "known_at ip p servers \<longleftrightarrow> svr_id ip p \<in> set (map fst servers)"

text \<open>
  A thread of the operation \<open>op\<close>: it is on its way, or has its reply. A registration past its
  append is among the services; a discovery has as many servers as it started with, and its
  candidate offers the service.
\<close>

fun thread_ok :: "'f::linordered_idom reg_op \<Rightarrow> 'f registry \<Rightarrow> 'f endpoint \<Rightarrow> bool" where
  "thread_ok op servers (RegCheck ip p name) \<longleftrightarrow>
     op = Register \<lparr>rr_ip = Some ip, rr_port = Some p, rr_service_name = Some name\<rparr> \<and> known_at ip p servers"
| "thread_ok op servers (RegDuplicate ip p name) \<longleftrightarrow>
     op = Register \<lparr>rr_ip = Some ip, rr_port = Some p, rr_service_name = Some name\<rparr> \<and> known_at ip p servers"
| "thread_ok op servers (RegAppend ip p name) \<longleftrightarrow>
     op = Register \<lparr>rr_ip = Some ip, rr_port = Some p, rr_service_name = Some name\<rparr> \<and> known_at ip p servers"
| "thread_ok op servers (RegAlive ip p name) \<longleftrightarrow>
     op = Register \<lparr>rr_ip = Some ip, rr_port = Some p, rr_service_name = Some name\<rparr> \<and> offers ip p name servers"
| "thread_ok op servers (RegOnline ip p name) \<longleftrightarrow>
     op = Register \<lparr>rr_ip = Some ip, rr_port = Some p, rr_service_name = Some name\<rparr> \<and> offers ip p name servers"
| "thread_ok op servers (RegRequest ip p name) \<longleftrightarrow>
     op = Register \<lparr>rr_ip = Some ip, rr_port = Some p, rr_service_name = Some name\<rparr> \<and> offers ip p name servers"
| "thread_ok op servers (BeatCheck ip p cpu mem) \<longleftrightarrow> (\<exists>d. op = SendBeat d)"
| "thread_ok op servers (BeatAlive ip p cpu mem) \<longleftrightarrow> (\<exists>d. op = SendBeat d) \<and> known_at ip p servers"
| "thread_ok op servers (BeatOnline ip p cpu mem) \<longleftrightarrow> (\<exists>d. op = SendBeat d) \<and> known_at ip p servers"
| "thread_ok op servers (BeatCpu ip p cpu mem) \<longleftrightarrow> (\<exists>d. op = SendBeat d) \<and> known_at ip p servers"
| "thread_ok op servers (BeatMemory ip p cpu mem) \<longleftrightarrow> (\<exists>d. op = SendBeat d) \<and> known_at ip p servers"
| "thread_ok op servers BeatRequest \<longleftrightarrow> (\<exists>d. op = SendBeat d)"
| "thread_ok op servers (DiscIter c) \<longleftrightarrow> op = Discover (Some c)"
| "thread_ok op servers (DiscNext c n i best) \<longleftrightarrow> op = Discover (Some c) \<and> n = length servers \<and>
     (case best of None \<Rightarrow> True | Some (l, s) \<Rightarrow> offers (s_ip s) (s_port s) c servers)"
| "thread_ok op servers (Replied r) \<longleftrightarrow> r \<noteq> ServerError \<and>
     (case op of
        Register d \<Rightarrow> (\<exists>ip p name. d = \<lparr>rr_ip = Some ip, rr_port = Some p, rr_service_name = Some name\<rparr> \<and> offers ip p name servers)
      | Discover (Some c) \<Rightarrow> (\<forall>l a. r = ServerList l \<longrightarrow> a \<in> set l \<longrightarrow> offers (fst a) (snd a) c servers)
      | _ \<Rightarrow> True)"
| "thread_ok op servers _ \<longleftrightarrow> False"

text \<open>Changes of the servers in place keep all that.\<close>

definition grows :: "'f registry \<Rightarrow> 'f registry \<Rightarrow> bool" where
  "grows a b \<longleftrightarrow> map fst b = map fst a \<and>
     (\<forall>k s. map_of a k = Some s \<longrightarrow> (\<exists>s'. map_of b k = Some s' \<and> s_ip s' = s_ip s \<and> s_port s' = s_port s \<and>
        set (services s) \<subseteq> set (services s')))"

lemma grows_refl: "grows a a"
  by (simp add: grows_def)

lemma grows_offers: "grows a b \<Longrightarrow> offers ip p name a \<Longrightarrow> offers ip p name b"
  by (fastforce simp: grows_def offers_def split: option.splits)

lemma grows_known: "grows a b \<Longrightarrow> known_at ip p b = known_at ip p a"
  by (simp add: grows_def known_at_def)

lemma thread_ok_grows: "grows a b \<Longrightarrow> thread_ok op a e \<Longrightarrow> thread_ok op b e"
proof -
  assume g: "grows a b" and t: "thread_ok op a e"
  have "length a = length b" using g by (metis grows_def length_map)
  with t show ?thesis
    by (cases e) (auto simp: grows_known [OF g] dest!: grows_offers [OF g] split: reg_op.splits option.splits)
qed

lemma grows_update:
  assumes "map_of a k = Some s" "s_ip s' = s_ip s" "s_port s' = s_port s" "set (services s) \<subseteq> set (services s')"
  shows "grows a (AList.update k s' a)"
proof -
  have "map fst (AList.update k s' a) = map fst a" using key_Some [OF assms(1)] by (simp add: update_keys)
  with assms show ?thesis by (auto simp: grows_def update_conv)
qed

text \<open>The ids of the servers are made of their addresses.\<close>

definition ids_ok :: "'f registry \<Rightarrow> bool" where
  "ids_ok servers \<longleftrightarrow> distinct (map fst servers) \<and> (\<forall>(k, s) \<in> set servers. k = svr_id (s_ip s) (s_port s))"

lemma ids_ok_grows: "grows a b \<Longrightarrow> ids_ok a \<Longrightarrow> ids_ok b"
proof -
  assume g: "grows a b" and i: "ids_ok a"
  have d: "distinct (map fst b)" using g i by (simp add: grows_def ids_ok_def)
  have "k = svr_id (s_ip s) (s_port s)" if "(k, s) \<in> set b" for k s
  proof -
    have kb: "map_of b k = Some s" using that d by simp
    then have "k \<in> set (map fst a)" using g key_Some [OF kb] by (simp add: grows_def)
    then obtain s0 where s0: "map_of a k = Some s0" using key_None [of a k] by fastforce
    then have "(k, s0) \<in> set a" by (rule map_of_SomeD)
    with g s0 kb i show ?thesis by (fastforce simp: grows_def ids_ok_def)
  qed
  with d show ?thesis by (auto simp: ids_ok_def)
qed

lemma ids_ok_entry: "ids_ok a \<Longrightarrow> (k, s) \<in> set a \<Longrightarrow> c \<in> set (services s) \<Longrightarrow> offers (s_ip s) (s_port s) c a"
  by (fastforce simp: ids_ok_def offers_def)

lemma at_key_ok:
  assumes "map_of a k = Some s" "s_ip (f s) = s_ip s" "s_port (f s) = s_port s" "set (services s) \<subseteq> set (services (f s))"
    and "thread_ok op (AList.update k (f s) a) (g s)"
  shows "\<exists>e b. at_key k f g a = (e, b) \<and> thread_ok op b e \<and> grows a b"
  using assms grows_update [OF assms(1-4)] by simp

lemma known_entry: "known_at ip p a \<Longrightarrow> \<exists>s. map_of a (svr_id ip p) = Some s"
  using key_None [of a "svr_id ip p"] by (auto simp: known_at_def)

lemma offers_entry: "offers ip p name a \<Longrightarrow> \<exists>s. map_of a (svr_id ip p) = Some s \<and> name \<in> set (services s)"
  by (auto simp: offers_def split: option.splits)

lemma endpoint_step_ok:
  assumes "ids_ok a" "thread_ok op a e"
  shows "\<exists>e' b r. endpoint_step now e a = ((e', b), r) \<and> thread_ok op b e' \<and> grows a b"
proof (cases e)
  case (DiscNext c n i best)
  show ?thesis
  proof (cases "i < n")
    case True
    obtain k s where s: "a ! i = (k, s)" by (cases "a ! i")
    then have "(k, s) \<in> set a" using True assms(2) DiscNext by (metis nth_mem thread_ok.simps(14))
    with s True assms DiscNext ids_ok_entry [OF assms(1)] show ?thesis
      by (auto simp: grows_refl Let_def split: option.splits)
  next
    case False
    with assms DiscNext show ?thesis by (auto simp: grows_refl split: option.splits)
  qed
next
  case (RegDuplicate ip p name)
  then obtain s where "map_of a (svr_id ip p) = Some s" using assms(2) known_entry [of ip p a] by auto
  with RegDuplicate assms(2) show ?thesis
    by (auto simp: update_same grows_refl offers_def)
next
  case (RegAppend ip p name)
  then obtain s where s: "map_of a (svr_id ip p) = Some s" using assms(2) known_entry [of ip p a] by auto
  with RegAppend assms(2) at_key_ok [OF s, of "\<lambda>s. s\<lparr>services := services s @ [name]\<rparr>" op "\<lambda>_. RegAlive ip p name"]
  show ?thesis by (auto simp: offers_def update_conv)
next
  case (RegAlive ip p name)
  then obtain s where s: "map_of a (svr_id ip p) = Some s" "name \<in> set (services s)" using assms(2) offers_entry [of ip p name a] by auto
  with RegAlive assms(2) at_key_ok [OF s(1), of "\<lambda>s. s\<lparr>alive_timestamp := now\<rparr>" op "\<lambda>_. RegOnline ip p name"]
  show ?thesis by (auto simp: offers_def update_conv)
next
  case (RegOnline ip p name)
  then obtain s where s: "map_of a (svr_id ip p) = Some s" "name \<in> set (services s)" using assms(2) offers_entry [of ip p name a] by auto
  with RegOnline assms(2) at_key_ok [OF s(1), of "\<lambda>s. s\<lparr>svr_status := ONLINE\<rparr>" op "\<lambda>_. RegRequest ip p name"]
  show ?thesis by (auto simp: offers_def update_conv)
next
  case (BeatAlive ip p cpu mem)
  then obtain s where s: "map_of a (svr_id ip p) = Some s" using assms(2) known_entry [of ip p a] by auto
  with BeatAlive assms(2) at_key_ok [OF s(1), of "\<lambda>s. s\<lparr>alive_timestamp := now\<rparr>" op "\<lambda>_. BeatOnline ip p cpu mem"]
  show ?thesis using key_Some [OF s] by (auto simp: known_at_def update_keys)
next
  case (BeatOnline ip p cpu mem)
  then obtain s where s: "map_of a (svr_id ip p) = Some s" using assms(2) known_entry [of ip p a] by auto
  with BeatOnline assms(2) at_key_ok [OF s(1), of "\<lambda>s. s\<lparr>svr_status := ONLINE\<rparr>" op "\<lambda>_. BeatCpu ip p cpu mem"]
  show ?thesis using key_Some [OF s] by (auto simp: known_at_def update_keys)
next
  case (BeatCpu ip p cpu mem)
  then obtain s where s: "map_of a (svr_id ip p) = Some s" using assms(2) known_entry [of ip p a] by auto
  with BeatCpu assms(2) at_key_ok [OF s(1), of "\<lambda>s. s\<lparr>cpu_usage := cpu\<rparr>" op "\<lambda>_. BeatMemory ip p cpu mem"]
  show ?thesis using key_Some [OF s] by (auto simp: known_at_def update_keys)
next
  case (BeatMemory ip p cpu mem)
  then obtain s where s: "map_of a (svr_id ip p) = Some s" using assms(2) known_entry [of ip p a] by auto
  with BeatMemory assms(2) at_key_ok [OF s(1), of "\<lambda>s. s\<lparr>memory_usage := mem\<rparr>" op "\<lambda>_. BeatRequest"]
  show ?thesis by auto
qed (use assms in \<open>auto simp: grows_refl known_at_def\<close>)

text \<open>How many statements a thread has before it, among \<open>n\<close> servers.\<close>

fun steps_left :: "nat \<Rightarrow> 'f endpoint \<Rightarrow> nat" where
  "steps_left n (RegCheck ip p name) = 6"
| "steps_left n (RegDuplicate ip p name) = 5"
| "steps_left n (RegAppend ip p name) = 4"
| "steps_left n (RegAlive ip p name) = 3"
| "steps_left n (RegOnline ip p name) = 2"
| "steps_left n (RegRequest ip p name) = 1"
| "steps_left n (BeatCheck ip p cpu mem) = 6"
| "steps_left n (BeatAlive ip p cpu mem) = 5"
| "steps_left n (BeatOnline ip p cpu mem) = 4"
| "steps_left n (BeatCpu ip p cpu mem) = 3"
| "steps_left n (BeatMemory ip p cpu mem) = 2"
| "steps_left n BeatRequest = 1"
| "steps_left n (DiscIter c) = n + 2"
| "steps_left n (DiscNext c m i best) = Suc (m - i)"
| "steps_left n _ = 0"

lemma steps_left_less:
  assumes "thread_ok op a e" "endpoint_step now e a = ((e', b), r)" "thread_ok op b e'"
  shows "steps_left (length a) e' \<le> steps_left (length a) e - 1"
proof (cases e)
  case (RegDuplicate ip p name)
  then obtain s where "map_of a (svr_id ip p) = Some s" using assms(1) known_entry [of ip p a] by auto
  with RegDuplicate assms(2) show ?thesis by (auto split: if_splits)
qed (use assms in \<open>auto simp: at_key_def known_at_def split: if_splits option.splits\<close>)

lemma no_steps_left: "thread_ok op a e \<Longrightarrow> steps_left n e = 0 \<Longrightarrow> replied e"
  by (cases e) simp_all

definition all_ok :: "'f::linordered_idom reg_op list \<Rightarrow> 'f registry \<Rightarrow> 'f threads \<Rightarrow> bool" where
  "all_ok ops servers w \<longleftrightarrow> ids_ok (table w) \<and> grows servers (table w) \<and> length (running_eps w) = length ops \<and>
     (\<forall>i < length ops. thread_ok (ops ! i) (table w) (running_eps w ! i))"

lemma grows_trans:
  assumes "grows a b" "grows b c"
  shows "grows a c"
proof -
  have "\<exists>s'. map_of c k = Some s' \<and> s_ip s' = s_ip s \<and> s_port s' = s_port s \<and> set (services s) \<subseteq> set (services s')"
    if s: "map_of a k = Some s" for k s
  proof -
    obtain s1 where 1: "map_of b k = Some s1" "s_ip s1 = s_ip s" "s_port s1 = s_port s" "set (services s) \<subseteq> set (services s1)"
      using assms(1) s unfolding grows_def by blast
    obtain s2 where "map_of c k = Some s2" "s_ip s2 = s_ip s1" "s_port s2 = s_port s1" "set (services s1) \<subseteq> set (services s2)"
      using assms(2) 1(1) unfolding grows_def by blast
    with 1 show ?thesis by auto
  qed
  with assms show ?thesis by (simp add: grows_def)
qed

lemma grows_length: "grows a b \<Longrightarrow> length b = length a"
  by (metis grows_def length_map)

lemma thread_step_ok:
  assumes "all_ok ops servers w"
  shows "all_ok ops servers (thread_step i now w)"
    and "steps_left (length servers) (running_eps (thread_step i now w) ! j) \<le>
      steps_left (length servers) (running_eps w ! j) - (if j = i \<and> j < length ops then 1 else 0)"
proof -
  let ?e = "running_eps w ! i"
  have "all_ok ops servers (thread_step i now w) \<and>
    steps_left (length servers) (running_eps (thread_step i now w) ! j) \<le>
      steps_left (length servers) (running_eps w ! j) - (if j = i \<and> j < length ops then 1 else 0)"
  proof (cases "i < length ops")
    case True
    then have t: "thread_ok (ops ! i) (table w) ?e" "ids_ok (table w)" using assms by (simp_all add: all_ok_def)
    obtain e b r where s: "endpoint_step now ?e (table w) = ((e, b), r)" "thread_ok (ops ! i) b e" "grows (table w) b"
      using endpoint_step_ok [OF t(2,1), of now] by blast
    have l: "length (table w) = length servers" using assms grows_length by (auto simp: all_ok_def)
    have w': "running_eps (thread_step i now w) = (running_eps w)[i := e]" "table (thread_step i now w) = b"
      using True s(1) assms by (simp_all add: thread_step_def all_ok_def)
    have "all_ok ops servers (thread_step i now w)"
      using assms s(2,3) True ids_ok_grows [OF s(3) t(2)] thread_ok_grows [OF s(3)] grows_trans [OF _ s(3)]
      unfolding all_ok_def w' by (auto simp: nth_list_update)
    moreover have "length (running_eps w) = length ops" using assms by (simp add: all_ok_def)
    ultimately show ?thesis
      using steps_left_less [OF t(1) s(1,2)] True l unfolding w' by (cases "j = i") auto
  next
    case False
    with assms show ?thesis by (auto simp: thread_step_def all_ok_def)
  qed
  then show "all_ok ops servers (thread_step i now w)"
    "steps_left (length servers) (running_eps (thread_step i now w) ! j) \<le>
      steps_left (length servers) (running_eps w ! j) - (if j = i \<and> j < length ops then 1 else 0)" by blast+
qed

lemma threads_run_simps [simp]:
  "threads_run [] w = w" "threads_run ((i, now) # sched) w = threads_run sched (thread_step i now w)"
  by (simp_all add: threads_run_def)

lemma threads_run_ok:
  "all_ok ops servers w \<Longrightarrow> all_ok ops servers (threads_run sched w) \<and>
   (j < length ops \<longrightarrow> steps_left (length servers) (running_eps (threads_run sched w) ! j) \<le>
     steps_left (length servers) (running_eps w ! j) - count_list (map fst sched) j)"
proof (induction sched arbitrary: w)
  case (Cons x sched)
  obtain i now where x: "x = (i, now)" by (cases x)
  from Cons.IH [OF thread_step_ok(1) [OF Cons.prems, of i now]] thread_step_ok(2) [OF Cons.prems, of i now j] x
  show ?case by (cases "j = i") auto
qed simp

section \<open>Properties\<close>

text \<open>
  C28. An endpoint or a pass of the monitor that no other thread interrupts does, statement by
  statement, what the registry says it does in one step: the same reply, the same dictionary, and
  the dictionary handed to the replication in the same cases.
\<close>

theorem endpoint_alone_is_atomic:
  assumes "distinct (map fst servers)"
  shows "\<exists>n. (alone_step now ^^ n) (endpoint_start now op, servers, False) =
    (Replied (fst (registry_op now op servers)), fst (snd (registry_op now op servers)), snd (snd (registry_op now op servers)))"
proof (cases op)
  case Monitor
  have "leads_to now (MonKey now (map fst servers), servers, False) (Replied StatusSuccess, monitor_pass now servers, True)"
    using monitor_alone_from [OF assms assms] by (simp add: monitor_pass_def)
  then have "leads_to now (MonKeys now, servers, False) (Replied StatusSuccess, monitor_pass now servers, True)"
    by (intro leads_to_step [of "(MonKeys now, servers, False)" now]) (simp_all add: alone_step_def)
  with Monitor show ?thesis by (simp add: leads_to_def)
next
  case (Register d)
  then show ?thesis using register_alone [of now d servers] by (simp add: leads_to_def)
next
  case (SendBeat d)
  then show ?thesis using heartbeat_alone [of now d servers] by (simp add: leads_to_def)
next
  case (Discover callee)
  then show ?thesis using discover_alone [of now callee servers] by (simp add: leads_to_def)
qed

text \<open>A request with all its fields, a registration at an address that is known already.\<close>

fun request_fits :: "'f registry \<Rightarrow> 'f reg_op \<Rightarrow> bool" where
  "request_fits servers (Register d) \<longleftrightarrow> (case (rr_ip d, rr_port d, rr_service_name d) of
     (Some ip, Some p, Some name) \<Rightarrow> svr_id ip p \<in> set (map fst servers) | _ \<Rightarrow> False)"
| "request_fits servers (SendBeat d) \<longleftrightarrow> hr_ip d \<noteq> None \<and> hr_port d \<noteq> None"
| "request_fits servers (Discover callee) \<longleftrightarrow> True"
| "request_fits servers Monitor \<longleftrightarrow> False"

lemma start_ok:
  assumes "request_fits servers op"
  shows "thread_ok op servers (endpoint_start now op) \<and> steps_left (length servers) (endpoint_start now op) \<le> length servers + 6"
proof (cases op)
  case (Register d)
  then obtain ip p name where "rr_ip d = Some ip" "rr_port d = Some p" "rr_service_name d = Some name" "known_at ip p servers"
    using assms by (auto simp: known_at_def split: option.splits)
  with Register show ?thesis by (cases d) simp
qed (use assms in \<open>auto simp: discover_endpoint_def split: option.splits\<close>)

text \<open>
  C27. Without new servers and without the monitor the threads do not need a lock: in every
  interleaving of any number of requests, a thread given \<open>length servers + 6\<close> statements has its
  reply, no reply is an error of the server, the service of every registration (new or refused as a
  duplicate) is offered, a discovery returns a server that offers the service, and nothing that was
  offered before is lost.
\<close>

theorem interleaved_endpoints:
  fixes servers :: "'f::linordered_idom registry"
  assumes "registry_ok servers" and "\<forall>op \<in> set ops. request_fits servers op" and "i < length ops"
    and "w = threads_run sched (threads_start now ops servers)"
  shows "(length servers + 6 \<le> count_list (map fst sched) i \<longrightarrow> (\<exists>r. running_eps w ! i = Replied r)) \<and>
    (\<forall>r. running_eps w ! i = Replied r \<longrightarrow> r \<noteq> ServerError \<and>
      (\<forall>ip p name. ops ! i = Register \<lparr>rr_ip = Some ip, rr_port = Some p, rr_service_name = Some name\<rparr> \<longrightarrow>
         offers ip p name (table w)) \<and>
      (\<forall>c l a. ops ! i = Discover (Some c) \<longrightarrow> r = ServerList l \<longrightarrow> a \<in> set l \<longrightarrow> offers (fst a) (snd a) c (table w))) \<and>
    (\<forall>ip p name. offers ip p name servers \<longrightarrow> offers ip p name (table w))"
proof -
  have "ids_ok servers" using assms(1) by (auto simp: registry_ok_def ids_ok_def)
  then have start: "all_ok ops servers (threads_start now ops servers)"
    using start_ok [of servers "ops ! j" now for j] assms(2) by (simp add: all_ok_def threads_start_def grows_refl)
  have left: "steps_left (length servers) (running_eps (threads_start now ops servers) ! i) \<le> length servers + 6"
    using assms(2,3) start_ok [of servers "ops ! i" now] by (simp add: threads_start_def)
  have w: "all_ok ops servers w"
    "steps_left (length servers) (running_eps w ! i) \<le> length servers + 6 - count_list (map fst sched) i"
    using threads_run_ok [OF start, of sched i] left assms(3,4) by auto
  then have t: "thread_ok (ops ! i) (table w) (running_eps w ! i)" using assms(3) by (simp add: all_ok_def)
  have "replied (running_eps w ! i)" if "length servers + 6 \<le> count_list (map fst sched) i"
    using no_steps_left [OF t, of "length servers"] w(2) that by simp
  moreover have "(\<exists>r. e = Replied r) \<longleftrightarrow> replied e" for e :: "'f endpoint" by (cases e) simp_all
  moreover have "offers ip p name servers \<Longrightarrow> offers ip p name (table w)" for ip p name
    using w(1) grows_offers by (auto simp: all_ok_def)
  ultimately show ?thesis using t by auto
qed

text \<open>Two known servers; a registration, a discovery and a heartbeat take turns.\<close>

definition two_servers :: "int registry" where
  "two_servers = [(''a:1'', \<lparr>s_ip = ''a'', s_port = 1, services = [''KV''], alive_timestamp = 0, svr_status = ONLINE,
       cpu_usage = 5, memory_usage = 5\<rparr>),
     (''b:2'', \<lparr>s_ip = ''b'', s_port = 2, services = [''KV''], alive_timestamp = 0, svr_status = OFFLINE,
       cpu_usage = 1, memory_usage = 1\<rparr>)]"

definition register_for :: "string \<Rightarrow> int \<Rightarrow> string \<Rightarrow> int reg_op" where
  "register_for ip p name = Register \<lparr>rr_ip = Some ip, rr_port = Some p, rr_service_name = Some name\<rparr>"

definition beat_of :: "string \<Rightarrow> int \<Rightarrow> int reg_op" where
  "beat_of ip p = SendBeat \<lparr>hr_ip = Some ip, hr_port = Some p, hr_cpu_usage = None, hr_memory_usage = None\<rparr>"

definition taking_turns :: "(nat \<times> int) list" where
  "taking_turns = concat (replicate 8 [(0, 9), (1, 9), (2, 9)])"

theorem interleaved_endpoints_witness:
  "(\<exists>r. running_eps (threads_run taking_turns (threads_start 9 [register_for ''a'' 1 ''KW'', Discover (Some ''KV''), beat_of ''b'' 2] two_servers)) ! 0 =
     Replied r) \<and>
   offers ''b'' 2 ''KV'' (table (threads_run taking_turns (threads_start 9 [register_for ''a'' 1 ''KW'', Discover (Some ''KV''), beat_of ''b'' 2] two_servers)))"
proof -
  let ?ops = "[register_for ''a'' 1 ''KW'', Discover (Some ''KV''), beat_of ''b'' 2]"
  have ok: "registry_ok two_servers" "\<forall>op \<in> set ?ops. request_fits two_servers op" by code_simp+
  have "length two_servers + 6 \<le> count_list (map fst taking_turns) 0" "offers ''b'' 2 ''KV'' two_servers" by code_simp+
  with interleaved_endpoints [OF ok _ refl, of 0 taking_turns 9] show ?thesis by simp
qed

theorem endpoint_alone_is_atomic_witness:
  "\<exists>n. (alone_step 9 ^^ n) (endpoint_start 9 (beat_of ''b'' 2), two_servers, False) =
    (Replied StatusSuccess, fst (snd (registry_op 9 (beat_of ''b'' 2) two_servers)), True)"
proof -
  have "distinct (map fst two_servers)"
    "fst (registry_op 9 (beat_of ''b'' 2) two_servers) = StatusSuccess" "snd (snd (registry_op 9 (beat_of ''b'' 2) two_servers)) = True"
    by code_simp+
  with endpoint_alone_is_atomic [of two_servers 9 "beat_of ''b'' 2"] show ?thesis by simp
qed

text \<open>What the table has of an address after a run: the services, and the replies of the threads.\<close>

definition outcome :: "(nat \<times> int) list \<Rightarrow> int reg_op list \<Rightarrow> int registry \<Rightarrow> string list list \<times> int endpoint list" where
  "outcome sched ops servers =
     (let w = threads_run sched (threads_start 61 ops servers) in (map (\<lambda>(k, s). services s) (table w), running_eps w))"

definition gone_server :: "int registry" where
  "gone_server = [(''b:2'', \<lparr>s_ip = ''b'', s_port = 2, services = [''KV''], alive_timestamp = 0, svr_status = OFFLINE,
     cpu_usage = 1, memory_usage = 1\<rparr>)]"


end
