(* ===== verification/RaftProtocol.thy ===== *)
theory RaftProtocol
  imports Prelude "HOL-Library.AList"
begin

text \<open>
  The messages of the replicated log, \<open>namesvr/raft/protocol.py\<close>: their classes, and their way
  through the dictionaries that are sent (\<open>jsonify\<close>, \<open>parse_json_message\<close>).

  Python exceptions are values of \<open>py_exn\<close>. A dictionary is an association list in insertion
  order; its values are \<open>pyval\<close>, with a log entry kept as one value (it is a dictionary of exactly
  three fields, never taken apart on the way). Fields are typed here, so a dictionary whose field
  has another type is the \<open>TypeError\<close> that Python would raise at its first use.
\<close>

section \<open>Python values\<close>

datatype py_exn = KeyError | IndexError | ValueError | TypeError

type_synonym 'a py = "py_exn + 'a"

text \<open>An entry of the log: the dictionary with the fields \<open>term\<close>, \<open>entry\<close> and \<open>id\<close>.\<close>

datatype 'v entry = Entry (e_term: int) (e_entry: 'v) (e_id: int)

datatype 'v pyval =
    PNone
  | PInt int
  | PBool bool
  | PStr string
  | PEntry "'v entry"
  | PDict "(string \<times> 'v pyval) list"

type_synonym 'v dict = "(string \<times> 'v pyval) list"

definition getitem :: "'v dict \<Rightarrow> string \<Rightarrow> 'v pyval py" where
  "getitem d k = (case map_of d k of None \<Rightarrow> Inl KeyError | Some v \<Rightarrow> Inr v)"

definition dict_update :: "'v dict \<Rightarrow> 'v dict \<Rightarrow> 'v dict" where
  "dict_update d new = fold (\<lambda>(k, v). AList.update k v) new d"

fun opt_val :: "('a \<Rightarrow> 'v pyval) \<Rightarrow> 'a option \<Rightarrow> 'v pyval" where
  "opt_val f None = PNone"
| "opt_val f (Some x) = f x"

fun as_int :: "'v pyval \<Rightarrow> int py" where
  "as_int (PInt i) = Inr i"
| "as_int _ = Inl TypeError"

fun as_str :: "'v pyval \<Rightarrow> string py" where
  "as_str (PStr s) = Inr s"
| "as_str _ = Inl TypeError"

fun as_dict :: "'v pyval \<Rightarrow> 'v dict py" where
  "as_dict (PDict d) = Inr d"
| "as_dict _ = Inl TypeError"

fun opt_int :: "'v pyval \<Rightarrow> int option py" where
  "opt_int PNone = Inr None"
| "opt_int (PInt i) = Inr (Some i)"
| "opt_int _ = Inl TypeError"

fun opt_bool :: "'v pyval \<Rightarrow> bool option py" where
  "opt_bool PNone = Inr None"
| "opt_bool (PBool b) = Inr (Some b)"
| "opt_bool _ = Inl TypeError"

fun opt_str :: "'v pyval \<Rightarrow> string option py" where
  "opt_str PNone = Inr None"
| "opt_str (PStr s) = Inr (Some s)"
| "opt_str _ = Inl TypeError"

fun opt_entry :: "'v pyval \<Rightarrow> 'v entry option py" where
  "opt_entry PNone = Inr None"
| "opt_entry (PEntry e) = Inr (Some e)"
| "opt_entry _ = Inl TypeError"

section \<open>The classes\<close>

definition RequestVotes :: int where [simp]: "RequestVotes = 0"
definition RequestVoteResponse :: int where [simp]: "RequestVoteResponse = 1"
definition Heartbeat :: int where [simp]: "Heartbeat = 2"
definition Acknowledge :: int where [simp]: "Acknowledge = 3"
definition AppendEntries :: int where [simp]: "AppendEntries = 4"
definition Committal :: int where [simp]: "Committal = 5"
definition ClientRequest :: int where [simp]: "ClientRequest = 6"

definition Request :: int where [simp]: "Request = 0"
definition Response :: int where [simp]: "Response = 1"

record RequestVotesResults =
  rv_term :: "int option"
  vote_granted :: "bool option"

record AppendEntriesResults =
  ae_term :: "int option"
  success :: "bool option"

record BaseMessage =
  m_timestamp :: int
  m_type :: int
  m_term :: int
  m_sender :: string
  m_receiver :: "string option"
  m_direction :: int

record RequestVotesMessage = BaseMessage +
  rv_results :: RequestVotesResults
  candidate_id :: string
  last_log_index :: int
  last_log_term :: int

record 'v AppendEntriesMessage = BaseMessage +
  ae_results :: AppendEntriesResults
  m_leader_id :: "string option"
  prev_log_index :: "int option"
  prev_log_term :: "int option"
  entries :: "'v entry option"
  leader_commit :: int

datatype 'v message = RV RequestVotesMessage | AE "'v AppendEntriesMessage"

section \<open>To and from dictionaries\<close>

definition rv_results_jsonify :: "RequestVotesResults \<Rightarrow> 'v dict" where
  "rv_results_jsonify r =
     [(''term'', opt_val PInt (rv_term r)), (''vote_granted'', opt_val PBool (vote_granted r))]"

definition rv_results_un_jsonify :: "'v dict \<Rightarrow> RequestVotesResults py" where
  "rv_results_un_jsonify message =
     bindE (bindE (getitem message ''term'') opt_int) (\<lambda>t.
     bindE (bindE (getitem message ''vote_granted'') opt_bool) (\<lambda>v.
     Inr \<lparr>rv_term = t, vote_granted = v\<rparr>))"

definition ae_results_jsonify :: "AppendEntriesResults \<Rightarrow> 'v dict" where
  "ae_results_jsonify r = [(''term'', opt_val PInt (ae_term r)), (''success'', opt_val PBool (success r))]"

definition ae_results_un_jsonify :: "'v dict \<Rightarrow> AppendEntriesResults py" where
  "ae_results_un_jsonify message =
     bindE (bindE (getitem message ''term'') opt_int) (\<lambda>t.
     bindE (bindE (getitem message ''success'') opt_bool) (\<lambda>v.
     Inr \<lparr>ae_term = t, success = v\<rparr>))"

definition base_jsonify :: "'a BaseMessage_scheme \<Rightarrow> 'v dict \<Rightarrow> 'v dict" where
  "base_jsonify m results =
     [(''type'', PInt (m_type m)), (''term'', PInt (m_term m)), (''timestamp'', PInt (m_timestamp m)),
      (''sender'', PStr (m_sender m)), (''receiver'', opt_val PStr (m_receiver m)),
      (''direction'', PInt (m_direction m)), (''results'', PDict results)]"

fun jsonify :: "'v message \<Rightarrow> 'v dict" where
  "jsonify (RV m) = dict_update (base_jsonify m (rv_results_jsonify (rv_results m)))
     [(''candidate_id'', PStr (candidate_id m)), (''last_log_index'', PInt (last_log_index m)),
      (''last_log_term'', PInt (last_log_term m))]"
| "jsonify (AE m) = dict_update (base_jsonify m (ae_results_jsonify (ae_results m)))
     [(''leader_id'', opt_val PStr (m_leader_id m)), (''prev_log_index'', opt_val PInt (prev_log_index m)),
      (''prev_log_term'', opt_val PInt (prev_log_term m)), (''entries'', opt_val PEntry (entries m)),
      (''leader_commit'', PInt (leader_commit m))]"

text \<open>The fields of the base class, without the results.\<close>

definition base_un_jsonify :: "'v dict \<Rightarrow> BaseMessage py" where
  "base_un_jsonify message =
     bindE (bindE (getitem message ''type'') as_int) (\<lambda>ty.
     bindE (bindE (getitem message ''term'') as_int) (\<lambda>t.
     bindE (bindE (getitem message ''timestamp'') as_int) (\<lambda>ts.
     bindE (bindE (getitem message ''sender'') as_str) (\<lambda>s.
     bindE (bindE (getitem message ''receiver'') opt_str) (\<lambda>r.
     bindE (bindE (getitem message ''direction'') as_int) (\<lambda>d.
     Inr \<lparr>m_timestamp = ts, m_type = ty, m_term = t, m_sender = s, m_receiver = r, m_direction = d\<rparr>))))))"

definition rv_un_jsonify :: "'v dict \<Rightarrow> RequestVotesMessage py" where
  "rv_un_jsonify message =
     bindE (base_un_jsonify message) (\<lambda>b.
     bindE (bindE (bindE (getitem message ''results'') as_dict) rv_results_un_jsonify) (\<lambda>res.
     bindE (bindE (getitem message ''candidate_id'') as_str) (\<lambda>c.
     bindE (bindE (getitem message ''last_log_index'') as_int) (\<lambda>i.
     bindE (bindE (getitem message ''last_log_term'') as_int) (\<lambda>t.
     Inr (BaseMessage.extend b (RequestVotesMessage.fields res c i t)))))))"

definition ae_un_jsonify :: "'v dict \<Rightarrow> 'v AppendEntriesMessage py" where
  "ae_un_jsonify message =
     bindE (base_un_jsonify message) (\<lambda>b.
     bindE (bindE (bindE (getitem message ''results'') as_dict) ae_results_un_jsonify) (\<lambda>res.
     bindE (bindE (getitem message ''leader_id'') opt_str) (\<lambda>l.
     bindE (bindE (getitem message ''prev_log_index'') opt_int) (\<lambda>i.
     bindE (bindE (getitem message ''prev_log_term'') opt_int) (\<lambda>t.
     bindE (bindE (getitem message ''entries'') opt_entry) (\<lambda>e.
     bindE (bindE (getitem message ''leader_commit'') as_int) (\<lambda>c.
     Inr (BaseMessage.extend b (AppendEntriesMessage.fields res l i t e c)))))))))"

definition parse_json_message :: "'v dict option \<Rightarrow> 'v message option py" where
  "parse_json_message json_message =
     (case json_message of
        None \<Rightarrow> Inr None
      | Some m \<Rightarrow>
          bindE (bindE (getitem m ''type'') as_int) (\<lambda>ty.
          if ty = RequestVotes then bindE (rv_un_jsonify m) (\<lambda>x. Inr (Some (RV x)))
          else bindE (ae_un_jsonify m) (\<lambda>x. Inr (Some (AE x)))))"

section \<open>Lemmas\<close>

text \<open>The class of a message is the one its type says.\<close>

fun class_ok :: "'v message \<Rightarrow> bool" where
  "class_ok (RV m) \<longleftrightarrow> m_type m = RequestVotes"
| "class_ok (AE m) \<longleftrightarrow> m_type m \<noteq> RequestVotes"

lemma opt_val_back [simp]:
  "opt_int (opt_val PInt i) = Inr i" "opt_bool (opt_val PBool b) = Inr b"
  "opt_str (opt_val PStr s) = Inr s" "opt_entry (opt_val PEntry e) = Inr e"
proof -
  show "opt_int (opt_val PInt i) = Inr i" by (cases i) simp_all
  show "opt_bool (opt_val PBool b) = Inr b" by (cases b) simp_all
  show "opt_str (opt_val PStr s) = Inr s" by (cases s) simp_all
  show "opt_entry (opt_val PEntry e) = Inr e" by (cases e) simp_all
qed

lemma results_back [simp]:
  "rv_results_un_jsonify (rv_results_jsonify r) = Inr r"
  "ae_results_un_jsonify (ae_results_jsonify a) = Inr a"
  by (simp_all add: rv_results_un_jsonify_def rv_results_jsonify_def ae_results_un_jsonify_def
      ae_results_jsonify_def getitem_def)

lemma rv_back: "rv_un_jsonify (jsonify (RV m)) = Inr m"
  by (simp add: rv_un_jsonify_def base_un_jsonify_def base_jsonify_def dict_update_def getitem_def
      BaseMessage.defs RequestVotesMessage.defs)

lemma ae_back: "ae_un_jsonify (jsonify (AE m)) = Inr m"
  by (simp add: ae_un_jsonify_def base_un_jsonify_def base_jsonify_def dict_update_def getitem_def
      BaseMessage.defs AppendEntriesMessage.defs)

lemma jsonify_type:
  "getitem (jsonify (RV r)) ''type'' = Inr (PInt (m_type r))"
  "getitem (jsonify (AE a)) ''type'' = Inr (PInt (m_type a))"
  by (simp_all add: base_jsonify_def dict_update_def getitem_def)

lemma jsonify_receiver:
  "getitem (jsonify (RV r)) ''receiver'' = Inr (opt_val PStr (m_receiver r))"
  "getitem (jsonify (AE a)) ''receiver'' = Inr (opt_val PStr (m_receiver a))"
  by (simp_all add: base_jsonify_def dict_update_def getitem_def)

lemma parse_None [simp]: "parse_json_message None = Inr None"
  by (simp add: parse_json_message_def)

lemma parse_jsonify:
  "class_ok m \<Longrightarrow> parse_json_message (Some (jsonify m)) = Inr (Some m)"
  by (cases m) (simp_all add: parse_json_message_def jsonify_type rv_back ae_back del: jsonify.simps)

lemma wrong_class:
  "ae_un_jsonify (jsonify (RV r)) = Inl KeyError" "rv_un_jsonify (jsonify (AE a)) = Inl KeyError"
  by (simp_all add: rv_un_jsonify_def ae_un_jsonify_def base_un_jsonify_def base_jsonify_def dict_update_def getitem_def
      rv_results_un_jsonify_def rv_results_jsonify_def ae_results_un_jsonify_def ae_results_jsonify_def)

section \<open>Properties\<close>

text \<open>
  C34. A message comes out of its dictionary as it went in, whatever its fields and whether or not
  its optional fields are set, when its class is the one its type names; otherwise the receiver gets
  a \<open>KeyError\<close>.
\<close>

theorem raft_message_roundtrip:
  "parse_json_message (Some (jsonify m)) = (if class_ok m then Inr (Some m) else Inl KeyError)"
  by (cases m) (simp_all add: parse_json_message_def jsonify_type rv_back ae_back wrong_class del: jsonify.simps)

end
