(* ===== verification/Raft.thy ===== *)
theory Raft
  imports RaftProtocol
begin

text \<open>
  A node of the replicated log, \<open>namesvr/raft/raft.py\<close>. The methods of \<open>RaftNode\<close> are functions of
  its state under their names without the leading underscore; \<open>raft_turn\<close> is one turn of the
  loops in \<open>run\<close>, \<open>_follower\<close>, \<open>_candidate\<close> and \<open>_leader\<close>, and the field \<open>frame\<close> says in which of
  them the thread stands, with their local variables.

  Times are in microseconds. A turn has two readings of the clock: \<open>t0\<close> for all but the last
  comparison of a loop body, which has \<open>t1\<close>; nothing is assumed of them. The type \<open>'v\<close> of the values
  in the log is arbitrary; \<open>{}\<close>, which a new leader proposes, is the argument \<open>empty_dict\<close>. What goes out
  is appended to \<open>talker\<close>, what came in is taken from \<open>listener\<close>.
\<close>

section \<open>Python lists\<close>

definition py_index :: "int \<Rightarrow> nat \<Rightarrow> nat py" where
  "py_index i n = (if 0 \<le> i \<and> i < int n then Inr (nat i)
     else if - int n \<le> i \<and> i < 0 then Inr (nat (i + int n)) else Inl IndexError)"

definition py_get :: "'a list \<Rightarrow> int \<Rightarrow> 'a py" where
  "py_get xs i = bindE (py_index i (length xs)) (\<lambda>k. Inr (xs ! k))"

definition py_set :: "'a list \<Rightarrow> int \<Rightarrow> 'a \<Rightarrow> 'a list py" where
  "py_set xs i x = bindE (py_index i (length xs)) (\<lambda>k. Inr (xs[k := x]))"

text \<open>\<open>xs[:k]\<close>\<close>

definition py_prefix :: "'a list \<Rightarrow> int \<Rightarrow> 'a list" where
  "py_prefix xs k = (if k < 0 then take (nat (int (length xs) + k)) xs else take (nat k) xs)"

definition py_enumerate :: "'a list \<Rightarrow> (int \<times> 'a) list" where
  "py_enumerate xs = zip (map int [0..<length xs]) xs"

fun list_index :: "'a list \<Rightarrow> 'a \<Rightarrow> int py" where
  "list_index [] x = Inl ValueError"
| "list_index (y # ys) x = (if x = y then Inr 0 else bindE (list_index ys x) (\<lambda>i. Inr (i + 1)))"

section \<open>State\<close>

datatype role = Follower | Candidate | Leader | NoRole

text \<open>
  The locals of the loops: \<open>most_recent_heartbeat\<close>; \<open>votes_for_me\<close>, \<open>total_votes\<close> and
  \<open>time_election_going\<close>; \<open>most_recent_heartbeat\<close>.
\<close>

datatype frame = Run | Following int | Campaigning int int int | Leading int

record 'v raft_node =
  all_ids :: "string list"
  my_id :: string
  election_timeout :: int
  terminate :: bool
  current_role :: role
  leader_id :: "string option"
  current_term :: int
  voted_for :: "string option"
  log :: "'v entry list"
  log_hash :: "int \<rightharpoonup> 'v entry"
  commit_index :: int
  last_applied_index :: int
  last_applied_term :: int
  next_index :: "int option list"
  match_index :: "int list"
  heard_from :: "int list"
  client_queue :: "'v entry list"
  talker :: "'v dict list"
  listener :: "'v dict list"
  frame :: frame

definition current_num_nodes :: "('v, 'x) raft_node_scheme \<Rightarrow> int" where
  "current_num_nodes n = int (length (all_ids n))"

definition heartbeat_frequency :: int where "heartbeat_frequency = 10000"
definition resend_time :: int where "resend_time = 2000000"

text \<open>The constructor: the addresses of the configuration, the own one and the drawn timeout.\<close>

definition raft_init :: "'v \<Rightarrow> string list \<Rightarrow> string \<Rightarrow> int \<Rightarrow> 'v raft_node" where
  "raft_init empty_dict ids me timeout =
     \<lparr>all_ids = ids, my_id = me, election_timeout = timeout, terminate = False, current_role = Follower,
      leader_id = None, current_term = 1, voted_for = None, log = [Entry 1 empty_dict (-1)],
      log_hash = Map.empty, commit_index = 0, last_applied_index = 0, last_applied_term = 1,
      next_index = map (\<lambda>_. None) ids, match_index = map (\<lambda>_. 0) ids, heard_from = map (\<lambda>_. 0) ids,
      client_queue = [], talker = [], listener = [], frame = Run\<rparr>"

section \<open>The public functions\<close>

definition client_request :: "'v \<Rightarrow> int \<Rightarrow> 'v raft_node \<Rightarrow> 'v raft_node" where
  "client_request value id_num n =
     n\<lparr>client_queue := client_queue n @ [Entry (current_term n) value id_num]\<rparr>"

text \<open>Without an id the value last committed; with one, the entry last logged under it.\<close>

definition check_committed_entry :: "'v raft_node \<Rightarrow> 'v py" where
  "check_committed_entry n = bindE (py_get (log n) (commit_index n)) (\<lambda>e. Inr (e_entry e))"

definition check_committed_entry_id :: "int \<Rightarrow> 'v raft_node \<Rightarrow> 'v entry option" where
  "check_committed_entry_id id_num n = log_hash n id_num"

definition check_role :: "'v raft_node \<Rightarrow> role" where
  "check_role n = current_role n"

definition set_current_role :: "role \<Rightarrow> 'v raft_node \<Rightarrow> 'v raft_node" where
  "set_current_role r n = n\<lparr>current_role := r\<rparr>"

definition pause :: "'v raft_node \<Rightarrow> 'v raft_node" where
  "pause n = set_current_role NoRole n"

definition un_pause :: "'v raft_node \<Rightarrow> 'v raft_node" where
  "un_pause n = (if check_role n = NoRole then set_current_role Follower n else n)"

definition raft_stop :: "'v raft_node \<Rightarrow> 'v raft_node" where
  "raft_stop n = n\<lparr>terminate := True\<rparr>"

section \<open>Helpers\<close>

definition send_message :: "'v message \<Rightarrow> 'v raft_node \<Rightarrow> 'v raft_node" where
  "send_message message n = n\<lparr>talker := talker n @ [jsonify message]\<rparr>"

definition get_message :: "'v raft_node \<Rightarrow> ('v message option \<times> 'v raft_node) py" where
  "get_message n =
     (case listener n of
        [] \<Rightarrow> bindE (parse_json_message None) (\<lambda>m. Inr (m, n))
      | d # ds \<Rightarrow> bindE (parse_json_message (Some d)) (\<lambda>m. Inr (m, n\<lparr>listener := ds\<rparr>)))"

definition get_client_request :: "'v raft_node \<Rightarrow> 'v entry option \<times> 'v raft_node" where
  "get_client_request n =
     (case client_queue n of [] \<Rightarrow> (None, n) | e # es \<Rightarrow> (Some e, n\<lparr>client_queue := es\<rparr>))"

definition get_node_index :: "string \<Rightarrow> 'v raft_node \<Rightarrow> int py" where
  "get_node_index node_address n = list_index (all_ids n) node_address"

definition log_max_index :: "'v raft_node \<Rightarrow> int" where
  "log_max_index n = int (length (log n)) - 1"

definition increment_term :: "int option \<Rightarrow> 'v raft_node \<Rightarrow> 'v raft_node" where
  "increment_term t n =
     (let n = n\<lparr>voted_for := None\<rparr> in
      case t of None \<Rightarrow> n\<lparr>current_term := current_term n + 1\<rparr> | Some t \<Rightarrow> n\<lparr>current_term := t\<rparr>)"

definition verify_entry :: "int \<Rightarrow> int \<Rightarrow> 'v raft_node \<Rightarrow> bool py" where
  "verify_entry prev_index prev_term n =
     (if int (length (log n)) \<le> prev_index then Inr False
      else bindE (py_get (log n) prev_index) (\<lambda>e. Inr (e_term e = prev_term)))"

definition commit_entry :: "int \<Rightarrow> int \<Rightarrow> 'v raft_node \<Rightarrow> 'v raft_node" where
  "commit_entry index t n =
     n\<lparr>last_applied_index := index, last_applied_term := t, commit_index := index\<rparr>"

definition append_entry ::
  "'v entry \<Rightarrow> bool \<Rightarrow> int option \<Rightarrow> 'v raft_node \<Rightarrow> ((int \<times> int) \<times> 'v raft_node) py" where
  "append_entry e commit prev n =
     (let (prev_index, n) = (case prev of
        None \<Rightarrow> (int (length (log n)) - 1, n)
      | Some i \<Rightarrow> (i, n\<lparr>log := py_prefix (log n) (i + 1)\<rparr>))
      in bindE (py_get (log n) (-1)) (\<lambda>last.
        let prev_term = e_term last;
            n = n\<lparr>log := log n @ [e], log_hash := (log_hash n)(e_id e \<mapsto> e)\<rparr>;
            n = (if commit then commit_entry prev_index (e_term e) n else n)
        in Inr ((prev_index, prev_term), n)))"

section \<open>Sending\<close>

text \<open>\<open>ts\<close> is the time at which a message is made.\<close>

definition send_request_vote :: "int \<Rightarrow> string option \<Rightarrow> 'v raft_node \<Rightarrow> 'v raft_node" where
  "send_request_vote ts receiver n =
     send_message (RV \<lparr>m_timestamp = ts div 1000000, m_type = RequestVotes, m_term = current_term n,
       m_sender = my_id n, m_receiver = receiver, m_direction = Request,
       rv_results = \<lparr>rv_term = None, vote_granted = None\<rparr>, candidate_id = my_id n,
       last_log_index = last_applied_index n, last_log_term = last_applied_term n\<rparr>) n"

definition send_vote :: "int \<Rightarrow> string \<Rightarrow> bool \<Rightarrow> 'v raft_node \<Rightarrow> 'v raft_node" where
  "send_vote ts candidate granted n =
     (let n = send_message (RV \<lparr>m_timestamp = ts div 1000000, m_type = RequestVotes, m_term = current_term n,
        m_sender = my_id n, m_receiver = Some candidate, m_direction = Response,
        rv_results = \<lparr>rv_term = Some (current_term n), vote_granted = Some granted\<rparr>, candidate_id = candidate,
        last_log_index = last_applied_index n, last_log_term = last_applied_term n\<rparr>) n
      in n\<lparr>voted_for := Some candidate\<rparr>)"

definition send_heartbeat :: "int \<Rightarrow> 'v raft_node \<Rightarrow> 'v raft_node" where
  "send_heartbeat ts n =
     send_message (AE \<lparr>m_timestamp = ts div 1000000, m_type = Heartbeat, m_term = current_term n,
       m_sender = my_id n, m_receiver = None, m_direction = Request,
       ae_results = \<lparr>ae_term = None, success = None\<rparr>, m_leader_id = Some (my_id n), prev_log_index = None,
       prev_log_term = None, entries = None, leader_commit = commit_index n\<rparr>) n"

definition send_append_entries ::
  "int \<Rightarrow> int \<Rightarrow> int \<Rightarrow> 'v entry \<Rightarrow> string option \<Rightarrow> 'v raft_node \<Rightarrow> 'v raft_node" where
  "send_append_entries ts index t e receiver n =
     send_message (AE \<lparr>m_timestamp = ts div 1000000, m_type = AppendEntries, m_term = current_term n,
       m_sender = my_id n, m_receiver = receiver, m_direction = Request,
       ae_results = \<lparr>ae_term = None, success = None\<rparr>, m_leader_id = Some (my_id n),
       prev_log_index = Some index, prev_log_term = Some t, entries = Some e, leader_commit = commit_index n\<rparr>) n"

text \<open>The index the caller passes is not used: the message has the last applied entry.\<close>

definition send_committal :: "int \<Rightarrow> int \<Rightarrow> string option \<Rightarrow> 'v raft_node \<Rightarrow> 'v raft_node" where
  "send_committal ts index receiver n =
     send_message (AE \<lparr>m_timestamp = ts div 1000000, m_type = Committal, m_term = current_term n,
       m_sender = my_id n, m_receiver = receiver, m_direction = Request,
       ae_results = \<lparr>ae_term = None, success = None\<rparr>, m_leader_id = Some (my_id n),
       prev_log_index = Some (last_applied_index n), prev_log_term = Some (last_applied_term n),
       entries = None, leader_commit = commit_index n\<rparr>) n"

definition send_acknowledge :: "int \<Rightarrow> string option \<Rightarrow> bool \<Rightarrow> 'v raft_node \<Rightarrow> 'v raft_node" where
  "send_acknowledge ts receiver ok n =
     send_message (AE \<lparr>m_timestamp = ts div 1000000, m_type = Acknowledge, m_term = current_term n,
       m_sender = my_id n, m_receiver = receiver, m_direction = Response,
       ae_results = \<lparr>ae_term = Some (current_term n), success = Some ok\<rparr>, m_leader_id = leader_id n,
       prev_log_index = Some (last_applied_index n), prev_log_term = Some (last_applied_term n),
       entries = None, leader_commit = commit_index n\<rparr>) n"

definition send_client_request :: "int \<Rightarrow> string option \<Rightarrow> 'v entry \<Rightarrow> 'v raft_node \<Rightarrow> 'v raft_node" where
  "send_client_request ts receiver e n =
     send_message (AE \<lparr>m_timestamp = ts div 1000000, m_type = ClientRequest, m_term = current_term n,
       m_sender = my_id n, m_receiver = receiver, m_direction = Response,
       ae_results = \<lparr>ae_term = None, success = None\<rparr>, m_leader_id = leader_id n,
       prev_log_index = Some (last_applied_index n), prev_log_term = Some (last_applied_term n),
       entries = Some e, leader_commit = commit_index n\<rparr>) n"

section \<open>The broadcasts of a leader\<close>

definition broadcast_to :: "int \<Rightarrow> int \<Rightarrow> int \<Rightarrow> 'v entry \<Rightarrow> int \<times> int option \<Rightarrow> 'v raft_node \<Rightarrow> 'v raft_node py" where
  "broadcast_to ts prev_index prev_term e node_index n =
     (case node_index of (node, index) \<Rightarrow>
        if index = None then
          bindE (py_get (all_ids n) node) (\<lambda>receiver.
          let n = send_append_entries ts prev_index prev_term e (Some receiver) n in
          bindE (py_set (next_index n) node (Some (log_max_index n))) (\<lambda>l. Inr (n\<lparr>next_index := l\<rparr>)))
        else Inr n)"

definition broadcast_append_entries :: "int \<Rightarrow> 'v entry \<Rightarrow> 'v raft_node \<Rightarrow> 'v raft_node py" where
  "broadcast_append_entries ts e n =
     bindE (append_entry e False None n) (\<lambda>((prev_index, prev_term), n).
     bindE (foldE (broadcast_to ts prev_index prev_term e) (py_enumerate (next_index n)) n) (\<lambda>n.
     bindE (get_node_index (my_id n) n) (\<lambda>i.
     bindE (py_set (next_index n) i None) (\<lambda>l.
     bindE (py_set (match_index n) i (log_max_index n)) (\<lambda>m.
     Inr (n\<lparr>next_index := l, match_index := m\<rparr>))))))"

text \<open>
  The loop variable of the source is called \<open>index\<close> too, so its test \<open>index >= index\<close> compares a
  number with itself and every node gets the message.
\<close>

definition commit_to :: "int \<Rightarrow> int \<times> int \<Rightarrow> 'v raft_node \<Rightarrow> 'v raft_node py" where
  "commit_to ts node_index n =
     (case node_index of (node, index) \<Rightarrow>
        if index \<ge> index then
          bindE (py_get (all_ids n) node) (\<lambda>receiver. Inr (send_committal ts index (Some receiver) n))
        else Inr n)"

definition broadcast_commmit_entries :: "int \<Rightarrow> int \<Rightarrow> 'v raft_node \<Rightarrow> 'v raft_node py" where
  "broadcast_commmit_entries ts index n =
     bindE (py_get (log n) index) (\<lambda>e.
     let n = commit_entry index (e_term e) n in
     foldE (commit_to ts) (py_enumerate (match_index n)) n)"

section \<open>The follower\<close>

text \<open>
  One received message: the new value of \<open>most_recent_heartbeat\<close> and the new state. The class of
  the message is what its type says (\<open>parse_json_message\<close>). An optional field used as a number is
  a \<open>TypeError\<close> when it is not set.
\<close>

definition needed :: "'a option \<Rightarrow> 'a py" where
  "needed x = (case x of None \<Rightarrow> Inl TypeError | Some y \<Rightarrow> Inr y)"

definition truthy :: "string option \<Rightarrow> bool" where
  "truthy x \<longleftrightarrow> x \<noteq> None \<and> x \<noteq> Some []"

definition follower_vote :: "int \<Rightarrow> RequestVotesMessage \<Rightarrow> 'v raft_node \<Rightarrow> 'v raft_node" where
  "follower_vote t0 m n =
     (let n = (if m_term m > current_term n then increment_term (Some (m_term m)) n else n) in
      if voted_for n = None \<and> last_log_index m \<ge> last_applied_index n \<and> last_log_term m \<ge> last_applied_term n
      then send_vote t0 (m_sender m) True n
      else send_vote t0 (m_sender m) False n)"

definition follower_heartbeat :: "int \<Rightarrow> 'v AppendEntriesMessage \<Rightarrow> 'v raft_node \<Rightarrow> 'v raft_node" where
  "follower_heartbeat t0 m n =
     (let n = (if m_term m > current_term n then increment_term (Some (m_term m)) n else n);
          n = n\<lparr>leader_id := m_leader_id m\<rparr>
      in if truthy (leader_id n) then
           (case get_client_request n of
              (None, n) \<Rightarrow> n
            | (Some req, n) \<Rightarrow> send_client_request t0 (m_leader_id m) req n)
         else n)"

definition follower_append :: "int \<Rightarrow> 'v AppendEntriesMessage \<Rightarrow> 'v raft_node \<Rightarrow> 'v raft_node py" where
  "follower_append t0 m n =
     (if m_term m < current_term n then Inr (send_acknowledge t0 (m_leader_id m) False n)
      else
        bindE (needed (prev_log_index m)) (\<lambda>i.
        bindE (needed (prev_log_term m)) (\<lambda>t.
        bindE (verify_entry i t n) (\<lambda>verified.
        if \<not> verified then Inr (send_acknowledge t0 (m_leader_id m) False n)
        else
          bindE (needed (entries m)) (\<lambda>e.
          bindE (if leader_commit m > commit_index n then append_entry e True (Some i) n
                 else append_entry e False (Some i) n) (\<lambda>(_, n).
          Inr (send_acknowledge t0 (m_leader_id m) True n)))))))"

definition follower_message :: "int \<Rightarrow> 'v message \<Rightarrow> int \<Rightarrow> 'v raft_node \<Rightarrow> (int \<times> 'v raft_node) py" where
  "follower_message t0 m heard n =
     (case m of
        RV m \<Rightarrow>
          if m_direction m = Request then Inr (t0, follower_vote t0 m n) else Inr (heard, n)
      | AE m \<Rightarrow>
          if m_direction m = Request then
            (if m_type m = Heartbeat then Inr (t0, follower_heartbeat t0 m n)
             else if m_type m = AppendEntries then bindE (follower_append t0 m n) (\<lambda>n. Inr (heard, n))
             else if m_type m = Committal then
               bindE (needed (prev_log_index m)) (\<lambda>i.
               bindE (needed (prev_log_term m)) (\<lambda>t. Inr (heard, commit_entry i t n)))
             else Inr (heard, n))
          else Inr (heard, n))"

text \<open>One turn of the loop of \<open>_follower\<close>.\<close>

definition follower_turn :: "int \<Rightarrow> int \<Rightarrow> int \<Rightarrow> 'v raft_node \<Rightarrow> 'v raft_node py" where
  "follower_turn t0 t1 heard n =
     bindE (get_message n) (\<lambda>(m, n).
     bindE (case m of None \<Rightarrow> Inr (heard, n) | Some m \<Rightarrow> follower_message t0 m heard n) (\<lambda>(heard, n).
     if t1 - heard > election_timeout n then Inr (set_current_role Candidate (n\<lparr>frame := Run\<rparr>))
     else Inr (n\<lparr>frame := Following heard\<rparr>)))"

section \<open>The candidate\<close>

definition candidate_start :: "int \<Rightarrow> 'v raft_node \<Rightarrow> 'v raft_node" where
  "candidate_start t0 n =
     (let n = increment_term None n;
          n = send_request_vote t0 None n;
          n = send_vote t0 (my_id n) True n
      in n\<lparr>frame := Campaigning 0 0 t0\<rparr>)"

text \<open>The votes and the state after a message; \<open>None\<close> instead of the votes: the method returns.\<close>

definition candidate_message ::
  "int \<Rightarrow> 'v message \<Rightarrow> int \<times> int \<Rightarrow> 'v raft_node \<Rightarrow> (int \<times> int) option \<times> 'v raft_node" where
  "candidate_message t0 m votes n =
     (case m of
        RV m \<Rightarrow>
          if m_direction m = Response then
            let votes_for_me = (if vote_granted (rv_results m) = Some True then fst votes + 1 else fst votes);
                total_votes = snd votes + 1
            in if votes_for_me > current_num_nodes n div 2 \<or> current_num_nodes n = 1
               then (None, set_current_role Leader n)
               else (Some (votes_for_me, total_votes), n)
          else if m_direction m = Request then
            if m_term m > current_term n then
              (None, set_current_role Follower (send_vote t0 (m_sender m) True (increment_term (Some (m_term m)) n)))
            else (Some votes, n)
          else (Some votes, n)
      | AE m \<Rightarrow>
          if m_direction m = Request \<and> m_type m = Heartbeat \<and> m_term m \<ge> current_term n then
            (None, set_current_role Follower ((increment_term (Some (m_term m)) n)\<lparr>leader_id := m_leader_id m\<rparr>))
          else (Some votes, n))"

text \<open>One turn of the loop of \<open>_candidate\<close>.\<close>

definition candidate_turn :: "int \<Rightarrow> int \<Rightarrow> int \<times> int \<Rightarrow> int \<Rightarrow> 'v raft_node \<Rightarrow> 'v raft_node py" where
  "candidate_turn t0 t1 votes started n =
     bindE (get_message n) (\<lambda>(m, n).
     case (case m of None \<Rightarrow> (Some votes, n) | Some m \<Rightarrow> candidate_message t0 m votes n) of
       (None, n) \<Rightarrow> Inr (n\<lparr>frame := Run\<rparr>)
     | (Some (votes_for_me, total_votes), n) \<Rightarrow>
         if t1 - started > election_timeout n then Inr (set_current_role Candidate (n\<lparr>frame := Run\<rparr>))
         else Inr (n\<lparr>frame := Campaigning votes_for_me total_votes started\<rparr>))"

section \<open>The leader\<close>

definition leader_start :: "int \<Rightarrow> 'v \<Rightarrow> 'v raft_node \<Rightarrow> 'v raft_node py" where
  "leader_start t0 empty_dict n =
     (let n = send_heartbeat t0 n;
          n = n\<lparr>leader_id := Some (my_id n), match_index := map (\<lambda>_. commit_index n) (all_ids n),
                next_index := map (\<lambda>_. None) (all_ids n), heard_from := map (\<lambda>_. t0) (all_ids n)\<rparr>
      in bindE (broadcast_append_entries t0 (Entry (current_term n) empty_dict (-1)) n) (\<lambda>n.
         Inr (n\<lparr>frame := Leading t0\<rparr>)))"

definition resend_to :: "int \<Rightarrow> int \<times> int option \<Rightarrow> 'v raft_node \<Rightarrow> 'v raft_node py" where
  "resend_to t0 node_index n =
     (case node_index of
        (node, None) \<Rightarrow> Inr n
      | (node, Some index) \<Rightarrow>
          bindE (py_get (heard_from n) node) (\<lambda>heard.
          if t0 - heard > resend_time then
            bindE (py_get (log n) (index - 1)) (\<lambda>prev.
            bindE (py_get (log n) index) (\<lambda>e.
            bindE (py_get (all_ids n) node) (\<lambda>receiver.
            let n = send_append_entries t0 (index - 1) (e_term prev) e (Some receiver) n in
            bindE (py_set (heard_from n) node t0) (\<lambda>h. Inr (n\<lparr>heard_from := h\<rparr>)))))
          else Inr n))"

text \<open>The loop over \<open>log_lengths\<close>, sorted downwards.\<close>

definition log_lengths :: "'v raft_node \<Rightarrow> int list" where
  "log_lengths n = rev (sort (match_index n))"

definition replicated_on :: "int \<Rightarrow> int list \<Rightarrow> int" where
  "replicated_on index lengths = sum_list (map (\<lambda>i. if index \<le> i then 1 else 0) lengths)"

fun committable :: "int \<Rightarrow> int list \<Rightarrow> int list \<Rightarrow> int \<Rightarrow> int" where
  "committable nodes lengths [] best = best"
| "committable nodes lengths (index # r) best =
     committable nodes lengths r
       (if replicated_on index lengths \<ge> nodes div 2 + 1 then index else best)"

definition max_committable_index :: "'v raft_node \<Rightarrow> int" where
  "max_committable_index n = committable (current_num_nodes n) (log_lengths n) (log_lengths n) 0"

definition catch_up :: "int \<Rightarrow> string \<Rightarrow> int \<Rightarrow> int \<Rightarrow> 'v raft_node \<Rightarrow> 'v raft_node py" where
  "catch_up t0 sender i next n =
     (if next > log_max_index n then
        bindE (py_set (next_index n) i None) (\<lambda>l. Inr (n\<lparr>next_index := l\<rparr>))
      else
        bindE (py_set (next_index n) i (Some next)) (\<lambda>l.
        let n = n\<lparr>next_index := l\<rparr> in
        bindE (py_get (log n) (next - 1)) (\<lambda>prev.
        bindE (py_get (log n) next) (\<lambda>e.
        Inr (send_append_entries t0 (next - 1) (e_term prev) e (Some sender) n)))))"

definition commit_committable :: "int \<Rightarrow> 'v raft_node \<Rightarrow> 'v raft_node py" where
  "commit_committable t0 n =
     (if max_committable_index n > commit_index n
      then broadcast_commmit_entries t0 (max_committable_index n) n else Inr n)"

text \<open>An acknowledgement of a node whose \<open>next_index\<close> is set.\<close>

definition ack_progress :: "int \<Rightarrow> 'v AppendEntriesMessage \<Rightarrow> int \<Rightarrow> int \<Rightarrow> 'v raft_node \<Rightarrow> 'v raft_node py" where
  "ack_progress t0 m i next n =
     bindE (if success (ae_results m) = Some True
            then bindE (py_set (match_index n) i next) (\<lambda>l. Inr (next + 1, n\<lparr>match_index := l\<rparr>))
            else Inr (if next \<noteq> 1 then next - 1 else next, n)) (\<lambda>(next, n).
     bindE (catch_up t0 (m_sender m) i next n) (commit_committable t0))"

definition leader_ack :: "int \<Rightarrow> 'v AppendEntriesMessage \<Rightarrow> 'v raft_node \<Rightarrow> 'v raft_node py" where
  "leader_ack t0 m n =
     bindE (get_node_index (m_sender m) n) (\<lambda>i.
     bindE (py_set (heard_from n) i t0) (\<lambda>h.
     let n = n\<lparr>heard_from := h\<rparr> in
     bindE (py_get (next_index n) i) (\<lambda>next.
     case next of None \<Rightarrow> Inr n | Some next \<Rightarrow> ack_progress t0 m i next n)))"

text \<open>\<open>True\<close>: the method returns.\<close>

definition leader_message :: "int \<Rightarrow> 'v message \<Rightarrow> 'v raft_node \<Rightarrow> (bool \<times> 'v raft_node) py" where
  "leader_message t0 m n =
     (case m of
        RV m \<Rightarrow>
          if m_direction m = Request \<and> m_term m > current_term n then
            Inr (True, set_current_role Follower (send_vote t0 (m_sender m) True (increment_term (Some (m_term m)) n)))
          else Inr (False, n)
      | AE m \<Rightarrow>
          if m_direction m = Response then
            (if m_type m = Acknowledge then bindE (leader_ack t0 m n) (\<lambda>n. Inr (False, n))
             else if m_type m = ClientRequest then
               bindE (needed (entries m)) (\<lambda>e. bindE (broadcast_append_entries t0 e n) (\<lambda>n. Inr (False, n)))
             else Inr (False, n))
          else Inr (False, n))"

definition leader_receive :: "int \<Rightarrow> 'v raft_node \<Rightarrow> (bool \<times> 'v raft_node) py" where
  "leader_receive t0 n =
     bindE (get_message n) (\<lambda>(m, n). case m of None \<Rightarrow> Inr (False, n) | Some m \<Rightarrow> leader_message t0 m n)"

definition leader_request :: "int \<Rightarrow> 'v raft_node \<Rightarrow> 'v raft_node py" where
  "leader_request t0 n =
     (case get_client_request n of (None, n) \<Rightarrow> Inr n | (Some req, n) \<Rightarrow> broadcast_append_entries t0 req n)"

text \<open>One turn of the loop of \<open>_leader\<close>.\<close>

definition leader_turn :: "int \<Rightarrow> int \<Rightarrow> 'v raft_node \<Rightarrow> 'v raft_node py" where
  "leader_turn t0 heard n =
     (let (heard, n) = (if t0 - heard > heartbeat_frequency then (t0, send_heartbeat t0 n) else (heard, n)) in
      bindE (foldE (resend_to t0) (py_enumerate (next_index n)) n) (\<lambda>n.
      bindE (leader_receive t0 n) (\<lambda>(returns, n).
      if returns then Inr (n\<lparr>frame := Run\<rparr>)
      else bindE (leader_request t0 n) (\<lambda>n. Inr (n\<lparr>frame := Leading heard\<rparr>)))))"

section \<open>The thread\<close>

text \<open>
  A turn of whichever loop the thread is in; a loop whose condition is false is left for \<open>run\<close>, and
  a terminated or paused thread does nothing there.
\<close>

definition raft_turn :: "'v \<Rightarrow> int \<Rightarrow> int \<Rightarrow> 'v raft_node \<Rightarrow> 'v raft_node py" where
  "raft_turn empty_dict t0 t1 n =
     (case frame n of
        Run \<Rightarrow>
          if terminate n then Inr n
          else (case check_role n of
              Leader \<Rightarrow> leader_start t0 empty_dict n
            | Follower \<Rightarrow> Inr (n\<lparr>frame := Following t0\<rparr>)
            | Candidate \<Rightarrow> Inr (candidate_start t0 n)
            | NoRole \<Rightarrow> Inr n)
      | Following heard \<Rightarrow>
          if \<not> terminate n \<and> check_role n = Follower then follower_turn t0 t1 heard n
          else Inr (n\<lparr>frame := Run\<rparr>)
      | Campaigning votes_for votes started \<Rightarrow>
          if \<not> terminate n \<and> check_role n = Candidate then candidate_turn t0 t1 (votes_for, votes) started n
          else Inr (n\<lparr>frame := Run\<rparr>)
      | Leading heard \<Rightarrow>
          if \<not> terminate n \<and> check_role n = Leader then leader_turn t0 heard n
          else Inr (n\<lparr>frame := Run\<rparr>))"

end
