(* ===== verification/RaftSafety.thy ===== *)
theory RaftSafety
  imports Raft
begin

text \<open>
  What holds of every turn of a node: the messages it makes are complete, its lists keep their
  lengths, the indices a leader uses lie in its log, so that no turn raises an exception.
\<close>

section \<open>Python lists\<close>

lemma py_get_succeeds: "0 \<le> i \<Longrightarrow> i < int (length xs) \<Longrightarrow> Q (xs ! nat i) \<Longrightarrow> succeeds (py_get xs i) Q"
  by (simp add: py_get_def py_index_def)

lemma py_set_succeeds:
  "0 \<le> i \<Longrightarrow> i < int (length xs) \<Longrightarrow> Q (xs[nat i := x]) \<Longrightarrow> succeeds (py_set xs i x) Q"
  by (simp add: py_set_def py_index_def)

lemma py_get_last: "xs \<noteq> [] \<Longrightarrow> py_get xs (-1) = Inr (last xs)"
  by (simp add: py_get_def py_index_def last_conv_nth nat_diff_distrib Suc_leI)

lemma list_index_succeeds:
  "x \<in> set xs \<Longrightarrow> succeeds (list_index xs x) (\<lambda>i. 0 \<le> i \<and> i < int (length xs) \<and> xs ! nat i = x)"
proof (induction xs)
  case (Cons y ys)
  show ?case
  proof (cases "x = y")
    case False
    with Cons have "succeeds (list_index ys x) (\<lambda>i. 0 \<le> i \<and> i < int (length ys) \<and> ys ! nat i = x)" by simp
    then have "succeeds (list_index ys x)
        (\<lambda>i. 0 \<le> i + 1 \<and> i + 1 < int (length (y # ys)) \<and> (y # ys) ! nat (i + 1) = x)"
      by (rule succeeds_mono) (simp add: nat_add_distrib)
    with False show ?thesis by simp
  qed simp
qed simp

lemma py_enumerate_in:
  "(i, x) \<in> set (py_enumerate xs) \<Longrightarrow> 0 \<le> i \<and> i < int (length xs) \<and> xs ! nat i = x"
  by (auto simp: py_enumerate_def in_set_zip)

lemma py_prefix_nonempty: "xs \<noteq> [] \<Longrightarrow> 0 \<le> i \<Longrightarrow> py_prefix xs (i + 1) \<noteq> [] \<and> hd (py_prefix xs (i + 1)) = hd xs"
  by (cases xs) (auto simp: py_prefix_def nat_add_distrib)

section \<open>Messages\<close>

text \<open>A complete message from one of the nodes.\<close>

fun fields_ok :: "string set \<Rightarrow> 'v message \<Rightarrow> bool" where
  "fields_ok ids (RV m) \<longleftrightarrow> m_sender m \<in> ids"
| "fields_ok ids (AE m) \<longleftrightarrow> m_sender m \<in> ids \<and>
     (m_type m = AppendEntries \<or> m_type m = Committal \<longrightarrow>
       (\<exists>i\<ge>0. prev_log_index m = Some i) \<and> prev_log_term m \<noteq> None) \<and>
     (m_type m = AppendEntries \<or> m_type m = ClientRequest \<longrightarrow> entries m \<noteq> None)"

definition msg_ok :: "string set \<Rightarrow> 'v dict \<Rightarrow> bool" where
  "msg_ok ids d \<longleftrightarrow> (\<exists>m. d = jsonify m \<and> class_ok m \<and> fields_ok ids m)"

definition base_ok :: "'v raft_node \<Rightarrow> bool" where
  "base_ok n \<longleftrightarrow> my_id n \<in> set (all_ids n) \<and> log n \<noteq> [] \<and> 0 \<le> commit_index n \<and> 0 \<le> last_applied_index n \<and>
     length (next_index n) = length (all_ids n) \<and> length (match_index n) = length (all_ids n) \<and>
     length (heard_from n) = length (all_ids n) \<and>
     (\<forall>d \<in> set (talker n) \<union> set (listener n). msg_ok (set (all_ids n)) d)"

text \<open>What \<open>_leader\<close> has set up.\<close>

definition leading_ok :: "'v raft_node \<Rightarrow> bool" where
  "leading_ok n \<longleftrightarrow> (\<forall>x. Some x \<in> set (next_index n) \<longrightarrow> 1 \<le> x \<and> x \<le> log_max_index n) \<and>
     (\<exists>k \<in> set (match_index n). k \<le> log_max_index n)"

lemma leadingI:
  "(\<And>x. Some x \<in> set (next_index n) \<Longrightarrow> 1 \<le> x \<and> x \<le> log_max_index n) \<Longrightarrow> k \<in> set (match_index n) \<Longrightarrow>
   k \<le> log_max_index n \<Longrightarrow> leading_ok n"
  by (auto simp: leading_ok_def)

definition node_ok :: "'v raft_node \<Rightarrow> bool" where
  "node_ok n \<longleftrightarrow> base_ok n \<and> (\<forall>h. frame n = Leading h \<longrightarrow> leading_ok n)"

text \<open>What no turn changes: who the node is, and the first entry of its log; and its term only grows.\<close>

definition keeps :: "'v raft_node \<Rightarrow> 'v raft_node \<Rightarrow> bool" where
  "keeps n n' \<longleftrightarrow> all_ids n' = all_ids n \<and> my_id n' = my_id n \<and> terminate n' = terminate n \<and>
     current_term n \<le> current_term n' \<and> hd (log n') = hd (log n)"

lemma keeps_refl [simp]: "keeps n n"
  by (simp add: keeps_def)

lemma keeps_trans: "keeps a b \<Longrightarrow> keeps b c \<Longrightarrow> keeps a c"
  by (auto simp: keeps_def)

lemma send_message_ok:
  "base_ok n \<Longrightarrow> class_ok m \<Longrightarrow> fields_ok (set (all_ids n)) m \<Longrightarrow> base_ok (send_message m n)"
  by (auto simp: base_ok_def send_message_def msg_ok_def)

lemma send_message_same [simp]:
  "all_ids (send_message m n) = all_ids n" "my_id (send_message m n) = my_id n"
  "terminate (send_message m n) = terminate n"
  "current_term (send_message m n) = current_term n" "log (send_message m n) = log n"
  "next_index (send_message m n) = next_index n" "match_index (send_message m n) = match_index n"
  "heard_from (send_message m n) = heard_from n" "commit_index (send_message m n) = commit_index n"
  "last_applied_index (send_message m n) = last_applied_index n"
  "current_role (send_message m n) = current_role n" "frame (send_message m n) = frame n"
  "listener (send_message m n) = listener n" "client_queue (send_message m n) = client_queue n"
  "log_max_index (send_message m n) = log_max_index n"
  "leading_ok (send_message m n) = leading_ok n" "keeps n0 (send_message m n) = keeps n0 n"
  by (simp_all add: send_message_def log_max_index_def leading_ok_def keeps_def)

lemmas send_defs = send_request_vote_def send_vote_def send_heartbeat_def send_append_entries_def
  send_committal_def send_acknowledge_def send_client_request_def

lemma sends_ok:
  assumes "base_ok n"
  shows "base_ok (send_request_vote ts r n)" "base_ok (send_vote ts c g n)" "base_ok (send_heartbeat ts n)"
    "0 \<le> i \<Longrightarrow> base_ok (send_append_entries ts i t e r n)" "base_ok (send_committal ts i r n)"
    "base_ok (send_acknowledge ts r b n)" "base_ok (send_client_request ts r e n)"
proof -
  have me: "my_id n \<in> set (all_ids n)" "0 \<le> last_applied_index n" using assms by (auto simp: base_ok_def)
  have v: "base_ok n' \<Longrightarrow> base_ok (n'\<lparr>voted_for := x\<rparr>)" for n' :: "'a raft_node" and x
    by (simp add: base_ok_def)
  show "base_ok (send_request_vote ts r n)" "base_ok (send_vote ts c g n)" "base_ok (send_heartbeat ts n)"
    "0 \<le> i \<Longrightarrow> base_ok (send_append_entries ts i t e r n)" "base_ok (send_committal ts i r n)"
    "base_ok (send_acknowledge ts r b n)" "base_ok (send_client_request ts r e n)"
    using me assms by (auto simp: send_defs Let_def intro!: send_message_ok v)
qed

lemma get_message_succeeds:
  assumes "base_ok n"
  shows "succeeds (get_message n) (\<lambda>(m, n'). base_ok n' \<and> (\<exists>l. n' = n\<lparr>listener := l\<rparr>) \<and>
    (\<forall>x. m = Some x \<longrightarrow> class_ok x \<and> fields_ok (set (all_ids n)) x))"
proof (cases "listener n")
  case Nil
  moreover have "\<exists>l. n = n\<lparr>listener := l\<rparr>" by (rule exI [of _ "listener n"]) simp
  ultimately show ?thesis using assms by (simp add: get_message_def)
next
  case (Cons d ds)
  then have "msg_ok (set (all_ids n)) d" using assms by (simp add: base_ok_def)
  then obtain m where m: "d = jsonify m" "class_ok m" "fields_ok (set (all_ids n)) m"
    by (auto simp: msg_ok_def)
  with Cons assms show ?thesis
    by (auto simp: get_message_def parse_jsonify base_ok_def)
qed

section \<open>Appending and committing\<close>

lemma commit_entry_same [simp]:
  "all_ids (commit_entry i t n) = all_ids n" "my_id (commit_entry i t n) = my_id n"
  "log (commit_entry i t n) = log n" "next_index (commit_entry i t n) = next_index n"
  "match_index (commit_entry i t n) = match_index n" "frame (commit_entry i t n) = frame n"
  "current_role (commit_entry i t n) = current_role n" "commit_index (commit_entry i t n) = i"
  "keeps n0 (commit_entry i t n) = keeps n0 n" "leading_ok (commit_entry i t n) = leading_ok n"
  by (simp_all add: commit_entry_def keeps_def leading_ok_def log_max_index_def)

lemma commit_entry_ok: "base_ok n \<Longrightarrow> 0 \<le> i \<Longrightarrow> base_ok (commit_entry i t n)"
  by (simp add: base_ok_def commit_entry_def)

lemma append_end:
  assumes "base_ok n"
  shows "succeeds (append_entry e False None n) (\<lambda>((i, t), n').
    n' = n\<lparr>log := log n @ [e], log_hash := (log_hash n)(e_id e \<mapsto> e)\<rparr> \<and> i = log_max_index n \<and> 0 \<le> i)"
  using assms by (simp add: append_entry_def base_ok_def py_get_last log_max_index_def Suc_leI)

lemma append_at:
  assumes "base_ok n" "0 \<le> i"
  shows "succeeds (append_entry e c (Some i) n) (\<lambda>(_, n'). base_ok n' \<and> keeps n n' \<and> frame n' = frame n \<and>
    log n' = py_prefix (log n) (i + 1) @ [e])"
  using assms py_prefix_nonempty [of "log n" i]
  by (cases c) (auto simp: append_entry_def py_get_last base_ok_def keeps_def commit_entry_def Let_def)

lemma log_append_ok: "base_ok n \<Longrightarrow> base_ok (n\<lparr>log := log n @ [e], log_hash := h\<rparr>)"
  by (simp add: base_ok_def)

section \<open>A leader's broadcasts\<close>

lemma verify_entry_succeeds:
  "0 \<le> i \<Longrightarrow> succeeds (verify_entry i t n) (\<lambda>_. True)"
  by (auto simp: verify_entry_def intro!: py_get_succeeds)

text \<open>A leader's step: it appends to its log and changes nothing of what it was elected with.\<close>

definition leads :: "'v raft_node \<Rightarrow> 'v raft_node \<Rightarrow> bool" where
  "leads n n' \<longleftrightarrow> keeps n n' \<and> (\<exists>es. log n' = log n @ es) \<and> frame n' = frame n"

lemma leads_refl [simp]: "leads n n"
  by (simp add: leads_def)

lemma leads_trans: "leads a b \<Longrightarrow> leads b c \<Longrightarrow> leads a c"
  by (auto simp: leads_def intro: keeps_trans)

lemma leads_send [simp]: "leads n0 (send_message m n) = leads n0 n"
  by (simp add: leads_def)

text \<open>
  The invariant of the loop over \<open>next_index\<close>: the log has its new last entry, and every index of
  the list lies in the log.
\<close>

lemma broadcast_to_ok:
  assumes "base_ok n \<and> leads n0 n \<and> match_index n = m \<and> (\<forall>x. Some x \<in> set (next_index n) \<longrightarrow> 1 \<le> x \<and> x \<le> log_max_index n) \<and>
      1 \<le> log_max_index n \<and> length (next_index n) = k"
    and "0 \<le> node" "node < int k" "0 \<le> i"
  shows "succeeds (broadcast_to ts i t e (node, x) n)
    (\<lambda>n. base_ok n \<and> leads n0 n \<and> match_index n = m \<and> (\<forall>x. Some x \<in> set (next_index n) \<longrightarrow> 1 \<le> x \<and> x \<le> log_max_index n) \<and>
      1 \<le> log_max_index n \<and> length (next_index n) = k)"
proof (cases "x = None")
  case True
  have len: "length (next_index n) = length (all_ids n)" using assms(1) by (simp add: base_ok_def)
  define n1 where "n1 = send_append_entries ts i t e (Some (all_ids n ! nat node)) n"
  have n1: "base_ok n1" "leads n0 n1" "next_index n1 = next_index n" "match_index n1 = m"
      "log_max_index n1 = log_max_index n"
    using assms sends_ok(4) [of n i ts t e] by (auto simp: n1_def send_append_entries_def)
  define n2 where "n2 = n1\<lparr>next_index := (next_index n)[nat node := Some (log_max_index n)]\<rparr>"
  have "base_ok n2" using n1 len by (simp add: n2_def base_ok_def)
  moreover have "leads n0 n2" using n1 by (simp add: n2_def leads_def keeps_def)
  moreover have "match_index n2 = m" "log_max_index n2 = log_max_index n" "length (next_index n2) = k"
    using n1 assms(1) by (simp_all add: n2_def log_max_index_def)
  moreover have "1 \<le> y \<and> y \<le> log_max_index n2" if y: "Some y \<in> set (next_index n2)" for y
  proof -
    from y have "Some y = Some (log_max_index n) \<or> Some y \<in> set (next_index n)"
      using set_update_subset_insert by (fastforce simp: n2_def)
    then show ?thesis using assms(1) \<open>log_max_index n2 = log_max_index n\<close> by auto
  qed
  moreover have "1 \<le> log_max_index n2" using assms(1) \<open>log_max_index n2 = log_max_index n\<close> by simp
  moreover have "succeeds (broadcast_to ts i t e (node, x) n) (\<lambda>n'. n' = n2)"
    using True assms len n1
    by (simp add: broadcast_to_def n2_def n1_def [symmetric] Let_def py_get_succeeds py_set_def py_index_def py_get_def)
  ultimately show ?thesis by (auto elim!: succeeds_mono)
next
  case False
  then obtain y where "x = Some y" by auto
  with assms show ?thesis by (simp add: broadcast_to_def)
qed

lemma broadcast_append_ok:
  assumes "base_ok n" and "\<And>x. Some x \<in> set (next_index n) \<Longrightarrow> 1 \<le> x \<and> x \<le> log_max_index n"
  shows "succeeds (broadcast_append_entries ts e n) (\<lambda>n'. base_ok n' \<and> leads n n' \<and> leading_ok n')"
proof -
  define n1 where "n1 = n\<lparr>log := log n @ [e], log_hash := (log_hash n)(e_id e \<mapsto> e)\<rparr>"
  let ?k = "length (next_index n)"
  let ?I = "\<lambda>n'. base_ok n' \<and> leads n n' \<and> match_index n' = match_index n \<and>
    (\<forall>x. Some x \<in> set (next_index n') \<longrightarrow> 1 \<le> x \<and> x \<le> log_max_index n') \<and>
    1 \<le> log_max_index n' \<and> length (next_index n') = ?k"
  have ne: "log n \<noteq> []" using assms(1) by (simp add: base_ok_def)
  have I: "?I n1"
    using assms log_append_ok [OF assms(1)] ne
    by (force simp: n1_def leads_def keeps_def log_max_index_def Suc_leI)
  have ids: "my_id n' \<in> set (all_ids n')" "length (next_index n') = length (all_ids n')"
      "length (match_index n') = length (all_ids n')" if "base_ok n'" for n' :: "'a raft_node"
    using that by (simp_all add: base_ok_def)
  have last: "succeeds (get_node_index (my_id n') n') (\<lambda>i. succeeds (py_set (next_index n') i None) (\<lambda>l.
      succeeds (py_set (match_index n') i (log_max_index n')) (\<lambda>m.
      base_ok (n'\<lparr>next_index := l, match_index := m\<rparr>) \<and> leads n (n'\<lparr>next_index := l, match_index := m\<rparr>) \<and>
      leading_ok (n'\<lparr>next_index := l, match_index := m\<rparr>))))" if n': "?I n'" for n'
    unfolding get_node_index_def
  proof (rule succeeds_mono [OF list_index_succeeds])
    show "my_id n' \<in> set (all_ids n')" using n' ids by simp
    fix i assume i: "0 \<le> i \<and> i < int (length (all_ids n')) \<and> all_ids n' ! nat i = my_id n'"
    let ?n = "n'\<lparr>next_index := (next_index n')[nat i := None], match_index := (match_index n')[nat i := log_max_index n']\<rparr>"
    have "base_ok ?n" "leads n ?n" using n' by (auto simp: base_ok_def leads_def keeps_def)
    moreover have "log_max_index n' \<in> set ((match_index n')[nat i := log_max_index n'])"
      using i ids [of n'] n' by (intro set_update_memI) auto
    then have "leading_ok ?n"
      using n' by (intro leadingI [where k = "log_max_index n'"])
        (auto simp: log_max_index_def dest!: subsetD [OF set_update_subset_insert])
    ultimately show "succeeds (py_set (next_index n') i None) (\<lambda>l.
      succeeds (py_set (match_index n') i (log_max_index n')) (\<lambda>m.
      base_ok (n'\<lparr>next_index := l, match_index := m\<rparr>) \<and> leads n (n'\<lparr>next_index := l, match_index := m\<rparr>) \<and>
      leading_ok (n'\<lparr>next_index := l, match_index := m\<rparr>)))"
      using i ids [of n'] n' by (intro py_set_succeeds) auto
  qed
  have loop: "succeeds (foldE (broadcast_to ts i t e) (py_enumerate (next_index n1)) n1) ?I" if "0 \<le> i" for i t
  proof (rule succeeds_foldE)
    show "?I n1" by (rule I)
    fix x and s :: "'a raft_node"
    assume x: "x \<in> set (py_enumerate (next_index n1))" and s: "?I s"
    obtain node y where "x = (node, y)" by (cases x)
    moreover have "0 \<le> node" "node < int ?k"
      using py_enumerate_in [of node y "next_index n1"] x I \<open>x = (node, y)\<close> by auto
    ultimately show "succeeds (broadcast_to ts i t e x s) ?I" using broadcast_to_ok [OF s _ _ that] by simp
  qed
  show ?thesis
    unfolding broadcast_append_entries_def succeeds_simps
    by (rule succeeds_mono [OF append_end [OF assms(1)]])
      (auto simp: n1_def [symmetric] intro!: succeeds_mono [OF loop] last)
qed

section \<open>What is committable\<close>

lemma committable_snoc:
  "committable nodes l (xs @ [x]) b =
   (if replicated_on x l \<ge> nodes div 2 + 1 then x else committable nodes l xs b)"
  by (induction xs arbitrary: b) simp_all

lemma replicated_on_least:
  "\<forall>i \<in> set l. x \<le> i \<Longrightarrow> replicated_on x l = int (length l)"
  by (induction l) (simp_all add: replicated_on_def)

text \<open>
  The loop over the lengths, sorted downwards, does not stop at the first one that a majority
  has: it goes on to the least one, which all nodes have.
\<close>

lemma max_committable_Min:
  assumes "length (match_index n) = length (all_ids n)" "all_ids n \<noteq> []"
  shows "max_committable_index n = Min (set (match_index n))"
proof -
  have ne: "match_index n \<noteq> []" using assms by auto
  let ?s = "sort (match_index n)"
  have s: "?s = hd ?s # tl ?s" using ne by (metis list.exhaust_sel set_empty set_sort)
  have m: "hd ?s = Min (set (match_index n))"
  proof (rule Min_eqI [symmetric])
    fix y assume "y \<in> set (match_index n)"
    then have "y \<in> set ?s" by simp
    then show "hd ?s \<le> y" using sorted_sort [of "match_index n"] by (metis s set_ConsD sorted_simps(2) order_refl)
  next
    show "hd ?s \<in> set (match_index n)" by (metis s list.set_intros(1) set_sort)
  qed simp
  have l: "log_lengths n = rev (tl ?s) @ [hd ?s]" by (metis log_lengths_def rev.simps(2) s)
  have "\<forall>i \<in> set (log_lengths n). hd ?s \<le> i" unfolding m by (simp add: log_lengths_def)
  then have "replicated_on (hd ?s) (log_lengths n) = current_num_nodes n"
    by (simp add: replicated_on_least assms current_num_nodes_def, simp add: log_lengths_def assms)
  moreover have "current_num_nodes n div 2 + 1 \<le> current_num_nodes n"
  proof -
    have "0 < current_num_nodes n" using assms by (simp add: current_num_nodes_def)
    then show ?thesis by linarith
  qed
  ultimately show ?thesis
    unfolding max_committable_index_def by (subst (2) l) (simp add: committable_snoc m)
qed

lemma broadcast_commit_ok:
  assumes "base_ok n" "0 \<le> i" "i \<le> log_max_index n"
  shows "succeeds (broadcast_commmit_entries ts i n) (\<lambda>n'. base_ok n' \<and> leads n n' \<and> leading_ok n' = leading_ok n)"
proof -
  define n1 where "n1 = commit_entry i (e_term (log n ! nat i)) n"
  let ?I = "\<lambda>n'. base_ok n' \<and> leads n n' \<and> leading_ok n' = leading_ok n"
  have I: "?I n1" using assms by (auto simp: n1_def commit_entry_ok leads_def)
  have "succeeds (foldE (commit_to ts) (py_enumerate (match_index n1)) n1) ?I"
  proof (rule succeeds_foldE)
    fix x and s :: "'a raft_node"
    assume x: "x \<in> set (py_enumerate (match_index n1))" and s: "?I s"
    obtain node k where xk: "x = (node, k)" by (cases x)
    have "0 \<le> node" "node < int (length (all_ids s))"
      using py_enumerate_in [of node k "match_index n1"] x xk I s
      by (auto simp: base_ok_def leads_def keeps_def)
    moreover have "?I (send_committal ts k r s)" for r
      using s sends_ok(5) [of s] by (simp add: send_committal_def)
    ultimately show "succeeds (commit_to ts x s) ?I"
      by (simp add: xk commit_to_def py_get_succeeds)
  qed (rule I)
  with assms show ?thesis
    by (simp add: broadcast_commmit_entries_def Let_def n1_def py_get_succeeds log_max_index_def)
qed

section \<open>A leader's turn\<close>

definition lead_ok :: "'v raft_node \<Rightarrow> 'v raft_node \<Rightarrow> bool" where
  "lead_ok n n' \<longleftrightarrow> base_ok n' \<and> leading_ok n' \<and> leads n n'"

lemma lead_ok_trans: "lead_ok a b \<Longrightarrow> lead_ok b c \<Longrightarrow> lead_ok a c"
  by (auto simp: lead_ok_def intro: leads_trans)

lemma catch_up_ok:
  assumes "base_ok n" "leading_ok n" "0 \<le> i" "i < int (length (all_ids n))" "1 \<le> next" "next \<le> log_max_index n + 1"
  shows "succeeds (catch_up t0 s i next n) (lead_ok n)"
proof -
  have len: "length (next_index n) = length (all_ids n)" using assms by (simp add: base_ok_def)
  define n1 where "n1 = n\<lparr>next_index := (next_index n)[nat i := if next > log_max_index n then None else Some next]\<rparr>"
  have n1: "lead_ok n n1"
    using assms by (auto simp: lead_ok_def n1_def base_ok_def leading_ok_def leads_def keeps_def log_max_index_def
      dest!: subsetD [OF set_update_subset_insert])
  have "lead_ok n (send_append_entries t0 (next - 1) (e_term (log n ! nat (next - 1))) (log n ! nat next) (Some s) n1)"
    using n1 sends_ok(4) [of n1 "next - 1"] assms(5) by (simp add: lead_ok_def send_append_entries_def)
  with n1 assms len show ?thesis
    by (auto simp: catch_up_def n1_def Let_def log_max_index_def intro!: py_set_succeeds py_get_succeeds)
qed

lemma ack_commit_ok:
  assumes "lead_ok n n'"
  shows "succeeds (commit_committable t0 n') (lead_ok n)"
proof -
  have ok: "base_ok n'" "leading_ok n'" using assms by (simp_all add: lead_ok_def)
  then have l: "length (match_index n') = length (all_ids n')" "all_ids n' \<noteq> []" "0 \<le> commit_index n'"
    by (auto simp: base_ok_def)
  from ok obtain k where "k \<in> set (match_index n')" "k \<le> log_max_index n'" by (auto simp: leading_ok_def)
  then have "max_committable_index n' \<le> log_max_index n'"
    using max_committable_Min [OF l(1,2)] by (metis List.finite_set Min_le order_trans)
  with ok l(3) assms show ?thesis
    by (auto intro!: succeeds_mono [OF broadcast_commit_ok] simp: commit_committable_def lead_ok_def
        intro: leads_trans)
qed

lemma ack_progress_ok:
  assumes "base_ok n" "leading_ok n" "0 \<le> i" "i < int (length (all_ids n))" "1 \<le> next" "next \<le> log_max_index n"
  shows "succeeds (ack_progress t0 m i next n) (lead_ok n)"
proof -
  have len: "length (match_index n) = length (all_ids n)" using assms by (simp add: base_ok_def)
  have rest: "succeeds (catch_up t0 s i next' n1) (\<lambda>n'. succeeds (commit_committable t0 n') (lead_ok n))"
    if "lead_ok n n1" "1 \<le> next'" "next' \<le> log_max_index n + 1" "log n1 = log n" for n1 next' s
  proof (rule succeeds_mono [OF catch_up_ok])
    show "base_ok n1" "leading_ok n1" using that by (simp_all add: lead_ok_def)
    show "i < int (length (all_ids n1))" using that assms by (simp add: lead_ok_def leads_def keeps_def)
    show "next' \<le> log_max_index n1 + 1" using that by (simp add: log_max_index_def)
    fix n' assume "lead_ok n1 n'"
    with that(1) show "succeeds (commit_committable t0 n') (lead_ok n)"
      by (intro ack_commit_ok) (rule lead_ok_trans)
  qed (use that assms in simp_all)
  define n1 where "n1 = n\<lparr>match_index := (match_index n)[nat i := next]\<rparr>"
  have "next \<in> set (match_index n1)"
    using assms(3,4) len by (simp add: n1_def set_update_memI nat_less_iff)
  then have "lead_ok n n1"
    using assms by (auto simp: lead_ok_def leads_def keeps_def n1_def base_ok_def log_max_index_def
      leading_ok_def intro!: leadingI [where k = "next"])
  moreover have "lead_ok n n" using assms by (simp add: lead_ok_def)
  ultimately show ?thesis
    using assms len by (auto simp: ack_progress_def n1_def intro!: py_set_succeeds rest)
qed

lemma leader_ack_ok:
  assumes "base_ok n" "leading_ok n" "m_sender m \<in> set (all_ids n)"
  shows "succeeds (leader_ack t0 m n) (lead_ok n)"
  unfolding leader_ack_def get_node_index_def succeeds_simps
proof (rule succeeds_mono [OF list_index_succeeds [OF assms(3)]])
  fix i assume i: "0 \<le> i \<and> i < int (length (all_ids n)) \<and> all_ids n ! nat i = m_sender m"
  define n1 where "n1 = n\<lparr>heard_from := (heard_from n)[nat i := t0]\<rparr>"
  have len: "length (next_index n) = length (all_ids n)" "length (heard_from n) = length (all_ids n)"
    using assms by (auto simp: base_ok_def)
  have ok: "lead_ok n n1"
    using assms by (auto simp: lead_ok_def n1_def base_ok_def leading_ok_def leads_def keeps_def log_max_index_def)
  have "succeeds (case next_index n1 ! nat i of None \<Rightarrow> Inr n1 | Some next \<Rightarrow> ack_progress t0 m i next n1) (lead_ok n)"
  proof (cases "next_index n1 ! nat i")
    case (Some x)
    then have "Some x \<in> set (next_index n)" using i len nth_mem [of "nat i" "next_index n"]
      by (simp add: n1_def nat_less_iff)
    then have "1 \<le> x" "x \<le> log_max_index n" using assms(2) by (auto simp: leading_ok_def)
    with ok i have "succeeds (ack_progress t0 m i x n1) (lead_ok n1)"
      by (intro ack_progress_ok) (auto simp: lead_ok_def leads_def keeps_def n1_def log_max_index_def)
    with Some ok show ?thesis by (auto elim!: succeeds_mono intro: lead_ok_trans)
  qed (simp add: ok)
  from this [unfolded n1_def] i len show "succeeds (py_set (heard_from n) i t0) (\<lambda>x. succeeds (let n = n\<lparr>heard_from := x\<rparr> in
      bindE (py_get (next_index n) i) (\<lambda>next. case next of None \<Rightarrow> Inr n | Some next \<Rightarrow> ack_progress t0 m i next n)) (lead_ok n))"
    by (intro py_set_succeeds) (auto simp: Let_def intro!: py_get_succeeds)
qed

lemma resend_ok:
  assumes "base_ok n" "leading_ok n"
  shows "succeeds (foldE (resend_to t0) (py_enumerate (next_index n)) n) (\<lambda>n'. lead_ok n n' \<and> log n' = log n)"
proof -
  let ?I = "\<lambda>n'. lead_ok n n' \<and> next_index n' = next_index n \<and> log n' = log n"
  have "succeeds (foldE (resend_to t0) (py_enumerate (next_index n)) n) ?I"
  proof (rule succeeds_foldE)
    show "?I n" using assms by (simp add: lead_ok_def)
    fix a and s :: "'a raft_node"
    assume a: "a \<in> set (py_enumerate (next_index n))" and s: "?I s"
    obtain node x where ax: "a = (node, x)" by (cases a)
    have ok: "base_ok s" "leading_ok s" using s by (simp_all add: lead_ok_def)
    have len: "length (next_index s) = length (all_ids s)" "length (heard_from s) = length (all_ids s)"
      using ok by (simp_all add: base_ok_def)
    have node: "0 \<le> node" "node < int (length (all_ids s))" "next_index n ! nat node = x"
      using py_enumerate_in [of node x "next_index n"] a ax len s by auto
    show "succeeds (resend_to t0 a s) ?I"
    proof (cases x)
      case (Some index)
      then have "Some index \<in> set (next_index n)"
        using node len s nth_mem [of "nat node" "next_index n"] by (auto simp: nat_less_iff)
      then have index: "1 \<le> index" "index \<le> log_max_index s"
        using assms(2) s by (auto simp: leading_ok_def log_max_index_def)
      define n1 where "n1 = send_append_entries t0 (index - 1) (e_term (log s ! nat (index - 1))) (log s ! nat index)
        (Some (all_ids s ! nat node)) s"
      have n1: "?I n1" using s index sends_ok(4) [OF ok(1), of "index - 1"]
        by (simp add: n1_def lead_ok_def send_append_entries_def)
      have n2: "?I (n1\<lparr>heard_from := (heard_from n1)[nat node := t0]\<rparr>)"
        using n1 by (auto simp: lead_ok_def base_ok_def leading_ok_def leads_def keeps_def log_max_index_def)
      have h: "heard_from n1 = heard_from s" by (simp add: n1_def send_append_entries_def)
      from node len index s n2 [unfolded n1_def] h [unfolded n1_def] show ?thesis
        by (auto simp: ax Some resend_to_def log_max_index_def Let_def intro!: py_get_succeeds py_set_succeeds
            simp del: send_message_same)
    qed (use s ax in \<open>simp add: resend_to_def\<close>)
  qed
  then show ?thesis by (rule succeeds_mono) simp
qed

lemma broadcast_lead_ok:
  assumes "base_ok n" "leading_ok n"
  shows "succeeds (broadcast_append_entries ts e n) (lead_ok n)"
  using assms by (intro succeeds_mono [OF broadcast_append_ok]) (auto simp: lead_ok_def leading_ok_def)

text \<open>A step of a node, whatever loop it is in.\<close>

definition step_ok :: "'v raft_node \<Rightarrow> 'v raft_node \<Rightarrow> bool" where
  "step_ok n n' \<longleftrightarrow> base_ok n' \<and> keeps n n'"

lemma increment_term_ok:
  "base_ok n \<Longrightarrow> t = None \<or> current_term n \<le> the t \<Longrightarrow> step_ok n (increment_term t n)"
  by (cases t) (auto simp: step_ok_def base_ok_def keeps_def increment_term_def Let_def)

lemma step_ok_trans: "step_ok a b \<Longrightarrow> step_ok b c \<Longrightarrow> step_ok a c"
  by (auto simp: step_ok_def intro: keeps_trans)

lemma send_step_ok:
  assumes "base_ok n"
  shows "step_ok n (send_request_vote ts r n)" "step_ok n (send_vote ts c g n)" "step_ok n (send_heartbeat ts n)"
    "step_ok n (send_acknowledge ts r b n)" "step_ok n (send_client_request ts r e n)"
  using sends_ok [OF assms] by (simp_all add: step_ok_def) (simp_all add: send_defs keeps_def Let_def)

lemma set_fields_ok [simp]:
  "step_ok n (n'\<lparr>frame := f\<rparr>) = step_ok n n'" "step_ok n (n'\<lparr>leader_id := l\<rparr>) = step_ok n n'"
  "step_ok n (set_current_role r n') = step_ok n n'" "step_ok n (n'\<lparr>client_queue := q\<rparr>) = step_ok n n'"
  "base_ok (n'\<lparr>frame := f\<rparr>) = base_ok n'" "base_ok (n'\<lparr>leader_id := l\<rparr>) = base_ok n'"
  "base_ok (set_current_role r n') = base_ok n'" "base_ok (n'\<lparr>client_queue := q\<rparr>) = base_ok n'"
  by (simp_all add: step_ok_def base_ok_def keeps_def set_current_role_def)

text \<open>Following a term at least as high.\<close>

lemma follow_term_ok:
  "base_ok n \<Longrightarrow> current_term n \<le> t \<Longrightarrow>
   step_ok n (set_current_role r (send_vote ts c g (increment_term (Some t) n)))"
  by (metis increment_term_ok option.sel send_step_ok(2) set_fields_ok(3) step_ok_def step_ok_trans)

lemma lead_ok_step: "lead_ok n n' \<Longrightarrow> step_ok n n' \<and> leading_ok n' \<and> frame n' = frame n \<and> (\<exists>es. log n' = log n @ es)"
  by (auto simp: lead_ok_def step_ok_def leads_def)

lemma leader_message_ok:
  assumes "base_ok n" "leading_ok n" "fields_ok (set (all_ids n)) m"
  shows "succeeds (leader_message t0 m n) (\<lambda>(returns, n'). step_ok n n' \<and> (\<exists>es. log n' = log n @ es) \<and>
    (\<not> returns \<longrightarrow> lead_ok n n'))"
proof (cases m)
  case (RV r)
  then show ?thesis
    using assms follow_term_ok [of n "m_term r"]
    by (auto simp: leader_message_def step_ok_def lead_ok_def,
      auto simp: increment_term_def send_vote_def set_current_role_def Let_def)
next
  case (AE r)
  have n: "step_ok n n \<and> lead_ok n n" using assms by (simp add: lead_ok_def step_ok_def)
  have full: "succeeds p (\<lambda>n'. step_ok n n' \<and> (\<exists>es. log n' = log n @ es) \<and> lead_ok n n')"
    if "succeeds p (lead_ok n)" for p :: "'a raft_node py"
    using that by (rule succeeds_mono) (simp add: lead_ok_step)
  from n AE show ?thesis
    using full [OF leader_ack_ok [OF assms(1,2), of r t0]] full [OF broadcast_lead_ok [OF assms(1,2)]] assms(3)
    by (auto simp: leader_message_def needed_def split: option.splits)
qed

text \<open>The rest of a turn of a leader: one message, and one pending client request.\<close>

lemma lead_ok_fields:
  "lead_ok n n' \<Longrightarrow> lead_ok n (n'\<lparr>listener := l\<rparr>) = base_ok (n'\<lparr>listener := l\<rparr>)"
  "lead_ok n n' \<Longrightarrow> lead_ok n (n'\<lparr>client_queue := q\<rparr>)"
  by (auto simp: lead_ok_def leads_def keeps_def leading_ok_def log_max_index_def base_ok_def)

lemma leader_receive_ok:
  assumes "lead_ok n n'"
  shows "succeeds (leader_receive t0 n') (\<lambda>(returns, n'). step_ok n n' \<and> (\<exists>es. log n' = log n @ es) \<and>
    (\<not> returns \<longrightarrow> lead_ok n n'))"
  unfolding leader_receive_def succeeds_simps
proof (rule succeeds_mono [OF get_message_succeeds])
  show "base_ok n'" using assms by (simp add: lead_ok_def)
  fix a :: "'a message option \<times> 'a raft_node"
  assume "case a of (m, n2) \<Rightarrow> base_ok n2 \<and> (\<exists>l. n2 = n'\<lparr>listener := l\<rparr>) \<and>
    (\<forall>x. m = Some x \<longrightarrow> class_ok x \<and> fields_ok (set (all_ids n')) x)"
  then obtain m n2 l where a: "a = (m, n2)" "base_ok n2" "n2 = n'\<lparr>listener := l\<rparr>"
    "\<And>x. m = Some x \<Longrightarrow> fields_ok (set (all_ids n')) x" by auto
  have n2: "lead_ok n n2" using lead_ok_fields(1) [OF assms, of l] a(2,3) by simp
  have "succeeds (case m of None \<Rightarrow> Inr (False, n2) | Some m \<Rightarrow> leader_message t0 m n2)
    (\<lambda>(returns, n'). step_ok n n' \<and> (\<exists>es. log n' = log n @ es) \<and> (\<not> returns \<longrightarrow> lead_ok n n'))"
  proof (cases m)
    case None
    with lead_ok_step [OF n2] n2 show ?thesis by simp
  next
    case (Some x)
    have x: "fields_ok (set (all_ids n2)) x" using a Some by auto
    have "succeeds (leader_message t0 x n2) (\<lambda>(returns, n'). step_ok n n' \<and> (\<exists>es. log n' = log n @ es) \<and>
      (\<not> returns \<longrightarrow> lead_ok n n'))"
    proof (rule succeeds_mono [OF leader_message_ok [OF a(2) _ x]])
      show "leading_ok n2" using n2 by (simp add: lead_ok_def)
    qed (use lead_ok_step [OF n2] lead_ok_trans [OF n2] in \<open>auto intro: step_ok_trans\<close>)
    with Some show ?thesis by simp
  qed
  with a(1) show "succeeds (case a of (m, n) \<Rightarrow>
      case m of None \<Rightarrow> Inr (False, n) | Some m \<Rightarrow> leader_message t0 m n)
    (\<lambda>(returns, n'). step_ok n n' \<and> (\<exists>es. log n' = log n @ es) \<and> (\<not> returns \<longrightarrow> lead_ok n n'))" by simp
qed

lemma leader_request_ok:
  assumes "lead_ok n n'"
  shows "succeeds (leader_request t0 n') (lead_ok n)"
proof (cases "client_queue n'")
  case (Cons e es)
  have n1: "lead_ok n (n'\<lparr>client_queue := es\<rparr>)" by (rule lead_ok_fields(2) [OF assms])
  then have "succeeds (broadcast_append_entries t0 e (n'\<lparr>client_queue := es\<rparr>)) (lead_ok (n'\<lparr>client_queue := es\<rparr>))"
    by (intro broadcast_lead_ok) (simp_all add: lead_ok_def)
  then have "succeeds (broadcast_append_entries t0 e (n'\<lparr>client_queue := es\<rparr>)) (lead_ok n)"
    by (rule succeeds_mono) (rule lead_ok_trans [OF n1])
  with Cons show ?thesis by (simp add: leader_request_def get_client_request_def)
qed (use assms in \<open>simp add: leader_request_def get_client_request_def\<close>)

lemma leading_frame [simp]: "leading_ok (n\<lparr>frame := f\<rparr>) = leading_ok n"
  by (simp add: leading_ok_def log_max_index_def)

lemma leader_turn_ok:
  assumes "base_ok n" "leading_ok n"
  shows "succeeds (leader_turn t0 h n) (\<lambda>n'. step_ok n n' \<and> ((\<exists>h. frame n' = Leading h) \<longrightarrow> leading_ok n') \<and>
    (\<exists>es. log n' = log n @ es))"
proof -
  let ?Q = "\<lambda>n'. step_ok n n' \<and> ((\<exists>h. frame n' = Leading h) \<longrightarrow> leading_ok n') \<and> (\<exists>es. log n' = log n @ es)"
  have request: "succeeds (leader_request t0 n') (\<lambda>n'. ?Q (n'\<lparr>frame := Leading h\<rparr>))" if "lead_ok n n'" for n' h
    using that by (intro succeeds_mono [OF leader_request_ok]) (auto dest: lead_ok_step)
  have receive: "succeeds (leader_receive t0 n') (\<lambda>(returns, n). succeeds
      (if returns then Inr (n\<lparr>frame := Run\<rparr>)
       else bindE (leader_request t0 n) (\<lambda>n. Inr (n\<lparr>frame := Leading h\<rparr>))) ?Q)" if "lead_ok n n'" for n' h
    using that request by (intro succeeds_mono [OF leader_receive_ok]) auto
  have n0: "lead_ok n (send_heartbeat t0 n)" "lead_ok n n" using assms sends_ok(3) [of n t0]
    by (auto simp: lead_ok_def send_heartbeat_def)
  have "succeeds (foldE (resend_to t0) (py_enumerate (next_index n0)) n0) (lead_ok n)" if "lead_ok n n0" for n0
    using that by (intro succeeds_mono [OF resend_ok]) (auto simp: lead_ok_def intro: leads_trans)
  from succeeds_mono [OF this receive] n0 show ?thesis
    by (simp add: leader_turn_def case_prod_unfold)
qed

section \<open>The other loops\<close>

lemma leader_start_ok:
  assumes "base_ok n"
  shows "succeeds (leader_start t0 v n) (\<lambda>n'. step_ok n n' \<and> leading_ok n' \<and> (\<exists>es. log n' = log n @ es))"
proof -
  define n1 where "n1 = (send_heartbeat t0 n)\<lparr>leader_id := Some (my_id n),
    match_index := map (\<lambda>_. commit_index n) (all_ids n), next_index := map (\<lambda>_. None) (all_ids n),
    heard_from := map (\<lambda>_. t0) (all_ids n)\<rparr>"
  have n1: "base_ok n1" "keeps n n1" "log n1 = log n"
    using send_step_ok(3) [OF assms, of t0]
    by (auto simp: n1_def step_ok_def base_ok_def keeps_def send_heartbeat_def)
  have "succeeds (broadcast_append_entries t0 e n1) (\<lambda>n'. base_ok n' \<and> leads n1 n' \<and> leading_ok n')" for e
    by (rule broadcast_append_ok [OF n1(1)]) (auto simp: n1_def)
  then have b: "succeeds (broadcast_append_entries t0 e n1)
      (\<lambda>n'. step_ok n n' \<and> leading_ok n' \<and> (\<exists>es. log n' = log n @ es))" for e
    by (rule succeeds_mono) (use n1 in \<open>auto simp: step_ok_def leads_def intro: keeps_trans\<close>)
  have "leader_start t0 v n = bindE (broadcast_append_entries t0 (Entry (current_term n) v (-1)) n1)
      (\<lambda>n. Inr (n\<lparr>frame := Leading t0\<rparr>))"
    by (simp add: leader_start_def n1_def Let_def send_heartbeat_def)
  with b show ?thesis by simp
qed

lemma candidate_start_ok:
  assumes "base_ok n"
  shows "step_ok n (candidate_start t0 n)"
proof -
  have "step_ok n (increment_term None n)" by (rule increment_term_ok [OF assms]) simp
  then have "step_ok n (send_request_vote t0 None (increment_term None n))"
    by (meson send_step_ok(1) step_ok_def step_ok_trans)
  then have "step_ok n (send_vote t0 c True (send_request_vote t0 None (increment_term None n)))" for c
    by (meson send_step_ok(2) step_ok_def step_ok_trans)
  then show ?thesis by (simp add: candidate_start_def Let_def)
qed

lemma candidate_message_ok:
  assumes "base_ok n"
  shows "step_ok n (snd (candidate_message t0 m votes n))"
proof -
  have n: "step_ok n n" using assms by (simp add: step_ok_def)
  have "step_ok n ((increment_term (Some t) n)\<lparr>leader_id := l\<rparr>)" if "current_term n \<le> t" for t l
    using increment_term_ok [OF assms, of "Some t"] that by simp
  then show ?thesis
    using follow_term_ok [OF assms] n
    by (cases m) (simp_all add: candidate_message_def Let_def)
qed

lemma candidate_turn_ok:
  assumes "base_ok n"
  shows "succeeds (candidate_turn t0 t1 votes started n) (\<lambda>n'. step_ok n n' \<and> (\<forall>h. frame n' \<noteq> Leading h))"
  unfolding candidate_turn_def succeeds_simps
proof (rule succeeds_mono [OF get_message_succeeds [OF assms]])
  fix a :: "'a message option \<times> 'a raft_node"
  assume a: "case a of (m, n') \<Rightarrow> base_ok n' \<and> (\<exists>l. n' = n\<lparr>listener := l\<rparr>) \<and>
    (\<forall>x. m = Some x \<longrightarrow> class_ok x \<and> fields_ok (set (all_ids n)) x)"
  obtain m n1 where m: "a = (m, n1)" by (cases a)
  have n1: "base_ok n1" "step_ok n n1" using a m by (auto simp: step_ok_def keeps_def)
  define b where "b = (case m of None \<Rightarrow> (Some votes, n1) | Some m \<Rightarrow> candidate_message t0 m votes n1)"
  have "step_ok n (snd b)"
    using n1 step_ok_trans [OF n1(2)] candidate_message_ok [OF n1(1)] by (auto simp: b_def split: option.splits)
  moreover obtain v n2 where "b = (v, n2)" by (cases b)
  ultimately show "succeeds (case a of (m, n) \<Rightarrow>
      case (case m of None \<Rightarrow> (Some votes, n) | Some m \<Rightarrow> candidate_message t0 m votes n) of
        (None, n) \<Rightarrow> Inr (n\<lparr>frame := Run\<rparr>)
      | (Some (votes_for_me, total_votes), n) \<Rightarrow>
          if t1 - started > election_timeout n then Inr (set_current_role Candidate (n\<lparr>frame := Run\<rparr>))
          else Inr (n\<lparr>frame := Campaigning votes_for_me total_votes started\<rparr>))
      (\<lambda>n'. step_ok n n' \<and> (\<forall>h. frame n' \<noteq> Leading h))"
    using m b_def by (cases v) (auto simp: set_current_role_def step_ok_def base_ok_def keeps_def split: prod.splits)
qed

lemma follower_vote_ok:
  assumes "base_ok n"
  shows "step_ok n (follower_vote t0 m n)"
proof -
  define n1 where "n1 = (if m_term m > current_term n then increment_term (Some (m_term m)) n else n)"
  have "step_ok n n1" using increment_term_ok [OF assms, of "Some (m_term m)"] assms
    by (auto simp: n1_def step_ok_def)
  then show ?thesis
    using send_step_ok(2) [of n1] step_ok_trans
    unfolding follower_vote_def Let_def n1_def [symmetric] by (auto simp: step_ok_def intro: keeps_trans)
qed

lemma follower_heartbeat_ok:
  assumes "base_ok n"
  shows "step_ok n (follower_heartbeat t0 m n)"
proof -
  define n1 where "n1 = (if m_term m > current_term n then increment_term (Some (m_term m)) n else n)\<lparr>leader_id := m_leader_id m\<rparr>"
  have n1: "step_ok n n1" using increment_term_ok [OF assms, of "Some (m_term m)"] assms
    by (auto simp: n1_def step_ok_def keeps_def)
  then have "step_ok n (send_client_request t0 r e (n1\<lparr>client_queue := q\<rparr>))" for r e q
    using send_step_ok(5) [of "n1\<lparr>client_queue := q\<rparr>"]
    by (metis set_fields_ok(4,8) step_ok_def step_ok_trans)
  with n1 show ?thesis
    unfolding follower_heartbeat_def Let_def n1_def [symmetric]
    by (auto simp: get_client_request_def split: list.splits)
qed

lemma follower_append_ok:
  assumes "base_ok n" "fields_ok (set (all_ids n)) (AE m)" "m_type m = AppendEntries"
  shows "succeeds (follower_append t0 m n) (\<lambda>n'. step_ok n n' \<and> frame n' = frame n)"
proof -
  obtain i t e where f: "0 \<le> i" "prev_log_index m = Some i" "prev_log_term m = Some t" "entries m = Some e"
    using assms(2,3) by auto
  have ack: "step_ok n (send_acknowledge t0 r b n') \<and> frame (send_acknowledge t0 r b n') = frame n"
    if "step_ok n n'" "frame n' = frame n" for r b n'
    using that send_step_ok(4) [of n'] step_ok_trans by (auto simp: step_ok_def send_acknowledge_def)
  have n: "step_ok n n" using assms(1) by (simp add: step_ok_def)
  have append: "succeeds (append_entry e c (Some i) n) (\<lambda>(_, n'). step_ok n n' \<and> frame n' = frame n)" for c
    by (rule succeeds_mono [OF append_at [OF assms(1) f(1)]]) (auto simp: step_ok_def)
  have "succeeds (verify_entry i t n) (\<lambda>v. True)" by (rule verify_entry_succeeds [OF f(1)])
  then obtain v where v: "verify_entry i t n = Inr v" by (auto simp: succeeds_Inr)
  show ?thesis
    using ack [OF n] f v
    by (auto simp: follower_append_def needed_def intro!: succeeds_mono [OF append] ack)
qed

lemma follower_message_ok:
  assumes "base_ok n" "fields_ok (set (all_ids n)) m"
  shows "succeeds (follower_message t0 m h n) (\<lambda>(_, n'). step_ok n n')"
proof (cases m)
  case (RV r)
  then show ?thesis using assms follower_vote_ok [OF assms(1)]
    by (simp add: follower_message_def step_ok_def)
next
  case (AE r)
  have n: "step_ok n n" using assms by (simp add: step_ok_def)
  show ?thesis
  proof (cases "m_direction r = Request \<and> m_type r = Committal")
    case True
    then obtain i t where "0 \<le> i" "prev_log_index r = Some i" "prev_log_term r = Some t"
      using assms(2) AE by auto
    with True AE assms(1) show ?thesis
      by (simp add: follower_message_def needed_def step_ok_def commit_entry_ok)
  next
    case False
    with AE n assms follower_heartbeat_ok [OF assms(1)] follower_append_ok [OF assms(1), of r t0] show ?thesis
      by (auto simp: follower_message_def elim!: succeeds_mono)
  qed
qed

lemma follower_turn_ok:
  assumes "base_ok n"
  shows "succeeds (follower_turn t0 t1 h n) (\<lambda>n'. step_ok n n' \<and> (\<forall>h. frame n' \<noteq> Leading h))"
  unfolding follower_turn_def succeeds_simps
proof (rule succeeds_mono [OF get_message_succeeds [OF assms]])
  fix a :: "'a message option \<times> 'a raft_node"
  assume a: "case a of (m, n') \<Rightarrow> base_ok n' \<and> (\<exists>l. n' = n\<lparr>listener := l\<rparr>) \<and>
    (\<forall>x. m = Some x \<longrightarrow> class_ok x \<and> fields_ok (set (all_ids n)) x)"
  obtain m n1 where m: "a = (m, n1)" by (cases a)
  have n1: "base_ok n1" "step_ok n n1" using a m by (auto simp: step_ok_def keeps_def)
  have fields: "fields_ok (set (all_ids n1)) x" if "m = Some x" for x using a m that by auto
  have "succeeds (case m of None \<Rightarrow> Inr (h, n1) | Some m \<Rightarrow> follower_message t0 m h n1) (\<lambda>(_, n'). step_ok n n')"
  proof (cases m)
    case (Some x)
    have "succeeds (follower_message t0 x h n1) (\<lambda>(_, n'). step_ok n n')"
      by (rule succeeds_mono [OF follower_message_ok [OF n1(1) fields [OF Some]]])
        (auto intro: step_ok_trans [OF n1(2)])
    with Some show ?thesis by simp
  qed (simp add: n1)
  note received = this
  show "succeeds (case a of (m, n) \<Rightarrow>
      bindE (case m of None \<Rightarrow> Inr (h, n) | Some m \<Rightarrow> follower_message t0 m h n) (\<lambda>(h, n).
      if t1 - h > election_timeout n then Inr (set_current_role Candidate (n\<lparr>frame := Run\<rparr>))
      else Inr (n\<lparr>frame := Following h\<rparr>))) (\<lambda>n'. step_ok n n' \<and> (\<forall>h. frame n' \<noteq> Leading h))"
    unfolding m prod.case succeeds_simps
    by (rule succeeds_mono [OF received]) (auto, simp add: set_current_role_def)
qed

lemma raft_turn_ok:
  assumes "node_ok n"
  shows "succeeds (raft_turn v t0 t1 n) (\<lambda>n'. node_ok n' \<and> keeps n n')"
proof -
  have b: "base_ok n" using assms by (simp add: node_ok_def)
  have n: "step_ok n n" using b by (simp add: step_ok_def)
  have "succeeds (raft_turn v t0 t1 n) (\<lambda>n'. step_ok n n' \<and> ((\<exists>h. frame n' = Leading h) \<longrightarrow> leading_ok n'))"
  proof (cases "frame n")
    case Run
    have "frame (candidate_start t0 n) = Campaigning 0 0 t0" by (simp add: candidate_start_def Let_def)
    with Run n show ?thesis
      using candidate_start_ok [OF b, of t0] leader_start_ok [OF b, of t0 v]
      by (cases "current_role n") (auto simp: raft_turn_def check_role_def elim!: succeeds_mono)
  next
    case (Following h)
    with n show ?thesis
      by (auto simp: raft_turn_def intro!: succeeds_mono [OF follower_turn_ok [OF b]])
  next
    case (Campaigning a c d)
    with n show ?thesis
      by (auto simp: raft_turn_def intro!: succeeds_mono [OF candidate_turn_ok [OF b]])
  next
    case (Leading h)
    with n assms show ?thesis
      by (auto simp: raft_turn_def node_ok_def intro!: succeeds_mono [OF leader_turn_ok [OF b]])
  qed
  then show ?thesis by (rule succeeds_mono) (auto simp: step_ok_def node_ok_def)
qed

end
