(* ===== verification/RaftCommit.thy ===== *)
theory RaftCommit
  imports RaftSafety
begin

text \<open>
  When a leader commits. The source says that an entry is committed when more than half of the
  nodes have acknowledged it; the loop in \<open>_leader\<close> computes the index that all of them have, so
  one node that does not answer keeps a leader from ever committing.
\<close>

section \<open>Steps that leave one node's index alone\<close>

lemma foldE_inv:
  "foldE f xs s = Inr s' \<Longrightarrow> P s \<Longrightarrow> (\<And>x s s'. f x s = Inr s' \<Longrightarrow> P s \<Longrightarrow> P s') \<Longrightarrow> P s'"
proof (induction xs arbitrary: s)
  case (Cons x xs)
  from Cons.prems(1) obtain s1 where "f x s = Inr s1" "foldE f xs s1 = Inr s'" by (auto simp: bindE_eq_Inr)
  with Cons.IH [of s1] Cons.prems(2,3) show ?case by metis
qed simp

definition same_at :: "nat \<Rightarrow> 'v raft_node \<Rightarrow> 'v raft_node \<Rightarrow> bool" where
  "same_at j n n' \<longleftrightarrow> match_index n' ! j = match_index n ! j \<and> commit_index n' = commit_index n \<and>
     all_ids n' = all_ids n \<and> my_id n' = my_id n \<and> listener n' = listener n"

lemma same_at_refl [simp]: "same_at j n n"
  by (simp add: same_at_def)

lemma same_at_trans: "same_at j a b \<Longrightarrow> same_at j b c \<Longrightarrow> same_at j a c"
  by (simp add: same_at_def)

lemma same_at_fields [simp]:
  "same_at j n (send_message m n') = same_at j n n'" "same_at j n (n'\<lparr>frame := f\<rparr>) = same_at j n n'"
  "same_at j n (n'\<lparr>next_index := l\<rparr>) = same_at j n n'" "same_at j n (n'\<lparr>heard_from := h\<rparr>) = same_at j n n'"
  "same_at j n (n'\<lparr>voted_for := v\<rparr>) = same_at j n n'" "same_at j n (n'\<lparr>client_queue := q\<rparr>) = same_at j n n'"
  "same_at j n (set_current_role r n') = same_at j n n'" "same_at j n (increment_term t n') = same_at j n n'"
  by (simp_all add: same_at_def set_current_role_def increment_term_def Let_def split: option.splits)

lemma py_set_Inr: "py_set xs i x = Inr ys \<Longrightarrow> 0 \<le> i \<Longrightarrow> ys = xs[nat i := x]"
  by (simp add: py_set_def py_index_def split: if_splits)

lemma list_index_Inr: "list_index xs x = Inr i \<Longrightarrow> 0 \<le> i \<and> nat i < length xs \<and> xs ! nat i = x"
proof (induction xs arbitrary: i)
  case (Cons y ys)
  show ?case
  proof (cases "x = y")
    case False
    with Cons.prems obtain k where "list_index ys x = Inr k" "i = k + 1" by (auto simp: bindE_eq_Inr)
    with Cons.IH [of k] show ?thesis by (simp add: nat_add_distrib)
  qed (use Cons.prems in simp)
qed simp

lemma broadcast_append_same:
  assumes "broadcast_append_entries ts e n = Inr n'" "all_ids n ! j \<noteq> my_id n"
  shows "same_at j n n'"
proof -
  obtain i t n1 n2 k l m where steps:
    "append_entry e False None n = Inr ((i, t), n1)"
    "foldE (broadcast_to ts i t e) (py_enumerate (next_index n1)) n1 = Inr n2"
    "get_node_index (my_id n2) n2 = Inr k" "py_set (match_index n2) k (log_max_index n2) = Inr m"
    "n' = n2\<lparr>next_index := l, match_index := m\<rparr>"
    using assms(1) by (auto simp: broadcast_append_entries_def bindE_eq_Inr)
  have n1: "same_at j n n1"
    using steps(1) by (auto simp: append_entry_def Let_def bindE_eq_Inr same_at_def)
  have n2: "same_at j n n2"
  proof (rule foldE_inv [OF steps(2), where P = "same_at j n"])
    fix x and s s' :: "'a raft_node"
    assume "broadcast_to ts i t e x s = Inr s'" "same_at j n s"
    then show "same_at j n s'"
      by (auto simp: broadcast_to_def send_append_entries_def Let_def bindE_eq_Inr split: prod.splits if_splits)
  qed (rule n1)
  have k: "0 \<le> k" "nat k \<noteq> j"
    using list_index_Inr [of "all_ids n2" "my_id n2" k] steps(3) n2 assms(2)
    by (auto simp: get_node_index_def same_at_def)
  have "m = (match_index n2)[nat k := log_max_index n2]"
    by (rule py_set_Inr [OF steps(4) k(1)])
  with n2 k(2) steps(5) show ?thesis
    by (simp add: same_at_def)
qed

lemma resend_same: "foldE (resend_to t0) xs n = Inr n' \<Longrightarrow> same_at j n n'"
  by (erule foldE_inv [where P = "same_at j n"])
    (auto simp: resend_to_def send_append_entries_def Let_def bindE_eq_Inr split: prod.splits option.splits if_splits)

text \<open>An index at most the committed one keeps a leader from committing more.\<close>

lemma no_commit:
  assumes "length (match_index n) = length (all_ids n)" "j < length (all_ids n)" "match_index n ! j \<le> commit_index n"
  shows "commit_committable t0 n = Inr n"
proof -
  have "max_committable_index n = Min (set (match_index n))"
    using assms by (intro max_committable_Min) auto
  also have "\<dots> \<le> match_index n ! j" using assms by (intro Min_le) auto
  finally show ?thesis using assms(3) by (simp add: commit_committable_def)
qed

lemma ack_progress_same:
  assumes "ack_progress t0 m i next n = Inr n'" "0 \<le> i" "nat i \<noteq> j" "j < length (all_ids n)"
    "length (match_index n) = length (all_ids n)" "match_index n ! j \<le> commit_index n"
  shows "same_at j n n'"
proof -
  obtain x n1 n2 where steps:
    "(if success (ae_results m) = Some True
      then bindE (py_set (match_index n) i next) (\<lambda>l. Inr (next + 1, n\<lparr>match_index := l\<rparr>))
      else Inr (if next \<noteq> 1 then next - 1 else next, n)) = Inr (x, n1)"
    "catch_up t0 (m_sender m) i x n1 = Inr n2" "commit_committable t0 n2 = Inr n'"
    using assms(1) by (auto simp: ack_progress_def bindE_eq_Inr)
  have n1: "same_at j n n1" "length (match_index n1) = length (all_ids n)"
    using steps(1) assms(2,3,5) by (auto simp: bindE_eq_Inr same_at_def dest!: py_set_Inr split: if_splits)
  have n2: "same_at j n1 n2" "length (match_index n2) = length (all_ids n)"
    using steps(2) n1(2)
    by (auto simp: catch_up_def bindE_eq_Inr Let_def send_append_entries_def same_at_def split: if_splits)
  have "commit_committable t0 n2 = Inr n2"
    using n1 n2 assms(4,6) by (intro no_commit) (auto simp: same_at_def)
  with steps(3) n1(1) n2(1) show ?thesis by (auto intro: same_at_trans)
qed

section \<open>A leader's turn, without an acknowledgement from one node\<close>

definition ack_from :: "string \<Rightarrow> 'v dict \<Rightarrow> bool" where
  "ack_from s d \<longleftrightarrow> (\<exists>m. d = jsonify (AE m) \<and> class_ok (AE m) \<and> m_type m = Acknowledge \<and>
     m_direction m = Response \<and> m_sender m = s)"

lemma leader_ack_same:
  assumes "leader_ack t0 m n = Inr n'" "m_sender m \<noteq> all_ids n ! j" "j < length (all_ids n)"
    "length (match_index n) = length (all_ids n)" "match_index n ! j \<le> commit_index n"
  shows "same_at j n n'"
proof -
  obtain i h x where steps: "get_node_index (m_sender m) n = Inr i" "py_get (next_index n) i = Inr x"
    "(case x of None \<Rightarrow> Inr (n\<lparr>heard_from := h\<rparr>) | Some x \<Rightarrow> ack_progress t0 m i x (n\<lparr>heard_from := h\<rparr>)) = Inr n'"
    using assms(1) by (auto simp: leader_ack_def Let_def bindE_eq_Inr)
  have i: "0 \<le> i" "nat i \<noteq> j"
    using list_index_Inr [of "all_ids n" "m_sender m" i] steps(1) assms(2) by (auto simp: get_node_index_def)
  have "same_at j (n\<lparr>heard_from := h\<rparr>) n'" if "x = Some y" for y
    using steps(3) that assms(3-5) i by (intro ack_progress_same) auto
  with steps(3) show ?thesis by (cases x) (auto simp: same_at_def)
qed

lemma leader_message_same:
  assumes "leader_message t0 m n = Inr (r, n')" "class_ok m" "\<not> ack_from (all_ids n ! j) (jsonify m)"
    "j < length (all_ids n)" "all_ids n ! j \<noteq> my_id n"
    "length (match_index n) = length (all_ids n)" "match_index n ! j \<le> commit_index n"
  shows "same_at j n n'"
proof (cases m)
  case (RV r)
  with assms(1) show ?thesis
    by (auto simp: leader_message_def send_vote_def Let_def split: if_splits)
next
  case (AE a)
  have "m_sender a \<noteq> all_ids n ! j" if "m_type a = Acknowledge" "m_direction a = Response"
    using assms(2,3) that AE by (auto simp: ack_from_def simp del: jsonify.simps)
  with AE assms leader_ack_same [of t0 a n n' j] broadcast_append_same [of t0 _ n n' j] show ?thesis
    by (auto simp: leader_message_def bindE_eq_Inr split: if_splits)
qed

lemma leader_turn_same:
  assumes "leader_turn t0 h n = Inr n'" "base_ok n" "leading_ok n"
    "\<forall>d \<in> set (listener n). \<not> ack_from (all_ids n ! j) d" "j < length (all_ids n)" "all_ids n ! j \<noteq> my_id n"
    "match_index n ! j \<le> commit_index n"
  shows "match_index n' ! j = match_index n ! j \<and> commit_index n' = commit_index n \<and>
    all_ids n' = all_ids n \<and> my_id n' = my_id n \<and> set (listener n') \<subseteq> set (listener n)"
proof -
  define n0 where "n0 = (if t0 - h > heartbeat_frequency then send_heartbeat t0 n else n)"
  define h0 where "h0 = (if t0 - h > heartbeat_frequency then t0 else h)"
  have n0: "same_at j n n0" "lead_ok n n0" using assms(2,3) sends_ok(3) [OF assms(2), of t0]
    by (auto simp: n0_def lead_ok_def send_heartbeat_def)
  obtain n1 r n2 where steps: "foldE (resend_to t0) (py_enumerate (next_index n0)) n0 = Inr n1"
    "leader_receive t0 n1 = Inr (r, n2)"
    "(if r then Inr (n2\<lparr>frame := Run\<rparr>)
      else bindE (leader_request t0 n2) (\<lambda>n. Inr (n\<lparr>frame := Leading h0\<rparr>))) = Inr n'"
    using assms(1) by (auto simp: leader_turn_def n0_def h0_def Let_def bindE_eq_Inr split: if_splits)
  have n1: "same_at j n n1" using resend_same [OF steps(1)] n0(1) by (blast intro: same_at_trans)
  have "lead_ok n n1"
    using n0(2) resend_ok [of n0 t0] steps(1) by (auto simp: lead_ok_def intro: leads_trans)
  then have ok: "base_ok n1" by (simp add: lead_ok_def)
  have n2: "match_index n2 ! j = match_index n1 ! j \<and> commit_index n2 = commit_index n1 \<and>
    all_ids n2 = all_ids n1 \<and> my_id n2 = my_id n1 \<and> set (listener n2) \<subseteq> set (listener n1)"
  proof (cases "listener n1")
    case Nil
    with steps(2) show ?thesis by (auto simp: leader_receive_def get_message_def)
  next
    case (Cons d ds)
    with ok have "msg_ok (set (all_ids n1)) d" by (simp add: base_ok_def)
    then obtain m where m: "d = jsonify m" "class_ok m" by (auto simp: msg_ok_def)
    have "d \<in> set (listener n)" using n1 Cons by (metis list.set_intros(1) same_at_def)
    then have na: "\<not> ack_from (all_ids n ! j) (jsonify m)" using assms(4) m by blast
    have "leader_message t0 m (n1\<lparr>listener := ds\<rparr>) = Inr (r, n2)"
      using steps(2) Cons m by (simp add: leader_receive_def get_message_def parse_jsonify)
    then have "same_at j (n1\<lparr>listener := ds\<rparr>) n2"
      using m na assms(5-7) n1 ok
      by (intro leader_message_same) (auto simp: same_at_def base_ok_def)
    with Cons show ?thesis by (auto simp: same_at_def)
  qed
  have n3: "same_at j n2 n'"
  proof (cases r)
    case False
    then obtain n3 where n3: "leader_request t0 n2 = Inr n3" "n' = n3\<lparr>frame := Leading h0\<rparr>"
      using steps(3) by (auto simp: bindE_eq_Inr)
    have "same_at j n2 n3"
    proof (cases "client_queue n2")
      case (Cons e es)
      then have b: "broadcast_append_entries t0 e (n2\<lparr>client_queue := es\<rparr>) = Inr n3"
        using n3(1) by (simp add: leader_request_def get_client_request_def)
      have "same_at j (n2\<lparr>client_queue := es\<rparr>) n3"
        using n1 n2 assms(6) by (intro broadcast_append_same [OF b]) (auto simp: same_at_def)
      then show ?thesis by (simp add: same_at_def)
    qed (use n3(1) in \<open>simp add: leader_request_def get_client_request_def\<close>)
    with n3(2) show ?thesis by simp
  qed (use steps(3) in auto)
  show ?thesis using n1 n2 n3 by (auto simp: same_at_def)
qed

section \<open>What happens to a node\<close>

datatype 'v node_event = Step int int | Arrives "'v dict" | Submitted 'v

fun happens :: "'v \<Rightarrow> 'v node_event \<Rightarrow> 'v raft_node \<Rightarrow> 'v raft_node py" where
  "happens v (Step t0 t1) n = raft_turn v t0 t1 n"
| "happens v (Arrives d) n = Inr (n\<lparr>listener := listener n @ [d]\<rparr>)"
| "happens v (Submitted x) n = Inr (client_request x (-1) n)"

text \<open>Its events while it leads: the run ends when it no longer does.\<close>

fun leading_run :: "'v \<Rightarrow> 'v node_event list \<Rightarrow> 'v raft_node \<Rightarrow> 'v raft_node py" where
  "leading_run v [] n = Inr n"
| "leading_run v (e # es) n =
     (case frame n of Leading _ \<Rightarrow> bindE (happens v e n) (leading_run v es) | _ \<Rightarrow> Inr n)"

text \<open>The invariant of such a run.\<close>

definition starved :: "nat \<Rightarrow> int \<Rightarrow> 'v raft_node \<Rightarrow> bool" where
  "starved j c n \<longleftrightarrow> base_ok n \<and> ((\<exists>h. frame n = Leading h) \<longrightarrow> leading_ok n) \<and> commit_index n = c \<and>
     j < length (all_ids n) \<and> all_ids n ! j \<noteq> my_id n \<and> match_index n ! j \<le> c \<and>
     (\<forall>d \<in> set (listener n). \<not> ack_from (all_ids n ! j) d)"

lemma starved_event:
  assumes "starved j c n" "frame n = Leading h"
    and "\<And>d. e = Arrives d \<Longrightarrow> msg_ok (set (all_ids n)) d \<and> \<not> ack_from (all_ids n ! j) d"
  shows "\<exists>n'. happens v e n = Inr n' \<and> starved j c n' \<and> all_ids n' = all_ids n"
proof (cases e)
  case (Step t0 t1)
  have n: "base_ok n" "leading_ok n" using assms(1,2) by (auto simp: starved_def)
  show ?thesis
  proof (cases "\<not> terminate n \<and> check_role n = Leader")
    case True
    then have t: "raft_turn v t0 t1 n = leader_turn t0 h n" using assms(2) by (simp add: raft_turn_def)
    obtain n' where n': "leader_turn t0 h n = Inr n'" "base_ok n'" "(\<exists>h. frame n' = Leading h) \<longrightarrow> leading_ok n'"
      using leader_turn_ok [OF n, of t0 h] by (auto simp: succeeds_Inr step_ok_def)
    have "match_index n' ! j = match_index n ! j \<and> commit_index n' = commit_index n \<and>
        all_ids n' = all_ids n \<and> my_id n' = my_id n \<and> set (listener n') \<subseteq> set (listener n)"
      by (rule leader_turn_same [OF n'(1) n]) (use assms(1) in \<open>auto simp: starved_def\<close>)
    with n' assms(1) Step t show ?thesis by (auto simp: starved_def subset_iff)
  next
    case False
    with assms(1,2) Step show ?thesis by (auto simp: raft_turn_def starved_def)
  qed
next
  case (Arrives d)
  with assms show ?thesis by (auto simp: starved_def base_ok_def leading_ok_def log_max_index_def)
next
  case (Submitted x)
  with assms show ?thesis by (auto simp: starved_def base_ok_def leading_ok_def log_max_index_def client_request_def)
qed

lemma starved_run:
  "starved j c n \<Longrightarrow>
   (\<And>d. Arrives d \<in> set es \<Longrightarrow> msg_ok (set (all_ids n)) d \<and> \<not> ack_from (all_ids n ! j) d) \<Longrightarrow>
   \<exists>n'. leading_run v es n = Inr n' \<and> commit_index n' = c"
proof (induction es arbitrary: n)
  case Nil
  then show ?case by (simp add: starved_def)
next
  case (Cons e es)
  show ?case
  proof (cases "frame n")
    case (Leading h)
    obtain n1 where n1: "happens v e n = Inr n1" "starved j c n1" "all_ids n1 = all_ids n"
      using starved_event [OF Cons.prems(1) Leading, of e v] Cons.prems(2) by auto
    with Cons.IH [of n1] Cons.prems(2) Leading show ?thesis by simp
  qed (use Cons.prems(1) in \<open>simp_all add: starved_def\<close>)
qed

section \<open>Properties\<close>

text \<open>
  What a leader takes to be committable is the least index any node has acknowledged (its own
  included), not the greatest one that more than half of the nodes have.
\<close>

theorem committable_is_least:
  assumes "length (match_index n) = length (all_ids n)" "all_ids n \<noteq> []"
  shows "max_committable_index n = Min (set (match_index n))"
  using assms by (rule max_committable_Min)

definition three_ids :: "string list" where
  "three_ids = [''127.0.0.1:5557'', ''127.0.0.1:5567'', ''127.0.0.1:5577'']"

theorem committable_is_least_witness:
  "max_committable_index ((raft_init (0::nat) three_ids ''127.0.0.1:5557'' 100000)\<lparr>match_index := [5, 4, 0]\<rparr>) = 0"
  by (subst committable_is_least) (simp_all add: raft_init_def three_ids_def)

text \<open>
  C21. One silent node stops the cluster: from its election on, as long as a node leads, it never
  advances its commit index unless the acknowledgements of every other node reach it. Whatever else
  arrives (every other node may answer), whatever clients submit and whatever the clock shows, no
  turn fails and the commit index stays what it was when the node was elected.
\<close>

theorem silent_node_blocks_commits:
  assumes "base_ok n" and "leader_start t0 v n = Inr n1" and "s \<in> set (all_ids n)" and "s \<noteq> my_id n"
    and "\<forall>d \<in> set (listener n). \<not> ack_from s d"
    and "\<forall>d. Arrives d \<in> set es \<longrightarrow> msg_ok (set (all_ids n)) d \<and> \<not> ack_from s d"
  shows "\<exists>n2. leading_run v es n1 = Inr n2 \<and> commit_index n2 = commit_index n"
proof -
  obtain j where j: "j < length (all_ids n)" "all_ids n ! j = s" using assms(3) by (auto simp: in_set_conv_nth)
  define n0 where "n0 = (send_heartbeat t0 n)\<lparr>leader_id := Some (my_id n),
    match_index := map (\<lambda>_. commit_index n) (all_ids n), next_index := map (\<lambda>_. None) (all_ids n),
    heard_from := map (\<lambda>_. t0) (all_ids n)\<rparr>"
  have start: "bindE (broadcast_append_entries t0 (Entry (current_term n) v (-1)) n0)
      (\<lambda>n. Inr (n\<lparr>frame := Leading t0\<rparr>)) = Inr n1"
    using assms(2) by (simp add: leader_start_def n0_def Let_def send_heartbeat_def)
  then obtain n' where b: "broadcast_append_entries t0 (Entry (current_term n) v (-1)) n0 = Inr n'"
    "n1 = n'\<lparr>frame := Leading t0\<rparr>" by (auto simp: bindE_eq_Inr)
  have "same_at j n0 n'"
    by (rule broadcast_append_same [OF b(1)]) (use j assms(4) in \<open>simp add: n0_def send_heartbeat_def\<close>)
  then have "match_index n1 ! j = commit_index n" "commit_index n1 = commit_index n"
      "all_ids n1 = all_ids n" "my_id n1 = my_id n" "listener n1 = listener n"
    using b(2) j by (auto simp: same_at_def n0_def send_heartbeat_def)
  moreover have "base_ok n1" "leading_ok n1"
    using leader_start_ok [OF assms(1), of t0 v] assms(2) by (auto simp: step_ok_def)
  ultimately have "starved j (commit_index n) n1"
    using assms j by (simp add: starved_def)
  from starved_run [OF this, of es v] show ?thesis
    using assms(6) j \<open>all_ids n1 = all_ids n\<close> by auto
qed

definition elected_node :: "nat raft_node" where
  "elected_node = raft_init 0 three_ids ''127.0.0.1:5557'' 100000"

definition ack_message :: "string \<Rightarrow> nat AppendEntriesMessage" where
  "ack_message s = \<lparr>m_timestamp = 0, m_type = Acknowledge, m_term = 1, m_sender = s,
     m_receiver = Some ''127.0.0.1:5557'', m_direction = Response, ae_results = \<lparr>ae_term = Some 1, success = Some True\<rparr>,
     m_leader_id = Some ''127.0.0.1:5557'', prev_log_index = Some 0, prev_log_term = Some 1, entries = None,
     leader_commit = 0\<rparr>"

lemma elected_ok: "base_ok elected_node"
  by (simp add: elected_node_def raft_init_def three_ids_def base_ok_def)

lemma ack_from_sender: "ack_from s (jsonify (AE (ack_message r))) \<Longrightarrow> s = r"
proof -
  assume "ack_from s (jsonify (AE (ack_message r)))"
  then obtain m where m: "jsonify (AE (ack_message r)) = jsonify (AE m)" "class_ok (AE m)" "m_sender m = s"
    by (auto simp: ack_from_def)
  have "class_ok (AE (ack_message r))" by (simp add: ack_message_def)
  then have "AE (ack_message r) = AE m"
    using parse_jsonify [of "AE (ack_message r)"] parse_jsonify [OF m(2)] m(1)
    by (metis Inr_inject option.inject)
  with m(3) show "s = r" by (auto simp: ack_message_def)
qed

theorem silent_node_blocks_commits_witness:
  "\<exists>n1 n2. leader_start 0 (0::nat) elected_node = Inr n1 \<and>
     leading_run 0 [Submitted 7, Arrives (jsonify (AE (ack_message ''127.0.0.1:5567''))), Step 1 1, Step 2 2] n1 = Inr n2 \<and>
     commit_index n2 = commit_index elected_node"
proof -
  obtain n1 where n1: "leader_start 0 (0::nat) elected_node = Inr n1"
    using leader_start_ok [OF elected_ok, of 0 0] by (auto simp: succeeds_Inr)
  have "class_ok (AE (ack_message ''127.0.0.1:5567''))"
    "fields_ok (set (all_ids elected_node)) (AE (ack_message ''127.0.0.1:5567''))"
    by (simp_all add: ack_message_def elected_node_def raft_init_def three_ids_def)
  then have m: "msg_ok (set (all_ids elected_node)) (jsonify (AE (ack_message ''127.0.0.1:5567'')))"
    unfolding msg_ok_def by blast
  have a: "\<not> ack_from ''127.0.0.1:5577'' (jsonify (AE (ack_message ''127.0.0.1:5567'')))"
    using ack_from_sender [of "''127.0.0.1:5577''" "''127.0.0.1:5567''"] by auto
  have "\<exists>n2. leading_run 0 [Submitted 7, Arrives (jsonify (AE (ack_message ''127.0.0.1:5567''))), Step 1 1, Step 2 2] n1 = Inr n2 \<and>
     commit_index n2 = commit_index elected_node"
  proof (rule silent_node_blocks_commits [OF elected_ok n1, where s = "''127.0.0.1:5577''"])
    show "\<forall>d. Arrives d \<in> set [Submitted 7, Arrives (jsonify (AE (ack_message ''127.0.0.1:5567''))), Step 1 1, Step 2 2] \<longrightarrow>
        msg_ok (set (all_ids elected_node)) d \<and> \<not> ack_from ''127.0.0.1:5577'' d"
      using m a by (simp del: jsonify.simps)
  qed (simp_all add: elected_node_def raft_init_def three_ids_def)
  with n1 show ?thesis by blast
qed

text \<open>
  A leader only appends: no turn of a leading node removes or changes an entry of its log, in
  whatever way the turn ends, and no turn of any node changes the first entry or lowers its term.
\<close>

theorem leader_append_only:
  assumes "node_ok n"
  shows "\<exists>n'. raft_turn v t0 t1 n = Inr n' \<and> node_ok n' \<and> current_term n \<le> current_term n' \<and>
    hd (log n') = hd (log n) \<and> (\<forall>h. frame n = Leading h \<longrightarrow> (\<exists>es. log n' = log n @ es))"
proof -
  obtain n' where n': "raft_turn v t0 t1 n = Inr n'" "node_ok n'" "keeps n n'"
    using raft_turn_ok [OF assms, of v t0 t1] by (auto simp: succeeds_Inr)
  have "\<exists>es. log n' = log n @ es" if "frame n = Leading h" for h
  proof (cases "\<not> terminate n \<and> check_role n = Leader")
    case True
    then have "leader_turn t0 h n = Inr n'" using n'(1) that by (simp add: raft_turn_def)
    with leader_turn_ok [of n t0 h] assms that show ?thesis by (auto simp: node_ok_def)
  next
    case False
    with n'(1) that show ?thesis by (auto simp: raft_turn_def)
  qed
  with n' show ?thesis by (auto simp: keeps_def)
qed

theorem leader_append_only_witness:
  "\<exists>n'. raft_turn 0 5 6 elected_node = Inr n' \<and> current_term elected_node \<le> current_term n'"
  using leader_append_only [of elected_node 0 5 6] elected_ok
  by (auto simp: node_ok_def elected_node_def raft_init_def)

end
