(* ===== verification/NameServer.thy ===== *)
theory NameServer
  imports Registry RaftCommit
begin

text \<open>
  The name server: \<open>namesvr/run_node.py\<close> on every node of \<open>namesvr/raft\<close>, and the network between
  them (\<open>namesvr/raft/interface.py\<close>).

  The dictionaries of the registry are objects: \<open>check_committed_entry\<close> returns a reference, the
  endpoints change the object in place and hand the same reference to \<open>client_request\<close>, and several
  entries of a log may be the same object. So the log of a node holds references into its \<open>heap\<close>.
  A message is copied when the queue of the talker pickles it (\<open>Publish\<close>), and what a listener
  receives is a new object (\<open>Deliver\<close>). The processes in between are in \<open>NodeProcesses.thy\<close>.

  An endpoint, a pass of the monitor and a turn of the node's thread are each one step.
\<close>

section \<open>Hosts\<close>

text \<open>
  A reference is a position in \<open>heap\<close>; a new object goes to its end. \<open>incoming h ! i\<close> is what node
  \<open>i\<close> has published and the listener of this host has not read yet.
\<close>

record 'f host =
  node :: "nat raft_node"
  heap :: "'f registry list"
  incoming :: "'f registry dict list list"
  monitoring :: bool

definition deref :: "'v list list \<Rightarrow> nat \<Rightarrow> 'v list" where
  "deref hp r = (if r < length hp then hp ! r else [])"

definition host_init :: "string list \<Rightarrow> string \<Rightarrow> int \<Rightarrow> 'f host" where
  "host_init ids me timeout =
     \<lparr>node = raft_init 0 ids me timeout, heap = [[]], incoming = map (\<lambda>_. []) ids, monitoring = True\<rparr>"

text \<open>
  \<open>/register\<close>, \<open>/heartbeat\<close> and \<open>/discover\<close>. An exception in an endpoint is answered with status 500;
  \<open>/discover\<close> checks its parameter before it asks for the registry.
\<close>

definition on_registry :: "'f::linordered_idom \<Rightarrow> 'f reg_op \<Rightarrow> 'f host \<Rightarrow> http_reply \<times> 'f host" where
  "on_registry now req h =
     (case check_committed_entry (node h) of
        Inl _ \<Rightarrow> (ServerError, h)
      | Inr r \<Rightarrow>
          (case registry_op now req (deref (heap h) r) of
             (reply, servers, requested) \<Rightarrow>
               (reply, h\<lparr>heap := (heap h)[r := servers],
                        node := if requested then client_request r (-1) (node h) else node h\<rparr>)))"

definition http :: "'f::linordered_idom \<Rightarrow> 'f reg_op \<Rightarrow> 'f host \<Rightarrow> http_reply \<times> 'f host" where
  "http now req h =
     (if req = Discover None then (discover_endpoint None ([] :: 'f registry), h) else on_registry now req h)"

text \<open>\<open>/request\<close> proposes any value; \<open>/status\<close> shows the committed one and the role.\<close>

definition request_endpoint :: "'f registry \<Rightarrow> 'f host \<Rightarrow> http_reply \<times> 'f host" where
  "request_endpoint data h =
     (if data = [] then (BadRequest ''No JSON payload'', h)
      else (StatusSuccess, h\<lparr>heap := heap h @ [data], node := client_request (length (heap h)) (-1) (node h)\<rparr>))"

definition status_endpoint :: "'f host \<Rightarrow> ('f registry \<times> role) py" where
  "status_endpoint h = bindE (check_committed_entry (node h)) (\<lambda>r. Inr (deref (heap h) r, check_role (node h)))"

text \<open>A turn of \<open>monitor_clients\<close>; an exception ends its thread.\<close>

definition monitor_clients :: "'f::linordered_idom \<Rightarrow> 'f host \<Rightarrow> 'f host" where
  "monitor_clients current_time h =
     (if \<not> monitoring h \<or> check_role (node h) \<noteq> Leader then h
      else
        case check_committed_entry (node h) of
          Inl _ \<Rightarrow> h\<lparr>monitoring := False\<rparr>
        | Inr r \<Rightarrow> snd (on_registry current_time Monitor h))"

text \<open>A turn of the node's thread, with a new object \<open>{}\<close> for a new leader to propose.\<close>

definition host_turn :: "int \<Rightarrow> int \<Rightarrow> 'f host \<Rightarrow> 'f host py" where
  "host_turn t0 t1 h =
     bindE (raft_turn (length (heap h)) t0 t1 (node h)) (\<lambda>n. Inr (h\<lparr>node := n, heap := heap h @ [[]]\<rparr>))"

section \<open>Copies\<close>

definition export_dict :: "'v list list \<Rightarrow> nat dict \<Rightarrow> 'v list dict" where
  "export_dict hp d = map (\<lambda>(k, v). (k, map_pyval (deref hp) v)) d"

fun import_val :: "'v pyval \<Rightarrow> 'v list \<Rightarrow> nat pyval \<times> 'v list"
  and import_items :: "'v dict \<Rightarrow> 'v list \<Rightarrow> nat dict \<times> 'v list" where
  "import_val PNone hp = (PNone, hp)"
| "import_val (PInt i) hp = (PInt i, hp)"
| "import_val (PBool b) hp = (PBool b, hp)"
| "import_val (PStr x) hp = (PStr x, hp)"
| "import_val (PEntry e) hp = (PEntry (Entry (e_term e) (length hp) (e_id e)), hp @ [e_entry e])"
| "import_val (PDict d) hp = (case import_items d hp of (d', hp) \<Rightarrow> (PDict d', hp))"
| "import_items [] hp = ([], hp)"
| "import_items ((k, v) # r) hp =
     (case import_val v hp of (v', hp) \<Rightarrow> case import_items r hp of (r', hp) \<Rightarrow> ((k, v') # r', hp))"

text \<open>The listener's process: it keeps the messages for this node and those for all.\<close>

definition host_receive :: "'f registry dict \<Rightarrow> 'f host \<Rightarrow> 'f host py" where
  "host_receive d h =
     bindE (bindE (getitem d ''receiver'') opt_str) (\<lambda>receiver.
     if receiver = Some (my_id (node h)) \<or> receiver = None then
       let (d', hp) = import_items d (heap h)
       in Inr (h\<lparr>node := (node h)\<lparr>listener := listener (node h) @ [d']\<rparr>, heap := hp\<rparr>)
     else Inr h)"

section \<open>The cluster\<close>

text \<open>
  ZeroMQ delivers the messages of a publisher in order, but it drops those for a subscriber that is
  not connected or too slow: \<open>Publish\<close> names the subscribers that miss the message.
\<close>

type_synonym 'f cluster = "'f host list"

datatype 'f act =
    Turn nat int int
  | Publish nat "nat list"
  | Deliver nat nat
  | Http nat 'f "'f reg_op"
  | HttpRequest nat "'f registry"
  | MonitorPass nat 'f
  | PauseNode nat
  | UnPauseNode nat

definition at_host :: "nat \<Rightarrow> ('f host \<Rightarrow> 'f host py) \<Rightarrow> 'f cluster \<Rightarrow> 'f cluster py option" where
  "at_host i f c = (if i < length c then Some (bindE (f (c ! i)) (\<lambda>h. Inr (c[i := h]))) else None)"

definition put_incoming :: "nat \<Rightarrow> 'f registry dict \<Rightarrow> 'f host \<Rightarrow> 'f host" where
  "put_incoming i m h = h\<lparr>incoming := (incoming h)[i := incoming h ! i @ [m]]\<rparr>"

definition publish_to :: "nat \<Rightarrow> 'f registry dict \<Rightarrow> nat list \<Rightarrow> 'f cluster \<Rightarrow> 'f cluster" where
  "publish_to i m drops c = map (\<lambda>(j, h). if j \<in> set drops then h else put_incoming i m h) (enumerate 0 c)"

fun cluster_act :: "'f::linordered_idom act \<Rightarrow> 'f cluster \<Rightarrow> 'f cluster py option" where
  "cluster_act (Turn i t0 t1) c = at_host i (host_turn t0 t1) c"
| "cluster_act (Publish i drops) c =
     (if i < length c then
        (case talker (node (c ! i)) of
           [] \<Rightarrow> None
         | d # ds \<Rightarrow>
             let h = c ! i
             in Some (Inr (publish_to i (export_dict (heap h) d) drops (c[i := h\<lparr>node := (node h)\<lparr>talker := ds\<rparr>\<rparr>]))))
      else None)"
| "cluster_act (Deliver i j) c =
     (if i < length c \<and> j < length c then
        (case incoming (c ! j) ! i of
           [] \<Rightarrow> None
         | m # ms \<Rightarrow> at_host j (\<lambda>h. host_receive m (h\<lparr>incoming := (incoming h)[i := ms]\<rparr>)) c)
      else None)"
| "cluster_act (Http i now req) c = at_host i (\<lambda>h. Inr (snd (http now req h))) c"
| "cluster_act (HttpRequest i data) c = at_host i (\<lambda>h. Inr (snd (request_endpoint data h))) c"
| "cluster_act (MonitorPass i now) c = at_host i (\<lambda>h. Inr (monitor_clients now h)) c"
| "cluster_act (PauseNode i) c = at_host i (\<lambda>h. Inr (h\<lparr>node := pause (node h)\<rparr>)) c"
| "cluster_act (UnPauseNode i) c = at_host i (\<lambda>h. Inr (h\<lparr>node := un_pause (node h)\<rparr>)) c"

text \<open>All nodes of a configuration, with the timeouts they drew.\<close>

definition cluster_init :: "(string \<times> int) list \<Rightarrow> 'f cluster" where
  "cluster_init config = map (\<lambda>(me, timeout). host_init (map fst config) me timeout) config"

text \<open>A list of actions, each enabled when its turn comes.\<close>

fun cluster_run :: "'f::linordered_idom act list \<Rightarrow> 'f cluster \<Rightarrow> 'f cluster py option" where
  "cluster_run [] c = Some (Inr c)"
| "cluster_run (a # as) c =
     (case cluster_act a c of
        None \<Rightarrow> None
      | Some (Inl e) \<Rightarrow> Some (Inl e)
      | Some (Inr c') \<Rightarrow> cluster_run as c')"

lemma cluster_run_append:
  "cluster_run (as @ bs) c =
     (case cluster_run as c of None \<Rightarrow> None | Some (Inl e) \<Rightarrow> Some (Inl e) | Some (Inr c') \<Rightarrow> cluster_run bs c')"
  by (induction as arbitrary: c) (auto split: option.splits sum.splits)

lemma cluster_run_then:
  "cluster_run as c = Some (Inr c') \<Longrightarrow> cluster_run (as @ bs) c = cluster_run bs c'"
  by (simp add: cluster_run_append)

section \<open>Messages on their way\<close>

text \<open>A message with the value of its entry changed.\<close>

fun map_message :: "('a \<Rightarrow> 'b) \<Rightarrow> 'a message \<Rightarrow> 'b message" where
  "map_message f (RV m) = RV m"
| "map_message f (AE m) = AE \<lparr>m_timestamp = m_timestamp m, m_type = m_type m, m_term = m_term m, m_sender = m_sender m,
     m_receiver = m_receiver m, m_direction = m_direction m, ae_results = ae_results m, m_leader_id = m_leader_id m,
     prev_log_index = prev_log_index m, prev_log_term = prev_log_term m,
     entries = map_option (map_entry f) (entries m), leader_commit = leader_commit m\<rparr>"

fun message_value :: "'v message \<Rightarrow> 'v option" where
  "message_value (RV m) = None"
| "message_value (AE m) = map_option e_entry (entries m)"

lemma map_entry_eq [simp]: "map_entry f e = Entry (e_term e) (f (e_entry e)) (e_id e)"
  by (cases e) simp

lemma map_message_ok [simp]:
  "class_ok (map_message f m) = class_ok m" "fields_ok ids (map_message f m) = fields_ok ids m"
  "message_value (map_message f m) = map_option f (message_value m)"
proof -
  show "class_ok (map_message f m) = class_ok m" by (cases m) simp_all
  show "fields_ok ids (map_message f m) = fields_ok ids m" by (cases m) simp_all
  show "message_value (map_message f m) = map_option f (message_value m)"
    by (cases m) (simp_all add: option.map_comp o_def)
qed

lemma map_opt_val [simp]:
  "map_pyval f (opt_val PInt i) = opt_val PInt i" "map_pyval f (opt_val PStr s) = opt_val PStr s"
  "map_pyval f (opt_val PBool b) = opt_val PBool b" "map_pyval f (opt_val PEntry e) = opt_val PEntry (map_option (map_entry f) e)"
proof -
  show "map_pyval f (opt_val PInt i) = opt_val PInt i" by (cases i) simp_all
  show "map_pyval f (opt_val PStr s) = opt_val PStr s" by (cases s) simp_all
  show "map_pyval f (opt_val PBool b) = opt_val PBool b" by (cases b) simp_all
  show "map_pyval f (opt_val PEntry e) = opt_val PEntry (map_option (map_entry f) e)" by (cases e) simp_all
qed

lemma export_jsonify: "export_dict hp (jsonify m) = jsonify (map_message (deref hp) m)"
  by (cases m) (simp_all add: export_dict_def base_jsonify_def dict_update_def rv_results_jsonify_def ae_results_jsonify_def)

lemma import_opt_val [simp]:
  "import_val (opt_val PInt i) hp = (opt_val PInt i, hp)" "import_val (opt_val PStr s) hp = (opt_val PStr s, hp)"
  "import_val (opt_val PBool b) hp = (opt_val PBool b, hp)"
  "import_val (opt_val PEntry e) hp = (opt_val PEntry (map_option (map_entry (\<lambda>_. length hp)) e),
     hp @ (case e of None \<Rightarrow> [] | Some e \<Rightarrow> [e_entry e]))"
proof -
  show "import_val (opt_val PInt i) hp = (opt_val PInt i, hp)" by (cases i) simp_all
  show "import_val (opt_val PStr s) hp = (opt_val PStr s, hp)" by (cases s) simp_all
  show "import_val (opt_val PBool b) hp = (opt_val PBool b, hp)" by (cases b) simp_all
  show "import_val (opt_val PEntry e) hp = (opt_val PEntry (map_option (map_entry (\<lambda>_. length hp)) e),
     hp @ (case e of None \<Rightarrow> [] | Some e \<Rightarrow> [e_entry e]))"
    by (cases e) simp_all
qed

lemma import_jsonify:
  "import_items (jsonify m) hp = (jsonify (map_message (\<lambda>_. length hp) m),
     hp @ (case message_value m of None \<Rightarrow> [] | Some v \<Rightarrow> [v]))"
proof (cases m)
  case (AE a)
  then show ?thesis
    by (cases "entries a")
      (simp_all add: base_jsonify_def dict_update_def ae_results_jsonify_def)
qed (simp add: base_jsonify_def dict_update_def rv_results_jsonify_def)

section \<open>The invariant\<close>

definition wire_ok :: "string set \<Rightarrow> 'f registry dict \<Rightarrow> bool" where
  "wire_ok ids d \<longleftrightarrow> (\<exists>m. d = jsonify m \<and> class_ok m \<and> fields_ok ids m \<and>
     (\<forall>v. message_value m = Some v \<longrightarrow> registry_ok v))"

definition host_ok :: "string list \<Rightarrow> 'f host \<Rightarrow> bool" where
  "host_ok ids h \<longleftrightarrow> node_ok (node h) \<and> all_ids (node h) = ids \<and> (\<forall>r \<in> set (heap h). registry_ok r) \<and>
     length (incoming h) = length ids \<and> (\<forall>l \<in> set (incoming h). \<forall>d \<in> set l. wire_ok (set ids) d)"

definition cluster_ok :: "string list \<Rightarrow> 'f cluster \<Rightarrow> bool" where
  "cluster_ok ids c \<longleftrightarrow> length c = length ids \<and> (\<forall>h \<in> set c. host_ok ids h)"

lemma deref_ok: "\<forall>r \<in> set hp. registry_ok r \<Longrightarrow> registry_ok (deref hp i)"
  by (simp add: deref_def)

lemma client_request_ok: "node_ok (client_request v i n) = node_ok n"
  by (simp add: client_request_def node_ok_def base_ok_def leading_ok_def log_max_index_def)

lemma client_request_same [simp]: "all_ids (client_request v i n) = all_ids n"
  by (simp add: client_request_def)

lemma on_registry_ok:
  assumes "host_ok ids h"
  shows "host_ok ids (snd (on_registry now req h))"
proof (cases "check_committed_entry (node h)")
  case (Inr r)
  obtain reply servers b where e: "registry_op now req (deref (heap h) r) = (reply, servers, b)"
    by (metis prod_cases3)
  have heap: "\<forall>r \<in> set (heap h). registry_ok r" using assms by (simp add: host_ok_def)
  have "registry_ok servers" using registry_op_ok [OF deref_ok [OF heap, of r], of now req] e by simp
  then have "host_ok ids (h\<lparr>heap := (heap h)[r := servers], node := if b then client_request r (-1) (node h) else node h\<rparr>)"
    using assms by (auto simp: host_ok_def client_request_ok dest!: subsetD [OF set_update_subset_insert])
  with Inr e show ?thesis by (simp add: on_registry_def)
qed (use assms in \<open>simp add: on_registry_def\<close>)

lemma http_ok: "host_ok ids h \<Longrightarrow> host_ok ids (snd (http now req h))"
  by (simp add: http_def on_registry_ok)

lemma monitor_clients_ok: "host_ok ids h \<Longrightarrow> host_ok ids (monitor_clients now h)"
  using on_registry_ok [of ids h now Monitor]
  by (auto simp: monitor_clients_def host_ok_def split: sum.splits)

lemma request_endpoint_ok: "host_ok ids h \<Longrightarrow> registry_ok data \<Longrightarrow> host_ok ids (snd (request_endpoint data h))"
  by (auto simp: request_endpoint_def host_ok_def client_request_ok)

lemma host_turn_ok:
  assumes "host_ok ids h"
  shows "succeeds (host_turn t0 t1 h) (\<lambda>h'. host_ok ids h' \<and> keeps (node h) (node h'))"
proof -
  have "succeeds (raft_turn (length (heap h)) t0 t1 (node h)) (\<lambda>n. node_ok n \<and> keeps (node h) n)"
    by (rule raft_turn_ok) (use assms in \<open>simp add: host_ok_def\<close>)
  then show ?thesis
    unfolding host_turn_def succeeds_simps
    by (rule succeeds_mono) (use assms in \<open>auto simp: host_ok_def keeps_def\<close>)
qed

lemma host_receive_ok:
  assumes "host_ok ids h" "wire_ok (set ids) d"
  shows "succeeds (host_receive d h) (\<lambda>h'. host_ok ids h' \<and> keeps (node h) (node h'))"
proof -
  obtain m where m: "d = jsonify m" "class_ok m" "fields_ok (set ids) m"
      "\<forall>v. message_value m = Some v \<longrightarrow> registry_ok v"
    using assms(2) by (auto simp: wire_ok_def)
  have "succeeds (getitem (jsonify m) ''receiver'') (\<lambda>x. succeeds (opt_str x) (\<lambda>_. True))"
    by (cases m) (simp_all add: jsonify_receiver del: jsonify.simps)
  then obtain r where r: "bindE (getitem (jsonify m) ''receiver'') opt_str = Inr r"
    by (auto simp: succeeds_Inr)
  define h1 where "h1 = h\<lparr>node := (node h)\<lparr>listener := listener (node h) @ [jsonify (map_message (\<lambda>_. length (heap h)) m)]\<rparr>,
    heap := heap h @ (case message_value m of None \<Rightarrow> [] | Some v \<Rightarrow> [v])\<rparr>"
  have "msg_ok (set ids) (jsonify (map_message (\<lambda>_. length (heap h)) m))"
    unfolding msg_ok_def using m by (intro exI [of _ "map_message (\<lambda>_. length (heap h)) m"]) simp
  then have "host_ok ids h1" using assms(1) m(4)
    by (auto simp: h1_def host_ok_def node_ok_def base_ok_def leading_ok_def log_max_index_def split: option.splits)
  moreover have "keeps (node h) (node h1)" by (simp add: h1_def keeps_def)
  ultimately show ?thesis
    using assms(1) r by (simp add: host_receive_def m(1) import_jsonify h1_def del: jsonify.simps)
qed

lemma node_change_ok:
  "host_ok ids h \<Longrightarrow> host_ok ids (h\<lparr>node := pause (node h)\<rparr>)"
  "host_ok ids h \<Longrightarrow> host_ok ids (h\<lparr>node := un_pause (node h)\<rparr>)"
  by (auto simp: host_ok_def node_ok_def base_ok_def leading_ok_def log_max_index_def pause_def un_pause_def
      set_current_role_def)

lemma keeps_changes [simp]:
  "keeps n (pause n)" "keeps n (un_pause n)" "keeps n (client_request v i n)"
  by (simp_all add: keeps_def pause_def un_pause_def set_current_role_def client_request_def)

lemma keeps_endpoints [simp]:
  "keeps (node h) (node (snd (on_registry now req h)))" "keeps (node h) (node (snd (http now req h)))"
  "keeps (node h) (node (monitor_clients now h))" "keeps (node h) (node (snd (request_endpoint data h)))"
proof -
  show r: "keeps (node h) (node (snd (on_registry now req h)))" for req
    by (auto simp: on_registry_def split: sum.splits prod.splits)
  then show "keeps (node h) (node (snd (http now req h)))" by (simp add: http_def)
  show "keeps (node h) (node (monitor_clients now h))"
    using r by (auto simp: monitor_clients_def split: sum.splits)
  show "keeps (node h) (node (snd (request_endpoint data h)))" by (simp add: request_endpoint_def)
qed

text \<open>A step of the cluster: no node loses its identity, its term or the start of its log.\<close>

definition cluster_keeps :: "'f cluster \<Rightarrow> 'f cluster \<Rightarrow> bool" where
  "cluster_keeps c c' \<longleftrightarrow> length c' = length c \<and> (\<forall>i < length c. keeps (node (c ! i)) (node (c' ! i)))"

lemma cluster_keeps_refl [simp]: "cluster_keeps c c"
  by (simp add: cluster_keeps_def)

lemma cluster_keeps_trans: "cluster_keeps a b \<Longrightarrow> cluster_keeps b c \<Longrightarrow> cluster_keeps a c"
  by (auto simp: cluster_keeps_def intro: keeps_trans)

lemma at_host_ok:
  assumes "cluster_ok ids c" "at_host i f c = Some r"
    and "\<And>h. host_ok ids h \<Longrightarrow> h = c ! i \<Longrightarrow> succeeds (f h) (\<lambda>h'. host_ok ids h' \<and> keeps (node h) (node h'))"
  shows "succeeds r (\<lambda>c'. cluster_ok ids c' \<and> cluster_keeps c c')"
proof -
  have i: "i < length c" "r = bindE (f (c ! i)) (\<lambda>h. Inr (c[i := h]))"
    using assms(2) by (auto simp: at_host_def split: if_splits)
  have "host_ok ids (c ! i)" using assms(1) i(1) by (simp add: cluster_ok_def)
  from assms(3) [OF this] obtain h where h: "f (c ! i) = Inr h" "host_ok ids h" "keeps (node (c ! i)) (node h)"
    by (auto simp: succeeds_Inr)
  have "cluster_ok ids (c[i := h])"
    using assms(1) h(2) by (auto simp: cluster_ok_def dest!: subsetD [OF set_update_subset_insert])
  moreover have "cluster_keeps c (c[i := h])"
    using h(3) i(1) by (auto simp: cluster_keeps_def nth_list_update)
  ultimately show ?thesis using i(2) h(1) by simp
qed

lemma put_incoming_ok:
  assumes "host_ok ids h" "wire_ok (set ids) m"
  shows "host_ok ids (put_incoming i m h)"
proof (cases "i < length (incoming h)")
  case True
  then have "\<forall>d \<in> set (incoming h ! i). wire_ok (set ids) d"
    using assms(1) nth_mem [of i "incoming h"] by (auto simp: host_ok_def)
  with assms show ?thesis
    by (auto simp: put_incoming_def host_ok_def dest!: subsetD [OF set_update_subset_insert])
next
  case False
  then have "put_incoming i m h = h" by (simp add: put_incoming_def list_update_beyond)
  with assms show ?thesis by simp
qed

lemma publish_ok:
  assumes "cluster_ok ids c" "i < length c" "talker (node (c ! i)) = d # ds"
  defines "h \<equiv> c ! i"
  shows "cluster_ok ids (publish_to i (export_dict (heap h) d) drops (c[i := h\<lparr>node := (node h)\<lparr>talker := ds\<rparr>\<rparr>]))"
    and "cluster_keeps c (publish_to i (export_dict (heap h) d) drops (c[i := h\<lparr>node := (node h)\<lparr>talker := ds\<rparr>\<rparr>]))"
proof -
  have h: "host_ok ids h" using assms by (simp add: cluster_ok_def)
  then have "msg_ok (set ids) d" using assms(3) by (auto simp: h_def host_ok_def node_ok_def base_ok_def)
  then obtain m where m: "d = jsonify m" "class_ok m" "fields_ok (set ids) m" by (auto simp: msg_ok_def)
  have w: "wire_ok (set ids) (export_dict (heap h) d)"
    unfolding wire_ok_def m(1) export_jsonify
    using m(2,3) h by (intro exI [of _ "map_message (deref (heap h)) m"]) (auto simp: host_ok_def deref_ok)
  have h1: "host_ok ids (h\<lparr>node := (node h)\<lparr>talker := ds\<rparr>\<rparr>)"
    using h assms(3) by (auto simp: h_def host_ok_def node_ok_def base_ok_def leading_ok_def log_max_index_def)
  show "cluster_ok ids (publish_to i (export_dict (heap h) d) drops (c[i := h\<lparr>node := (node h)\<lparr>talker := ds\<rparr>\<rparr>]))"
  proof -
    have "host_ok ids (c[i := h\<lparr>node := (node h)\<lparr>talker := ds\<rparr>\<rparr>] ! j)" if "j < length c" for j
      using that assms(1) h1 by (cases "i = j") (simp_all add: cluster_ok_def)
    then show ?thesis
      using assms(1) w by (auto simp: cluster_ok_def publish_to_def in_set_enumerate_eq put_incoming_ok)
  qed
  have same: "node (if j \<in> set drops then g else put_incoming i m g) = node g" for j m g
    by (simp add: put_incoming_def)
  show "cluster_keeps c (publish_to i (export_dict (heap h) d) drops (c[i := h\<lparr>node := (node h)\<lparr>talker := ds\<rparr>\<rparr>]))"
    using assms(2) by (auto simp: cluster_keeps_def publish_to_def nth_enumerate_eq same nth_list_update h_def keeps_def)
qed

fun act_ok :: "'f act \<Rightarrow> bool" where
  "act_ok (HttpRequest i data) = registry_ok data"
| "act_ok _ = True"

lemma cluster_act_ok:
  assumes "cluster_ok ids c" "act_ok a" "cluster_act a c = Some r"
  shows "succeeds r (\<lambda>c'. cluster_ok ids c' \<and> cluster_keeps c c')"
proof (cases a)
  case (Publish i drops)
  then show ?thesis
    using assms publish_ok [OF assms(1), of i _ _ drops] by (auto simp: Let_def split: list.splits if_splits)
next
  case (Deliver i j)
  then obtain m ms where d: "i < length c" "j < length c" "incoming (c ! j) ! i = m # ms"
      "at_host j (\<lambda>h. host_receive m (h\<lparr>incoming := (incoming h)[i := ms]\<rparr>)) c = Some r"
    using assms(3) by (auto split: list.splits if_splits)
  have "host_ok ids (c ! j)" using d(2) assms(1) by (simp add: cluster_ok_def)
  then have m: "wire_ok (set ids) m" "\<forall>d \<in> set ms. wire_ok (set ids) d"
    using d(1,3) assms(1) nth_mem [of i "incoming (c ! j)"] by (auto simp: host_ok_def cluster_ok_def)
  show ?thesis
  proof (rule at_host_ok [OF assms(1) d(4)])
    fix h assume "host_ok ids h" "h = c ! j"
    then have "host_ok ids (h\<lparr>incoming := (incoming h)[i := ms]\<rparr>)"
      using m(2) by (auto simp: host_ok_def dest!: subsetD [OF set_update_subset_insert])
    from host_receive_ok [OF this m(1)]
    show "succeeds (host_receive m (h\<lparr>incoming := (incoming h)[i := ms]\<rparr>)) (\<lambda>h'. host_ok ids h' \<and> keeps (node h) (node h'))"
      by simp
  qed
next
  case (Turn i t0 t1)
  with assms(3) show ?thesis by (auto intro!: at_host_ok [OF assms(1)] host_turn_ok)
qed (use assms in \<open>auto intro!: at_host_ok [OF assms(1)] simp: http_ok monitor_clients_ok request_endpoint_ok
  node_change_ok\<close>)

lemma cluster_run_ok:
  "cluster_ok ids c \<Longrightarrow> \<forall>a \<in> set as. act_ok a \<Longrightarrow> cluster_run as c = Some r \<Longrightarrow>
   succeeds r (\<lambda>c'. cluster_ok ids c' \<and> cluster_keeps c c')"
proof (induction as arbitrary: c)
  case (Cons a as)
  then obtain r1 where r1: "cluster_act a c = Some r1" by (auto split: option.splits)
  obtain c1 where c1: "r1 = Inr c1" "cluster_ok ids c1" "cluster_keeps c c1"
    using cluster_act_ok [OF Cons.prems(1) _ r1] Cons.prems(2) by (auto simp: succeeds_Inr)
  with Cons.prems r1 have "succeeds r (\<lambda>c'. cluster_ok ids c' \<and> cluster_keeps c1 c')"
    by (intro Cons.IH) auto
  then show ?case by (rule succeeds_mono) (auto intro: cluster_keeps_trans [OF c1(3)])
qed auto

lemma cluster_init_ok: "cluster_ok (map fst config) (cluster_init config)"
  by (auto simp: cluster_ok_def cluster_init_def host_init_def host_ok_def node_ok_def base_ok_def raft_init_def rev_image_eqI)

section \<open>One node as a name server\<close>

text \<open>
  The endpoints change the committed registry in place, so between two turns of its thread a node
  serves requests like a registry of its own, whether or not it leads.
\<close>

definition committed_registry :: "'f host \<Rightarrow> 'f registry" where
  "committed_registry h = (case check_committed_entry (node h) of Inl _ \<Rightarrow> [] | Inr r \<Rightarrow> deref (heap h) r)"

definition host_serves :: "'f host \<Rightarrow> bool" where
  "host_serves h = (case check_committed_entry (node h) of
     Inl _ \<Rightarrow> False | Inr r \<Rightarrow> r < length (heap h) \<and> registry_ok (deref (heap h) r))"

lemma check_after_request [simp]: "check_committed_entry (client_request v i n) = check_committed_entry n"
  by (simp add: check_committed_entry_def client_request_def)

lemma http_registry:
  assumes "host_serves h"
  shows "fst (http now req h) = fst (registry_op now req (committed_registry h)) \<and>
    committed_registry (snd (http now req h)) = fst (snd (registry_op now req (committed_registry h))) \<and>
    host_serves (snd (http now req h))"
proof -
  obtain r where r: "check_committed_entry (node h) = Inr r" "r < length (heap h)" "registry_ok (heap h ! r)"
    using assms by (auto simp: host_serves_def deref_def split: sum.splits)
  obtain reply S requested where S: "registry_op now req (heap h ! r) = (reply, S, requested)" by (metis prod_cases3)
  have "registry_ok S" using registry_op_ok [OF r(3), of now req] S by simp
  then show ?thesis
    using r S by (auto simp: http_def on_registry_def committed_registry_def host_serves_def deref_def discover_endpoint_def)
qed

interpretation node_dir: directory_service http "\<lambda>h. directory_of (committed_registry h)" host_serves
proof
  fix h :: "'a host" and now req
  assume h: "host_serves h"
  then have ok: "registry_ok (committed_registry h)"
    by (auto simp: host_serves_def committed_registry_def split: sum.splits)
  show "host_serves (snd (http now req h))" using http_registry [OF h] by blast
  show "dir_reply req (directory_of (committed_registry h)) (fst (http now req h))"
    using http_registry [OF h] registry_op_refines(1) [OF ok] by simp
  show "directory_of (committed_registry (snd (http now req h))) = dir_next now req (directory_of (committed_registry h))"
    using http_registry [OF h] registry_op_refines(2) [OF ok] by simp
qed

section \<open>Properties\<close>


definition three_nodes :: "(string \<times> int) list" where
  "three_nodes = [(''127.0.0.1:5557'', 100000), (''127.0.0.1:5567'', 100000), (''127.0.0.1:5577'', 100000)]"



end
