(* ===== verification/Replication.thy ===== *)
theory Replication
  imports NameServer
begin

text \<open>
  The turns of name servers when nothing goes wrong: a leader takes a request from its queue, sends
  the entry, sends it again when it has not heard of the others for long, reads the acknowledgements
  and commits; a follower appends, acknowledges, commits and hears heartbeats.

  In every predicate here \<open>u\<close> is when the leader last sent a heartbeat and \<open>t\<close> the time of the turn.
\<close>

declare jsonify.simps [simp del]

section \<open>Runs\<close>

text \<open>Actions for one host after the other.\<close>

lemma each_host:
  assumes "\<And>j c'. j < length c \<Longrightarrow> length c' = length c \<Longrightarrow> c' ! j = c ! j \<Longrightarrow>
      \<exists>h. cluster_run (as j) c' = Some (Inr (c'[j := h])) \<and> R j h"
  shows "\<exists>c'. cluster_run (concat (map as [0..<length c])) c = Some (Inr c') \<and> length c' = length c \<and>
      (\<forall>j < length c. R j (c' ! j))"
proof -
  have "\<exists>c'. cluster_run (concat (map as [0..<k])) c = Some (Inr c') \<and> length c' = length c \<and>
      (\<forall>j < k. R j (c' ! j)) \<and> (\<forall>j. k \<le> j \<longrightarrow> j < length c \<longrightarrow> c' ! j = c ! j)" if "k \<le> length c" for k
    using that
  proof (induction k)
    case (Suc k)
    then obtain c1 where c1: "cluster_run (concat (map as [0..<k])) c = Some (Inr c1)" "length c1 = length c"
      "\<forall>j < k. R j (c1 ! j)" "\<forall>j. k \<le> j \<longrightarrow> j < length c \<longrightarrow> c1 ! j = c ! j" by auto
    obtain h where h: "cluster_run (as k) c1 = Some (Inr (c1[k := h]))" "R k h"
      using assms [of k c1] c1(2,4) Suc.prems by auto
    have "cluster_run (concat (map as [0..<Suc k])) c = Some (Inr (c1[k := h]))"
      using cluster_run_then [OF c1(1), of "as k"] h(1) by simp
    moreover have "\<forall>j < Suc k. R j (c1[k := h] ! j)"
      using c1(2,3) h(2) Suc.prems by (auto simp: less_Suc_eq nth_list_update)
    ultimately show ?case using c1(2,4) by (intro exI [of _ "c1[k := h]"]) auto
  qed simp
  from this [of "length c"] show ?thesis by auto
qed

section \<open>Passing messages on\<close>

text \<open>What a host makes of a message.\<close>

fun receiver_of :: "'v message \<Rightarrow> string option" where
  "receiver_of (RV m) = m_receiver m"
| "receiver_of (AE m) = m_receiver m"

definition recv :: "'f registry message \<Rightarrow> 'f host \<Rightarrow> 'f host" where
  "recv m h =
     (if receiver_of m = Some (my_id (node h)) \<or> receiver_of m = None then
        h\<lparr>node := (node h)\<lparr>listener := listener (node h) @ [jsonify (map_message (\<lambda>_. length (heap h)) m)]\<rparr>,
          heap := heap h @ (case message_value m of None \<Rightarrow> [] | Some v \<Rightarrow> [v])\<rparr>
      else h)"

lemma host_receive_recv: "host_receive (jsonify m) h = Inr (recv m h)"
proof -
  have "bindE (getitem (jsonify m) ''receiver'') opt_str = Inr (receiver_of m)"
    by (cases m) (simp_all add: jsonify_receiver del: jsonify.simps)
  then show ?thesis by (simp add: host_receive_def import_jsonify recv_def del: jsonify.simps)
qed

lemma recv_same [simp]:
  "incoming (recv m h) = incoming h" "my_id (node (recv m h)) = my_id (node h)" "monitoring (recv m h) = monitoring h"
  by (simp_all add: recv_def)

lemma recv_incoming [simp]: "recv m (h\<lparr>incoming := x\<rparr>) = (recv m h)\<lparr>incoming := x\<rparr>"
  by (simp add: recv_def)

lemma fold_recv_incoming: "fold recv ms (h\<lparr>incoming := x\<rparr>) = (fold recv ms h)\<lparr>incoming := x\<rparr>"
  by (induction ms arbitrary: h) simp_all

lemma fold_recv_same: "incoming (fold recv ms h) = incoming h"
  by (induction ms arbitrary: h) simp_all

lemma talker_empty: "talker (node h) = [] \<Longrightarrow> h\<lparr>node := (node h)\<lparr>talker := []\<rparr>\<rparr> = h"
proof -
  assume "talker (node h) = []"
  then have "(node h)\<lparr>talker := []\<rparr> = node h" by (cases "node h") simp
  then show ?thesis by (cases h) simp
qed

lemma update_twice: "xs[i := xs[i := xs ! i @ [a]] ! i @ b] = xs[i := xs ! i @ a # b]"
  by (cases "i < length xs") (simp_all add: list_update_beyond)

lemma publish_all:
  assumes "i < length c" "talker (node (c ! i)) = map jsonify ms"
  shows "cluster_run (replicate (length ms) (Publish i [])) c =
    Some (Inr (map (\<lambda>h. h\<lparr>incoming := (incoming h)[i := incoming h ! i @
        map (\<lambda>m. jsonify (map_message (deref (heap (c ! i))) m)) ms]\<rparr>)
      (c[i := (c ! i)\<lparr>node := (node (c ! i))\<lparr>talker := []\<rparr>\<rparr>])))"
  using assms
proof (induction ms arbitrary: c)
  case Nil
  then have "c[i := (c ! i)\<lparr>node := (node (c ! i))\<lparr>talker := []\<rparr>\<rparr>] = c"
    by (simp add: talker_empty)
  moreover have "map (\<lambda>h. h\<lparr>incoming := (incoming h)[i := incoming h ! i @ []]\<rparr>) c = c"
    by (simp add: map_idI)
  ultimately show ?case by (simp only: list.size replicate_0 list.map cluster_run.simps)
next
  case (Cons m ms)
  let ?h = "c ! i" and ?d = "jsonify (map_message (deref (heap (c ! i))) m)"
  let ?c1 = "publish_to i ?d [] (c[i := ?h\<lparr>node := (node ?h)\<lparr>talker := map jsonify ms\<rparr>\<rparr>])"
  have step: "cluster_act (Publish i []) c = Some (Inr ?c1)"
    using Cons.prems by (simp add: export_jsonify Let_def)
  have p: "publish_to i d [] c' = map (put_incoming i d) c'" for d and c' :: "'a cluster"
    by (rule nth_equalityI) (simp_all add: publish_to_def nth_enumerate_eq)
  have h1: "?c1 ! i = put_incoming i ?d (?h\<lparr>node := (node ?h)\<lparr>talker := map jsonify ms\<rparr>\<rparr>)"
    using Cons.prems by (simp add: p)
  have "talker (node (?c1 ! i)) = map jsonify ms" "heap (?c1 ! i) = heap ?h"
    unfolding h1 by (simp_all add: put_incoming_def)
  moreover have "i < length ?c1" using Cons.prems by (simp add: p)
  ultimately have "cluster_run (replicate (length ms) (Publish i [])) ?c1 =
    Some (Inr (map (\<lambda>h. h\<lparr>incoming := (incoming h)[i := incoming h ! i @
        map (\<lambda>m. jsonify (map_message (deref (heap ?h)) m)) ms]\<rparr>)
      (?c1[i := (?c1 ! i)\<lparr>node := (node (?c1 ! i))\<lparr>talker := []\<rparr>\<rparr>])))"
    using Cons.IH [of ?c1] by simp
  moreover have "map (\<lambda>h. h\<lparr>incoming := (incoming h)[i := incoming h ! i @ ds]\<rparr>)
      (?c1[i := (?c1 ! i)\<lparr>node := (node (?c1 ! i))\<lparr>talker := []\<rparr>\<rparr>]) =
    map (\<lambda>h. h\<lparr>incoming := (incoming h)[i := incoming h ! i @ ?d # ds]\<rparr>)
      (c[i := ?h\<lparr>node := (node ?h)\<lparr>talker := []\<rparr>\<rparr>])" for ds
    by (rule nth_equalityI) (use Cons.prems in \<open>auto simp: p put_incoming_def nth_list_update update_twice\<close>)
  ultimately show ?case using step by (simp del: cluster_act.simps)
qed

lemma deliver_all:
  assumes "i < length c" "j < length c" "i < length (incoming (c ! j))" "incoming (c ! j) ! i = map jsonify ms"
  shows "cluster_run (replicate (length ms) (Deliver i j)) c =
    Some (Inr (c[j := (fold recv ms (c ! j))\<lparr>incoming := (incoming (c ! j))[i := []]\<rparr>]))"
  using assms
proof (induction ms arbitrary: c)
  case Nil
  have "(incoming (c ! j))[i := []] = incoming (c ! j)" using Nil by (metis list.map_disc_iff list_update_id)
  then have "(c ! j)\<lparr>incoming := (incoming (c ! j))[i := []]\<rparr> = c ! j" by simp
  then show ?case by simp
next
  case (Cons m ms)
  let ?h = "c ! j"
  let ?h1 = "(recv m ?h)\<lparr>incoming := (incoming ?h)[i := map jsonify ms]\<rparr>"
  have step: "cluster_act (Deliver i j) c = Some (Inr (c[j := ?h1]))"
    using Cons.prems by (simp add: at_host_def host_receive_recv)
  have "cluster_run (replicate (length ms) (Deliver i j)) (c[j := ?h1]) =
    Some (Inr ((c[j := ?h1])[j := (fold recv ms (c[j := ?h1] ! j))\<lparr>incoming := (incoming (c[j := ?h1] ! j))[i := []]\<rparr>]))"
    using Cons.prems by (intro Cons.IH) auto
  then show ?case using step Cons.prems by (simp add: fold_recv_incoming del: cluster_act.simps)
qed

text \<open>Node \<open>i\<close> says all it has to say and everyone reads it.\<close>

definition exchange :: "nat \<Rightarrow> nat \<Rightarrow> nat \<Rightarrow> 'f act list" where
  "exchange n i k = replicate k (Publish i []) @ concat (map (\<lambda>j. replicate k (Deliver i j)) [0..<n])"

definition silent_links :: "'f cluster \<Rightarrow> bool" where
  "silent_links c \<longleftrightarrow> (\<forall>h \<in> set c. incoming h = replicate (length c) [])"

lemma exchange_run:
  assumes "silent_links c" "i < length c" "talker (node (c ! i)) = map jsonify ms"
  shows "\<exists>c'. cluster_run (exchange (length c) i (length ms)) c = Some (Inr c') \<and> length c' = length c \<and>
    silent_links c' \<and>
    (\<forall>j < length c. c' ! j = fold recv (map (map_message (deref (heap (c ! i)))) ms)
      (if j = i then (c ! j)\<lparr>node := (node (c ! j))\<lparr>talker := []\<rparr>\<rparr> else c ! j))"
proof -
  let ?ms = "map (map_message (deref (heap (c ! i)))) ms"
  let ?c0 = "c[i := (c ! i)\<lparr>node := (node (c ! i))\<lparr>talker := []\<rparr>\<rparr>]"
  define c1 where "c1 = map (\<lambda>h. h\<lparr>incoming := (incoming h)[i := incoming h ! i @ map jsonify ?ms]\<rparr>) ?c0"
  have p: "cluster_run (replicate (length ms) (Publish i [])) c = Some (Inr c1)"
    using publish_all [OF assms(2,3)] by (simp add: c1_def comp_def)
  have l: "length c1 = length c" by (simp add: c1_def)
  have inc: "incoming (c ! j) = replicate (length c) []" if "j < length c" for j
    using assms(1) that by (simp add: silent_links_def)
  have c1: "c1 ! j = (if j = i then (c ! j)\<lparr>node := (node (c ! j))\<lparr>talker := []\<rparr>\<rparr> else c ! j)
      \<lparr>incoming := (replicate (length c) [])[i := map jsonify ?ms]\<rparr>" if "j < length c" for j
    using that inc [of j] assms(2) by (simp add: c1_def nth_list_update)
  have "\<exists>c'. cluster_run (concat (map (\<lambda>j. replicate (length ms) (Deliver i j)) [0..<length c1])) c1 = Some (Inr c') \<and>
      length c' = length c1 \<and> (\<forall>j < length c1. c' ! j = (fold recv ?ms
        (if j = i then (c ! j)\<lparr>node := (node (c ! j))\<lparr>talker := []\<rparr>\<rparr> else c ! j))\<lparr>incoming := replicate (length c) []\<rparr>)"
  proof (rule each_host)
    fix j c'
    assume j: "j < length c1" "length c' = length c1" "c' ! j = c1 ! j"
    have "cluster_run (replicate (length ?ms) (Deliver i j)) c' =
        Some (Inr (c'[j := (fold recv ?ms (c' ! j))\<lparr>incoming := (incoming (c' ! j))[i := []]\<rparr>]))"
      by (rule deliver_all) (use j l assms(2) c1 [of j] in auto)
    moreover have "(replicate (length c) [])[i := []] = replicate (length c) ([] :: 'a registry dict list)"
      by (rule nth_equalityI) (simp_all add: nth_list_update assms(2))
    ultimately show "\<exists>h. cluster_run (replicate (length ms) (Deliver i j)) c' = Some (Inr (c'[j := h])) \<and>
        h = (fold recv ?ms (if j = i then (c ! j)\<lparr>node := (node (c ! j))\<lparr>talker := []\<rparr>\<rparr> else c ! j))
          \<lparr>incoming := replicate (length c) []\<rparr>"
      using j l c1 [of j] by (simp add: fold_recv_incoming)
  qed
  then obtain c' where c': "cluster_run (concat (map (\<lambda>j. replicate (length ms) (Deliver i j)) [0..<length c])) c1 = Some (Inr c')"
      "length c' = length c" "\<And>j. j < length c \<Longrightarrow> c' ! j = (fold recv ?ms
        (if j = i then (c ! j)\<lparr>node := (node (c ! j))\<lparr>talker := []\<rparr>\<rparr> else c ! j))\<lparr>incoming := replicate (length c) []\<rparr>"
    using l by auto
  have same: "h\<lparr>incoming := replicate (length c) []\<rparr> = h" if "incoming h = replicate (length c) []" for h :: "'a host"
    using that by (cases h) simp
  have "c' ! j = fold recv ?ms (if j = i then (c ! j)\<lparr>node := (node (c ! j))\<lparr>talker := []\<rparr>\<rparr> else c ! j)" if "j < length c" for j
    using c'(3) [OF that] inc [OF that] by (cases "j = i") (simp_all add: same fold_recv_same)
  moreover have "silent_links c'"
    using c'(2,3) by (auto simp: silent_links_def in_set_conv_nth)
  ultimately show ?thesis
    using c'(1,2) cluster_run_then [OF p] by (auto simp: exchange_def)
qed

section \<open>Turns of a settled node\<close>

definition append_msg :: "int \<Rightarrow> int \<Rightarrow> int \<Rightarrow> 'v entry \<Rightarrow> 'v raft_node \<Rightarrow> string \<Rightarrow> 'v AppendEntriesMessage" where
  "append_msg ts index t e n receiver =
     \<lparr>m_timestamp = ts div 1000000, m_type = AppendEntries, m_term = current_term n,
       m_sender = my_id n, m_receiver = Some receiver, m_direction = Request,
       ae_results = \<lparr>ae_term = None, success = None\<rparr>, m_leader_id = Some (my_id n),
       prev_log_index = Some index, prev_log_term = Some t, entries = Some e, leader_commit = commit_index n\<rparr>"

definition committal_msg :: "int \<Rightarrow> 'v raft_node \<Rightarrow> string \<Rightarrow> 'v AppendEntriesMessage" where
  "committal_msg ts n receiver =
     \<lparr>m_timestamp = ts div 1000000, m_type = Committal, m_term = current_term n,
       m_sender = my_id n, m_receiver = Some receiver, m_direction = Request,
       ae_results = \<lparr>ae_term = None, success = None\<rparr>, m_leader_id = Some (my_id n),
       prev_log_index = Some (last_applied_index n), prev_log_term = Some (last_applied_term n),
       entries = None, leader_commit = commit_index n\<rparr>"

definition ack_msg :: "int \<Rightarrow> string \<Rightarrow> 'v raft_node \<Rightarrow> 'v AppendEntriesMessage" where
  "ack_msg ts receiver n =
     \<lparr>m_timestamp = ts div 1000000, m_type = Acknowledge, m_term = current_term n,
       m_sender = my_id n, m_receiver = Some receiver, m_direction = Response,
       ae_results = \<lparr>ae_term = Some (current_term n), success = Some True\<rparr>, m_leader_id = leader_id n,
       prev_log_index = Some (last_applied_index n), prev_log_term = Some (last_applied_term n),
       entries = None, leader_commit = commit_index n\<rparr>"

lemma send_msgs:
  "send_append_entries ts i t e (Some r) n = send_message (AE (append_msg ts i t e n r)) n"
  "send_committal ts i (Some r) n = send_message (AE (committal_msg ts n r)) n"
  "send_acknowledge ts (Some r) True n = send_message (AE (ack_msg ts r n)) n"
  by (simp_all add: send_append_entries_def send_committal_def send_acknowledge_def append_msg_def committal_msg_def
      ack_msg_def)

lemma class_msgs [simp]:
  "class_ok (AE (append_msg ts i t e n r))" "class_ok (AE (committal_msg ts n r))" "class_ok (AE (ack_msg ts r n))"
  by (simp_all add: append_msg_def committal_msg_def ack_msg_def)

lemma get_message_Cons:
  "listener n = jsonify m # ds \<Longrightarrow> class_ok m \<Longrightarrow> get_message n = Inr (Some m, n\<lparr>listener := ds\<rparr>)"
  by (simp add: get_message_def parse_jsonify)

lemma py_get_nth: "0 \<le> i \<Longrightarrow> i < int (length xs) \<Longrightarrow> py_get xs i = Inr (xs ! nat i)"
  by (simp add: py_get_def py_index_def)

lemma py_set_nth: "0 \<le> i \<Longrightarrow> i < int (length xs) \<Longrightarrow> py_set xs i x = Inr (xs[nat i := x])"
  by (simp add: py_set_def py_index_def)

lemma list_index_nth: "distinct xs \<Longrightarrow> j < length xs \<Longrightarrow> list_index xs (xs ! j) = Inr (int j)"
proof (induction xs arbitrary: j)
  case (Cons y ys)
  then show ?case by (cases j) auto
qed simp

lemma py_get_max: "log n \<noteq> [] \<Longrightarrow> py_get (log n) (log_max_index n) = Inr (last (log n))"
proof -
  assume "log n \<noteq> []"
  moreover have "nat (int (length (log n)) - 1) = length (log n) - 1" by arith
  ultimately show ?thesis by (simp add: py_get_nth log_max_index_def last_conv_nth Suc_leI)
qed

text \<open>The loop that sends an entry to every node that is up to date.\<close>

lemma broadcast_loop:
  assumes "all_ids n = ids1 @ ids2" "next_index n = xs @ replicate (length ids2) None" "length xs = length ids1"
  shows "foldE (broadcast_to ts i t e) (zip (map int [length ids1..<length ids1 + length ids2]) (replicate (length ids2) None)) n =
    Inr (n\<lparr>talker := talker n @ map (\<lambda>r. jsonify (AE (append_msg ts i t e n r))) ids2,
           next_index := xs @ replicate (length ids2) (Some (log_max_index n))\<rparr>)"
  using assms
proof (induction ids2 arbitrary: n ids1 xs)
  case Nil
  then show ?case by (cases n) simp
next
  case (Cons r ids2)
  let ?n = "n\<lparr>talker := talker n @ [jsonify (AE (append_msg ts i t e n r))],
      next_index := (xs @ [Some (log_max_index n)]) @ replicate (length ids2) None\<rparr>"
  have step: "broadcast_to ts i t e (int (length ids1), None) n = Inr ?n"
    using Cons.prems
    by (simp add: broadcast_to_def py_get_nth py_set_nth send_msgs Let_def)
      (simp add: send_message_def log_max_index_def list_update_append)
  have same: "log_max_index ?n = log_max_index n" "append_msg ts i t e ?n = append_msg ts i t e n"
    by (simp_all add: log_max_index_def append_msg_def fun_eq_iff)
  have "foldE (broadcast_to ts i t e) (zip (map int [length (ids1 @ [r])..<length (ids1 @ [r]) + length ids2]) (replicate (length ids2) None)) ?n =
    Inr (?n\<lparr>talker := talker ?n @ map (\<lambda>r. jsonify (AE (append_msg ts i t e ?n r))) ids2,
           next_index := (xs @ [Some (log_max_index n)]) @ replicate (length ids2) (Some (log_max_index ?n))\<rparr>)"
    by (rule Cons.IH) (use Cons.prems in simp_all)
  then show ?case
    using step unfolding same by (simp add: upt_conv_Cons del: upt_Suc)
qed

text \<open>
  A leader at rest, with no heartbeat due. It is \<open>fresh\<close> when there is nothing to resend: it has
  heard lately of every node that lacks an entry.
\<close>

definition leads_at :: "int \<Rightarrow> int \<Rightarrow> 'v raft_node \<Rightarrow> bool" where
  "leads_at u t n \<longleftrightarrow> \<not> terminate n \<and> current_role n = Leader \<and> length (next_index n) = length (all_ids n) \<and>
     length (match_index n) = length (all_ids n) \<and> length (heard_from n) = length (all_ids n) \<and>
     frame n = Leading u \<and> u \<le> t \<and> t - u \<le> heartbeat_frequency"

definition fresh :: "int \<Rightarrow> 'v raft_node \<Rightarrow> bool" where
  "fresh t n \<longleftrightarrow> (\<forall>i < length (next_index n). next_index n ! i \<noteq> None \<longrightarrow> t - heard_from n ! i \<le> resend_time)"

lemma fresh_none: "next_index n = replicate k None \<Longrightarrow> fresh t n"
  by (simp add: fresh_def)

lemma resend_nothing:
  assumes "length (heard_from n) = length (next_index n)" "fresh t0 n"
  shows "foldE (resend_to t0) (py_enumerate (next_index n)) n = Inr n"
proof -
  have "resend_to t0 (i, x) n = Inr n" if "(i, x) \<in> set (py_enumerate (next_index n))" for i x
  proof -
    have i: "0 \<le> i" "i < int (length (heard_from n))" using py_enumerate_in [OF that] assms(1) by auto
    have "x = next_index n ! nat i" using that i(1) by (auto simp: py_enumerate_def set_zip)
    then have "x \<noteq> None \<Longrightarrow> \<not> t0 - heard_from n ! nat i > resend_time"
      using assms i by (auto simp: fresh_def nat_less_iff not_less)
    with i show ?thesis by (cases x) (simp_all add: resend_to_def py_get_nth)
  qed
  then have each: "\<forall>p \<in> set (py_enumerate (next_index n)). resend_to t0 p n = Inr n" by auto
  have "(\<forall>p \<in> set ps. resend_to t0 p n = Inr n) \<Longrightarrow> foldE (resend_to t0) ps n = Inr n" for ps
    by (induction ps) auto
  from this [OF each] show ?thesis .
qed

lemma leads_turn:
  assumes "leads_at u t n" "fresh t n" "frame n = Leading hb"
  shows "raft_turn v t t n = bindE (leader_receive t n) (\<lambda>(returns, n').
      if returns then Inr (n'\<lparr>frame := Run\<rparr>)
      else bindE (leader_request t n') (\<lambda>n'. Inr (n'\<lparr>frame := Leading hb\<rparr>)))"
proof -
  have "foldE (resend_to t) (py_enumerate (next_index n)) n = Inr n"
    using assms by (intro resend_nothing) (simp_all add: leads_at_def)
  moreover have "\<not> terminate n" "current_role n = Leader" "t - hb \<le> heartbeat_frequency"
    using assms(1,3) by (simp_all add: leads_at_def)
  ultimately show ?thesis
    using assms(3) by (simp add: raft_turn_def check_role_def leader_turn_def)
qed

lemma same_frame: "frame n = f \<Longrightarrow> n\<lparr>frame := f\<rparr> = n"
  by (cases n) simp

lemma same_fields: "talker n = x \<Longrightarrow> n\<lparr>talker := x\<rparr> = n" "listener n = y \<Longrightarrow> n\<lparr>listener := y\<rparr> = n"
  by (cases n; simp)+

text \<open>The leader takes a request from its queue.\<close>

lemma leader_proposes:
  assumes "leads_at u t n" "listener n = []" "client_queue n = [e]" "log n \<noteq> []" "distinct (all_ids n)"
    "l < length (all_ids n)" "all_ids n ! l = my_id n" "next_index n = replicate (length (all_ids n)) None"
  shows "raft_turn v t t n = Inr (n\<lparr>client_queue := [], log := log n @ [e], log_hash := (log_hash n)(e_id e \<mapsto> e),
      talker := talker n @ map (\<lambda>r. jsonify (AE (append_msg t (log_max_index n) (e_term (last (log n))) e n r))) (all_ids n),
      next_index := (replicate (length (all_ids n)) (Some (log_max_index n + 1)))[l := None],
      match_index := (match_index n)[l := log_max_index n + 1]\<rparr>)"
proof -
  obtain hb where hb: "frame n = Leading hb" using assms(1) by (auto simp: leads_at_def)
  let ?n1 = "n\<lparr>client_queue := [], log := log n @ [e], log_hash := (log_hash n)(e_id e \<mapsto> e)\<rparr>"
  let ?msgs = "map (\<lambda>r. jsonify (AE (append_msg t (log_max_index n) (e_term (last (log n))) e n r))) (all_ids n)"
  have same: "append_msg t i x e ?n1 = append_msg t i x e n" "log_max_index ?n1 = log_max_index n + 1" for i x
    by (simp_all add: append_msg_def fun_eq_iff log_max_index_def)
  have loop: "foldE (broadcast_to t i x e) (py_enumerate (replicate (length (all_ids n)) None)) ?n1 =
    Inr (?n1\<lparr>talker := talker n @ map (\<lambda>r. jsonify (AE (append_msg t i x e n r))) (all_ids n),
      next_index := replicate (length (all_ids n)) (Some (log_max_index n + 1))\<rparr>)" for i x
    using broadcast_loop [of ?n1 "[]" "all_ids n" "[]" t i x e] assms(8)
    by (simp add: py_enumerate_def same)
  have a: "append_entry e False None (n\<lparr>client_queue := []\<rparr>) = Inr ((log_max_index n, e_term (last (log n))), ?n1)"
    using assms(4) by (simp add: append_entry_def py_get_last log_max_index_def)
  have idx: "list_index (all_ids n) (my_id n) = Inr (int l)"
    using list_index_nth [OF assms(5,6)] assms(7) by simp
  have len: "length (match_index n) = length (all_ids n)" using assms(1) by (simp add: leads_at_def)
  have mx: "log_max_index (?n1\<lparr>talker := m, next_index := x\<rparr>) = log_max_index n + 1" for m x
    by (simp add: log_max_index_def)
  have b: "broadcast_append_entries t e (n\<lparr>client_queue := []\<rparr>) =
    Inr (?n1\<lparr>talker := talker n @ ?msgs, next_index := (replicate (length (all_ids n)) (Some (log_max_index n + 1)))[l := None],
      match_index := (match_index n)[l := log_max_index n + 1]\<rparr>)"
    using assms(6,8) idx len
    by (simp add: broadcast_append_entries_def a loop get_node_index_def py_set_nth mx)
  have r: "leader_receive t n = Inr (False, n)" using assms(2) by (simp add: leader_receive_def get_message_def)
  have q: "get_client_request n = (Some e, n\<lparr>client_queue := []\<rparr>)" using assms(3) by (simp add: get_client_request_def)
  show ?thesis
    using leads_turn [OF assms(1) fresh_none [OF assms(8)] hb, of v] by (simp add: r leader_request_def q b same_frame [OF hb] hb)
qed

text \<open>A leader reads its own requests and does nothing.\<close>

lemma leader_ignores:
  assumes "leads_at u t n" "client_queue n = []" "listener n = jsonify (AE m) # ds" "class_ok (AE m)"
    "m_direction m = Request" "fresh t n"
  shows "raft_turn v t t n = Inr (n\<lparr>listener := ds\<rparr>)"
proof -
  obtain hb where hb: "frame n = Leading hb" using assms(1) by (auto simp: leads_at_def)
  show ?thesis
    using assms(2,5) leads_turn [OF assms(1,6) hb, of v] get_message_Cons [OF assms(3,4)]
    by (simp add: leader_receive_def leader_message_def leader_request_def get_client_request_def same_frame hb)
qed

text \<open>An acknowledgement of the last entry.\<close>

lemma leader_ack_progress:
  assumes "leads_at u t n" "success (ae_results m) = Some True" "m_sender m = all_ids n ! j" "distinct (all_ids n)"
    "j < length (all_ids n)" "next_index n ! j = Some (log_max_index n)"
  shows "leader_ack t m n = commit_committable t (n\<lparr>heard_from := (heard_from n)[j := t],
    match_index := (match_index n)[j := log_max_index n], next_index := (next_index n)[j := None]\<rparr>)"
proof -
  have len: "length (next_index n) = length (all_ids n)" "length (match_index n) = length (all_ids n)"
    "length (heard_from n) = length (all_ids n)" using assms(1) by (simp_all add: leads_at_def)
  have idx: "list_index (all_ids n) (m_sender m) = Inr (int j)" using list_index_nth [OF assms(4,5)] assms(3) by simp
  have mx: "log_max_index (n\<lparr>heard_from := h\<rparr>) = log_max_index n"
    "log_max_index (n\<lparr>heard_from := h, match_index := x\<rparr>) = log_max_index n" for h x
    by (simp_all add: log_max_index_def)
  show ?thesis
    using assms(2,5,6) len idx
    by (simp add: leader_ack_def get_node_index_def py_set_nth py_get_nth ack_progress_def catch_up_def mx)
qed

lemma leader_acked:
  assumes "leads_at u t n" "client_queue n = []" "listener n = jsonify (AE m) # ds" "class_ok (AE m)"
    "m_direction m = Response" "m_type m = Acknowledge" "success (ae_results m) = Some True"
    "m_sender m = all_ids n ! j" "distinct (all_ids n)" "j < length (all_ids n)"
    "next_index n ! j = Some (log_max_index n)" and fresh: "fresh t n"
  defines "n1 \<equiv> n\<lparr>listener := ds, heard_from := (heard_from n)[j := t], match_index := (match_index n)[j := log_max_index n],
    next_index := (next_index n)[j := None]\<rparr>"
  shows "raft_turn v t t n = commit_committable t n1"
proof -
  obtain hb where hb: "frame n = Leading hb" using assms(1) by (auto simp: leads_at_def)
  have n: "leads_at u t (n\<lparr>listener := ds\<rparr>)" "log_max_index (n\<lparr>listener := ds\<rparr>) = log_max_index n"
    using assms(1) by (simp_all add: leads_at_def log_max_index_def)
  have ack: "leader_ack t m (n\<lparr>listener := ds\<rparr>) = commit_committable t n1"
    using leader_ack_progress [OF n(1), of m j] assms(7-11) n(2) by (simp add: n1_def)
  have c: "client_queue n' = [] \<and> frame n' = Leading hb" if "commit_committable t n1 = Inr n'" for n'
  proof -
    have "client_queue n1 = [] \<and> frame n1 = Leading hb" using assms(2) hb by (simp add: n1_def)
    with that show ?thesis
      by (auto simp: commit_committable_def broadcast_commmit_entries_def Let_def bindE_eq_Inr commit_entry_def
          commit_to_def send_committal_def split: if_splits
          elim!: foldE_inv [where P = "\<lambda>n. client_queue n = [] \<and> frame n = Leading hb"])
  qed
  have "raft_turn v t t n = bindE (commit_committable t n1)
    (\<lambda>n'. bindE (leader_request t n') (\<lambda>n'. Inr (n'\<lparr>frame := Leading hb\<rparr>)))"
    using leads_turn [OF assms(1) fresh hb, of v] get_message_Cons [OF assms(3,4)] assms(5,6)
    by (simp add: leader_receive_def leader_message_def ack bindE_assoc)
  then show ?thesis
    using c by (cases "commit_committable t n1") (auto simp: leader_request_def get_client_request_def same_frame)
qed

lemma commit_waits:
  assumes "length (match_index n) = length (all_ids n)" "x \<in> set (match_index n)" "x \<le> commit_index n"
  shows "commit_committable t n = Inr n"
proof -
  obtain j where "j < length (match_index n)" "match_index n ! j = x" using assms(2) by (auto simp: in_set_conv_nth)
  with assms show ?thesis by (intro no_commit) auto
qed

lemma commit_loop:
  assumes "all_ids n = ids1 @ ids2"
  shows "foldE (commit_to ts) (zip (map int [length ids1..<length ids1 + length ids2]) (replicate (length ids2) k)) n =
    Inr (n\<lparr>talker := talker n @ map (\<lambda>r. jsonify (AE (committal_msg ts n r))) ids2\<rparr>)"
  using assms
proof (induction ids2 arbitrary: n ids1)
  case Nil
  then show ?case by (cases n) simp
next
  case (Cons r ids2)
  let ?n = "n\<lparr>talker := talker n @ [jsonify (AE (committal_msg ts n r))]\<rparr>"
  have step: "commit_to ts (int (length ids1), k) n = Inr ?n"
    using Cons.prems by (simp add: commit_to_def py_get_nth send_msgs) (simp add: send_message_def)
  have same: "committal_msg ts ?n = committal_msg ts n" by (simp add: committal_msg_def fun_eq_iff)
  have "foldE (commit_to ts) (zip (map int [length (ids1 @ [r])..<length (ids1 @ [r]) + length ids2]) (replicate (length ids2) k)) ?n =
    Inr (?n\<lparr>talker := talker ?n @ map (\<lambda>r. jsonify (AE (committal_msg ts ?n r))) ids2\<rparr>)"
    by (rule Cons.IH) (use Cons.prems in simp)
  then show ?case using step unfolding same by (simp add: upt_conv_Cons del: upt_Suc)
qed

text \<open>When the last node has acknowledged the last entry, it is committed.\<close>

definition committed :: "int \<Rightarrow> 'v raft_node \<Rightarrow> 'v raft_node" where
  "committed t n =
     (let n = commit_entry (log_max_index n) (e_term (last (log n))) n
      in n\<lparr>talker := talker n @ map (\<lambda>r. jsonify (AE (committal_msg t n r))) (all_ids n)\<rparr>)"

lemma commit_all:
  assumes "match_index n = replicate (length (all_ids n)) (log_max_index n)" "all_ids n \<noteq> []"
    "commit_index n < log_max_index n" "log n \<noteq> []"
  shows "commit_committable t n = Inr (committed t n)"
proof -
  have "max_committable_index n = log_max_index n"
    using assms(1,2) max_committable_Min [of n] by simp
  moreover have "py_get (log n) (log_max_index n) = Inr (last (log n))"
    by (rule py_get_max [OF assms(4)])
  moreover have "foldE (commit_to t) (py_enumerate (match_index n)) (commit_entry i x n) =
      Inr ((commit_entry i x n)\<lparr>talker := talker (commit_entry i x n) @
        map (\<lambda>r. jsonify (AE (committal_msg t (commit_entry i x n) r))) (all_ids n)\<rparr>)" for i x
    using commit_loop [of "commit_entry i x n" "[]" "all_ids n" t "log_max_index n"] assms(1)
    by (simp add: py_enumerate_def)
  ultimately show ?thesis
    using assms(3) by (simp add: commit_committable_def broadcast_commmit_entries_def committed_def Let_def)
qed

section \<open>Turns of a follower\<close>

definition follows_at :: "int \<Rightarrow> int \<Rightarrow> 'v raft_node \<Rightarrow> bool" where
  "follows_at u t n \<longleftrightarrow> \<not> terminate n \<and> current_role n = Follower \<and>
     (\<exists>h. frame n = Following h \<and> u \<le> h \<and> t - u \<le> heartbeat_frequency) \<and>
     heartbeat_frequency \<le> election_timeout n"

lemma follows_at_code [code]:
  "follows_at u t n \<longleftrightarrow> \<not> terminate n \<and> current_role n = Follower \<and>
     (case frame n of Following h \<Rightarrow> u \<le> h \<and> t - u \<le> heartbeat_frequency | _ \<Rightarrow> False) \<and>
     heartbeat_frequency \<le> election_timeout n"
  by (auto simp: follows_at_def split: frame.splits)

lemma follower_commits:
  assumes "follows_at u t n" "listener n = [jsonify (AE m)]" "class_ok (AE m)" "m_direction m = Request"
    "m_type m = Committal" "prev_log_index m = Some i" "prev_log_term m = Some x"
  shows "raft_turn v t t n = Inr (commit_entry i x (n\<lparr>listener := []\<rparr>))"
proof -
  obtain h where h: "frame n = Following h" "t - h \<le> election_timeout n" using assms(1) by (auto simp: follows_at_def)
  have "election_timeout (commit_entry i x (n\<lparr>listener := []\<rparr>)) = election_timeout n"
    "frame (commit_entry i x (n\<lparr>listener := []\<rparr>)) = Following h" using h by (simp_all add: commit_entry_def)
  with assms h show ?thesis
    using get_message_Cons [OF assms(2,3)]
    by (simp add: raft_turn_def follows_at_def check_role_def follower_turn_def follower_message_def needed_def same_frame)
qed

section \<open>The phases of a replication\<close>

lemma host_turn_eq:
  "raft_turn (length (heap h)) t0 t1 (node h) = Inr n \<Longrightarrow> host_turn t0 t1 h = Inr (h\<lparr>node := n, heap := heap h @ [[]]\<rparr>)"
  by (simp add: host_turn_def)

lemma recv_addressed:
  assumes "distinct xs" "\<And>s. receiver_of (f s) = Some s"
  shows "fold recv (map f xs) h = (if my_id (node h) \<in> set xs then recv (f (my_id (node h))) h else h)"
  using assms(1)
proof (induction xs arbitrary: h)
  case (Cons s xs)
  show ?case
  proof (cases "s = my_id (node h)")
    case True
    with Cons show ?thesis by simp
  next
    case False
    then have "recv (f s) h = h" by (simp add: recv_def assms(2))
    with False Cons show ?thesis by simp
  qed
qed simp

text \<open>What a host knows: its log up to index \<open>k\<close>, and that this entry is the registry \<open>S\<close>.\<close>

definition holds :: "string list \<Rightarrow> int \<Rightarrow> nat \<Rightarrow> int \<Rightarrow> int \<Rightarrow> 'f registry \<Rightarrow> 'f host \<Rightarrow> bool" where
  "holds ids T k c x S h \<longleftrightarrow> all_ids (node h) = ids \<and> listener (node h) = [] \<and> client_queue (node h) = [] \<and>
     current_term (node h) = T \<and> length (log (node h)) = Suc k \<and> commit_index (node h) = c \<and>
     e_term (last (log (node h))) = x \<and> e_entry (last (log (node h))) < length (heap h) \<and>
     heap h ! e_entry (last (log (node h))) = S"

text \<open>
  A leader with its last entry proposed and acknowledged by the nodes of \<open>P\<close>; it is \<open>waiting\<close> when
  it has nothing to resend, and has then heard of \<open>P\<close> just now.
\<close>

definition proposed :: "int \<Rightarrow> int \<Rightarrow> nat \<Rightarrow> string list \<Rightarrow> int \<Rightarrow> nat \<Rightarrow> 'f registry \<Rightarrow> nat set \<Rightarrow> 'f host \<Rightarrow> bool" where
  "proposed u t l ids T K S P h \<longleftrightarrow> holds ids T (Suc K) (int K) T S h \<and> leads_at u t (node h) \<and> my_id (node h) = ids ! l \<and>
     e_term (log (node h) ! K) = T \<and>
     match_index (node h) = map (\<lambda>i. if i = l \<or> i \<in> P then int K + 1 else int K) [0..<length ids] \<and>
     next_index (node h) = map (\<lambda>i. if i = l \<or> i \<in> P then None else Some (int K + 1)) [0..<length ids]"

definition waiting :: "int \<Rightarrow> int \<Rightarrow> nat \<Rightarrow> string list \<Rightarrow> int \<Rightarrow> nat \<Rightarrow> 'f registry \<Rightarrow> nat set \<Rightarrow> 'f host \<Rightarrow> bool" where
  "waiting u t l ids T K S P h \<longleftrightarrow> proposed u t l ids T K S P h \<and> fresh t (node h) \<and>
     (\<forall>i < length ids. i \<in> P \<longrightarrow> heard_from (node h) ! i = t)"

lemma proposed_waiting:
  assumes "proposed u t l ids T K S {} h" "\<And>i. i < length ids \<Longrightarrow> i \<noteq> l \<Longrightarrow> t - heard_from (node h) ! i \<le> resend_time"
  shows "waiting u t l ids T K S {} h"
  using assms by (auto simp: waiting_def fresh_def proposed_def)

lemma propose:
  fixes h :: "'f::linordered_idom host"
  assumes "holds ids T K (int K) T S h" "leads_at u t (node h)" "my_id (node h) = ids ! l" "l < length ids" "distinct ids"
    "talker (node h) = []" "next_index (node h) = replicate (length ids) None"
    "match_index (node h) = replicate (length ids) (int K)" "req \<noteq> Discover None"
    "registry_op now req S = (reply, S', True)"
  obtains e n h' where "http now req h = (reply, h')"
    and "\<exists>h2. host_turn t t h' = Inr h2 \<and>
      talker (node h2) = map jsonify (map (\<lambda>s. AE (append_msg t (int K) T e n s)) ids) \<and>
      deref (heap h2) (e_entry e) = S' \<and>
      proposed u t l ids T K S' {} (h2\<lparr>node := (node h2)\<lparr>talker := []\<rparr>\<rparr>) \<and> incoming h2 = incoming h \<and>
      heard_from (node h2) = heard_from (node h) \<and> last (log (node h2)) = e"
    and "e_term e = T" "e_id e = -1" "current_term n = T" "my_id n = ids ! l" "commit_index n = int K"
    and "incoming h' = incoming h"
proof -
  let ?n = "node h"
  define r where "r = e_entry (last (log ?n))"
  define e where "e = Entry T r (-1)"
  have ne: "log ?n \<noteq> []" using assms(1) by (auto simp: holds_def)
  have mx: "log_max_index ?n = int K" using assms(1) by (simp add: holds_def log_max_index_def)
  have c: "check_committed_entry ?n = Inr r"
    using py_get_max [OF ne] mx assms(1) by (simp add: check_committed_entry_def holds_def r_def)
  have d: "deref (heap h) r = S" "r < length (heap h)" using assms(1) by (simp_all add: holds_def deref_def r_def)
  define h' where "h' = h\<lparr>heap := (heap h)[r := S'], node := client_request r (-1) ?n\<rparr>"
  have 1: "http now req h = (reply, h')"
    using assms(9,10) by (simp add: http_def on_registry_def c d h'_def)
  define n1 where "n1 = client_request r (-1) ?n"
  have n1: "leads_at u t n1" "listener n1 = []" "client_queue n1 = [e]" "log n1 = log ?n" "distinct (all_ids n1)"
      "l < length (all_ids n1)" "all_ids n1 ! l = my_id n1" "next_index n1 = replicate (length (all_ids n1)) None"
      "talker n1 = []" "log_max_index n1 = int K" "match_index n1 = match_index ?n" "all_ids n1 = ids"
    using assms(1-8) mx by (auto simp: n1_def client_request_def leads_at_def holds_def e_def log_max_index_def)
  have x: "e_term (last (log n1)) = T" using assms(1) n1(4) by (simp add: holds_def)
  define n2 where "n2 = n1\<lparr>client_queue := [], log := log ?n @ [e], log_hash := (log_hash n1)(e_id e \<mapsto> e),
      talker := map (\<lambda>r. jsonify (AE (append_msg t (int K) T e n1 r))) ids,
      next_index := (replicate (length ids) (Some (int K + 1)))[l := None],
      match_index := (replicate (length ids) (int K))[l := int K + 1]\<rparr>"
  have turn: "raft_turn v t t n1 = Inr n2" for v
    using leader_proposes [OF n1(1-3) _ n1(5-8), of v] ne n1(4,9-12) x assms(8)
    by (simp add: n2_def)
  define h2 where "h2 = h'\<lparr>node := n2, heap := heap h' @ [[]]\<rparr>"
  have 2: "host_turn t t h' = Inr h2"
    using host_turn_eq [of h' t t n2] turn by (simp add: h'_def h2_def n1_def)
  have 3: "talker (node h2) = map jsonify (map (\<lambda>s. AE (append_msg t (int K) T e n1 s)) ids)"
    by (simp add: h2_def n2_def)
  have hp: "r < length (heap h2)" "heap h2 ! r = S'" using d(2) by (simp_all add: h2_def h'_def nth_append)
  have 4: "deref (heap h2) (e_entry e) = S'" using hp by (simp add: deref_def e_def)
  have upd: "(replicate N a)[l := b] = map (\<lambda>i. if i = l then b else a) [0..<N]" for N a and b :: 'b
    by (cases "l < N") (auto intro!: nth_equalityI simp: nth_list_update list_update_beyond)
  let ?m = "(node h2)\<lparr>talker := []\<rparr>"
  have same: "all_ids n1 = ids" "current_term n1 = T" "commit_index n1 = int K" "my_id n1 = ids ! l"
    using assms(1,3) by (simp_all add: n1_def client_request_def holds_def)
  have "holds ids T (Suc K) (int K) T S' (h2\<lparr>node := ?m\<rparr>)"
    using hp assms(1) n1(2) same by (simp add: holds_def h2_def n2_def e_def)
  moreover have "leads_at u t ?m"
    using n1(1) same(1) by (simp add: leads_at_def h2_def n2_def)
  moreover have "my_id ?m = ids ! l" using same by (simp add: h2_def n2_def)
  moreover have "match_index ?m = map (\<lambda>i. if i = l \<or> i \<in> {} then int K + 1 else int K) [0..<length ids]"
    "next_index ?m = map (\<lambda>i. if i = l \<or> i \<in> {} then None else Some (int K + 1)) [0..<length ids]"
    by (simp_all add: h2_def n2_def upd)
  moreover have logK: "e_term (log ?m ! K) = T"
  proof -
    have "length (log ?n) = Suc K" "e_term (last (log ?n)) = T" using assms(1) by (simp_all add: holds_def)
    moreover have "log ?m = log ?n @ [e]" by (simp add: h2_def n2_def)
    ultimately show ?thesis using ne by (simp add: nth_append last_conv_nth)
  qed
  ultimately have 5: "proposed u t l ids T K S' {} (h2\<lparr>node := ?m\<rparr>)"
    using logK by (simp add: proposed_def)
  show ?thesis
  proof (rule that)
    show "http now req h = (reply, h')" by (rule 1)
    show "\<exists>h2. host_turn t t h' = Inr h2 \<and>
      talker (node h2) = map jsonify (map (\<lambda>s. AE (append_msg t (int K) T e n1 s)) ids) \<and>
      deref (heap h2) (e_entry e) = S' \<and>
      proposed u t l ids T K S' {} (h2\<lparr>node := (node h2)\<lparr>talker := []\<rparr>\<rparr>) \<and> incoming h2 = incoming h \<and>
      heard_from (node h2) = heard_from (node h) \<and> last (log (node h2)) = e"
      using 2 3 4 5 n1(4) by (auto simp: h2_def h'_def n2_def n1_def client_request_def)
    show "e_term e = T" "e_id e = -1" by (simp_all add: e_def)
    show "current_term n1 = T" "my_id n1 = ids ! l" "commit_index n1 = int K"
      using assms(1,3) by (simp_all add: n1_def client_request_def holds_def)
    show "incoming h' = incoming h" by (simp add: h'_def)
  qed
qed

text \<open>A message of another node with its entry replaced by a reference to the copy.\<close>

lemma recv_mine:
  assumes "m_receiver m = Some (my_id (node h)) \<or> m_receiver m = None"
  obtains m' where "recv (AE m) h = h\<lparr>node := (node h)\<lparr>listener := listener (node h) @ [jsonify (AE m')]\<rparr>,
      heap := heap h @ (case entries m of None \<Rightarrow> [] | Some e \<Rightarrow> [e_entry e])\<rparr>"
    and "class_ok (AE m') = class_ok (AE m)" "m_direction m' = m_direction m" "m_type m' = m_type m"
    "m_term m' = m_term m" "m_sender m' = m_sender m" "ae_results m' = ae_results m" "m_leader_id m' = m_leader_id m"
    "prev_log_index m' = prev_log_index m" "prev_log_term m' = prev_log_term m" "leader_commit m' = leader_commit m"
    "entries m' = map_option (\<lambda>e. Entry (e_term e) (length (heap h)) (e_id e)) (entries m)" "m_receiver m' = m_receiver m"
proof -
  obtain m' where m': "map_message (\<lambda>_. length (heap h)) (AE m) = AE m'" by simp
  show ?thesis
  proof (rule that [of m'])
    show "recv (AE m) h = h\<lparr>node := (node h)\<lparr>listener := listener (node h) @ [jsonify (AE m')]\<rparr>,
      heap := heap h @ (case entries m of None \<Rightarrow> [] | Some e \<Rightarrow> [e_entry e])\<rparr>"
      using assms m' by (auto simp: recv_def split: option.splits)
  qed (use m' in \<open>auto simp: map_option_case split: option.splits\<close>)
qed

lemmas recv_to_me = recv_mine [OF disjI1]

text \<open>A leader reads a request of its own, and changes only its heap.\<close>

lemma leader_reads_own:
  assumes "leads_at u t (node h)" "listener (node h) = []" "client_queue (node h) = []" "class_ok (AE m)"
    "m_direction m = Request" "m_receiver m = Some (my_id (node h)) \<or> m_receiver m = None" and fresh: "fresh t (node h)"
  shows "\<exists>h2 xs. host_turn t t (recv (AE m) h) = Inr h2 \<and> h2 = h\<lparr>heap := heap h @ xs\<rparr>"
proof -
  obtain m' where m': "recv (AE m) h = h\<lparr>node := (node h)\<lparr>listener := listener (node h) @ [jsonify (AE m')]\<rparr>,
      heap := heap h @ (case entries m of None \<Rightarrow> [] | Some e \<Rightarrow> [e_entry e])\<rparr>"
      "class_ok (AE m') = class_ok (AE m)" "m_direction m' = m_direction m"
    using assms(6) by (rule recv_mine)
  let ?n = "(node h)\<lparr>listener := [jsonify (AE m')]\<rparr>"
  have "leads_at u t ?n" "fresh t ?n" using assms(1) fresh by (simp_all add: leads_at_def fresh_def)
  then have "raft_turn v t t ?n = Inr (?n\<lparr>listener := []\<rparr>)" for v
    using assms(3-5) m'(2,3) by (intro leader_ignores) simp_all
  then have "raft_turn v t t ?n = Inr (node h)" for v using assms(2) by (simp add: same_fields)
  then show ?thesis
    using assms(2) m'(1) host_turn_eq [of "recv (AE m) h" t t "node h"] by auto
qed

lemma waiting_heap: "waiting u t l ids T K S P h \<Longrightarrow> waiting u t l ids T K S P (h\<lparr>heap := heap h @ xs\<rparr>)"
  by (simp add: waiting_def proposed_def holds_def nth_append)

text \<open>A follower appends the entry and acknowledges it.\<close>

definition acks :: "string list \<Rightarrow> nat \<Rightarrow> nat \<Rightarrow> 'v AppendEntriesMessage \<Rightarrow> bool" where
  "acks ids l j a \<longleftrightarrow> class_ok (AE a) \<and> m_direction a = Response \<and> m_type a = Acknowledge \<and>
     success (ae_results a) = Some True \<and> m_sender a = ids ! j \<and> m_receiver a = Some (ids ! l) \<and> entries a = None"

definition ack_list :: "string list \<Rightarrow> nat \<Rightarrow> nat \<Rightarrow> nat \<Rightarrow> 'v dict list \<Rightarrow> bool" where
  "ack_list ids l j k ds \<longleftrightarrow> (\<exists>as. ds = map jsonify (map AE as) \<and> length as = k \<and> (\<forall>a \<in> set as. acks ids l j a))"

definition appended :: "int \<Rightarrow> int \<Rightarrow> nat \<Rightarrow> string list \<Rightarrow> int \<Rightarrow> nat \<Rightarrow> 'f registry \<Rightarrow> nat \<Rightarrow> 'f host \<Rightarrow> bool" where
  "appended u t l ids T K S j h \<longleftrightarrow> holds ids T (Suc K) (int K) T S h \<and> follows_at u t (node h) \<and> my_id (node h) = ids ! j \<and>
     e_term (log (node h) ! K) = T"

text \<open>A message that asks a follower to append the entry after index \<open>K\<close>.\<close>

definition appends :: "nat \<Rightarrow> string list \<Rightarrow> int \<Rightarrow> nat \<Rightarrow> 'v \<Rightarrow> string \<Rightarrow> 'v AppendEntriesMessage \<Rightarrow> bool" where
  "appends l ids T K S s m \<longleftrightarrow> class_ok (AE m) \<and> m_direction m = Request \<and> m_type m = AppendEntries \<and>
     m_receiver m = Some s \<and> m_term m = T \<and> prev_log_index m = Some (int K) \<and> prev_log_term m = Some T \<and>
     leader_commit m = int K \<and> m_leader_id m = Some (ids ! l) \<and> (\<exists>x. entries m = Some (Entry T S x))"

lemma follower_appends_at:
  assumes "follows_at u t n" "listener n = [jsonify (AE m)]" "appends l ids T K y s m" "current_term n = T"
    "commit_index n = int K" "K < length (log n)" "e_term (log n ! K) = T" "entries m = Some e"
  shows "raft_turn v t t n = Inr (n\<lparr>listener := [], log := take (Suc K) (log n) @ [e], log_hash := (log_hash n)(e_id e \<mapsto> e),
    talker := talker n @ [jsonify (AE (ack_msg t (ids ! l) n))]\<rparr>)"
proof -
  obtain h where h: "frame n = Following h" "t - h \<le> election_timeout n" using assms(1) by (auto simp: follows_at_def)
  let ?n = "n\<lparr>listener := []\<rparr>"
  have m: "class_ok (AE m)" "m_direction m = Request" "m_type m = AppendEntries" "m_term m = T"
      "prev_log_index m = Some (int K)" "prev_log_term m = Some T" "leader_commit m = int K" "m_leader_id m = Some (ids ! l)"
    using assms(3) by (simp_all add: appends_def)
  have "verify_entry (int K) T ?n = Inr True"
    using assms(6,7) by (simp add: verify_entry_def py_get_nth)
  moreover have "py_prefix (log n) (int K + 1) = take (Suc K) (log n)"
    by (simp add: py_prefix_def nat_add_distrib)
  moreover have "take (Suc K) (log n) \<noteq> []" using assms(6) by auto
  then have "\<exists>p. append_entry e False (Some (int K)) ?n = Inr ((int K, p),
      ?n\<lparr>log := take (Suc K) (log n) @ [e], log_hash := (log_hash n)(e_id e \<mapsto> e)\<rparr>)"
    using calculation(2) by (simp add: append_entry_def py_get_last)
  moreover have "ack_msg t (ids ! l) (?n\<lparr>log := take (Suc K) (log n) @ [e], log_hash := (log_hash n)(e_id e \<mapsto> e)\<rparr>) = ack_msg t (ids ! l) n"
    by (simp add: ack_msg_def)
  ultimately have "follower_append t m ?n = Inr (?n\<lparr>log := take (Suc K) (log n) @ [e], log_hash := (log_hash n)(e_id e \<mapsto> e),
      talker := talker n @ [jsonify (AE (ack_msg t (ids ! l) n))]\<rparr>)"
    using assms(4,5,8) m by (auto simp: follower_append_def needed_def send_msgs) (simp add: send_message_def)
  with assms(1) h m show ?thesis
    using get_message_Cons [OF assms(2) m(1)]
    by (simp add: raft_turn_def follows_at_def check_role_def follower_turn_def follower_message_def same_frame)
qed

text \<open>It does so for the first and for every further copy of the message.\<close>

lemma follower_reads_append:
  assumes "holds ids T k (int K) T S0 h" "K \<le> k" "e_term (log (node h) ! K) = T" "follows_at u t (node h)"
    "my_id (node h) = ids ! j" "ack_list ids l j i (talker (node h))" "appends l ids T K S (ids ! j) m"
  shows "\<exists>h2. host_turn t t (recv (AE m) h) = Inr h2 \<and> appended u t l ids T K S j h2 \<and> incoming h2 = incoming h \<and>
    ack_list ids l j (Suc i) (talker (node h2))"
proof -
  have "m_receiver m = Some (my_id (node h))" using assms(5,7) by (simp add: appends_def)
  then obtain m' where m': "recv (AE m) h = h\<lparr>node := (node h)\<lparr>listener := listener (node h) @ [jsonify (AE m')]\<rparr>,
      heap := heap h @ (case entries m of None \<Rightarrow> [] | Some e \<Rightarrow> [e_entry e])\<rparr>"
    and f: "class_ok (AE m') = class_ok (AE m)" "m_direction m' = m_direction m" "m_type m' = m_type m"
    "m_term m' = m_term m" "m_leader_id m' = m_leader_id m"
    "prev_log_index m' = prev_log_index m" "prev_log_term m' = prev_log_term m" "leader_commit m' = leader_commit m"
    "entries m' = map_option (\<lambda>e. Entry (e_term e) (length (heap h)) (e_id e)) (entries m)" "m_receiver m' = m_receiver m"
    by (rule recv_to_me)
  obtain x where x: "entries m = Some (Entry T S x)" using assms(7) by (auto simp: appends_def)
  let ?n = "(node h)\<lparr>listener := [jsonify (AE m')]\<rparr>" and ?e = "Entry T (length (heap h)) x"
  have app: "appends l ids T K (length (heap h)) (ids ! j) m'"
    using assms(5,7) f x by (simp add: appends_def)
  have n: "follows_at u t ?n" "current_term ?n = T" "commit_index ?n = int K" "K < length (log ?n)" "e_term (log ?n ! K) = T"
    using assms(1-4) by (auto simp: follows_at_def holds_def)
  have l: "listener (node h) = []" using assms(1) by (simp add: holds_def)
  define n2 where "n2 = (node h)\<lparr>log := take (Suc K) (log (node h)) @ [?e], log_hash := (log_hash (node h))(x \<mapsto> ?e),
      talker := talker (node h) @ [jsonify (AE (ack_msg t (ids ! l) ?n))]\<rparr>"
  have "raft_turn v t t ?n = Inr n2" for v
    using follower_appends_at [OF n(1) _ app n(2-5), of ?e v] f(9) x l same_fields(2) [of n2 "[]"] by (simp add: n2_def)
  then have turn: "host_turn t t (recv (AE m) h) = Inr (h\<lparr>node := n2, heap := heap h @ [S] @ [[]]\<rparr>)"
    using l m' x host_turn_eq [of "recv (AE m) h" t t n2] by simp
  have "appended u t l ids T K S j (h\<lparr>node := n2, heap := heap h @ [S] @ [[]]\<rparr>)"
    using assms(1-5) by (auto simp: appended_def holds_def n2_def follows_at_def nth_append)
  moreover have "acks ids l j (ack_msg t (ids ! l) ?n)" using assms(5) by (simp add: acks_def ack_msg_def)
  moreover obtain as where "talker (node h) = map jsonify (map AE as)" "length as = i" "\<forall>a \<in> set as. acks ids l j a"
    using assms(6) by (auto simp: ack_list_def)
  ultimately have "ack_list ids l j (Suc i) (talker n2)"
    unfolding ack_list_def by (intro exI [of _ "as @ [ack_msg t (ids ! l) ?n]"]) (auto simp: n2_def)
  with turn \<open>appended _ _ _ _ _ _ _ _ _\<close> show ?thesis by auto
qed

text \<open>The leader reads the acknowledgements of one node: it waits for the others, or commits.\<close>

definition heard_alike :: "nat \<Rightarrow> 'v raft_node \<Rightarrow> bool" where
  "heard_alike l n \<longleftrightarrow> (\<forall>i < length (heard_from n). \<forall>j < length (heard_from n).
     i \<noteq> l \<longrightarrow> j \<noteq> l \<longrightarrow> heard_from n ! i = heard_from n ! j)"

lemma heard_alike_cong: "heard_from m = heard_from n \<Longrightarrow> heard_alike l m = heard_alike l n"
  by (simp add: heard_alike_def)

lemma heard_alike_update [simp]:
  "heard_alike l (n\<lparr>talker := x\<rparr>) = heard_alike l n" "heard_alike l (n\<lparr>frame := f\<rparr>) = heard_alike l n"
  by (simp_all add: heard_alike_def)

definition settled_leader :: "int \<Rightarrow> int \<Rightarrow> nat \<Rightarrow> string list \<Rightarrow> int \<Rightarrow> nat \<Rightarrow> 'f registry \<Rightarrow> 'f host \<Rightarrow> bool" where
  "settled_leader u t l ids T K S h \<longleftrightarrow> holds ids T K (int K) T S h \<and> leads_at u t (node h) \<and> my_id (node h) = ids ! l \<and>
     match_index (node h) = replicate (length ids) (int K) \<and> next_index (node h) = replicate (length ids) None \<and>
     heard_alike l (node h)"

lemma acks_received:
  assumes "\<forall>a \<in> set as. acks ids l j a" "my_id (node h) = ids ! l"
  shows "\<exists>ds. ack_list ids l j (length as) ds \<and>
    fold recv (map AE as) h = h\<lparr>node := (node h)\<lparr>listener := listener (node h) @ ds\<rparr>\<rparr>"
  using assms
proof (induction as arbitrary: h)
  case Nil
  have "ack_list ids l j 0 []" by (simp add: ack_list_def)
  then show ?case by (intro exI [of _ "[]"]) (simp add: same_fields)
next
  case (Cons a as)
  have "m_receiver a = Some (my_id (node h))" using Cons.prems by (simp add: acks_def)
  then obtain a' where a': "recv (AE a) h = h\<lparr>node := (node h)\<lparr>listener := listener (node h) @ [jsonify (AE a')]\<rparr>,
      heap := heap h @ (case entries a of None \<Rightarrow> [] | Some e \<Rightarrow> [e_entry e])\<rparr>"
    and f: "class_ok (AE a') = class_ok (AE a)" "m_direction a' = m_direction a" "m_type a' = m_type a"
    "m_sender a' = m_sender a" "ae_results a' = ae_results a"
    "entries a' = map_option (\<lambda>e. Entry (e_term e) (length (heap h)) (e_id e)) (entries a)" "m_receiver a' = m_receiver a"
    by (rule recv_to_me)
  have e: "entries a = None" "acks ids l j a'" using Cons.prems(1) f by (auto simp: acks_def)
  define h1 where "h1 = h\<lparr>node := (node h)\<lparr>listener := listener (node h) @ [jsonify (AE a')]\<rparr>\<rparr>"
  have r: "recv (AE a) h = h1" using a' e(1) by (simp add: h1_def)
  obtain as' where as': "length as' = length as" "\<forall>a \<in> set as'. acks ids l j a"
      "fold recv (map AE as) h1 = h1\<lparr>node := (node h1)\<lparr>listener := listener (node h1) @ map jsonify (map AE as')\<rparr>\<rparr>"
    using Cons.IH [of h1] Cons.prems unfolding ack_list_def by (auto simp: h1_def)
  have "ack_list ids l j (length (a # as)) (map jsonify (map AE (a' # as')))"
    unfolding ack_list_def by (rule exI [of _ "a' # as'"]) (use as' e(2) in simp)
  moreover have "fold recv (map AE (a # as)) h = h\<lparr>node := (node h)\<lparr>listener := listener (node h) @ map jsonify (map AE (a' # as'))\<rparr>\<rparr>"
    using as'(3) by (simp add: r) (simp add: h1_def)
  ultimately show ?case by blast
qed

text \<open>An acknowledgement too many.\<close>

lemma leader_ignores_ack:
  assumes "leads_at u t n" "fresh t n" "client_queue n = []" "listener n = jsonify (AE a) # ds" "acks ids l j a"
    "all_ids n = ids" "distinct ids" "j < length ids" "next_index n ! j = None" "heard_from n ! j = t"
  shows "raft_turn v t t n = Inr (n\<lparr>listener := ds\<rparr>)"
proof -
  obtain hb where hb: "frame n = Leading hb" using assms(1) by (auto simp: leads_at_def)
  have a: "class_ok (AE a)" "m_direction a = Response" "m_type a = Acknowledge" "m_sender a = ids ! j"
    using assms(5) by (simp_all add: acks_def)
  have idx: "list_index ids (m_sender a) = Inr (int j)" using list_index_nth [OF assms(7,8)] a(4) by simp
  have len: "length (next_index n) = length ids" "length (heard_from n) = length ids"
    using assms(1,6) by (simp_all add: leads_at_def)
  have same: "(heard_from n)[j := t] = heard_from n" using assms(10) by (metis list_update_id)
  have "n\<lparr>listener := ds, heard_from := heard_from n\<rparr> = n\<lparr>listener := ds\<rparr>" by (cases n) simp
  then have ack: "leader_ack t a (n\<lparr>listener := ds\<rparr>) = Inr (n\<lparr>listener := ds\<rparr>)"
    using assms(6,8,9) idx len same by (simp add: leader_ack_def get_node_index_def py_set_nth py_get_nth)
  show ?thesis
    using leads_turn [OF assms(1,2) hb, of v] get_message_Cons [OF assms(4) a(1)] assms(3) a(2,3) hb
    by (simp add: leader_receive_def leader_message_def ack leader_request_def get_client_request_def same_frame)
qed

lemma ignored_acks_run:
  fixes c :: "'f::linordered_idom cluster"
  assumes "l < length c" "leads_at u t n" "fresh t n" "client_queue n = []" "listener n = []" "all_ids n = ids" "distinct ids"
    "j < length ids" "next_index n ! j = None" "heard_from n ! j = t" "ack_list ids l j k ds"
    "c ! l = h\<lparr>node := n\<lparr>listener := ds\<rparr>\<rparr>"
  shows "\<exists>xs. cluster_run (replicate k (Turn l t t)) c = Some (Inr (c[l := h\<lparr>node := n, heap := heap h @ xs\<rparr>]))"
proof -
  obtain as where "ds = map jsonify (map AE as)" "length as = k" "\<forall>a \<in> set as. acks ids l j a"
    using assms(11) by (auto simp: ack_list_def)
  with assms(1-10,12) show ?thesis
  proof (induction as arbitrary: c h k ds)
    case Nil
    then have "c ! l = h\<lparr>node := n\<rparr>" by (simp add: same_fields)
    then have "c[l := h\<lparr>node := n\<rparr>] = c" by (metis list_update_id)
    then show ?case using Nil by (intro exI [of _ "[]"]) simp
  next
    case (Cons a as)
    let ?ds = "map jsonify (map AE as)"
    let ?n = "n\<lparr>listener := jsonify (AE a) # ?ds\<rparr>"
    have "raft_turn v t t ?n = Inr (?n\<lparr>listener := ?ds\<rparr>)" for v
      by (rule leader_ignores_ack [where ids = ids and l = l and j = j])
        (use Cons.prems in \<open>auto simp: leads_at_def fresh_def\<close>)
    then have turn: "host_turn t t (c ! l) = Inr (h\<lparr>node := n\<lparr>listener := ?ds\<rparr>, heap := heap h @ [[]]\<rparr>)"
      using Cons.prems host_turn_eq [of "c ! l"] by simp
    define h1 where "h1 = h\<lparr>heap := heap h @ [[]]\<rparr>"
    have "\<exists>xs. cluster_run (replicate (length as) (Turn l t t)) (c[l := h1\<lparr>node := n\<lparr>listener := ?ds\<rparr>\<rparr>])
      = Some (Inr ((c[l := h1\<lparr>node := n\<lparr>listener := ?ds\<rparr>\<rparr>])[l := h1\<lparr>node := n, heap := heap h1 @ xs\<rparr>]))"
      by (rule Cons.IH [where h = h1 and ds = ?ds]) (use Cons.prems in auto)
    moreover have "h1\<lparr>node := m\<rparr> = h\<lparr>node := m, heap := heap h @ [[]]\<rparr>"
      "h1\<lparr>node := m, heap := heap h1 @ xs\<rparr> = h\<lparr>node := m, heap := heap h @ [[]] @ xs\<rparr>" for m xs
      by (cases h; simp add: h1_def)+
    ultimately obtain xs where "cluster_run (replicate (length as) (Turn l t t)) (c[l := h\<lparr>node := n\<lparr>listener := ?ds\<rparr>, heap := heap h @ [[]]\<rparr>])
      = Some (Inr (c[l := h\<lparr>node := n, heap := heap h @ [[]] @ xs\<rparr>]))"
      by auto
    with turn Cons.prems(1,13) show ?case
      by (intro exI [of _ "[[]] @ xs"]) (auto simp: at_host_def)
  qed
qed

lemma leader_reads_ack:
  assumes w: "waiting u t l ids T K S P h" and a: "acks ids l j a" and j: "j < length ids" "j \<noteq> l" "j \<notin> P"
    and "distinct ids"
  defines "n1 \<equiv> (node h)\<lparr>heard_from := (heard_from (node h))[j := t],
      match_index := (match_index (node h))[j := int K + 1], next_index := (next_index (node h))[j := None]\<rparr>"
  shows "raft_turn v t t ((node h)\<lparr>listener := jsonify (AE a) # ds\<rparr>) = commit_committable t (n1\<lparr>listener := ds\<rparr>)"
proof -
  have h: "client_queue (node h) = []" "all_ids (node h) = ids" "leads_at u t (node h)"
      "log_max_index (node h) = int K + 1" "next_index (node h) ! j = Some (int K + 1)" "fresh t (node h)"
    using w j by (auto simp: waiting_def proposed_def holds_def log_max_index_def)
  let ?n = "(node h)\<lparr>listener := jsonify (AE a) # ds\<rparr>"
  have n: "leads_at u t ?n" "log_max_index ?n = int K + 1" "fresh t ?n"
    using h by (simp_all add: leads_at_def log_max_index_def fresh_def)
  have "raft_turn v t t ?n = commit_committable t (?n\<lparr>listener := ds, heard_from := (heard_from ?n)[j := t],
      match_index := (match_index ?n)[j := log_max_index ?n], next_index := (next_index ?n)[j := None]\<rparr>)"
    by (rule leader_acked [OF n(1), where m = a and ds = ds and j = j]) (use a h n j assms(6) in \<open>simp_all add: acks_def\<close>)
  moreover have "?n\<lparr>listener := ds, heard_from := (heard_from ?n)[j := t], match_index := (match_index ?n)[j := log_max_index ?n],
      next_index := (next_index ?n)[j := None]\<rparr> = n1\<lparr>listener := ds\<rparr>"
    unfolding n(2) by (cases "node h") (simp add: n1_def)
  ultimately show ?thesis by simp
qed

lemma acked_waiting:
  assumes w: "waiting u t l ids T K S P h" and j: "j < length ids" "j \<noteq> l" "j \<notin> P"
  defines "n1 \<equiv> (node h)\<lparr>heard_from := (heard_from (node h))[j := t],
      match_index := (match_index (node h))[j := int K + 1], next_index := (next_index (node h))[j := None]\<rparr>"
  shows "waiting u t l ids T K S (insert j P) (h\<lparr>node := n1, heap := heap h @ xs\<rparr>)"
proof -
  have h: "all_ids (node h) = ids" "leads_at u t (node h)" "fresh t (node h)"
    using w by (auto simp: waiting_def proposed_def holds_def)
  have upd: "(map f [0..<N])[j := f' j] = map f' [0..<N]" if "\<And>i. i \<noteq> j \<Longrightarrow> f i = f' i" for f f' :: "nat \<Rightarrow> 'b" and N
    using that by (cases "j < N") (auto intro!: nth_equalityI simp: nth_list_update list_update_beyond)
  have "match_index n1 = map (\<lambda>i. if i = l \<or> i \<in> insert j P then int K + 1 else int K) [0..<length ids]"
    using w upd [of "\<lambda>i. if i = l \<or> i \<in> P then int K + 1 else int K" "\<lambda>i. if i = l \<or> i \<in> insert j P then int K + 1 else int K"]
    by (simp add: n1_def waiting_def proposed_def)
  moreover have "next_index n1 = map (\<lambda>i. if i = l \<or> i \<in> insert j P then None else Some (int K + 1)) [0..<length ids]"
    using w upd [of "\<lambda>i. if i = l \<or> i \<in> P then None else Some (int K + 1)"
        "\<lambda>i. if i = l \<or> i \<in> insert j P then None else Some (int K + 1)"]
    by (simp add: n1_def waiting_def proposed_def)
  moreover have "leads_at u t n1"
    using h(2) by (simp add: n1_def leads_at_def)
  moreover have len: "length (heard_from (node h)) = length ids" "length (next_index (node h)) = length ids"
    using h(1,2) by (simp_all add: leads_at_def)
  have "fresh t n1" unfolding fresh_def
  proof (intro allI impI)
    fix i assume i: "i < length (next_index n1)" "next_index n1 ! i \<noteq> None"
    show "t - heard_from n1 ! i \<le> resend_time"
      using i h(3) len j(1) by (cases "i = j") (auto simp: n1_def fresh_def)
  qed
  moreover have "heard_from n1 ! i = t" if "i < length ids" "i \<in> insert j P" for i
    using that w len j(1) by (cases "i = j") (auto simp: n1_def waiting_def)
  ultimately show "waiting u t l ids T K S (insert j P) (h\<lparr>node := n1, heap := heap h @ xs\<rparr>)"
    using w by (simp add: waiting_def proposed_def holds_def nth_append n1_def)
qed

text \<open>All turns of the leader that read the acknowledgements of \<open>j\<close>.\<close>

lemma ack_turns:
  fixes c :: "'f::linordered_idom cluster"
  assumes w: "waiting u t l ids T K S P h" and j: "j < length ids" "j \<noteq> l" "j \<notin> P"
    and d: "distinct ids" "talker (node h) = []" and l: "l < length c"
    and as: "\<forall>a \<in> set as. acks ids l j a" "length as = Suc k" and c: "c ! l = fold recv (map AE as) h"
  defines "n1 \<equiv> (node h)\<lparr>heard_from := (heard_from (node h))[j := t],
      match_index := (match_index (node h))[j := int K + 1], next_index := (next_index (node h))[j := None]\<rparr>"
  assumes step: "\<And>ds. commit_committable t (n1\<lparr>listener := ds\<rparr>) = Inr (N\<lparr>listener := ds\<rparr>)" "listener N = []"
    "heard_from N = heard_from n1" "next_index N = next_index n1" "leads_at u t N" "client_queue N = []" "all_ids N = ids"
  shows "\<exists>xs. cluster_run (replicate (Suc k) (Turn l t t)) c = Some (Inr (c[l := h\<lparr>node := N, heap := heap h @ xs\<rparr>]))"
proof -
  have w1: "waiting u t l ids T K S (insert j P) (h\<lparr>node := n1, heap := heap h @ []\<rparr>)"
    unfolding n1_def by (rule acked_waiting [OF w j])
  have my: "my_id (node h) = ids ! l" "listener (node h) = []" using w by (simp_all add: waiting_def proposed_def holds_def)
  obtain as' where as': "length as' = Suc k" "\<forall>a \<in> set as'. acks ids l j a"
      "c ! l = h\<lparr>node := (node h)\<lparr>listener := map jsonify (map AE as')\<rparr>\<rparr>"
    using acks_received [OF as(1) my(1)] as(2) my(2) c by (auto simp: ack_list_def)
  then obtain a bs where ab: "as' = a # bs" "length bs = k" by (auto simp: length_Suc_conv)
  let ?ds = "map jsonify (map AE bs)"
  have "raft_turn v t t ((node h)\<lparr>listener := jsonify (AE a) # ?ds\<rparr>) = Inr (N\<lparr>listener := ?ds\<rparr>)" for v
    using leader_reads_ack [OF w _ j d(1), of a v ?ds, folded n1_def] as'(2) ab(1) step(1) by simp
  then have turn: "host_turn t t (c ! l) = Inr (h\<lparr>node := N\<lparr>listener := ?ds\<rparr>, heap := heap h @ [[]]\<rparr>)"
    using as'(3) ab(1) host_turn_eq [of "c ! l"] by simp
  define h1 where "h1 = h\<lparr>heap := heap h @ [[]]\<rparr>"
  have f: "fresh t N" "heard_from N ! j = t" "next_index N ! j = None"
    using w1 j(1) step(3,4) by (auto simp: waiting_def proposed_def fresh_def)
  have "\<exists>xs. cluster_run (replicate k (Turn l t t)) (c[l := h1\<lparr>node := N\<lparr>listener := ?ds\<rparr>\<rparr>])
      = Some (Inr ((c[l := h1\<lparr>node := N\<lparr>listener := ?ds\<rparr>\<rparr>])[l := h1\<lparr>node := N, heap := heap h1 @ xs\<rparr>]))"
    by (rule ignored_acks_run [where ids = ids and j = j and ds = ?ds])
      (use l step f d(1) j(1) as'(2) ab in \<open>auto simp: ack_list_def\<close>)
  moreover have "h1\<lparr>node := m\<rparr> = h\<lparr>node := m, heap := heap h @ [[]]\<rparr>"
    "h1\<lparr>node := m, heap := heap h1 @ xs\<rparr> = h\<lparr>node := m, heap := heap h @ [[]] @ xs\<rparr>" for m xs
    by (cases h; simp add: h1_def)+
  ultimately obtain xs where "cluster_run (replicate k (Turn l t t)) (c[l := h\<lparr>node := N\<lparr>listener := ?ds\<rparr>, heap := heap h @ [[]]\<rparr>])
      = Some (Inr (c[l := h\<lparr>node := N, heap := heap h @ [[]] @ xs\<rparr>]))"
    by auto
  with turn l show ?thesis by (intro exI [of _ "[[]] @ xs"]) (auto simp: at_host_def)
qed

lemma leader_waits:
  fixes c :: "'f::linordered_idom cluster"
  assumes w: "waiting u t l ids T K S P h" and j: "j < length ids" "j \<noteq> l" "j \<notin> P"
    and d: "distinct ids" "talker (node h) = []" and l: "l < length c"
    and as: "\<forall>a \<in> set as. acks ids l j a" "length as = Suc k" and c: "c ! l = fold recv (map AE as) h"
    and i: "i < length ids" "i \<notin> insert j P" "i \<noteq> l"
  shows "\<exists>h2. cluster_run (replicate (Suc k) (Turn l t t)) c = Some (Inr (c[l := h2])) \<and> waiting u t l ids T K S (insert j P) h2 \<and>
    talker (node h2) = [] \<and> incoming h2 = incoming h"
proof -
  define n1 where "n1 = (node h)\<lparr>heard_from := (heard_from (node h))[j := t],
      match_index := (match_index (node h))[j := int K + 1], next_index := (next_index (node h))[j := None]\<rparr>"
  have ack: "waiting u t l ids T K S (insert j P) (h\<lparr>node := n1, heap := heap h @ xs\<rparr>)" for xs
    unfolding n1_def by (rule acked_waiting [OF w j])
  have m: "match_index n1 = map (\<lambda>i. if i = l \<or> i \<in> insert j P then int K + 1 else int K) [0..<length ids]"
      "all_ids n1 = ids" "commit_index n1 = int K" "leads_at u t n1" "client_queue n1 = []" "listener n1 = []"
    using ack [of "[]"] by (simp_all add: waiting_def proposed_def holds_def)
  then have "match_index n1 ! i = int K" using i by simp
  moreover have "length (match_index n1) = length ids" by (simp add: m(1))
  ultimately have "int K \<in> set (match_index n1)" using i(1) nth_mem [of i "match_index n1"] by simp
  then have "commit_committable t (n1\<lparr>listener := ds\<rparr>) = Inr (n1\<lparr>listener := ds\<rparr>)" for ds
    using m(1-3) by (intro commit_waits) auto
  then obtain xs where "cluster_run (replicate (Suc k) (Turn l t t)) c = Some (Inr (c[l := h\<lparr>node := n1, heap := heap h @ xs\<rparr>]))"
    using ack_turns [OF w j d l as c, folded n1_def, of n1] m by auto
  with ack [of xs] d(2) show ?thesis
    by (intro exI [of _ "h\<lparr>node := n1, heap := heap h @ xs\<rparr>"]) (simp add: n1_def)
qed

lemma leader_commits:
  fixes c :: "'f::linordered_idom cluster"
  assumes w: "waiting u t l ids T K S P h" and j: "j < length ids" "j \<noteq> l" "j \<notin> P"
    and d: "distinct ids" "talker (node h) = []" and l: "l < length c"
    and as: "\<forall>a \<in> set as. acks ids l j a" "length as = Suc k" and c: "c ! l = fold recv (map AE as) h"
    and all: "\<And>i. i < length ids \<Longrightarrow> i = l \<or> i \<in> insert j P"
  shows "\<exists>h2 n. cluster_run (replicate (Suc k) (Turn l t t)) c = Some (Inr (c[l := h2])) \<and>
    settled_leader u t l ids T (Suc K) S (h2\<lparr>node := (node h2)\<lparr>talker := []\<rparr>\<rparr>) \<and>
    talker (node h2) = map jsonify (map (\<lambda>s. AE (committal_msg t n s)) ids) \<and>
    last_applied_index n = int K + 1 \<and> last_applied_term n = T \<and> incoming h2 = incoming h"
proof -
  define n1 where "n1 = (node h)\<lparr>heard_from := (heard_from (node h))[j := t],
      match_index := (match_index (node h))[j := int K + 1], next_index := (next_index (node h))[j := None]\<rparr>"
  have ack: "waiting u t l ids T K S (insert j P) (h\<lparr>node := n1, heap := heap h @ xs\<rparr>)" for xs
    unfolding n1_def by (rule acked_waiting [OF w j])
  have m: "match_index n1 = map (\<lambda>i. if i = l \<or> i \<in> insert j P then int K + 1 else int K) [0..<length ids]"
      "next_index n1 = map (\<lambda>i. if i = l \<or> i \<in> insert j P then None else Some (int K + 1)) [0..<length ids]"
      "all_ids n1 = ids" "commit_index n1 = int K" "log_max_index n1 = int K + 1" "log n1 \<noteq> []"
      "e_term (last (log n1)) = T" "talker n1 = []" "leads_at u t n1" "client_queue n1 = []" "listener n1 = []"
    using ack [of "[]"] d(2) by (auto simp: waiting_def proposed_def holds_def log_max_index_def n1_def)
  have rep: "map f [0..<N] = replicate N x" if "\<And>i. i < N \<Longrightarrow> f i = x" for f and x :: 'b and N
    using that by (intro nth_equalityI) auto
  have match: "match_index n1 = replicate (length ids) (int K + 1)" and nxt: "next_index n1 = replicate (length ids) None"
    unfolding m(1,2) by (rule rep, use all in auto)+
  define n2 where "n2 = commit_entry (int K + 1) T n1"
  define N where "N = n2\<lparr>talker := map jsonify (map (\<lambda>s. AE (committal_msg t n2 s)) ids)\<rparr>"
  have cm: "committal_msg t (n\<lparr>listener := ds\<rparr>) = committal_msg t n" for n :: "nat raft_node" and ds
    by (simp add: committal_msg_def fun_eq_iff)
  have "committed t (n1\<lparr>listener := ds\<rparr>) = N\<lparr>listener := ds\<rparr>" for ds
  proof -
    have "commit_entry i x (n1\<lparr>listener := ds\<rparr>) = (commit_entry i x n1)\<lparr>listener := ds\<rparr>" for i x
      by (simp add: commit_entry_def)
    moreover have "log_max_index (n1\<lparr>listener := ds\<rparr>) = int K + 1" using m(5) by (simp add: log_max_index_def)
    moreover have "talker n2 = []" "all_ids n2 = ids" using m by (simp_all add: n2_def commit_entry_def)
    ultimately show ?thesis using m(7) by (simp add: committed_def N_def cm flip: n2_def)
  qed
  moreover have "commit_committable t (n1\<lparr>listener := ds\<rparr>) = Inr (committed t (n1\<lparr>listener := ds\<rparr>))" for ds
    using match m j(1) by (intro commit_all) (auto simp: log_max_index_def)
  ultimately have "commit_committable t (n1\<lparr>listener := ds\<rparr>) = Inr (N\<lparr>listener := ds\<rparr>)" for ds by simp
  moreover have N: "listener N = []" "heard_from N = heard_from n1" "next_index N = next_index n1" "leads_at u t N"
      "client_queue N = []" "all_ids N = ids"
    using m by (simp_all add: N_def n2_def commit_entry_def leads_at_def)
  ultimately obtain xs where run: "cluster_run (replicate (Suc k) (Turn l t t)) c
      = Some (Inr (c[l := h\<lparr>node := N, heap := heap h @ xs\<rparr>]))"
    using ack_turns [OF w j d l as c, folded n1_def, of N] by auto
  have parts: "holds ids T (Suc K) (int K) T S (h\<lparr>node := n1, heap := heap h @ xs\<rparr>)" "my_id n1 = ids ! l"
      "\<And>i. i < length ids \<Longrightarrow> i \<in> insert j P \<Longrightarrow> heard_from n1 ! i = t"
    using ack [of xs] by (auto simp: waiting_def proposed_def)
  let ?h2 = "h\<lparr>node := N, heap := heap h @ xs\<rparr>"
  let ?h = "?h2\<lparr>node := (node ?h2)\<lparr>talker := []\<rparr>\<rparr>"
  have "holds ids T (Suc K) (int (Suc K)) T S ?h"
    using parts(1) by (simp add: holds_def N_def n2_def commit_entry_def)
  moreover have "leads_at u t (node ?h)" "my_id (node ?h) = ids ! l"
    using m(9) parts(2) by (simp_all add: N_def n2_def commit_entry_def leads_at_def)
  moreover have "match_index (node ?h) = replicate (length ids) (int (Suc K))"
    "next_index (node ?h) = replicate (length ids) None"
    using match nxt by (simp_all add: N_def n2_def commit_entry_def)
  moreover have "heard_from (node ?h) ! i = t" if "i < length ids" "i \<noteq> l" for i
    using parts(3) [OF that(1)] all [OF that(1)] that(2) N(2) by simp
  then have "heard_alike l (node ?h)"
    using m(3,9) N(2) by (simp add: heard_alike_def leads_at_def)
  ultimately have "settled_leader u t l ids T (Suc K) S ?h" by (simp add: settled_leader_def)
  moreover have "talker (node ?h2) = map jsonify (map (\<lambda>s. AE (committal_msg t n2 s)) ids)"
      "last_applied_index n2 = int K + 1" "last_applied_term n2 = T" "incoming ?h2 = incoming h"
    by (simp_all add: N_def n2_def commit_entry_def)
  ultimately show ?thesis using run by blast
qed

lemma follower_reads_committal:
  assumes "appended u t l ids T K S j h" "talker (node h) = []" "class_ok (AE m)" "m_direction m = Request"
    "m_type m = Committal" "m_receiver m = Some (ids ! j)" "prev_log_index m = Some (int K + 1)"
    "prev_log_term m = Some T" "entries m = None"
  shows "\<exists>h2. host_turn t t (recv (AE m) h) = Inr h2 \<and> holds ids T (Suc K) (int (Suc K)) T S h2 \<and>
    follows_at u t (node h2) \<and> my_id (node h2) = ids ! j \<and> talker (node h2) = [] \<and> incoming h2 = incoming h"
proof -
  have "m_receiver m = Some (my_id (node h))" using assms(1,6) by (simp add: appended_def)
  then obtain m' where m': "recv (AE m) h = h\<lparr>node := (node h)\<lparr>listener := listener (node h) @ [jsonify (AE m')]\<rparr>,
      heap := heap h @ (case entries m of None \<Rightarrow> [] | Some e \<Rightarrow> [e_entry e])\<rparr>"
    and f: "class_ok (AE m') = class_ok (AE m)" "m_direction m' = m_direction m" "m_type m' = m_type m"
    "prev_log_index m' = prev_log_index m" "prev_log_term m' = prev_log_term m"
    by (rule recv_to_me)
  let ?n = "(node h)\<lparr>listener := [jsonify (AE m')]\<rparr>"
  have n: "follows_at u t ?n" "listener (node h) = []" using assms(1) by (simp_all add: appended_def follows_at_def holds_def)
  have "raft_turn v t t ?n = Inr (commit_entry (int K + 1) T (?n\<lparr>listener := []\<rparr>))" for v
    by (rule follower_commits [OF n(1), of m']) (use assms(3-8) f in simp_all)
  then have "raft_turn v t t ?n = Inr (commit_entry (int K + 1) T (node h))" for v
    using n(2) by (simp add: same_fields)
  then have "host_turn t t (recv (AE m) h) =
      Inr (h\<lparr>node := commit_entry (int K + 1) T (node h), heap := heap h @ [[]]\<rparr>)"
    using m' n(2) assms(9) host_turn_eq [of "recv (AE m) h"] by simp
  then show ?thesis
    using assms(1,2) by (simp add: appended_def holds_def follows_at_def nth_append commit_entry_def)
qed


text \<open>A leader idle for long sends its last entry again to the nodes it has not heard of.\<close>

lemma foldE_append: "foldE f (xs @ ys) s = bindE (foldE f xs s) (foldE f ys)"
proof (induction xs arbitrary: s)
  case (Cons x xs)
  then have "foldE f (xs @ ys) = (\<lambda>s. bindE (foldE f xs s) (foldE f ys))" by (rule ext)
  then show ?case by (simp add: bindE_assoc)
qed simp

lemma resend_loop:
  assumes "length (next_index n) = length (all_ids n)" "length (heard_from n) = length (all_ids n)" "Suc K < length (log n)"
    and "next_index n = map (\<lambda>i. if i = l then None else Some (int K + 1)) [0..<length (all_ids n)]"
    and "\<And>i. i < length (all_ids n) \<Longrightarrow> i \<noteq> l \<Longrightarrow> resend_time < t - heard_from n ! i"
  shows "foldE (resend_to t) (py_enumerate (next_index n)) n =
    Inr (n\<lparr>talker := talker n @ map (\<lambda>i. jsonify (AE (append_msg t (int K) (e_term (log n ! K)) (log n ! Suc K) n (all_ids n ! i))))
            (filter (\<lambda>i. i \<noteq> l) [0..<length (all_ids n)]),
      heard_from := map (\<lambda>i. if i = l then heard_from n ! i else t) [0..<length (all_ids n)]\<rparr>)"
proof -
  let ?N = "length (all_ids n)"
  define A where "A = (\<lambda>i. jsonify (AE (append_msg t (int K) (e_term (log n ! K)) (log n ! Suc K) n (all_ids n ! i))))"
  have "foldE (resend_to t) (map (\<lambda>i. (int i, next_index n ! i)) [0..<k]) n =
      Inr (n\<lparr>talker := talker n @ map A (filter (\<lambda>i. i \<noteq> l) [0..<k]),
        heard_from := map (\<lambda>i. if i < k \<and> i \<noteq> l then t else heard_from n ! i) [0..<?N]\<rparr>)" (is "_ = Inr (?n k)") if "k \<le> ?N" for k
    using that
  proof (induction k)
    case 0
    have "map (\<lambda>i. if i < 0 \<and> i \<noteq> l then t else heard_from n ! i) [0..<?N] = heard_from n"
      using assms(2) by (intro nth_equalityI) auto
    then show ?case by (cases n) simp
  next
    case (Suc k)
    have ih: "foldE (resend_to t) (map (\<lambda>i. (int i, next_index n ! i)) [0..<k]) n = Inr (?n k)" using Suc by simp
    have h: "py_get (heard_from (?n k)) (int k) = Inr (heard_from n ! k)" using Suc.prems by (simp add: py_get_nth)
    have log: "py_get (log (?n k)) (int K) = Inr (log n ! K)" "py_get (log (?n k)) (int K + 1) = Inr (log n ! Suc K)"
      using assms(3) by (simp_all add: py_get_nth nat_add_distrib)
    have "resend_to t (int k, next_index n ! k) (?n k) = Inr (?n (Suc k))"
    proof (cases "k = l")
      case True
      then have "?n (Suc k) = ?n k" using less_SucE by (auto simp: less_Suc_eq intro!: arg_cong2 [where f = "\<lambda>a b. n\<lparr>talker := a, heard_from := b\<rparr>"])
      then show ?thesis using True Suc.prems assms(4) by (simp add: resend_to_def)
    next
      case False
      have x: "next_index n ! k = Some (int K + 1)" "resend_time < t - heard_from n ! k"
        using False Suc.prems assms(4,5) by simp_all
      have "append_msg t (int K) (e_term (log n ! K)) (log n ! Suc K) (?n k) = append_msg t (int K) (e_term (log n ! K)) (log n ! Suc K) n"
        by (simp add: append_msg_def fun_eq_iff)
      moreover have "(map (\<lambda>i. if i < k \<and> i \<noteq> l then t else heard_from n ! i) [0..<?N])[k := t] =
          map (\<lambda>i. if i < Suc k \<and> i \<noteq> l then t else heard_from n ! i) [0..<?N]"
        using False Suc.prems by (intro nth_equalityI) (auto simp: nth_list_update less_Suc_eq)
      ultimately show ?thesis
        using False Suc.prems x(2) h log
        by (simp add: resend_to_def x(1) py_get_nth py_set_nth send_msgs Let_def) (simp add: send_message_def A_def)
    qed
    then show ?case using ih by (simp add: foldE_append)
  qed
  from this [of ?N] have "foldE (resend_to t) (map (\<lambda>i. (int i, next_index n ! i)) [0..<?N]) n = Inr (?n ?N)" by simp
  moreover have "py_enumerate (next_index n) = map (\<lambda>i. (int i, next_index n ! i)) [0..<?N]"
    using assms(1) by (intro nth_equalityI) (simp_all add: py_enumerate_def)
  moreover have "map (\<lambda>i. if i < ?N \<and> i \<noteq> l then t else heard_from n ! i) [0..<?N] =
      map (\<lambda>i. if i = l then heard_from n ! i else t) [0..<?N]" by (intro nth_equalityI) auto
  ultimately show ?thesis by (simp add: A_def)
qed

lemma resends_turn:
  assumes "leads_at u t n" "foldE (resend_to t) (py_enumerate (next_index n)) n = Inr n1" "leads_at u t n1" "fresh t n1"
  shows "raft_turn v t t n = raft_turn v t t n1"
proof -
  have "foldE (resend_to t) (py_enumerate (next_index n1)) n1 = Inr n1"
    using assms(3,4) by (intro resend_nothing) (simp_all add: leads_at_def)
  moreover have "frame n = Leading u" "frame n1 = Leading u" "\<not> terminate n" "\<not> terminate n1" "current_role n = Leader"
    "current_role n1 = Leader" "t - u \<le> heartbeat_frequency"
    using assms(1,3) by (simp_all add: leads_at_def)
  ultimately show ?thesis by (simp add: raft_turn_def check_role_def leader_turn_def assms(2))
qed

definition others :: "nat \<Rightarrow> string list \<Rightarrow> string list" where
  "others l ids = map ((!) ids) (filter (\<lambda>i. i \<noteq> l) [0..<length ids])"

lemma leader_resends:
  assumes p: "proposed u t l ids T K S {} h" "talker (node h) = []"
    and stale: "\<And>i. i < length ids \<Longrightarrow> i \<noteq> l \<Longrightarrow> resend_time < t - heard_from (node h) ! i"
    and m: "class_ok (AE m)" "m_direction m = Request" "m_receiver m = Some (ids ! l)"
  defines "e \<equiv> last (log (node h))"
  shows "\<exists>h2 n. host_turn t t (recv (AE m) h) = Inr h2 \<and>
    talker (node h2) = map jsonify (map (\<lambda>s. AE (append_msg t (int K) T e n s)) (others l ids)) \<and>
    deref (heap h2) (e_entry e) = S \<and> waiting u t l ids T K S {} (h2\<lparr>node := (node h2)\<lparr>talker := []\<rparr>\<rparr>) \<and>
    current_term n = T \<and> my_id n = ids ! l \<and> commit_index n = int K \<and> incoming h2 = incoming h"
proof -
  have H: "holds ids T (Suc K) (int K) T S h" "leads_at u t (node h)" "my_id (node h) = ids ! l" "e_term (log (node h) ! K) = T"
    "next_index (node h) = map (\<lambda>i. if i = l then None else Some (int K + 1)) [0..<length ids]"
    using p by (simp_all add: proposed_def)
  have h: "all_ids (node h) = ids" "listener (node h) = []" "client_queue (node h) = []" "length (log (node h)) = Suc (Suc K)"
    "current_term (node h) = T" "commit_index (node h) = int K"
    using H(1) by (simp_all add: holds_def)
  have "log (node h) \<noteq> []" using h(4) by auto
  then have last: "log (node h) ! Suc K = e" using h(4) by (simp add: e_def last_conv_nth)
  have "m_receiver m = Some (my_id (node h))" using m(3) H(3) by simp
  then obtain m' where m': "recv (AE m) h = h\<lparr>node := (node h)\<lparr>listener := listener (node h) @ [jsonify (AE m')]\<rparr>,
      heap := heap h @ (case entries m of None \<Rightarrow> [] | Some e \<Rightarrow> [e_entry e])\<rparr>"
      "class_ok (AE m') = class_ok (AE m)" "m_direction m' = m_direction m"
    by (rule recv_to_me)
  define n where "n = (node h)\<lparr>listener := [jsonify (AE m')]\<rparr>"
  define n1 where "n1 = n\<lparr>talker := map jsonify (map (\<lambda>s. AE (append_msg t (int K) T e n s)) (others l ids)),
      heard_from := map (\<lambda>i. if i = l then heard_from n ! i else t) [0..<length ids]\<rparr>"
  have loop: "foldE (resend_to t) (py_enumerate (next_index n)) n = Inr n1"
    by (subst resend_loop [where K = K and l = l])
      (use H h stale p(2) last in \<open>simp_all add: n_def n1_def leads_at_def others_def comp_def\<close>)
  have L: "leads_at u t n" "leads_at u t n1" using H(2) h(1) by (simp_all add: n_def n1_def leads_at_def)
  have f: "fresh t n1" using H(5) h(1) by (auto simp: fresh_def n1_def n_def resend_time_def)
  have "raft_turn v t t n = Inr (n1\<lparr>listener := []\<rparr>)" for v
    unfolding resends_turn [OF L(1) loop L(2) f]
    by (rule leader_ignores [OF L(2)]) (use m'(2,3) m(1,2) h(3) f in \<open>simp_all add: n1_def n_def\<close>)
  then have turn: "host_turn t t (recv (AE m) h) = Inr (h\<lparr>node := n1\<lparr>listener := []\<rparr>,
      heap := (heap h @ (case entries m of None \<Rightarrow> [] | Some e \<Rightarrow> [e_entry e])) @ [[]]\<rparr>)" (is "_ = Inr ?h2")
    using m'(1) h(2) host_turn_eq [of "recv (AE m) h"] by (simp add: n_def)
  have "proposed u t l ids T K S {} (?h2\<lparr>node := (node ?h2)\<lparr>talker := []\<rparr>\<rparr>)"
    using p(1) L(2) by (simp add: proposed_def holds_def n1_def n_def nth_append leads_at_def)
  then have "waiting u t l ids T K S {} (?h2\<lparr>node := (node ?h2)\<lparr>talker := []\<rparr>\<rparr>)"
    by (rule proposed_waiting) (simp add: n1_def resend_time_def)
  moreover have "deref (heap ?h2) (e_entry e) = S" using H(1) by (simp add: holds_def deref_def nth_append e_def)
  ultimately show ?thesis
    using turn H(3) h(5,6) by (intro exI [of _ ?h2] exI [of _ n]) (simp add: n1_def, simp add: n_def)
qed

text \<open>A leader with nothing to do.\<close>

lemma leader_idle:
  assumes "leads_at u t (node h)" "fresh t (node h)" "listener (node h) = []" "client_queue (node h) = []"
  shows "host_turn t t h = Inr (h\<lparr>heap := heap h @ [[]]\<rparr>)"
proof -
  have fr: "frame (node h) = Leading u" using assms(1) by (simp add: leads_at_def)
  have "raft_turn v t t (node h) = Inr (node h)" for v
    using leads_turn [OF assms(1,2) fr, of v] assms(3,4)
    by (simp add: leader_receive_def get_message_def leader_request_def get_client_request_def same_frame fr)
  then show ?thesis using host_turn_eq [of h t t "node h"] by simp
qed

section \<open>Heartbeats\<close>

definition heartbeat_msg :: "int \<Rightarrow> 'v raft_node \<Rightarrow> 'v AppendEntriesMessage" where
  "heartbeat_msg ts n =
     \<lparr>m_timestamp = ts div 1000000, m_type = Heartbeat, m_term = current_term n,
       m_sender = my_id n, m_receiver = None, m_direction = Request,
       ae_results = \<lparr>ae_term = None, success = None\<rparr>, m_leader_id = Some (my_id n), prev_log_index = None,
       prev_log_term = None, entries = None, leader_commit = commit_index n\<rparr>"

lemma leader_beats:
  assumes "settled_leader u t l ids T K S h" "heartbeat_frequency < t' - u" "talker (node h) = []"
  shows "\<exists>h2. host_turn t' t' h = Inr h2 \<and> talker (node h2) = map jsonify [AE (heartbeat_msg t' (node h))] \<and>
    settled_leader t' t' l ids T K S (h2\<lparr>node := (node h2)\<lparr>talker := []\<rparr>\<rparr>) \<and> incoming h2 = incoming h"
proof -
  let ?n = "node h" and ?n1 = "send_heartbeat t' (node h)"
  have n: "frame ?n = Leading u" "\<not> terminate ?n" "current_role ?n = Leader" "listener ?n = []" "client_queue ?n = []"
    "next_index ?n = replicate (length ids) None" "length (heard_from ?n) = length ids"
    using assms(1) by (simp_all add: settled_leader_def leads_at_def holds_def)
  have s: "?n1 = ?n\<lparr>talker := map jsonify [AE (heartbeat_msg t' ?n)]\<rparr>"
    by (simp add: send_heartbeat_def send_message_def heartbeat_msg_def assms(3))
  have "foldE (resend_to t') (py_enumerate (next_index ?n1)) ?n1 = Inr ?n1"
    by (rule resend_nothing) (use n fresh_none [of ?n1] in \<open>simp_all add: s\<close>)
  then have "raft_turn v t' t' ?n = Inr (?n1\<lparr>frame := Leading t'\<rparr>)" for v
    using n assms(2)
    by (simp add: raft_turn_def check_role_def leader_turn_def)
      (simp add: s leader_receive_def get_message_def leader_request_def get_client_request_def)
  then have turn: "host_turn t' t' h = Inr (h\<lparr>node := ?n1\<lparr>frame := Leading t'\<rparr>, heap := heap h @ [[]]\<rparr>)" (is "_ = Inr ?h2")
    by (rule host_turn_eq)
  have "settled_leader t' t' l ids T K S (?h2\<lparr>node := (node ?h2)\<lparr>talker := []\<rparr>\<rparr>)"
    using assms(1) by (simp add: settled_leader_def s holds_def leads_at_def nth_append heartbeat_frequency_def)
  with turn show ?thesis by (simp add: s)
qed

lemma follower_reads_heartbeat:
  assumes "holds ids T K (int K) T S h" "follows_at u t (node h)" "class_ok (AE m)" "m_direction m = Request"
    "m_type m = Heartbeat" "m_receiver m = None" "m_term m = T" "entries m = None"
  shows "\<exists>h2. host_turn t' t' (recv (AE m) h) = Inr h2 \<and> holds ids T K (int K) T S h2 \<and> follows_at t' t' (node h2) \<and>
    my_id (node h2) = my_id (node h) \<and> talker (node h2) = talker (node h) \<and> incoming h2 = incoming h"
proof -
  have "m_receiver m = Some (my_id (node h)) \<or> m_receiver m = None" using assms(6) by simp
  then obtain m' where m': "recv (AE m) h = h\<lparr>node := (node h)\<lparr>listener := listener (node h) @ [jsonify (AE m')]\<rparr>,
      heap := heap h @ (case entries m of None \<Rightarrow> [] | Some e \<Rightarrow> [e_entry e])\<rparr>"
    and f: "class_ok (AE m') = class_ok (AE m)" "m_direction m' = m_direction m" "m_type m' = m_type m" "m_term m' = m_term m"
    by (rule recv_mine)
  obtain u' where n: "frame (node h) = Following u'" "\<not> terminate (node h)" "current_role (node h) = Follower"
    "heartbeat_frequency \<le> election_timeout (node h)" "listener (node h) = []" "client_queue (node h) = []"
    "current_term (node h) = T"
    using assms(1,2) by (auto simp: follows_at_def holds_def)
  let ?n = "(node h)\<lparr>listener := [jsonify (AE m')]\<rparr>"
  define n2 where "n2 = (node h)\<lparr>leader_id := m_leader_id m', frame := Following t'\<rparr>"
  have "(node h)\<lparr>listener := [], leader_id := x\<rparr> = (node h)\<lparr>leader_id := x\<rparr>" for x
    using n(5) by (cases "node h") simp
  then have "follower_heartbeat t' m' (?n\<lparr>listener := []\<rparr>) = (node h)\<lparr>leader_id := m_leader_id m'\<rparr>"
    using n(6,7) f(4) assms(7) by (simp add: follower_heartbeat_def get_client_request_def Let_def)
  then have "raft_turn v t' t' ?n = Inr n2" for v
    using n f assms(3-5) get_message_Cons [of ?n "AE m'" "[]"]
    by (simp add: raft_turn_def check_role_def follower_turn_def follower_message_def n2_def heartbeat_frequency_def)
  then have turn: "host_turn t' t' (recv (AE m) h) = Inr (h\<lparr>node := n2, heap := heap h @ [[]]\<rparr>)"
    using m' n(5) assms(8) host_turn_eq [of "recv (AE m) h"] by simp
  then show ?thesis
    using assms(1) n by (simp add: holds_def follows_at_def n2_def nth_append heartbeat_frequency_def)
qed

end
