(* ===== verification/ClusterReplication.thy ===== *)
theory ClusterReplication
  imports Replication
begin

text \<open>
  A settled cluster of name servers, of any size. \<open>settled\<close> says that it is at rest: one node leads
  and all others follow it in the same term, every log is committed to its end and ends with the
  same registry, and no message is under way.

  The schedule that replicates one request lets every node publish what it has to say, the others
  read it, and everyone take its turns. It depends on how long ago the leader has heard of the
  others: heartbeats are not acknowledged, so after \<open>resend_time\<close> without a request the entry is
  sent twice, and acknowledged twice. Between requests, heartbeats move the clock.
\<close>

section \<open>Phases of the cluster\<close>

text \<open>One turn of every host.\<close>

definition all_turns :: "int \<Rightarrow> nat \<Rightarrow> 'f act list" where
  "all_turns t n = concat (map (\<lambda>j. [Turn j t t]) [0..<n])"

lemma all_turns_run:
  fixes c :: "'f::linordered_idom cluster"
  assumes "silent_links c"
    and "\<And>j. j < length c \<Longrightarrow> \<exists>h. host_turn t t (c ! j) = Inr h \<and> R j h \<and> incoming h = incoming (c ! j)"
  shows "\<exists>c'. cluster_run (all_turns t (length c)) c = Some (Inr c') \<and> length c' = length c \<and> silent_links c' \<and>
    (\<forall>j < length c. R j (c' ! j))"
proof -
  have "\<exists>c'. cluster_run (concat (map (\<lambda>j. [Turn j t t]) [0..<length c])) c = Some (Inr c') \<and> length c' = length c \<and>
    (\<forall>j < length c. R j (c' ! j) \<and> incoming (c' ! j) = replicate (length c) [])"
  proof (rule each_host)
    fix j and c' :: "'f cluster"
    assume j: "j < length c" "length c' = length c" "c' ! j = c ! j"
    obtain h where h: "host_turn t t (c ! j) = Inr h" "R j h" "incoming h = incoming (c ! j)" using assms(2) [OF j(1)] by auto
    have "incoming (c ! j) = replicate (length c) []" using assms(1) j(1) by (simp add: silent_links_def)
    with h j show "\<exists>h. cluster_run [Turn j t t] c' = Some (Inr (c'[j := h])) \<and>
        (R j h \<and> incoming h = replicate (length c) [])"
      by (intro exI [of _ h]) (simp add: at_host_def)
  qed
  then show ?thesis unfolding all_turns_def by (auto simp: silent_links_def in_set_conv_nth)
qed

text \<open>Node \<open>l\<close> says all it has to say, everyone reads it and takes a turn.\<close>

definition spread :: "int \<Rightarrow> nat \<Rightarrow> nat \<Rightarrow> nat \<Rightarrow> 'f act list" where
  "spread t n l k = exchange n l k @ all_turns t n"

lemma spread_run:
  fixes c :: "'f::linordered_idom cluster"
  assumes c: "silent_links c" "l < length c" "talker (node (c ! l)) = map jsonify ms" "length c = n" "length ms = k"
    and each: "\<And>j. j < n \<Longrightarrow> \<exists>h. host_turn t t (fold recv (map (map_message (deref (heap (c ! l)))) ms)
        (if j = l then (c ! j)\<lparr>node := (node (c ! j))\<lparr>talker := []\<rparr>\<rparr> else c ! j)) = Inr h \<and> R j h \<and>
      incoming h = incoming (c ! j)"
  shows "\<exists>c'. cluster_run (spread t n l k) c = Some (Inr c') \<and> length c' = n \<and> silent_links c' \<and>
    (\<forall>j < n. R j (c' ! j))"
proof -
  obtain c1 where c1: "cluster_run (exchange n l k) c = Some (Inr c1)" "length c1 = n" "silent_links c1"
    "\<And>j. j < n \<Longrightarrow> c1 ! j = fold recv (map (map_message (deref (heap (c ! l)))) ms)
        (if j = l then (c ! j)\<lparr>node := (node (c ! j))\<lparr>talker := []\<rparr>\<rparr> else c ! j)"
    using exchange_run [OF c(1-3)] c(4,5) by auto
  have "\<exists>c'. cluster_run (all_turns t (length c1)) c1 = Some (Inr c') \<and> length c' = length c1 \<and> silent_links c' \<and>
      (\<forall>j < length c1. R j (c' ! j))"
  proof (rule all_turns_run [OF c1(3)])
    fix j assume "j < length c1"
    then have j: "j < n" using c1(2) by simp
    have "incoming (c1 ! j) = incoming (c ! j)" using c1(4) [OF j] by (simp add: fold_recv_same)
    then show "\<exists>h. host_turn t t (c1 ! j) = Inr h \<and> R j h \<and> incoming h = incoming (c1 ! j)"
      using each [OF j] c1(4) [OF j] by auto
  qed
  then show ?thesis
    using c1(2) cluster_run_then [OF c1(1)] by (auto simp: spread_def)
qed

text \<open>
  A cluster at rest since time \<open>u\<close>, when the leader sent its last heartbeat: the leader at position
  \<open>l\<close> of the list, the others following it, every log ending with \<open>S\<close> at index \<open>K\<close> of term \<open>T\<close>.
\<close>

definition settled :: "int \<Rightarrow> int \<Rightarrow> nat \<Rightarrow> string list \<Rightarrow> int \<Rightarrow> nat \<Rightarrow> 'f registry \<Rightarrow> 'f cluster \<Rightarrow> bool" where
  "settled u t l ids T K S c \<longleftrightarrow> length c = length ids \<and> distinct ids \<and> l < length ids \<and> 1 < length ids \<and> silent_links c \<and>
     (\<forall>i < length ids. talker (node (c ! i)) = [] \<and>
       (if i = l then settled_leader u t l ids T K S (c ! i)
        else holds ids T K (int K) T S (c ! i) \<and> follows_at u t (node (c ! i)) \<and> my_id (node (c ! i)) = ids ! i))"

text \<open>A heartbeat reaches everyone, and the cluster rests at a later time.\<close>

definition beat_acts :: "int \<Rightarrow> nat \<Rightarrow> nat \<Rightarrow> 'f act list" where
  "beat_acts t n l = Turn l t t # spread t n l 1"

lemma one_turn:
  "l < length c \<Longrightarrow> host_turn t t (c ! l) = Inr h \<Longrightarrow> cluster_run [Turn l t t] c = Some (Inr (c[l := h]))"
  by (simp add: at_host_def)

lemma silent_links_update:
  "silent_links c \<Longrightarrow> i < length c \<Longrightarrow> incoming h = incoming (c ! i) \<Longrightarrow> silent_links (c[i := h])"
  by (auto simp: silent_links_def dest!: subsetD [OF set_update_subset_insert])

lemma heartbeat_round:
  fixes c :: "'f::linordered_idom cluster"
  assumes s: "settled u t l ids T K S c" and t': "heartbeat_frequency < t' - u"
  shows "\<exists>c'. cluster_run (beat_acts t' (length ids) l) c = Some (Inr c') \<and> settled t' t' l ids T K S c'"
proof -
  have l: "length c = length ids" "distinct ids" "l < length ids" "1 < length ids" "silent_links c"
    using s by (simp_all add: settled_def)
  have L: "settled_leader u t l ids T K S (c ! l)" "talker (node (c ! l)) = []" using s l(3) by (auto simp: settled_def)
  obtain h2 where h2: "host_turn t' t' (c ! l) = Inr h2" "talker (node h2) = map jsonify [AE (heartbeat_msg t' (node (c ! l)))]"
      "settled_leader t' t' l ids T K S (h2\<lparr>node := (node h2)\<lparr>talker := []\<rparr>\<rparr>)" "incoming h2 = incoming (c ! l)"
    using leader_beats [OF L(1) t' L(2)] by auto
  define c1 where "c1 = c[l := h2]"
  have c1: "silent_links c1" "l < length c1" "length c1 = length ids" "c1 ! l = h2"
    using l h2(4) by (auto simp: c1_def intro!: silent_links_update)
  obtain m where m: "map_message (deref (heap h2)) (AE (heartbeat_msg t' (node (c ! l)))) = AE m" by simp
  have T: "current_term (node (c ! l)) = T" using L(1) by (simp add: settled_leader_def holds_def)
  have mf: "class_ok (AE m)" "m_direction m = Request" "m_type m = Heartbeat" "m_receiver m = None" "m_term m = T" "entries m = None"
    using m T by (auto simp: heartbeat_msg_def)
  let ?R = "\<lambda>i h. talker (node h) = [] \<and> (if i = l then settled_leader t' t' l ids T K S h
        else holds ids T K (int K) T S h \<and> follows_at t' t' (node h) \<and> my_id (node h) = ids ! i)"
  have "\<exists>c'. cluster_run (spread t' (length ids) l 1) c1 = Some (Inr c') \<and> length c' = length ids \<and> silent_links c' \<and>
      (\<forall>j < length ids. ?R j (c' ! j))"
  proof (rule spread_run [OF c1(1,2)])
    show "talker (node (c1 ! l)) = map jsonify [AE (heartbeat_msg t' (node (c ! l)))]" using h2(2) c1(4) by simp
    fix j assume j: "j < length ids"
    show "\<exists>h. host_turn t' t' (fold recv (map (map_message (deref (heap (c1 ! l)))) [AE (heartbeat_msg t' (node (c ! l)))])
        (if j = l then (c1 ! j)\<lparr>node := (node (c1 ! j))\<lparr>talker := []\<rparr>\<rparr> else c1 ! j)) = Inr h \<and> ?R j h \<and>
      incoming h = incoming (c1 ! j)"
    proof (cases "j = l")
      case True
      let ?h = "h2\<lparr>node := (node h2)\<lparr>talker := []\<rparr>\<rparr>"
      have b: "leads_at t' t' (node ?h)" "listener (node ?h) = []" "client_queue (node ?h) = []" "fresh t' (node ?h)"
        using h2(3) fresh_none [of "node ?h" "length ids" t'] by (simp_all add: settled_leader_def holds_def)
      obtain h xs where h: "host_turn t' t' (recv (AE m) ?h) = Inr h" "h = ?h\<lparr>heap := heap ?h @ xs\<rparr>"
        using leader_reads_own [OF b(1-3) mf(1,2) _ b(4)] mf(4) by metis
      have "settled_leader t' t' l ids T K S h"
        using h2(3) unfolding h(2) by (simp add: settled_leader_def holds_def nth_append)
      with True h c1(4) m show ?thesis by auto
    next
      case False
      have f: "holds ids T K (int K) T S (c ! j)" "follows_at u t (node (c ! j))" "my_id (node (c ! j)) = ids ! j"
        "talker (node (c ! j)) = []" using s j False by (auto simp: settled_def)
      have "c1 ! j = c ! j" using False by (simp add: c1_def)
      with False c1(4) m f(3,4) follower_reads_heartbeat [OF f(1,2) mf, of t'] show ?thesis by auto
    qed
  qed (simp_all add: c1(3))
  then obtain c2 where c2: "cluster_run (spread t' (length ids) l 1) c1 = Some (Inr c2)" "length c2 = length ids"
      "silent_links c2" "\<And>j. j < length ids \<Longrightarrow> ?R j (c2 ! j)" by auto
  have "settled t' t' l ids T K S c2" using c2(2-4) l(2-4) unfolding settled_def by auto
  moreover have "cluster_run (beat_acts t' (length ids) l) c = Some (Inr c2)"
    using cluster_run_then [OF one_turn [OF _ h2(1)], of "spread t' (length ids) l 1"] l(1,3) c2(1)
    by (simp add: beat_acts_def c1_def)
  ultimately show ?thesis by auto
qed

text \<open>While no heartbeat is due, time may pass.\<close>

lemma settled_later:
  assumes "settled u t l ids T K S c" "t \<le> t'" "t' - u \<le> heartbeat_frequency"
  shows "settled u t' l ids T K S c"
proof -
  have "leads_at u t' n" if "leads_at u t n" for n :: "nat raft_node"
    using that assms(2,3) by (simp add: leads_at_def)
  then have "settled_leader u t' l ids T K S h" if "settled_leader u t l ids T K S h" for h :: "'a host"
    using that by (simp add: settled_leader_def)
  moreover have "follows_at u t' n" if "follows_at u t n" for n :: "nat raft_node"
    using that assms(3) by (auto simp: follows_at_def)
  ultimately show ?thesis using assms(1) by (simp add: settled_def)
qed

lemma clock_moves:
  fixes c :: "'f::linordered_idom cluster"
  assumes "settled u t l ids T K S c" "t \<le> t'"
  shows "\<exists>as u' c'. (as = [] \<or> as = beat_acts t' (length ids) l) \<and> cluster_run as c = Some (Inr c') \<and>
    settled u' t' l ids T K S c'"
proof (cases "heartbeat_frequency < t' - u")
  case True
  with heartbeat_round [OF assms(1)] show ?thesis by blast
next
  case False
  then have "settled u t' l ids T K S c" using settled_later [OF assms] by simp
  then show ?thesis by (intro exI [of _ "[]"]) auto
qed

section \<open>A request replicated\<close>

text \<open>The nodes of \<open>P\<close> have acknowledged the entry; each of the others is about to, \<open>k\<close> times.\<close>

definition acking :: "int \<Rightarrow> int \<Rightarrow> nat \<Rightarrow> string list \<Rightarrow> int \<Rightarrow> nat \<Rightarrow> 'f registry \<Rightarrow> nat \<Rightarrow> nat set \<Rightarrow> 'f cluster \<Rightarrow> bool" where
  "acking u t l ids T K S k P c \<longleftrightarrow> length c = length ids \<and> silent_links c \<and>
     waiting u t l ids T K S P (c ! l) \<and> talker (node (c ! l)) = [] \<and>
     (\<forall>i < length ids. i \<noteq> l \<longrightarrow> appended u t l ids T K S i (c ! i) \<and>
       ack_list ids l i (if i \<in> P then 0 else k) (talker (node (c ! i))))"

lemma acking_follower:
  "acking u t l ids T K S k P c \<Longrightarrow> i < length ids \<Longrightarrow> i \<noteq> l \<Longrightarrow> appended u t l ids T K S i (c ! i) \<and>
    ack_list ids l i (if i \<in> P then 0 else k) (talker (node (c ! i)))"
  unfolding acking_def by blast

lemma ack_list_0 [simp]: "ack_list ids l i 0 ds \<longleftrightarrow> ds = []"
  by (auto simp: ack_list_def)

lemma acks_map: "acks ids l j a \<Longrightarrow> \<exists>a'. map_message f (AE a) = AE a' \<and> acks ids l j a'"
  by (simp add: acks_def)

lemma acks_maps:
  assumes "\<forall>a \<in> set as. acks ids l j a"
  shows "\<exists>as'. map (map_message f) (map AE as) = map AE as' \<and> length as' = length as \<and> (\<forall>a \<in> set as'. acks ids l j a)"
  using assms
proof (induction as)
  case (Cons a as)
  then obtain as' where "map (map_message f) (map AE as) = map AE as'" "length as' = length as" "\<forall>a \<in> set as'. acks ids l j a"
    by auto
  moreover obtain a' where "map_message f (AE a) = AE a'" "acks ids l j a'" using acks_map [of ids l j a f] Cons.prems by auto
  ultimately show ?case by (intro exI [of _ "a' # as'"]) simp
qed simp

lemma appended_talker: "appended u t l ids T K S j (h\<lparr>node := (node h)\<lparr>talker := x\<rparr>\<rparr>) = appended u t l ids T K S j h"
  by (simp add: appended_def holds_def follows_at_def)

text \<open>The acknowledgements of \<open>j\<close> reach the leader.\<close>

lemma ack_exchange:
  fixes c :: "'f::linordered_idom cluster"
  assumes A: "acking u t l ids T K S k P c" and d: "distinct ids" "l < length ids" and j: "j < length ids" "j \<noteq> l" "j \<notin> P"
  shows "\<exists>c' as. cluster_run (exchange (length ids) j k) c = Some (Inr c') \<and> length c' = length ids \<and> silent_links c' \<and>
    (\<forall>a \<in> set as. acks ids l j (a :: 'f registry AppendEntriesMessage)) \<and> length as = k \<and>
    c' ! l = fold recv (map AE as) (c ! l) \<and> talker (node (c' ! j)) = [] \<and>
    appended u t l ids T K S j (c' ! j) \<and> (\<forall>i < length ids. i \<noteq> l \<longrightarrow> i \<noteq> j \<longrightarrow> c' ! i = c ! i)"
proof -
  have l: "length c = length ids" "silent_links c" using A by (simp_all add: acking_def)
  have "ack_list ids l j k (talker (node (c ! j)))" using acking_follower [OF A j(1,2)] j(3) by simp
  then obtain as where as: "talker (node (c ! j)) = map jsonify (map AE as)" "length as = k" "\<forall>a \<in> set as. acks ids l j a"
    by (auto simp: ack_list_def)
  obtain as' :: "'f registry AppendEntriesMessage list" where
    as': "map (map_message (deref (heap (c ! j)))) (map AE as) = map AE as'" "length as' = k" "\<forall>a \<in> set as'. acks ids l j a"
    using acks_maps [OF as(3)] as(2) by blast
  have aj: "appended u t l ids T K S j (c ! j)" using A j by (simp add: acking_def)
  have "\<exists>c'. cluster_run (exchange (length c) j (length (map AE as))) c = Some (Inr c') \<and> length c' = length c \<and>
    silent_links c' \<and> (\<forall>i < length c. c' ! i = fold recv (map AE as')
      (if i = j then (c ! i)\<lparr>node := (node (c ! i))\<lparr>talker := []\<rparr>\<rparr> else c ! i))"
    using exchange_run [OF l(2), of j "map AE as"] l(1) j(1) as(1) unfolding as'(1) by simp
  then obtain c' where c': "cluster_run (exchange (length ids) j k) c = Some (Inr c')" "length c' = length ids" "silent_links c'"
    "\<And>i. i < length ids \<Longrightarrow> c' ! i = fold recv (map AE as') (if i = j then (c ! i)\<lparr>node := (node (c ! i))\<lparr>talker := []\<rparr>\<rparr> else c ! i)"
    using l(1) as(2) by auto
  have other: "fold recv (map AE bs) h = h" if "my_id (node h) \<noteq> ids ! l" "\<forall>a \<in> set bs. acks ids l j a" for h and bs :: "'f registry AppendEntriesMessage list"
    using that by (induction bs) (auto simp: recv_def acks_def)
  have id: "my_id (node (c ! i)) \<noteq> ids ! l" if "i < length ids" "i \<noteq> l" for i
    using A that d by (auto simp: acking_def appended_def nth_eq_iff_index_eq)
  have "c' ! j = (c ! j)\<lparr>node := (node (c ! j))\<lparr>talker := []\<rparr>\<rparr>"
    using c'(4) [OF j(1)] other [OF _ as'(3)] id [OF j(1,2)] by simp
  moreover have "c' ! i = c ! i" if "i < length ids" "i \<noteq> l" "i \<noteq> j" for i
    using c'(4) [OF that(1)] other [OF _ as'(3)] id [OF that(1,2)] that by simp
  moreover have "c' ! l = fold recv (map AE as') (c ! l)" using c'(4) [OF d(2)] j(2) by simp
  ultimately show ?thesis
    using c'(1-3) as'(2,3) aj appended_talker [where h = "c ! j" and x = "[]"] by (intro exI [of _ c'] exI [of _ as']) simp
qed

text \<open>After the last acknowledgement.\<close>

definition committing :: "int \<Rightarrow> int \<Rightarrow> nat \<Rightarrow> string list \<Rightarrow> int \<Rightarrow> nat \<Rightarrow> 'f registry \<Rightarrow> 'f cluster \<Rightarrow> bool" where
  "committing u t l ids T K S c \<longleftrightarrow> length c = length ids \<and> silent_links c \<and>
     settled_leader u t l ids T (Suc K) S ((c ! l)\<lparr>node := (node (c ! l))\<lparr>talker := []\<rparr>\<rparr>) \<and>
     (\<exists>n. talker (node (c ! l)) = map jsonify (map (\<lambda>s. AE (committal_msg t n s)) ids) \<and>
        last_applied_index n = int K + 1 \<and> last_applied_term n = T) \<and>
     (\<forall>i < length ids. i \<noteq> l \<longrightarrow> appended u t l ids T K S i (c ! i) \<and> talker (node (c ! i)) = [])"

definition ack_acts :: "int \<Rightarrow> nat \<Rightarrow> nat \<Rightarrow> nat \<Rightarrow> nat \<Rightarrow> 'f act list" where
  "ack_acts t n l k j = exchange n j k @ replicate k (Turn l t t)"

lemma ack_loop:
  fixes c :: "'f::linordered_idom cluster"
  assumes "acking u t l ids T K S (Suc k) P c" "distinct ids" "l < length ids" "js \<noteq> []" "distinct js"
    "set js = {i. i < length ids \<and> i \<noteq> l \<and> i \<notin> P}"
  shows "\<exists>c'. cluster_run (concat (map (ack_acts t (length ids) l (Suc k)) js)) c = Some (Inr c') \<and>
    committing u t l ids T K S c'"
  using assms
proof (induction js arbitrary: c P)
  case (Cons j js)
  have j: "j < length ids" "j \<noteq> l" "j \<notin> P" using Cons.prems(6) by auto
  obtain c1 as where c1: "cluster_run (exchange (length ids) j (Suc k)) c = Some (Inr c1)" "length c1 = length ids" "silent_links c1"
      "\<forall>a \<in> set as. acks ids l j (a :: 'f registry AppendEntriesMessage)" "length as = Suc k"
      "c1 ! l = fold recv (map AE as) (c ! l)" "talker (node (c1 ! j)) = []"
      "appended u t l ids T K S j (c1 ! j)" "\<And>i. i < length ids \<Longrightarrow> i \<noteq> l \<Longrightarrow> i \<noteq> j \<Longrightarrow> c1 ! i = c ! i"
    using ack_exchange [OF Cons.prems(1-3) j] by auto
  have w: "waiting u t l ids T K S P (c ! l)" "talker (node (c ! l)) = []" using Cons.prems(1) by (simp_all add: acking_def)
  have l1: "l < length c1" using c1(2) Cons.prems(3) by simp
  have inc: "incoming (c1 ! l) = incoming (c ! l)" using c1(6) by (simp add: fold_recv_same)
  have run: "cluster_run (ack_acts t (length ids) l (Suc k) j @ rest) c = cluster_run rest (c1[l := h])"
    if "cluster_run (replicate (Suc k) (Turn l t t)) c1 = Some (Inr (c1[l := h]))" for h rest
    using cluster_run_then [OF c1(1), of "replicate (Suc k) (Turn l t t) @ rest"] cluster_run_then [OF that, of rest]
    by (simp add: ack_acts_def del: replicate_Suc)
  show ?case
  proof (cases js)
    case Nil
    have all: "i = l \<or> i \<in> insert j P" if "i < length ids" for i using Cons.prems(6) Nil that by auto
    obtain h n where h: "cluster_run (replicate (Suc k) (Turn l t t)) c1 = Some (Inr (c1[l := h]))"
        "settled_leader u t l ids T (Suc K) S (h\<lparr>node := (node h)\<lparr>talker := []\<rparr>\<rparr>)"
        "talker (node h) = map jsonify (map (\<lambda>s. AE (committal_msg t n s)) ids)"
        "last_applied_index n = int K + 1" "last_applied_term n = T" "incoming h = incoming (c1 ! l)"
      using leader_commits [OF w(1) j Cons.prems(2) w(2) l1 c1(4-6) all] inc by auto
    have "appended u t l ids T K S i (c1[l := h] ! i) \<and> talker (node (c1[l := h] ! i)) = []" if "i < length ids" "i \<noteq> l" for i
    proof (cases "i = j")
      case False
      then have "i \<in> P" using Cons.prems(6) Nil that by auto
      then show ?thesis using False that c1(9) [OF that] acking_follower [OF Cons.prems(1) that] l1 c1(2) by simp
    qed (use that c1(7,8) in simp)
    then have "committing u t l ids T K S (c1[l := h])"
      using h c1(2,3) l1 silent_links_update [OF c1(3) l1 h(6)] unfolding committing_def by auto
    with run [OF h(1), of "[]"] Nil show ?thesis by simp
  next
    case (Cons j' ks)
    have j': "j' < length ids" "j' \<notin> insert j P" "j' \<noteq> l" using Cons Cons.prems(5,6) by auto
    obtain h where h: "cluster_run (replicate (Suc k) (Turn l t t)) c1 = Some (Inr (c1[l := h]))"
        "waiting u t l ids T K S (insert j P) h" "talker (node h) = []" "incoming h = incoming (c1 ! l)"
      using leader_waits [OF w(1) j Cons.prems(2) w(2) l1 c1(4-6) j'] inc by auto
    have "appended u t l ids T K S i (c1[l := h] ! i) \<and>
        ack_list ids l i (if i \<in> insert j P then 0 else Suc k) (talker (node (c1[l := h] ! i)))"
      if "i < length ids" "i \<noteq> l" for i
    proof (cases "i = j")
      case False
      then show ?thesis using that c1(9) [OF that] acking_follower [OF Cons.prems(1) that] by simp
    qed (use that c1(7,8) in simp)
    then have "acking u t l ids T K S (Suc k) (insert j P) (c1[l := h])"
      using h(2,3) c1(2) l1 silent_links_update [OF c1(3) l1 h(4)] unfolding acking_def by simp
    then have "\<exists>c'. cluster_run (concat (map (ack_acts t (length ids) l (Suc k)) js)) (c1[l := h]) = Some (Inr c') \<and>
        committing u t l ids T K S c'"
      by (rule Cons.IH) (use Cons Cons.prems in auto)
    with run [OF h(1)] show ?thesis by simp
  qed
qed simp

text \<open>
  The leader's entry reaches everyone on its list, among them all other nodes, who acknowledge it
  once more. What the leader does in its turn depends on how long ago it has heard of them.
\<close>

lemma append_phase:
  fixes c :: "'f::linordered_idom cluster"
  assumes l: "length c = length ids" "distinct ids" "l < length ids" "silent_links c"
    and xs: "distinct xs" "\<And>i. i < length ids \<Longrightarrow> i \<noteq> l \<Longrightarrow> ids ! i \<in> set xs"
    and tk: "talker (node (c ! l)) = map jsonify (map (\<lambda>s. AE (append_msg t (int K) T e n s)) xs)"
    and e: "deref (heap (c ! l)) (e_entry e) = S" "e_term e = T" and my: "my_id (node (c ! l)) = ids ! l"
    and n: "current_term n = T" "my_id n = ids ! l" "commit_index n = int K"
    and lead: "\<And>m. class_ok (AE m) \<Longrightarrow> m_direction m = Request \<Longrightarrow> m_receiver m = Some (ids ! l) \<Longrightarrow>
      \<exists>h. host_turn t t ((if ids ! l \<in> set xs then recv (AE m) else id) ((c ! l)\<lparr>node := (node (c ! l))\<lparr>talker := []\<rparr>\<rparr>)) = Inr h \<and>
        R h \<and> incoming h = incoming (c ! l)"
    and f: "\<And>i. i < length ids \<Longrightarrow> i \<noteq> l \<Longrightarrow> \<exists>k S0. K \<le> k \<and> holds ids T k (int K) T S0 (c ! i) \<and>
      e_term (log (node (c ! i)) ! K) = T \<and> follows_at u t (node (c ! i)) \<and> my_id (node (c ! i)) = ids ! i \<and>
      ack_list ids l i q (talker (node (c ! i)))"
  shows "\<exists>c'. cluster_run (spread t (length ids) l (length xs)) c = Some (Inr c') \<and> length c' = length ids \<and>
    silent_links c' \<and> R (c' ! l) \<and> (\<forall>i < length ids. i \<noteq> l \<longrightarrow>
      appended u t l ids T K S i (c' ! i) \<and> ack_list ids l i (Suc q) (talker (node (c' ! i))))"
proof -
  let ?f = "deref (heap (c ! l))" and ?base = "\<lambda>j. if j = l then (c ! j)\<lparr>node := (node (c ! j))\<lparr>talker := []\<rparr>\<rparr> else c ! j"
  let ?msgs = "map (\<lambda>s. AE (append_msg t (int K) T e n s)) xs"
  define M :: "string \<Rightarrow> 'f registry AppendEntriesMessage" where
    "M = (\<lambda>s. case map_message ?f (AE (append_msg t (int K) T e n s)) of AE a \<Rightarrow> a)"
  have M: "map_message ?f (AE (append_msg t (int K) T e n s)) = AE (M s)" for s by (simp add: M_def)
  have MF: "appends l ids T K S s (M s)" for s
    using n e by (simp add: M_def append_msg_def appends_def)
  have fold: "fold recv (map (map_message ?f) ?msgs) (?base j) =
      (if my_id (node (?base j)) \<in> set xs then recv (AE (M (my_id (node (?base j))))) (?base j) else ?base j)" for j
    using recv_addressed [OF xs(1), of "\<lambda>s. AE (M s)" "?base j"] MF M by (simp add: appends_def comp_def)
  let ?R = "\<lambda>j h. if j = l then R h else appended u t l ids T K S j h \<and> ack_list ids l j (Suc q) (talker (node h))"
  have "\<exists>c'. cluster_run (spread t (length ids) l (length xs)) c = Some (Inr c') \<and> length c' = length ids \<and> silent_links c' \<and>
      (\<forall>j < length ids. ?R j (c' ! j))"
  proof (rule spread_run [OF l(4) _ tk l(1)])
    fix j assume j: "j < length ids"
    show "\<exists>h. host_turn t t (fold recv (map (map_message ?f) ?msgs) (?base j)) = Inr h \<and> ?R j h \<and> incoming h = incoming (c ! j)"
    proof (cases "j = l")
      case True
      have "class_ok (AE (M (ids ! l)))" "m_direction (M (ids ! l)) = Request" "m_receiver (M (ids ! l)) = Some (ids ! l)"
        using MF by (simp_all add: appends_def)
      from lead [OF this] show ?thesis unfolding fold using True my by (auto split: if_splits)
    next
      case False
      obtain k S0 where k: "holds ids T k (int K) T S0 (c ! j)" "K \<le> k" "e_term (log (node (c ! j)) ! K) = T"
          "follows_at u t (node (c ! j))" "my_id (node (c ! j)) = ids ! j" "ack_list ids l j q (talker (node (c ! j)))"
        using f [OF j False] by blast
      show ?thesis unfolding fold using follower_reads_append [OF k MF] False k(5) xs(2) [OF j False] by auto
    qed
  qed (use l in simp_all)
  then show ?thesis using l(3) by auto
qed

text \<open>The leader's commit reaches everyone.\<close>

lemma commit_phase:
  fixes c :: "'f::linordered_idom cluster"
  assumes cm: "committing u t l ids T K S c" and l: "distinct ids" "l < length ids" "1 < length ids"
  shows "\<exists>c'. cluster_run (spread t (length ids) l (length ids)) c = Some (Inr c') \<and> settled u t l ids T (Suc K) S c'"
proof -
  obtain n where tk: "talker (node (c ! l)) = map jsonify (map (\<lambda>s. AE (committal_msg t n s)) ids)"
      "last_applied_index n = int K + 1" "last_applied_term n = T"
    using cm by (auto simp: committing_def)
  have len: "length c = length ids" "silent_links c" using cm by (simp_all add: committing_def)
  let ?f = "deref (heap (c ! l))" and ?base = "\<lambda>j. if j = l then (c ! j)\<lparr>node := (node (c ! j))\<lparr>talker := []\<rparr>\<rparr> else c ! j"
  let ?msgs = "map (\<lambda>s. AE (committal_msg t n s)) ids"
  define M :: "string \<Rightarrow> 'f registry AppendEntriesMessage" where
    "M = (\<lambda>s. case map_message ?f (AE (committal_msg t n s)) of AE a \<Rightarrow> a)"
  have M: "map_message ?f (AE (committal_msg t n s)) = AE (M s)" for s by (simp add: M_def)
  have MF: "class_ok (AE (M s))" "m_direction (M s) = Request" "m_type (M s) = Committal" "m_receiver (M s) = Some s"
    "prev_log_index (M s) = Some (int K + 1)" "prev_log_term (M s) = Some T" "entries (M s) = None" for s
    using tk by (simp_all add: M_def committal_msg_def)
  have w: "settled_leader u t l ids T (Suc K) S (?base l)" using cm by (simp add: committing_def)
  have f: "appended u t l ids T K S i (c ! i)" "talker (node (c ! i)) = []" if "i < length ids" "i \<noteq> l" for i
    using cm that by (simp_all add: committing_def)
  have my: "my_id (node (?base j)) = ids ! j" if "j < length ids" for j
    using f [OF that] w by (auto simp: settled_leader_def appended_def)
  have fold: "fold recv (map (map_message ?f) ?msgs) (?base j) = recv (AE (M (ids ! j))) (?base j)" if "j < length ids" for j
    using recv_addressed [OF l(1), of "\<lambda>s. AE (M s)" "?base j"] MF(4) M my [OF that] that by (simp add: comp_def)
  let ?R = "\<lambda>i h. talker (node h) = [] \<and> (if i = l then settled_leader u t l ids T (Suc K) S h
        else holds ids T (Suc K) (int (Suc K)) T S h \<and> follows_at u t (node h) \<and> my_id (node h) = ids ! i)"
  have "\<exists>c'. cluster_run (spread t (length ids) l (length ids)) c = Some (Inr c') \<and> length c' = length ids \<and> silent_links c' \<and>
      (\<forall>j < length ids. ?R j (c' ! j))"
  proof (rule spread_run [OF len(2) _ tk(1) len(1)])
    fix j assume j: "j < length ids"
    show "\<exists>h. host_turn t t (fold recv (map (map_message ?f) ?msgs) (?base j)) = Inr h \<and> ?R j h \<and> incoming h = incoming (c ! j)"
      unfolding fold [OF j]
    proof (cases "j = l")
      case True
      have b: "leads_at u t (node (?base l))" "listener (node (?base l)) = []" "client_queue (node (?base l)) = []"
          "fresh t (node (?base l))"
        using w fresh_none [of "node (?base l)" "length ids" t] by (simp_all add: settled_leader_def holds_def)
      obtain h xs where h: "host_turn t t (recv (AE (M (ids ! l))) (?base l)) = Inr h" "h = (?base l)\<lparr>heap := heap (?base l) @ xs\<rparr>"
        using leader_reads_own [OF b(1-3) MF(1,2) _ b(4)] MF(4) my [OF l(2)] by metis
      have "settled_leader u t l ids T (Suc K) S h"
        using w unfolding h(2) by (simp add: settled_leader_def holds_def nth_append)
      moreover have "talker (node h) = []" "incoming h = incoming (?base l)" using h(2) by simp_all
      ultimately show "\<exists>h. host_turn t t (recv (AE (M (ids ! j))) (?base j)) = Inr h \<and> ?R j h \<and> incoming h = incoming (c ! j)"
        using True h(1) by auto
    next
      case False
      have "\<exists>h2. host_turn t t (recv (AE (M (ids ! j))) (c ! j)) = Inr h2 \<and> holds ids T (Suc K) (int (Suc K)) T S h2 \<and>
          follows_at u t (node h2) \<and> my_id (node h2) = ids ! j \<and> talker (node h2) = [] \<and> incoming h2 = incoming (c ! j)"
        by (rule follower_reads_committal) (use f [OF j False] MF in auto)
      then show "\<exists>h. host_turn t t (recv (AE (M (ids ! j))) (?base j)) = Inr h \<and> ?R j h \<and> incoming h = incoming (c ! j)"
        using False by auto
    qed
  qed (use len l in simp_all)
  then obtain c2 where c2: "cluster_run (spread t (length ids) l (length ids)) c = Some (Inr c2)" "length c2 = length ids"
      "silent_links c2" "\<And>j. j < length ids \<Longrightarrow> ?R j (c2 ! j)" by auto
  have "settled u t l ids T (Suc K) S c2"
    using c2(2-4) l unfolding settled_def by (auto simp del: of_nat_Suc)
  with c2(1) show ?thesis by auto
qed

text \<open>
  The entry proposed reaches everyone: once if the leader has heard of the others within
  \<open>resend_time\<close>, and a second time before any of them can answer if it has not.
\<close>

lemma others_set: "distinct ids \<Longrightarrow> distinct (others l ids)" "i < length ids \<Longrightarrow> i \<noteq> l \<Longrightarrow> ids ! i \<in> set (others l ids)"
  "distinct ids \<Longrightarrow> l < length ids \<Longrightarrow> ids ! l \<notin> set (others l ids)" "l < length ids \<Longrightarrow> length (others l ids) = length ids - 1"
proof -
  have "length (filter (\<lambda>i. i \<noteq> l) [0..<n]) = (if l < n then n - 1 else n)" for n
    by (induction n) auto
  then show "l < length ids \<Longrightarrow> length (others l ids) = length ids - 1" by (simp add: others_def)
qed (auto simp: others_def distinct_map inj_on_def nth_eq_iff_index_eq)

definition entry_acts :: "bool \<Rightarrow> int \<Rightarrow> nat \<Rightarrow> nat \<Rightarrow> 'f act list" where
  "entry_acts again t n l = spread t n l n @ (if again then spread t n l (n - 1) else [])"

lemma entry_phase:
  fixes c :: "'f::linordered_idom cluster"
  assumes l: "length c = length ids" "distinct ids" "l < length ids" "silent_links c"
    and tk: "talker (node (c ! l)) = map jsonify (map (\<lambda>s. AE (append_msg t (int K) T e n s)) ids)"
    and e: "deref (heap (c ! l)) (e_entry e) = S" "e_term e = T" "last (log (node (c ! l))) = e"
    and p: "proposed u t l ids T K S {} ((c ! l)\<lparr>node := (node (c ! l))\<lparr>talker := []\<rparr>\<rparr>)"
    and n: "current_term n = T" "my_id n = ids ! l" "commit_index n = int K"
    and alike: "heard_alike l (node (c ! l))"
    and f: "\<And>i. i < length ids \<Longrightarrow> i \<noteq> l \<Longrightarrow> talker (node (c ! i)) = [] \<and> holds ids T K (int K) T S0 (c ! i) \<and>
      follows_at u t (node (c ! i)) \<and> my_id (node (c ! i)) = ids ! i"
  shows "\<exists>again c'. cluster_run (entry_acts again t (length ids) l) c = Some (Inr c') \<and>
    acking u t l ids T K S (if again then 2 else 1) {} c'"
proof -
  let ?h = "(c ! l)\<lparr>node := (node (c ! l))\<lparr>talker := []\<rparr>\<rparr>"
  have my: "my_id (node (c ! l)) = ids ! l" and L: "leads_at u t (node ?h)" "listener (node ?h) = []" "client_queue (node ?h) = []"
    using p by (simp_all add: proposed_def holds_def)
  have len: "length (heard_from (node (c ! l))) = length ids" using L(1) p by (simp add: leads_at_def proposed_def holds_def)
  have f0: "\<exists>k S0. K \<le> k \<and> holds ids T k (int K) T S0 (c ! i) \<and> e_term (log (node (c ! i)) ! K) = T \<and>
      follows_at u t (node (c ! i)) \<and> my_id (node (c ! i)) = ids ! i \<and> ack_list ids l i 0 (talker (node (c ! i)))"
    if "i < length ids" "i \<noteq> l" for i
  proof -
    have h: "holds ids T K (int K) T S0 (c ! i)" using f that by blast
    then have "log (node (c ! i)) \<noteq> []" "length (log (node (c ! i))) = Suc K" by (auto simp: holds_def)
    then have "e_term (log (node (c ! i)) ! K) = T" using h by (simp add: last_conv_nth holds_def)
    with f [OF that] h show ?thesis by auto
  qed
  have ids: "ids ! i \<in> set ids" if "i < length ids" for i using that by simp
  show ?thesis
  proof (cases "\<forall>i < length ids. i \<noteq> l \<longrightarrow> t - heard_from (node (c ! l)) ! i \<le> resend_time")
    case True
    have w: "waiting u t l ids T K S {} ?h" by (rule proposed_waiting [OF p]) (use True in simp)
    have "\<exists>h. host_turn t t ((if ids ! l \<in> set ids then recv (AE m) else id) ?h) = Inr h \<and>
        (waiting u t l ids T K S {} h \<and> talker (node h) = []) \<and> incoming h = incoming (c ! l)"
      if m: "class_ok (AE m)" "m_direction m = Request" "m_receiver m = Some (ids ! l)" for m :: "'f registry AppendEntriesMessage"
    proof -
      have "fresh t (node ?h)" using w by (simp add: waiting_def)
      then obtain h xs where h: "host_turn t t (recv (AE m) ?h) = Inr h" "h = ?h\<lparr>heap := heap ?h @ xs\<rparr>"
        using leader_reads_own [OF L m(1,2)] m(3) my by auto
      have "waiting u t l ids T K S {} h" unfolding h(2) by (rule waiting_heap [OF w])
      with h l(3) show ?thesis by auto
    qed
    from append_phase [OF l l(2) ids tk e(1,2) my n this f0]
    obtain c' where "cluster_run (spread t (length ids) l (length ids)) c = Some (Inr c')" "length c' = length ids"
      "silent_links c'" "waiting u t l ids T K S {} (c' ! l)" "talker (node (c' ! l)) = []"
      "\<forall>i < length ids. i \<noteq> l \<longrightarrow> appended u t l ids T K S i (c' ! i) \<and> ack_list ids l i (Suc 0) (talker (node (c' ! i)))"
      by blast
    then show ?thesis by (intro exI [of _ False] exI [of _ c']) (simp add: acking_def entry_acts_def)
  next
    case False
    then obtain i0 where i0: "i0 < length ids" "i0 \<noteq> l" "resend_time < t - heard_from (node (c ! l)) ! i0"
      by (auto simp: not_le)
    have stale: "resend_time < t - heard_from (node ?h) ! i" if "i < length ids" "i \<noteq> l" for i
    proof -
      have "heard_from (node (c ! l)) ! i = heard_from (node (c ! l)) ! i0"
        using alike that i0(1,2) len unfolding heard_alike_def by metis
      with i0(3) show ?thesis by simp
    qed
    define R where "R h \<longleftrightarrow> (\<exists>n. talker (node h) = map jsonify (map (\<lambda>s. AE (append_msg t (int K) T e n s)) (others l ids)) \<and>
      deref (heap h) (e_entry e) = S \<and> waiting u t l ids T K S {} (h\<lparr>node := (node h)\<lparr>talker := []\<rparr>\<rparr>) \<and>
      current_term n = T \<and> my_id n = ids ! l \<and> commit_index n = int K)" for h :: "'f host"
    have "\<exists>h. host_turn t t ((if ids ! l \<in> set ids then recv (AE m) else id) ?h) = Inr h \<and> R h \<and> incoming h = incoming (c ! l)"
      if m: "class_ok (AE m)" "m_direction m = Request" "m_receiver m = Some (ids ! l)" for m :: "'f registry AppendEntriesMessage"
      using leader_resends [OF p _ stale m] l(3) e(3) unfolding R_def by auto
    from append_phase [OF l l(2) ids tk e(1,2) my n this f0]
    obtain c1 where c1: "cluster_run (spread t (length ids) l (length ids)) c = Some (Inr c1)" "length c1 = length ids"
      "silent_links c1" "R (c1 ! l)"
      "\<And>i. i < length ids \<Longrightarrow> i \<noteq> l \<Longrightarrow> appended u t l ids T K S i (c1 ! i) \<and> ack_list ids l i (Suc 0) (talker (node (c1 ! i)))"
      by blast
    obtain n1 where n1: "talker (node (c1 ! l)) = map jsonify (map (\<lambda>s. AE (append_msg t (int K) T e n1 s)) (others l ids))"
      "deref (heap (c1 ! l)) (e_entry e) = S" "current_term n1 = T" "my_id n1 = ids ! l" "commit_index n1 = int K"
      and w: "waiting u t l ids T K S {} ((c1 ! l)\<lparr>node := (node (c1 ! l))\<lparr>talker := []\<rparr>\<rparr>)"
      using c1(4) unfolding R_def by auto
    let ?h1 = "(c1 ! l)\<lparr>node := (node (c1 ! l))\<lparr>talker := []\<rparr>\<rparr>"
    have my1: "my_id (node (c1 ! l)) = ids ! l" and L1: "leads_at u t (node ?h1)" "fresh t (node ?h1)" "listener (node ?h1) = []"
      "client_queue (node ?h1) = []"
      using w by (simp_all add: waiting_def proposed_def holds_def)
    have lead: "\<exists>h. host_turn t t ((if ids ! l \<in> set (others l ids) then recv (AE m) else id) ?h1) = Inr h \<and>
        (waiting u t l ids T K S {} h \<and> talker (node h) = []) \<and> incoming h = incoming (c1 ! l)"
      for m :: "'f registry AppendEntriesMessage"
      using leader_idle [OF L1] waiting_heap [OF w] others_set(3) [OF l(2,3)] by auto
    have f1: "\<exists>k S0. K \<le> k \<and> holds ids T k (int K) T S0 (c1 ! i) \<and> e_term (log (node (c1 ! i)) ! K) = T \<and>
        follows_at u t (node (c1 ! i)) \<and> my_id (node (c1 ! i)) = ids ! i \<and> ack_list ids l i (Suc 0) (talker (node (c1 ! i)))"
      if "i < length ids" "i \<noteq> l" for i
      using c1(5) [OF that] unfolding appended_def by (intro exI [of _ "Suc K"] exI [of _ S]) simp
    from append_phase [OF c1(2) l(2,3) c1(3) others_set(1) [OF l(2)] others_set(2) n1(1,2) e(2) my1 n1(3-5) lead f1]
    obtain c' where "cluster_run (spread t (length ids) l (length ids - 1)) c1 = Some (Inr c')" "length c' = length ids"
      "silent_links c'" "waiting u t l ids T K S {} (c' ! l)" "talker (node (c' ! l)) = []"
      "\<forall>i < length ids. i \<noteq> l \<longrightarrow> appended u t l ids T K S i (c' ! i) \<and> ack_list ids l i (Suc (Suc 0)) (talker (node (c' ! i)))"
      unfolding others_set(4) [OF l(3)] by blast
    then show ?thesis
      using cluster_run_then [OF c1(1)]
      by (intro exI [of _ True] exI [of _ c']) (simp add: acking_def entry_acts_def numeral_2_eq_2)
  qed
qed

definition replicate_acts :: "bool \<Rightarrow> int \<Rightarrow> nat \<Rightarrow> nat \<Rightarrow> 'f act list" where
  "replicate_acts again t n l = Turn l t t # entry_acts again t n l @
     concat (map (ack_acts t n l (if again then 2 else 1)) (filter (\<lambda>j. j \<noteq> l) [0..<n])) @ spread t n l n"

lemma replicate_request:
  fixes c :: "'f::linordered_idom cluster"
  assumes s: "settled u t l ids T K S c" and req: "req \<noteq> Discover None" "registry_op now req S = (reply, S', True)"
  shows "fst (http now req (c ! l)) = reply \<and>
    (\<exists>again c'. cluster_run (Http l now req # replicate_acts again t (length ids) l) c = Some (Inr c') \<and>
      settled u t l ids T (Suc K) S' c')"
proof -
  have l: "length c = length ids" "distinct ids" "l < length ids" "1 < length ids" "silent_links c"
    using s by (simp_all add: settled_def)
  have L: "holds ids T K (int K) T S (c ! l)" "leads_at u t (node (c ! l))" "my_id (node (c ! l)) = ids ! l"
    "talker (node (c ! l)) = []" "next_index (node (c ! l)) = replicate (length ids) None"
    "match_index (node (c ! l)) = replicate (length ids) (int K)" "heard_alike l (node (c ! l))"
    using s l(3) by (auto simp: settled_def settled_leader_def)
  obtain e n h h2 where p: "http now req (c ! l) = (reply, h)" "host_turn t t h = Inr h2"
      "talker (node h2) = map jsonify (map (\<lambda>s. AE (append_msg t (int K) T e n s)) ids)"
      "deref (heap h2) (e_entry e) = S'" "proposed u t l ids T K S' {} (h2\<lparr>node := (node h2)\<lparr>talker := []\<rparr>\<rparr>)"
      "incoming h2 = incoming (c ! l)" "heard_from (node h2) = heard_from (node (c ! l))" "last (log (node h2)) = e"
      "e_term e = T" "current_term n = T" "my_id n = ids ! l" "commit_index n = int K"
    by (rule propose [OF L(1-3) l(3,2) L(4-6) req]) blast
  define c1 where "c1 = c[l := h2]"
  have start: "cluster_run (Http l now req # Turn l t t # as) c = cluster_run as c1" for as
    using p(1,2) l(1,3) by (simp add: at_host_def c1_def)
  have sl: "silent_links c1" unfolding c1_def by (rule silent_links_update [OF l(5)]) (use l(1,3) p(6) in auto)
  have c1l: "c1 ! l = h2" "length c1 = length ids" using l(1,3) by (simp_all add: c1_def)
  have alike: "heard_alike l (node h2)" using L(7) heard_alike_cong [OF p(7)] by simp
  have rest: "talker (node (c1 ! i)) = [] \<and> holds ids T K (int K) T S (c1 ! i) \<and>
      follows_at u t (node (c1 ! i)) \<and> my_id (node (c1 ! i)) = ids ! i" if "i < length ids" "i \<noteq> l" for i
    using s that by (auto simp: settled_def c1_def)
  obtain again c2 where c2: "cluster_run (entry_acts again t (length ids) l) c1 = Some (Inr c2)"
      "acking u t l ids T K S' (if again then 2 else 1) {} c2"
    using entry_phase [OF c1l(2) l(2,3) sl, of t K T e n S' u S] p(3-5,8-12) alike rest unfolding c1l(1) by auto
  obtain k where k: "(if again then 2 else 1) = Suc k" by (cases again) auto
  let ?js = "filter (\<lambda>j. j \<noteq> l) [0..<length ids]"
  have "(if l = 0 then 1 else 0) \<in> set ?js" using l(4) by auto
  then have "?js \<noteq> []" by (metis empty_iff empty_set)
  then obtain c3 where c3: "cluster_run (concat (map (ack_acts t (length ids) l (if again then 2 else 1)) ?js)) c2 = Some (Inr c3)"
      "committing u t l ids T K S' c3"
    using ack_loop [of u t l ids T K S' k "{}" c2 ?js] c2(2) l(2,3) unfolding k by auto
  obtain c4 where c4: "cluster_run (spread t (length ids) l (length ids)) c3 = Some (Inr c4)" "settled u t l ids T (Suc K) S' c4"
    using commit_phase [OF c3(2) l(2-4)] by auto
  have "cluster_run (Http l now req # replicate_acts again t (length ids) l) c = Some (Inr c4)"
    unfolding replicate_acts_def start
    using cluster_run_then [OF c2(1)] cluster_run_then [OF c3(1)] c4(1) by simp
  with c4(2) p(1) show ?thesis by auto
qed

text \<open>An operation that is not handed to the cluster changes nothing.\<close>

lemma register_not_requested:
  assumes "register_endpoint now d S = (reply, S', False)"
  shows "S' = S"
proof (cases "rr_ip d"; cases "rr_port d"; cases "rr_service_name d")
  fix ip p n
  assume d: "rr_ip d = Some ip" "rr_port d = Some p" "rr_service_name d = Some n"
  show ?thesis
  proof (cases "map_of S (svr_id ip p)")
    case None
    then have "svr_id ip p \<notin> set (map fst S)" by (metis map_of_eq_None_iff image_set)
    with assms d show ?thesis by (simp add: register_endpoint_def update_conv')
  next
    case (Some s)
    then have "svr_id ip p \<in> set (map fst S)" by (metis map_of_eq_None_iff option.distinct(1) image_set)
    with assms d Some show ?thesis by (simp add: register_endpoint_def split: if_splits)
  qed
qed (use assms in \<open>auto simp: register_endpoint_def\<close>)

lemma not_requested:
  assumes "registry_op now req S = (reply, S', False)"
  shows "S' = S"
proof (cases req)
  case (Register d)
  with assms show ?thesis by (auto intro: register_not_requested)
qed (use assms in \<open>auto simp: heartbeat_endpoint_def Let_def split: option.splits\<close>)

lemma unchanged_request:
  fixes c :: "'f::linordered_idom cluster"
  assumes s: "settled u t l ids T K S c" and req: "req = Discover None \<or> snd (snd (registry_op now req S)) = False"
  shows "fst (http now req (c ! l)) = fst (registry_op now req S) \<and>
    cluster_run [Http l now req] c = Some (Inr c) \<and> fst (snd (registry_op now req S)) = S"
proof (cases "req = Discover None")
  case True
  have "l < length c" using s by (simp add: settled_def)
  with True show ?thesis by (simp add: http_def at_host_def discover_endpoint_def)
next
  case False
  obtain reply S' where r: "registry_op now req S = (reply, S', False)" using req False by (metis prod_cases3 snd_conv)
  then have S: "S' = S" by (rule not_requested)
  have l: "l < length c" "holds ids T K (int K) T S (c ! l)" using s by (auto simp: settled_def settled_leader_def)
  define k where "k = e_entry (last (log (node (c ! l))))"
  have "log (node (c ! l)) \<noteq> []" "log_max_index (node (c ! l)) = int K" "commit_index (node (c ! l)) = int K"
    using l(2) by (auto simp: holds_def log_max_index_def)
  then have "check_committed_entry (node (c ! l)) = Inr k"
    using py_get_max [of "node (c ! l)"] by (simp add: check_committed_entry_def k_def)
  moreover have "k < length (heap (c ! l))" "heap (c ! l) ! k = S" using l(2) by (simp_all add: holds_def k_def)
  moreover have "(heap (c ! l))[k := S] = heap (c ! l)" using calculation(3) by (metis list_update_id)
  ultimately have "http now req (c ! l) = (reply, c ! l)"
    using False r S by (simp add: http_def on_registry_def deref_def)
  with r S l(1) show ?thesis by (simp add: at_host_def)
qed

end
