(* ===== verification/ClusterService.thy ===== *)
theory ClusterService
  imports ClusterReplication NameServerRuns
begin

text \<open>
  What the name servers promise their clients when nothing goes wrong: any sequence of requests at
  the leader of a settled cluster, made at any times, gets the replies of one registry, and the
  steps that replicate them always exist and leave every node with that registry.
\<close>

section \<open>Runs and their replies\<close>

fun requests :: "'f act list \<Rightarrow> (nat \<times> 'f \<times> 'f reg_op) list" where
  "requests [] = []"
| "requests (Http i now req # as) = (i, now, req) # requests as"
| "requests (_ # as) = requests as"

fun act_reply :: "'f::linordered_idom act \<Rightarrow> 'f cluster \<Rightarrow> http_reply list" where
  "act_reply (Http i now req) c = [fst (http now req (c ! i))]"
| "act_reply _ c = []"

fun run_replies :: "'f::linordered_idom act list \<Rightarrow> 'f cluster \<Rightarrow> http_reply list" where
  "run_replies [] c = []"
| "run_replies (a # as) c =
     act_reply a c @ (case cluster_act a c of Some (Inr c') \<Rightarrow> run_replies as c' | _ \<Rightarrow> [])"

text \<open>The steps of a cluster nobody pauses and in which no message is lost.\<close>

fun orderly :: "'f act \<Rightarrow> bool" where
  "orderly (Turn _ _ _) = True"
| "orderly (Publish _ drops) = (drops = [])"
| "orderly (Deliver _ _) = True"
| "orderly (Http _ _ _) = True"
| "orderly _ = False"

definition is_http :: "'f act \<Rightarrow> bool" where
  "is_http a = (requests [a] \<noteq> [])"

lemma is_http_simps [simp]:
  "is_http (Http i now req)" "\<not> is_http (Turn i t0 t1)" "\<not> is_http (Publish i ds)" "\<not> is_http (Deliver i j)"
  by (simp_all add: is_http_def)

lemma requests_append: "requests (as @ bs) = requests as @ requests bs"
  by (induction as rule: requests.induct) simp_all

lemma no_requests: "\<forall>a \<in> set as. \<not> is_http a \<Longrightarrow> requests as = []"
  by (induction as rule: requests.induct) simp_all

lemma act_reply_none: "\<not> is_http a \<Longrightarrow> act_reply a c = []"
  by (cases a) simp_all

lemma run_replies_then:
  "cluster_run as c = Some (Inr c') \<Longrightarrow> run_replies (as @ bs) c = run_replies as c @ run_replies bs c'"
  by (induction as arbitrary: c) (auto split: option.splits sum.splits)

lemma no_replies: "\<forall>a \<in> set as. \<not> is_http a \<Longrightarrow> run_replies as c = []"
  by (induction as arbitrary: c) (auto simp: act_reply_none split: option.splits sum.splits)

text \<open>
  A run keeps the clock: started at time \<open>t\<close>, its turns never go back in time and its requests are
  made at the times \<open>ts\<close>.
\<close>

fun on_time :: "int \<Rightarrow> 'f act list \<Rightarrow> int list \<Rightarrow> bool" where
  "on_time t [] ts \<longleftrightarrow> ts = []"
| "on_time t (Turn i t0 t1 # as) ts \<longleftrightarrow> t \<le> t0 \<and> t0 \<le> t1 \<and> on_time t1 as ts"
| "on_time t (Http i now req # as) ts \<longleftrightarrow> (case ts of [] \<Rightarrow> False | t' # ts \<Rightarrow> t \<le> t' \<and> on_time t' as ts)"
| "on_time t (a # as) ts \<longleftrightarrow> on_time t as ts"

text \<open>An orderly step at time \<open>t\<close>.\<close>

fun step_at :: "int \<Rightarrow> 'f act \<Rightarrow> bool" where
  "step_at t (Turn i t0 t1) \<longleftrightarrow> t0 = t \<and> t1 = t"
| "step_at t (Publish i drops) \<longleftrightarrow> drops = []"
| "step_at t (Deliver i j) \<longleftrightarrow> True"
| "step_at t a \<longleftrightarrow> False"

lemma step_at_orderly: "step_at t a \<Longrightarrow> orderly a \<and> \<not> is_http a"
  by (cases a) simp_all

lemma on_time_steps: "\<forall>a \<in> set as. step_at t a \<Longrightarrow> on_time t bs ts \<Longrightarrow> on_time t (as @ bs) ts"
proof (induction as)
  case (Cons a as)
  then show ?case by (cases a) simp_all
qed simp

lemma on_time_later: "on_time t' as ts \<Longrightarrow> t \<le> t' \<Longrightarrow> on_time t as ts"
  by (induction t as ts rule: on_time.induct) (auto split: list.splits)

lemma exchange_at: "a \<in> set (exchange n i k) \<Longrightarrow> step_at t a"
  by (auto simp: exchange_def)

lemma spread_at: "a \<in> set (spread t n l k) \<Longrightarrow> step_at t a"
  by (auto simp: spread_def all_turns_def dest: exchange_at)

lemma beat_acts_at: "a \<in> set (beat_acts t n l) \<Longrightarrow> step_at t a"
  by (auto simp: beat_acts_def dest: spread_at)

lemma replicate_acts_at: "a \<in> set (replicate_acts again t n l) \<Longrightarrow> step_at t a"
  by (auto simp: replicate_acts_def entry_acts_def ack_acts_def dest: spread_at exchange_at split: if_splits)

text \<open>What one request leads to.\<close>

lemma serve_request:
  fixes c :: "'f::linordered_idom cluster"
  assumes s: "settled u t l ids T K S c"
  shows "\<exists>as c' K'. cluster_run (Http l now req # as) c = Some (Inr c') \<and>
    (\<forall>a \<in> set as. step_at t a) \<and>
    fst (http now req (c ! l)) = fst (registry_op now req S) \<and>
    settled u t l ids T K' (fst (snd (registry_op now req S))) c'"
proof (cases "req = Discover None \<or> snd (snd (registry_op now req S)) = False")
  case True
  show ?thesis
    using unchanged_request [OF s True] s by (intro exI [of _ "[]"] exI [of _ c] exI [of _ K]) simp
next
  case False
  then obtain reply S' where r: "req \<noteq> Discover None" "registry_op now req S = (reply, S', True)"
    by (metis prod_cases3 snd_conv)
  obtain again c' where "fst (http now req (c ! l)) = reply"
      "cluster_run (Http l now req # replicate_acts again t (length ids) l) c = Some (Inr c')" "settled u t l ids T (Suc K) S' c'"
    using replicate_request [OF s r] by auto
  then show ?thesis
    using r(2) replicate_acts_at
    by (intro exI [of _ "replicate_acts again t (length ids) l"] exI [of _ c'] exI [of _ "Suc K"]) auto
qed

text \<open>A request at a later time, after a heartbeat if one is due.\<close>

lemma serve_later:
  fixes c :: "'f::linordered_idom cluster"
  assumes s: "settled u t l ids T K S c" "t \<le> t'"
  shows "\<exists>as bs u' c' K'. cluster_run (as @ Http l now req # bs) c = Some (Inr c') \<and>
    (\<forall>a \<in> set as \<union> set bs. step_at t' a) \<and>
    run_replies (as @ Http l now req # bs) c = [fst (registry_op now req S)] \<and>
    settled u' t' l ids T K' (fst (snd (registry_op now req S))) c'"
proof -
  obtain as u' c1 where 1: "as = [] \<or> as = beat_acts t' (length ids) l" "cluster_run as c = Some (Inr c1)"
      "settled u' t' l ids T K S c1"
    using clock_moves [OF s] by blast
  have at: "\<forall>a \<in> set as. step_at t' a" using 1(1) beat_acts_at by auto
  obtain bs c' K' where 2: "cluster_run (Http l now req # bs) c1 = Some (Inr c')" "\<forall>a \<in> set bs. step_at t' a"
      "fst (http now req (c1 ! l)) = fst (registry_op now req S)"
      "settled u' t' l ids T K' (fst (snd (registry_op now req S))) c'"
    using serve_request [OF 1(3)] by blast
  have "run_replies as c = []" "run_replies bs c2 = []" for c2
    using at 2(2) step_at_orderly by (auto intro!: no_replies)
  then have "run_replies (as @ Http l now req # bs) c = [fst (registry_op now req S)]"
    using run_replies_then [OF 1(2)] 2(3) by (simp split: option.split sum.split)
  with 1 2 at cluster_run_then [OF 1(2)] show ?thesis by (intro exI [of _ as] exI [of _ bs]) auto
qed

lemma settled_status:
  assumes "settled u t l ids T K S c" "h \<in> set c"
  shows "\<exists>role. status_endpoint h = Inr (S, role)"
proof -
  obtain i where i: "i < length ids" "h = c ! i" using assms by (auto simp: settled_def in_set_conv_nth)
  have "holds ids T K (int K) T S h"
    using assms(1) i by (cases "i = l") (auto simp: settled_def settled_leader_def)
  then have "log (node h) \<noteq> []" "log_max_index (node h) = int K" "commit_index (node h) = int K"
      "e_entry (last (log (node h))) < length (heap h)" "heap h ! e_entry (last (log (node h))) = S"
    by (auto simp: holds_def log_max_index_def)
  then show ?thesis
    using py_get_max [of "node h"] by (simp add: status_endpoint_def check_committed_entry_def deref_def)
qed

section \<open>Properties\<close>

text \<open>
  C4. The settled name servers are one registry: whatever requests are made at the leader, at
  whatever times, each gets the reply the registry of \<open>registry_run\<close> gives, there are steps of the
  nodes and the network in the order of the clock that carry every change to all nodes, and at the
  end the status of each node shows the registry that the requests leave.
\<close>

theorem cluster_serves_registry:
  fixes c :: "'f::linordered_idom cluster"
  assumes "settled u t l ids T K S c" and "sorted (t # map fst rs)"
  shows "\<exists>as u' c' K'. cluster_run as c = Some (Inr c') \<and> (\<forall>a \<in> set as. orderly a) \<and>
    requests as = map (Pair l) (map snd rs) \<and> on_time t as (map fst rs) \<and>
    run_replies as c = fst (registry_run S (map snd rs)) \<and>
    (\<forall>h \<in> set c'. \<exists>role. status_endpoint h = Inr (snd (registry_run S (map snd rs)), role)) \<and>
    settled u' (last (t # map fst rs)) l ids T K' (snd (registry_run S (map snd rs))) c'"
  using assms
proof (induction rs arbitrary: u t S K c)
  case Nil
  then show ?case
    using settled_status [OF Nil(1)] by (intro exI [of _ "[]"] exI [of _ u] exI [of _ c] exI [of _ K]) simp
next
  case (Cons r rs)
  obtain t' now req where r: "r = (t', now, req)" by (cases r)
  let ?S = "fst (snd (registry_op now req S))"
  have t': "t \<le> t'" "sorted (t' # map fst rs)" using Cons.prems(2) r by auto
  obtain as bs u1 c1 K1 where 1: "cluster_run (as @ Http l now req # bs) c = Some (Inr c1)"
      "\<forall>a \<in> set as \<union> set bs. step_at t' a"
      "run_replies (as @ Http l now req # bs) c = [fst (registry_op now req S)]" "settled u1 t' l ids T K1 ?S c1"
    using serve_later [OF Cons.prems(1) t'(1)] by blast
  obtain ds u' c' K' where 2: "cluster_run ds c1 = Some (Inr c')" "\<forall>a \<in> set ds. orderly a" "requests ds = map (Pair l) (map snd rs)"
      "on_time t' ds (map fst rs)" "run_replies ds c1 = fst (registry_run ?S (map snd rs))"
      "\<forall>h \<in> set c'. \<exists>role. status_endpoint h = Inr (snd (registry_run ?S (map snd rs)), role)"
      "settled u' (last (t' # map fst rs)) l ids T K' (snd (registry_run ?S (map snd rs))) c'"
    using Cons.IH [OF 1(4) t'(2)] by blast
  let ?as = "(as @ Http l now req # bs) @ ds"
  have "run_replies ?as c = fst (registry_run S (map snd (r # rs)))"
    using run_replies_then [OF 1(1), of ds] 1(3) 2(5) by (simp add: r del: append_assoc)
  moreover have "cluster_run ?as c = Some (Inr c')" using cluster_run_then [OF 1(1)] 2(1) by (simp del: append_assoc)
  moreover have steps: "\<forall>a \<in> set as. step_at t' a" "\<forall>a \<in> set bs. step_at t' a" using 1(2) by auto
  then have "requests as = []" "requests bs = []" using step_at_orderly by (auto intro!: no_requests)
  then have "requests ?as = map (Pair l) (map snd (r # rs))" using 2(3) by (simp add: requests_append r)
  moreover have "on_time t ?as (map fst (r # rs))"
    using on_time_steps [OF steps(2) 2(4)] on_time_steps [OF steps(1), of "Http l now req # bs @ ds" "map fst (r # rs)"]
    by (auto simp: r intro!: on_time_later [OF _ t'(1)])
  moreover have "\<forall>a \<in> set as \<union> set bs. orderly a" using 1(2) step_at_orderly by blast
  then have "\<forall>a \<in> set ?as. orderly a" using 2(2) by auto
  ultimately show ?case
    using 2(6,7) r by (intro exI [of _ ?as] exI [of _ u'] exI [of _ c'] exI [of _ K']) simp
qed

text \<open>The two nodes of \<open>NameServerRuns\<close> after their first election.\<close>

definition elected :: "int cluster" where
  "elected = (case cluster_run first_election (cluster_init two_hosts) of Some (Inr c) \<Rightarrow> c | _ \<Rightarrow> [])"

lemma elected_settled: "settled 200000 200000 0 [''a:1'', ''b:1''] 2 1 [] elected"
  by code_simp

text \<open>Three requests: at once, five seconds later, and a moment after that.\<close>

definition three_requests :: "(int \<times> int \<times> int reg_op) list" where
  "three_requests = [(200000, 5, register_a), (5200000, 10, register_b), (5200001, 10, register_a)]"

theorem cluster_serves_registry_witness:
  "\<exists>as u' c' K'. cluster_run as elected = Some (Inr c') \<and> (\<forall>a \<in> set as. orderly a) \<and>
    requests as = map (Pair 0) (map snd three_requests) \<and> on_time 200000 as (map fst three_requests) \<and>
    run_replies as elected = fst (registry_run [] (map snd three_requests)) \<and>
    (\<forall>h \<in> set c'. \<exists>role. status_endpoint h = Inr (snd (registry_run [] (map snd three_requests)), role)) \<and>
    settled u' (last (200000 # map fst three_requests)) 0 [''a:1'', ''b:1''] 2 K'
      (snd (registry_run [] (map snd three_requests))) c'"
  by (rule cluster_serves_registry [OF elected_settled]) (simp add: three_requests_def)

end
