(* ===== verification/ServiceDiscovery.thy ===== *)
theory ServiceDiscovery
  imports NameService ClusterService
begin

text \<open>
  The clients of the name server and the name servers together: what \<open>ServiceReporter\<close> posts is
  carried out by the leader of a settled cluster, replicated, and then found by \<open>ServiceDiscoverer\<close>
  at whichever node it asks.

  Flask stands between them: the record \<open>flask\<close> says which operation it makes of a request and
  which body it makes of a reply. \<open>flask_ok\<close> is what the program relies on: that Flask and jsoncpp
  read what the other writes, for names and addresses without special characters.
\<close>

section \<open>HTTP between the C++ program and the name server\<close>

record 'f flask =
  fl_request :: "io \<Rightarrow> 'f reg_op option"
  fl_body :: "http_reply \<Rightarrow> string"

text \<open>The status of a reply: \<open>return jsonify(...), 400\<close>, or 200 where the code names none.\<close>

fun reply_status :: "http_reply \<Rightarrow> int" where
  "reply_status StatusSuccess = 200"
| "reply_status (ServerList l) = 200"
| "reply_status (BadRequest m) = 400"
| "reply_status ServerError = 500"

text \<open>The answer curl gives when the transfer works and the server replies \<open>r\<close>.\<close>

definition answered :: "'f flask \<Rightarrow> curl_answer \<Rightarrow> http_reply \<Rightarrow> bool" where
  "answered F cu r \<longleftrightarrow> cu_init cu \<and> cu_perform cu \<and> cu_status cu = reply_status r \<and> cu_body cu = fl_body F r"

definition is_request :: "io \<Rightarrow> bool" where
  "is_request x = (case x of HttpPost _ _ \<Rightarrow> True | HttpGet _ \<Rightarrow> True | _ \<Rightarrow> False)"

text \<open>Of the events \<open>tr\<close> one is a request; it means \<open>req\<close>, and \<open>cu\<close> is the answer to it.\<close>

definition http_call :: "'f flask \<Rightarrow> curl_answer \<Rightarrow> io list \<Rightarrow> 'f reg_op \<Rightarrow> http_reply \<Rightarrow> bool" where
  "http_call F cu tr req reply \<longleftrightarrow> map (fl_request F) (filter is_request tr) = [Some req] \<and> answered F cu reply"

section \<open>What is relied on\<close>

definition plain_char :: "char \<Rightarrow> bool" where
  "plain_char c \<longleftrightarrow> is_digit c \<or> (65 \<le> (of_char c :: nat) \<and> (of_char c :: nat) \<le> 90) \<or>
     (97 \<le> (of_char c :: nat) \<and> (of_char c :: nat) \<le> 122) \<or> c \<in> {CHR ''.'', CHR ''-'', CHR ''_''}"

abbreviation plain_name :: "string \<Rightarrow> bool" where
  "plain_name \<equiv> list_all plain_char"

definition is_int32 :: "int \<Rightarrow> bool" where
  "is_int32 p \<longleftrightarrow> - (2 ^ 31) \<le> p \<and> p < 2 ^ 31"

definition service_url :: "string \<Rightarrow> int \<Rightarrow> string \<Rightarrow> string" where
  "service_url host p path = ''http://'' @ host @ '':'' @ dec p @ path"

definition flask_ok :: "('f, 'j) json_lib \<Rightarrow> 'f flask \<Rightarrow> bool" where
  "flask_ok J F \<longleftrightarrow>
     (\<forall>host port ip p name. plain_name host \<longrightarrow> plain_name ip \<longrightarrow> is_int32 p \<longrightarrow> plain_name name \<longrightarrow>
        fl_request F (HttpPost (service_url host port ''/register'')
          (writeString J [(''ip'', JStr ip), (''port'', JInt p), (''service_name'', JStr name)])) =
        Some (Register \<lparr>rr_ip = Some ip, rr_port = Some p, rr_service_name = Some name\<rparr>)) \<and>
     (\<forall>host port callee. plain_name host \<longrightarrow> plain_name callee \<longrightarrow>
        fl_request F (HttpGet (service_url host port (''/discover?callee='' @ callee))) = Some (Discover (Some callee))) \<and>
     (\<forall>ip p. plain_name ip \<longrightarrow> is_int32 p \<longrightarrow>
        (\<exists>root e. parse_json J (fl_body F (ServerList [(ip, p)])) = Some root \<and> isArray J root \<and> elements J root = [e] \<and>
          element_is J e \<lparr>d_ip = ip, d_port = p\<rparr>))"

text \<open>The addresses of a registry can be written and read back.\<close>

definition addressable :: "'f registry \<Rightarrow> bool" where
  "addressable S \<longleftrightarrow> (\<forall>(k, s) \<in> set S. plain_name (s_ip s) \<and> is_int32 (s_port s))"

lemma plain_no_nul: "plain_name s \<Longrightarrow> until_nul s = s"
proof -
  have "plain_char c \<Longrightarrow> c \<noteq> NUL" for c by (auto simp: plain_char_def is_digit_def)
  then show "plain_name s \<Longrightarrow> ?thesis" by (auto simp: list_all_iff)
qed

lemma urls_plain:
  "plain_name (svr_ip opt) \<Longrightarrow> length (svr_ip opt) + length (dec (svr_port opt)) \<le> 82 \<Longrightarrow>
   register_url opt = Inr (service_url (svr_ip opt) (svr_port opt) ''/register'')"
  "plain_name (svr_ip opt) \<Longrightarrow> plain_name callee \<Longrightarrow>
   length (svr_ip opt) + length (dec (svr_port opt)) + length callee \<le> 174 \<Longrightarrow>
   discover_url opt callee = Inr (service_url (svr_ip opt) (svr_port opt) (''/discover?callee='' @ callee))"
  by (simp_all add: urls service_url_def plain_no_nul)

section \<open>Registration and discovery\<close>

text \<open>What \<open>RegisterMyself\<close> asks for and what it makes of the reply.\<close>

lemma RegisterMyself_call:
  assumes "RegisterMyself J cu opt ip p name w = Inr (b, w')" "http_call F cu (drop (length (trace w)) (trace w')) req reply"
    and "flask_ok J F" "plain_name (svr_ip opt)" "length (svr_ip opt) + length (dec (svr_port opt)) \<le> 82"
      "plain_name ip" "is_int32 p" "plain_name name"
  shows "req = Register \<lparr>rr_ip = Some ip, rr_port = Some p, rr_service_name = Some name\<rparr> \<and> (b \<longleftrightarrow> reply_status reply = 200)"
  using assms by (auto simp: RegisterMyself_def Let_def urls_plain http_call_def answered_def is_request_def flask_ok_def
      split: if_splits)

text \<open>What \<open>RequestServiceList\<close> asks for and returns when a server is found.\<close>

lemma RequestServiceList_call:
  assumes "http_call F cu (drop (length (trace w)) (trace w')) req reply"
    and "RequestServiceList J cu opt callee w = Inr (rs, w')"
    and "flask_ok J F" "plain_name (svr_ip opt)"
      "length (svr_ip opt) + length (dec (svr_port opt)) + length callee \<le> 174" "plain_name callee"
  shows "req = Discover (Some callee)"
    and "reply = ServerList [(ip, p)] \<Longrightarrow> plain_name ip \<Longrightarrow> is_int32 p \<Longrightarrow> rs = Some [\<lparr>d_ip = ip, d_port = p\<rparr>]"
proof -
  show "req = Discover (Some callee)"
    using assms by (auto simp: RequestServiceList_def Let_def urls_plain http_call_def answered_def is_request_def flask_ok_def
        split: if_splits option.splits)
  assume r: "reply = ServerList [(ip, p)]" "plain_name ip" "is_int32 p"
  then obtain root e where j: "parse_json J (fl_body F reply) = Some root" "isArray J root" "elements J root = [e]"
      "element_is J e \<lparr>d_ip = ip, d_port = p\<rparr>"
    using assms(3) unfolding flask_ok_def by blast
  then have "read_results J (elements J root) = Some [\<lparr>d_ip = ip, d_port = p\<rparr>]" by (simp add: element_is_def)
  then show "rs = Some [\<lparr>d_ip = ip, d_port = p\<rparr>]"
    using assms r j(1,2) by (auto simp: RequestServiceList_def Let_def urls_plain http_call_def answered_def)
qed

lemma RequestServiceList_request:
  assumes "discover_url opt callee = Inr url" "cu_init cu"
  shows "\<exists>rs w'. RequestServiceList J cu opt callee w = Inr (rs, w') \<and>
    filter is_request (drop (length (trace w)) (trace w')) = [HttpGet url]"
proof (cases "parse_json J (cu_body cu)")
  case (Some root)
  with assms show ?thesis
    by (cases "read_results J (elements J root)") (simp_all add: RequestServiceList_def Let_def is_request_def)
qed (use assms in \<open>simp add: RequestServiceList_def Let_def is_request_def\<close>)

text \<open>Registering a plain address keeps the registry addressable.\<close>

lemma addressable_update:
  "addressable S \<Longrightarrow> distinct (map fst S) \<Longrightarrow> plain_name (s_ip s) \<Longrightarrow> is_int32 (s_port s) \<Longrightarrow> addressable (AList.update k s S)"
  by (auto simp: addressable_def set_update_distinct)

lemma addressable_register:
  assumes "addressable S" "registry_ok S" "plain_name ip" "is_int32 p"
  shows "addressable (fst (snd (register_endpoint now \<lparr>rr_ip = Some ip, rr_port = Some p, rr_service_name = Some name\<rparr> S)))"
proof -
  have d: "distinct (map fst S)" using assms(2) by (simp add: registry_ok_def)
  show ?thesis
  proof (cases "map_of S (svr_id ip p)")
    case None
    then have "svr_id ip p \<notin> set (map fst S)" by (metis map_of_eq_None_iff image_set)
    with assms d show ?thesis
      by (simp add: register_endpoint_def update_conv' addressable_update distinct_update)
  next
    case (Some s)
    then have "svr_id ip p \<in> set (map fst S)" by (metis map_of_eq_None_iff option.distinct(1) image_set)
    moreover have "plain_name (s_ip s)" "is_int32 (s_port s)"
      using map_of_SomeD [OF Some] assms(1) by (auto simp: addressable_def)
    ultimately show ?thesis
      using Some assms d by (simp add: register_endpoint_def addressable_update)
  qed
qed

lemma addressable_least:
  assumes "addressable S" "registry_ok S" "least_loaded name (directory_of S) (ip, p)"
  shows "plain_name ip \<and> is_int32 p"
proof -
  obtain s where s: "directory_of S (ip, p) = Some s" using assms(3) by (auto simp: least_loaded_def)
  have "(svr_id ip p, s) \<in> set S" using s directory_of_Some [OF assms(2), of "(ip, p)"] by simp
  moreover have "ip = s_ip s" "p = s_port s" using directory_of_address [OF assms(2) s] by simp_all
  ultimately show ?thesis using assms(1) by (auto simp: addressable_def)
qed

text \<open>The node of a settled cluster replies from the common registry.\<close>

lemma settled_discover:
  fixes c :: "'f::linordered_idom cluster"
  assumes "settled u t l ids T K S c" "h \<in> set c"
  shows "fst (http now (Discover (Some name)) h) = discover_endpoint (Some name) S"
proof -
  obtain role where "status_endpoint h = Inr (S, role)" using settled_status [OF assms] by blast
  then obtain r where "check_committed_entry (node h) = Inr r" "deref (heap h) r = S"
    by (cases "check_committed_entry (node h)") (auto simp: status_endpoint_def)
  then show ?thesis by (simp add: http_def on_registry_def)
qed

section \<open>Properties\<close>

text \<open>The registry once a registration is carried out.\<close>

definition registered :: "'f::linordered_idom \<Rightarrow> string \<Rightarrow> int \<Rightarrow> string \<Rightarrow> 'f registry \<Rightarrow> 'f registry" where
  "registered now ip p name S =
     fst (snd (register_endpoint now \<lparr>rr_ip = Some ip, rr_port = Some p, rr_service_name = Some name\<rparr> S))"

lemma registered_perform:
  "registered now ip p name S =
     snd (registry_perform now (Register \<lparr>rr_ip = Some ip, rr_port = Some p, rr_service_name = Some name\<rparr>) S)"
  by (simp add: registered_def registry_perform_simps)

lemma register_status:
  "reply_status (fst (register_endpoint now d S)) = 200 \<longleftrightarrow> fst (register_endpoint now d S) = StatusSuccess"
  by (auto simp: register_endpoint_def Let_def split: option.splits)

text \<open>
  C5. A service that \<open>RegisterMyself\<close> has reported to the leader of a settled cluster is found by
  \<open>RequestServiceList\<close> at every node: the registration returns true exactly when the address did
  not already offer the service, there are steps that replicate it to all nodes, and from then on a
  discovery at any of them returns one address, that of a server with the least load among those
  offering the service, of which the registered one is now one.
\<close>

theorem registered_service_is_discovered:
  fixes c :: "'f::linordered_idom cluster"
  assumes "settled u t l ids T K S c" "registry_ok S" "addressable S" "flask_ok J F"
    and "plain_name ip" "is_int32 p" "plain_name name" "plain_name (svr_ip opt)"
      "length (svr_ip opt) + length (dec (svr_port opt)) \<le> 82"
    and "RegisterMyself J cu opt ip p name w = Inr (b, w1)"
    and "http_call F cu (drop (length (trace w)) (trace w1)) req (fst (http now req (c ! l)))"
  shows "(b \<longleftrightarrow> \<not> (\<exists>s. directory_of S (ip, p) = Some s \<and> name \<in> set (services s))) \<and>
    (\<exists>s. directory_of (registered now ip p name S) (ip, p) = Some s \<and> name \<in> set (services s)) \<and>
    (\<exists>as c'. cluster_run (Http l now req # as) c = Some (Inr c') \<and> (\<forall>a \<in> set as. orderly a \<and> \<not> is_http a) \<and>
      (\<forall>h \<in> set c'. \<forall>cu' opt' w' rs w2 now' req'.
        plain_name (svr_ip opt') \<longrightarrow> length (svr_ip opt') + length (dec (svr_port opt')) + length name \<le> 174 \<longrightarrow>
        RequestServiceList J cu' opt' name (w' :: world) = Inr (rs, w2) \<longrightarrow>
        http_call F cu' (drop (length (trace w')) (trace w2)) req' (fst (http now' req' h)) \<longrightarrow>
        (\<exists>a. rs = Some [\<lparr>d_ip = fst a, d_port = snd a\<rparr>] \<and>
          least_loaded name (directory_of (registered now ip p name S)) a)))"
proof -
  let ?R = "Register \<lparr>rr_ip = Some ip, rr_port = Some p, rr_service_name = Some name\<rparr>"
  let ?S = "registered now ip p name S"
  have req: "req = ?R" and b: "b \<longleftrightarrow> reply_status (fst (http now ?R (c ! l))) = 200"
    using RegisterMyself_call [OF assms(10,11,4,8,9,5,6,7)] by auto
  obtain as c' K' where r: "cluster_run (Http l now ?R # as) c = Some (Inr c')" "\<forall>a \<in> set as. orderly a \<and> \<not> is_http a"
      "fst (http now ?R (c ! l)) = fst (registry_op now ?R S)" "settled u t l ids T K' ?S c'"
    using serve_request [OF assms(1), of now ?R] step_at_orderly by (auto simp: registered_def) blast
  have ok: "registry_ok ?S" using register_keeps_ok [OF assms(2)] by (simp add: registered_def)
  have adr: "addressable ?S"
    using addressable_register [OF assms(3,2,5,6)] by (simp add: registered_def)
  obtain a where a: "discover_endpoint (Some name) ?S = ServerList [a]" "least_loaded name (directory_of ?S) a"
    using registry_dir.registered_offers [OF assms(2), of now ip p name] registry_dir.offered_is_found [OF ok, of "(ip, p)" _ name now]
    by (auto simp: registered_perform registry_perform_simps)
  have "\<exists>a. rs = Some [\<lparr>d_ip = fst a, d_port = snd a\<rparr>] \<and> least_loaded name (directory_of ?S) a"
    if "h \<in> set c'" "plain_name (svr_ip opt')" "length (svr_ip opt') + length (dec (svr_port opt')) + length name \<le> 174"
      "RequestServiceList J cu' opt' name (w' :: world) = Inr (rs, w2)"
      "http_call F cu' (drop (length (trace w')) (trace w2)) req' (fst (http now' req' h))"
    for h cu' opt' w' rs w2 now' req'
  proof -
    note call = RequestServiceList_call [OF that(5,4) assms(4) that(2,3) assms(7)]
    have "fst (http now' req' h) = ServerList [(fst a, snd a)]"
      using call(1) settled_discover [OF r(4) that(1)] a(1) by simp
    then have "rs = Some [\<lparr>d_ip = fst a, d_port = snd a\<rparr>]"
      using call(2) addressable_least [OF adr ok, of name "fst a" "snd a"] a(2) by simp
    with a(2) show ?thesis by blast
  qed
  moreover have "b \<longleftrightarrow> \<not> (\<exists>s. directory_of S (ip, p) = Some s \<and> name \<in> set (services s))"
    using b r(3) registry_dir.register_reply [OF assms(2), of now ip p name]
    by (simp add: register_status registry_perform_simps)
  ultimately show ?thesis
    using r(1,2) registry_dir.registered_offers [OF assms(2), of now ip p name]
    unfolding req registered_perform by (intro conjI exI [of _ as] exI [of _ c']) blast+
qed

text \<open>
  A Flask and a jsoncpp that agree: an integer is followed by a colon, and names are separated by
  colons.
\<close>

definition undec :: "string \<Rightarrow> int" where
  "undec s = (case s of [] \<Rightarrow> 0 | c # r \<Rightarrow> if c = CHR ''-'' then - int (digits_val 0 r) else int (digits_val 0 s))"

definition until_colon :: "string \<Rightarrow> string" where
  "until_colon = takeWhile (\<lambda>c. c \<noteq> CHR '':'')"

definition after_colon :: "string \<Rightarrow> string" where
  "after_colon s = tl (dropWhile (\<lambda>c. c \<noteq> CHR '':'') s)"

definition colon_json :: "(int, string) json_lib" where
  "colon_json = \<lparr>
     writeString = (\<lambda>fs. case fs of
         [(_, JStr ip), (_, JInt p), (_, JStr name)] \<Rightarrow> dec p @ '':'' @ ip @ '':'' @ name
       | _ \<Rightarrow> []),
     parse_json = Some, isArray = (\<lambda>_. True), elements = (\<lambda>j. if j = [] then [] else [j]),
     asStringAt = (\<lambda>j _. Some (after_colon j)), asIntAt = (\<lambda>j _. Some (undec (until_colon j)))\<rparr>"

definition colon_flask :: "int flask" where
  "colon_flask = \<lparr>
     fl_request = (\<lambda>x. case x of
         HttpPost _ d \<Rightarrow> Some (Register \<lparr>rr_ip = Some (until_colon (after_colon d)),
           rr_port = Some (undec (until_colon d)), rr_service_name = Some (after_colon (after_colon d))\<rparr>)
       | HttpGet url \<Rightarrow> Some (Discover (Some (rev (takeWhile (\<lambda>c. c \<noteq> CHR ''='') (rev url)))))
       | _ \<Rightarrow> None),
     fl_body = (\<lambda>r. case r of ServerList ((ip, p) # _) \<Rightarrow> dec p @ '':'' @ ip | _ \<Rightarrow> [])\<rparr>"

lemma undec_dec: "undec (dec p) = p"
proof -
  have m: "CHR ''-'' \<noteq> hd (dec_nat n)" "dec_nat n \<noteq> []" for n
    using dec_nat_digits [of n] by (cases "dec_nat n"; auto simp: is_digit_def)+
  show ?thesis using m [of "nat p"] digits_val_dec_nat [of "nat p"] digits_val_dec_nat [of "nat (- p)"]
    by (cases "dec_nat (nat p)") (auto simp: dec_def undec_def split: if_splits)
qed

lemma colons:
  "CHR '':'' \<notin> set a \<Longrightarrow> until_colon (a @ CHR '':'' # b) = a" "CHR '':'' \<notin> set a \<Longrightarrow> after_colon (a @ CHR '':'' # b) = b"
  by (induction a) (auto simp: until_colon_def after_colon_def)

lemma plain_colon: "plain_name s \<Longrightarrow> CHR '':'' \<notin> set s" "plain_name s \<Longrightarrow> CHR ''='' \<notin> set s"
proof -
  have "\<not> plain_char (CHR '':'')" "\<not> plain_char (CHR ''='')" by (simp_all add: plain_char_def is_digit_def)
  then show "plain_name s \<Longrightarrow> CHR '':'' \<notin> set s" "plain_name s \<Longrightarrow> CHR ''='' \<notin> set s" by (auto simp: list_all_iff)
qed

lemma colon_flask_ok: "flask_ok colon_json colon_flask"
proof -
  have "takeWhile (\<lambda>c. c \<noteq> CHR ''='') (rev y @ CHR ''='' # x) = rev y" if "CHR ''='' \<notin> set y" for x y :: string
    using that takeWhile_append2 [of "rev y" "\<lambda>c. c \<noteq> CHR ''=''" "CHR ''='' # x"] by fastforce
  then have "fl_request colon_flask (HttpGet (service_url host port (''/discover?callee='' @ callee))) = Some (Discover (Some callee))"
    if "plain_name callee" for host port callee
    using plain_colon(2) [OF that] by (simp add: colon_flask_def service_url_def)
  moreover have "dec p @ CHR '':'' # ip \<noteq> []" for p ip by simp
  ultimately show ?thesis
    unfolding flask_ok_def
    by (simp add: colon_flask_def colon_json_def colons plain_colon dec_no_colon undec_dec element_is_def)
qed

definition answer_with :: "'f flask \<Rightarrow> http_reply \<Rightarrow> curl_answer" where
  "answer_with F r = \<lparr>cu_init = True, cu_perform = True, cu_status = reply_status r, cu_chunks = [fl_body F r]\<rparr>"

lemma answered_with [simp]: "answered F (answer_with F r) r"
  by (simp add: answered_def answer_with_def cu_body_concat)

definition demo_ns :: svc_options where
  "demo_ns = \<lparr>svr_ip = ''ns'', svr_port = 5000\<rparr>"

theorem registered_service_is_discovered_witness:
  "\<exists>w1. RegisterMyself colon_json (answer_with colon_flask StatusSuccess) demo_ns ''10.0.0.1'' 8888 ''KV'' \<lparr>trace = []\<rparr> =
       Inr (True, w1) \<and>
     (\<exists>as c'. cluster_run (Http 0 5 (Register \<lparr>rr_ip = Some ''10.0.0.1'', rr_port = Some 8888, rr_service_name = Some ''KV''\<rparr>) # as)
         elected = Some (Inr c') \<and>
       list_all (\<lambda>h. \<exists>w2. RequestServiceList colon_json
           (answer_with colon_flask (fst (http 6 (Discover (Some ''KV'')) h))) demo_ns ''KV'' \<lparr>trace = []\<rparr> =
         Inr (Some [\<lparr>d_ip = ''10.0.0.1'', d_port = 8888\<rparr>], w2)) c')"
proof -
  let ?R = "Register \<lparr>rr_ip = Some ''10.0.0.1'', rr_port = Some 8888, rr_service_name = Some ''KV''\<rparr>"
  let ?cu = "answer_with colon_flask StatusSuccess" and ?w = "\<lparr>trace = []\<rparr> :: world"
  have pl: "plain_name ''10.0.0.1''" "plain_name ''KV''" "plain_name ''ns''" "is_int32 8888"
    by (simp_all add: plain_char_def is_digit_def is_int32_def)
  have dec: "length (dec 5000) \<le> 5" using length_dec_nat [of 5000 5] by (simp add: dec_def)
  have len: "length (svr_ip demo_ns) + length (dec (svr_port demo_ns)) \<le> 82"
    "length (svr_ip demo_ns) + length (dec (svr_port demo_ns)) + length ''KV'' \<le> 174" "plain_name (svr_ip demo_ns)"
    using dec pl(3) by (simp_all add: demo_ns_def)
  define w1 :: world where "w1 = \<lparr>trace = [HttpInit, HttpPost (service_url ''ns'' 5000 ''/register'')
      (writeString colon_json [(''ip'', JStr ''10.0.0.1''), (''port'', JInt 8888), (''service_name'', JStr ''KV'')]), HttpCleanup]\<rparr>"
  have w1: "RegisterMyself colon_json ?cu demo_ns ''10.0.0.1'' 8888 ''KV'' ?w = Inr (True, w1)"
    using urls_plain(1) [OF len(3,1)] by (simp add: RegisterMyself_def answer_with_def demo_ns_def emit_def w1_def)
  have post: "fl_request colon_flask (HttpPost (service_url ''ns'' 5000 ''/register'')
      (writeString colon_json [(''ip'', JStr ''10.0.0.1''), (''port'', JInt 8888), (''service_name'', JStr ''KV'')])) = Some ?R"
    using colon_flask_ok pl unfolding flask_ok_def by blast
  have "fst (http 5 ?R (elected ! 0)) = StatusSuccess"
    using serve_request [OF elected_settled, of 5 ?R] by (auto simp: register_endpoint_def)
  then have call: "http_call colon_flask ?cu (drop (length (trace ?w)) (trace w1)) ?R (fst (http 5 ?R (elected ! 0)))"
    using post by (simp add: http_call_def is_request_def w1_def)
  have ok: "registry_ok ([] :: int registry)" "addressable ([] :: int registry)" by (simp_all add: addressable_def)
  note all = registered_service_is_discovered [OF elected_settled ok colon_flask_ok pl(1,4,2) len(3,1) w1 call]
  obtain as c' where c': "cluster_run (Http 0 5 ?R # as) elected = Some (Inr c')"
      "\<And>h cu' w' rs w2 now' req'. h \<in> set c' \<Longrightarrow> RequestServiceList colon_json cu' demo_ns ''KV'' (w' :: world) = Inr (rs, w2) \<Longrightarrow>
        http_call colon_flask cu' (drop (length (trace w')) (trace w2)) req' (fst (http now' req' h)) \<Longrightarrow>
        \<exists>a. rs = Some [\<lparr>d_ip = fst a, d_port = snd a\<rparr>] \<and>
          least_loaded ''KV'' (directory_of (registered 5 ''10.0.0.1'' 8888 ''KV'' ([] :: int registry))) a"
    using all len(2,3) by (elim conjE exE) blast
  have one: "least_loaded ''KV'' (directory_of (registered 5 ''10.0.0.1'' 8888 ''KV'' ([] :: int registry))) a \<Longrightarrow> a = (''10.0.0.1'', 8888)" for a
    by (cases a) (auto simp: least_loaded_def registered_def register_endpoint_def directory_of_eq split: if_splits)
  have "\<exists>w2. RequestServiceList colon_json (answer_with colon_flask (fst (http 6 (Discover (Some ''KV'')) h))) demo_ns ''KV'' ?w =
      Inr (Some [\<lparr>d_ip = ''10.0.0.1'', d_port = 8888\<rparr>], w2)" if "h \<in> set c'" for h
  proof -
    let ?r = "fst (http 6 (Discover (Some ''KV'')) h)"
    have get: "fl_request colon_flask (HttpGet (service_url ''ns'' 5000 (''/discover?callee='' @ ''KV''))) = Some (Discover (Some ''KV''))"
      using colon_flask_ok pl unfolding flask_ok_def by blast
    have "cu_init (answer_with colon_flask ?r)" by (simp add: answer_with_def)
    then obtain rs w2 where r: "RequestServiceList colon_json (answer_with colon_flask ?r) demo_ns ''KV'' ?w = Inr (rs, w2)"
        "filter is_request (drop (length (trace ?w)) (trace w2)) = [HttpGet (service_url ''ns'' 5000 (''/discover?callee='' @ ''KV''))]"
      using RequestServiceList_request [OF urls_plain(2) [OF len(3) pl(2) len(2)], of "answer_with colon_flask ?r" colon_json ?w]
      by (auto simp: demo_ns_def)
    then have "http_call colon_flask (answer_with colon_flask ?r) (drop (length (trace ?w)) (trace w2)) (Discover (Some ''KV'')) ?r"
      using get by (simp add: http_call_def)
    from c'(2) [OF that r(1) this] r(1) one show ?thesis by auto
  qed
  then show ?thesis using w1 c'(1) by (auto simp: list_all_iff)
qed

end
