(* ===== verification/NodeProcesses.thy ===== *)
theory NodeProcesses
  imports NameServer
begin

text \<open>
  The two processes a node starts, \<open>Talker\<close> and \<open>Listener\<close> of \<open>namesvr/raft/interface.py\<close>.

  A node hands its messages to a \<open>multiprocessing.Queue\<close>: \<open>put\<close> appends the object to a buffer of
  the node's process, a thread of the queue pickles the objects in order into a pipe, and the
  talker's process takes them from there. In \<open>NameServer.thy\<close> a step \<open>Publish\<close> takes the message from
  the buffer, copies it and gives it to the subscribers at once; here the copy is put into the pipe
  (\<open>Feed\<close>), and the talker's process sends it when it has bound its socket, has waited for the
  connections and has not been stopped. A listener's process hears the publishers it has connected
  to.
\<close>

section \<open>The talker\<close>

text \<open>
  Where the process is: in the loop that binds the socket, in the first sleep, at the test of the
  main loop, in its sleep, and after the end, which an exception may be. \<open>wake\<close> is what comes next:
  the call returns, it fails (\<open>bind\<close> raises, \<open>poll\<close> times out), or Ctrl+C interrupts it.
\<close>

datatype talker_pc = Binding | TalkerBackoff | Talking | TalkerSleep | TalkerEnded | TalkerRaised

datatype wake = Goes | Fails | Interrupted

record 'm talker_process =
  talker_pc :: talker_pc
  ready_event :: bool
  talker_stop_event :: bool
  pipe :: "'m list"

definition Talker_init :: "'m talker_process" where
  "Talker_init = \<lparr>talker_pc = Binding, ready_event = False, talker_stop_event = False, pipe = []\<rparr>"

definition talker_stop :: "'m talker_process \<Rightarrow> 'm talker_process" where
  "talker_stop t = t\<lparr>talker_stop_event := True\<rparr>"

definition talker_put :: "'m \<Rightarrow> 'm talker_process \<Rightarrow> 'm talker_process" where
  "talker_put m t = t\<lparr>pipe := pipe t @ [m]\<rparr>"

definition talker_turn :: "wake \<Rightarrow> 'm talker_process \<Rightarrow> 'm option \<times> 'm talker_process" where
  "talker_turn w t =
     (case talker_pc t of
        Binding \<Rightarrow> (None, t\<lparr>talker_pc := (case w of Goes \<Rightarrow> TalkerBackoff | Fails \<Rightarrow> Binding | Interrupted \<Rightarrow> TalkerRaised)\<rparr>)
      | TalkerBackoff \<Rightarrow>
          if w = Interrupted then (None, t\<lparr>talker_pc := TalkerRaised\<rparr>)
          else (None, t\<lparr>talker_pc := Talking, ready_event := True\<rparr>)
      | Talking \<Rightarrow>
          if talker_stop_event t \<or> w = Interrupted then (None, t\<lparr>talker_pc := TalkerEnded\<rparr>)
          else (case pipe t of
              [] \<Rightarrow> (None, t\<lparr>talker_pc := TalkerSleep\<rparr>)
            | m # ms \<Rightarrow> (Some m, t\<lparr>pipe := ms\<rparr>))
      | TalkerSleep \<Rightarrow> (None, t\<lparr>talker_pc := (if w = Interrupted then TalkerEnded else Talking)\<rparr>)
      | TalkerEnded \<Rightarrow> (None, t)
      | TalkerRaised \<Rightarrow> (None, t))"

text \<open>\<open>wait_until_ready\<close>, given the states in which it looks; \<open>None\<close> is still waiting.\<close>

fun wait_until_ready :: "'m talker_process list \<Rightarrow> bool option" where
  "wait_until_ready [] = None"
| "wait_until_ready (t # ts) = (if ready_event t then Some True else wait_until_ready ts)"

section \<open>The listener\<close>

datatype listener_pc = Connecting "string list" | ListenerBackoff | Polling | ListenerEnded | ListenerRaised

record listener_process =
  listener_pc :: listener_pc
  listener_stop_event :: bool
  subscribed :: "string list"

definition Listener_init :: "string list \<Rightarrow> listener_process" where
  "Listener_init port_list = \<lparr>listener_pc = Connecting port_list, listener_stop_event = False, subscribed = []\<rparr>"

definition listener_stop :: "listener_process \<Rightarrow> listener_process" where
  "listener_stop l = l\<lparr>listener_stop_event := True\<rparr>"

text \<open>\<open>True\<close>: the socket can be read.\<close>

definition listener_turn :: "wake \<Rightarrow> listener_process \<Rightarrow> bool \<times> listener_process" where
  "listener_turn w l =
     (case listener_pc l of
        Connecting [] \<Rightarrow> (False, l\<lparr>listener_pc := ListenerBackoff\<rparr>)
      | Connecting (a # as) \<Rightarrow>
          if w = Goes then (False, l\<lparr>listener_pc := Connecting as, subscribed := subscribed l @ [a]\<rparr>)
          else (False, l\<lparr>listener_pc := ListenerRaised\<rparr>)
      | ListenerBackoff \<Rightarrow> (False, l\<lparr>listener_pc := (if w = Interrupted then ListenerRaised else Polling)\<rparr>)
      | Polling \<Rightarrow>
          if listener_stop_event l \<or> w = Interrupted then (False, l\<lparr>listener_pc := ListenerEnded\<rparr>)
          else (w = Goes, l)
      | ListenerEnded \<Rightarrow> (False, l)
      | ListenerRaised \<Rightarrow> (False, l))"

section \<open>What a talker sends\<close>

text \<open>
  A talker by itself: the node puts messages, they reach the pipe one by one, the process takes its
  turns, and at some time it is told to stop.
\<close>

datatype 'm talker_event = Put 'm | Fed | Woken wake | StopTalker

text \<open>The buffer, the process, and what was sent.\<close>

fun talker_step :: "'m talker_event \<Rightarrow> 'm list \<times> 'm talker_process \<times> 'm list \<Rightarrow> 'm list \<times> 'm talker_process \<times> 'm list" where
  "talker_step (Put m) (buffer, t, sent) = (buffer @ [m], t, sent)"
| "talker_step Fed (buffer, t, sent) =
     (case buffer of [] \<Rightarrow> (buffer, t, sent) | m # ms \<Rightarrow> (ms, talker_put m t, sent))"
| "talker_step (Woken w) (buffer, t, sent) =
     (case talker_turn w t of (None, t') \<Rightarrow> (buffer, t', sent) | (Some m, t') \<Rightarrow> (buffer, t', sent @ [m]))"
| "talker_step StopTalker (buffer, t, sent) = (buffer, talker_stop t, sent)"

definition talker_run :: "'m talker_event list \<Rightarrow> 'm list \<times> 'm talker_process \<times> 'm list" where
  "talker_run es = fold talker_step es ([], Talker_init, [])"

fun puts :: "'m talker_event list \<Rightarrow> 'm list" where
  "puts [] = []"
| "puts (Put m # es) = m # puts es"
| "puts (_ # es) = puts es"

lemma puts_append [simp]: "puts (es @ fs) = puts es @ puts fs"
  by (induction es rule: puts.induct) simp_all

lemmas talker_defs = talker_turn_def talker_put_def talker_stop_def Talker_init_def

text \<open>A talker that has left the loops of its start is ready, and stays so.\<close>

definition talker_ok :: "'m talker_process \<Rightarrow> bool" where
  "talker_ok t \<longleftrightarrow> (ready_event t \<longrightarrow> talker_pc t \<notin> {Binding, TalkerBackoff, TalkerRaised}) \<and>
     (talker_pc t \<in> {Talking, TalkerSleep, TalkerEnded} \<longrightarrow> ready_event t)"

lemma talker_step_ok:
  assumes "talker_step e (buffer, t, sent) = (buffer', t', sent')" "talker_ok t"
  shows "talker_ok t' \<and> sent' @ pipe t' @ buffer' = sent @ pipe t @ buffer @ puts [e] \<and>
    (sent' \<noteq> sent \<longrightarrow> ready_event t \<and> talker_pc t = Talking \<and> \<not> talker_stop_event t)"
  using assms by (cases e)
    (auto simp: talker_ok_def talker_defs split: list.splits talker_pc.splits wake.splits if_splits)

lemma talker_run_snoc: "talker_run (es @ [e]) = talker_step e (talker_run es)"
  by (simp add: talker_run_def)

lemma talker_run_ok:
  "case talker_run es of (buffer, t, sent) \<Rightarrow> talker_ok t \<and> sent @ pipe t @ buffer = puts es \<and> (sent \<noteq> [] \<longrightarrow> ready_event t)"
proof (induction es rule: rev_induct)
  case Nil
  then show ?case by (simp add: talker_run_def talker_ok_def Talker_init_def)
next
  case (snoc e es)
  obtain buffer t sent where r: "talker_run es = (buffer, t, sent)" by (metis prod_cases3)
  obtain buffer' t' sent' where s: "talker_step e (buffer, t, sent) = (buffer', t', sent')" by (metis prod_cases3)
  have "ready_event t \<Longrightarrow> ready_event t'"
    using s by (cases e) (auto simp: talker_defs split: list.splits talker_pc.splits wake.splits if_splits)
  with snoc talker_step_ok [OF s] show ?case by (auto simp: r s talker_run_snoc)
qed

lemma talker_run_append: "talker_run (es @ fs) = fold talker_step fs (talker_run es)"
  by (simp add: talker_run_def)

lemma talker_sends_pipe:
  "talker_pc t = Talking \<Longrightarrow> \<not> talker_stop_event t \<Longrightarrow>
   fold talker_step (replicate (length (pipe t)) (Woken Goes)) (buffer, t, sent) = (buffer, t\<lparr>pipe := []\<rparr>, sent @ pipe t)"
proof (induction "pipe t" arbitrary: t sent)
  case (Cons m ms)
  then have t: "pipe t = m # ms" by simp
  with Cons(1) [of "t\<lparr>pipe := ms\<rparr>" "sent @ [m]"] Cons(3,4) show ?case
    by (simp add: talker_turn_def)
qed simp

lemma stopped_talker_silent:
  "talker_stop_event t \<Longrightarrow> case fold talker_step fs (buffer, t, sent) of (_, t', sent') \<Rightarrow> sent' = sent \<and> talker_stop_event t'"
proof (induction fs arbitrary: buffer t)
  case (Cons e fs)
  obtain buffer' t' sent' where s: "talker_step e (buffer, t, sent) = (buffer', t', sent')" by (metis prod_cases3)
  have "sent' = sent \<and> talker_stop_event t'"
    using s Cons.prems by (cases e) (auto simp: talker_defs split: list.splits talker_pc.splits wake.splits if_splits)
  with Cons.IH [of t' buffer'] s show ?case by simp
qed simp

definition bind_fails :: "'m talker_event \<Rightarrow> bool" where
  "bind_fails e = (case e of Woken w \<Rightarrow> w = Fails | _ \<Rightarrow> True)"

lemma unbound_talker_waits:
  "talker_pc t = Binding \<Longrightarrow> list_all bind_fails fs \<Longrightarrow>
   case fold talker_step fs (buffer, t, sent) of (_, t', sent') \<Rightarrow> talker_pc t' = Binding"
proof (induction fs arbitrary: buffer t sent)
  case (Cons e fs)
  obtain buffer' t' sent' where s: "talker_step e (buffer, t, sent) = (buffer', t', sent')" by (metis prod_cases3)
  have "talker_pc t' = Binding"
    using s Cons.prems by (cases e) (auto simp: bind_fails_def talker_defs split: list.splits)
  with Cons s show ?case by simp
qed simp

text \<open>
  C22. A talker sends what it is given, each message once and in the order of the calls, and nothing
  before it has bound its socket and waited. A running talker sends all that has reached the pipe in
  as many turns. After \<open>stop\<close> nothing more is sent, so what is still queued is lost; and \<open>stop\<close> does
  not end a process whose socket cannot be bound.
\<close>

theorem talker_sends_in_order:
  "case talker_run es of (buffer, t, sent) \<Rightarrow>
     sent @ pipe t @ buffer = puts es \<and> (sent \<noteq> [] \<longrightarrow> wait_until_ready [t] = Some True) \<and>
     (talker_pc t = Talking \<and> \<not> talker_stop_event t \<longrightarrow>
        talker_run (es @ replicate (length (pipe t)) (Woken Goes)) = (buffer, t\<lparr>pipe := []\<rparr>, sent @ pipe t)) \<and>
     (\<forall>fs. snd (snd (talker_run (es @ StopTalker # fs))) = sent) \<and>
     (talker_pc t = Binding \<longrightarrow> (\<forall>fs. list_all bind_fails fs \<longrightarrow>
        talker_pc (fst (snd (talker_run (es @ StopTalker # fs)))) = Binding))"
proof -
  obtain buffer t sent where r: "talker_run es = (buffer, t, sent)" by (metis prod_cases3)
  have "snd (snd (talker_run (es @ StopTalker # fs))) = sent" for fs
    using stopped_talker_silent [of "talker_stop t" sent fs buffer] by (auto simp: talker_run_append r talker_stop_def split: prod.splits)
  moreover have "talker_pc (fst (snd (talker_run (es @ StopTalker # fs)))) = Binding"
    if "talker_pc t = Binding" "list_all bind_fails fs" for fs
    using unbound_talker_waits [of "talker_stop t" fs buffer sent] that
    by (auto simp: talker_run_append r talker_stop_def split: prod.splits)
  ultimately show ?thesis
    using talker_run_ok [of es] talker_sends_pipe [of t buffer sent] by (auto simp: r talker_run_append)
qed

theorem talker_sends_in_order_witness:
  "snd (snd (talker_run ([Put 1, Put (2 :: nat), Fed, Woken Fails, Woken Goes, Woken Goes] @
     replicate 1 (Woken Goes)))) = [1] \<and>
   talker_pc (fst (snd (talker_run ([Put (7 :: nat)] @ StopTalker # [Fed, Woken Fails, Woken Fails])))) = Binding"
proof
  show "snd (snd (talker_run ([Put 1, Put (2 :: nat), Fed, Woken Fails, Woken Goes, Woken Goes] @ replicate 1 (Woken Goes)))) = [1]"
    using talker_sends_in_order [of "[Put 1, Put (2 :: nat), Fed, Woken Fails, Woken Goes, Woken Goes]"]
    by (simp add: talker_run_def talker_defs)
  show "talker_pc (fst (snd (talker_run ([Put (7 :: nat)] @ StopTalker # [Fed, Woken Fails, Woken Fails])))) = Binding"
    using talker_sends_in_order [of "[Put (7 :: nat)]"]
    by (simp add: talker_run_def talker_defs)
qed

section \<open>Nodes with their processes\<close>

text \<open>
  A node: its host, with the buffer of the talker's queue (\<open>talker\<close>) and the listener's messages
  that \<open>get_message\<close> can return (\<open>listener\<close>), its two processes, and whether its own process runs.
\<close>

record 'f station =
  host_of :: "'f host"
  talking :: "'f registry dict talker_process"
  listening :: listener_process
  up :: bool

definition station_init :: "'f host \<Rightarrow> 'f station" where
  "station_init h = \<lparr>host_of = h, talking = Talker_init, listening = Listener_init (all_ids (node h)), up = True\<rparr>"

text \<open>\<open>node.stop()\<close>\<close>

definition station_stop :: "'f station \<Rightarrow> 'f station" where
  "station_stop s = s\<lparr>talking := talker_stop (talking s), listening := listener_stop (listening s),
     host_of := (host_of s)\<lparr>node := raft_stop (node (host_of s))\<rparr>\<rparr>"

text \<open>
  A published message reaches the subscribers that have connected to the publisher's address, but
  for those that miss it.
\<close>

definition send_json :: "nat \<Rightarrow> string \<Rightarrow> 'f registry dict \<Rightarrow> nat list \<Rightarrow> 'f station list \<Rightarrow> 'f station list" where
  "send_json i address m drops c =
     map (\<lambda>(j, s). if j \<in> set drops \<or> address \<notin> set (subscribed (listening s)) then s
       else s\<lparr>host_of := put_incoming i m (host_of s)\<rparr>) (enumerate 0 c)"

text \<open>
  Steps: of a node's threads (as in \<open>NameServer.thy\<close>, as long as its process runs, and of the thread
  of the log until it is told to terminate), of the queue of a talker, of a talker, of a listener
  (with the publisher whose message is the next), \<open>node.stop()\<close>, and the end of a node's process by
  a signal, which leaves its talker and listener running.
\<close>

datatype 'f process_act =
    NodeAct "'f act"
  | Feed nat
  | TalkerTurn nat wake "nat list"
  | ListenerTurn nat wake nat
  | StopNode nat
  | KillNode nat

fun act_node :: "'f act \<Rightarrow> nat option" where
  "act_node (Turn i _ _) = Some i"
| "act_node (Publish _ _) = None"
| "act_node (Deliver _ _) = None"
| "act_node (Http i _ _) = Some i"
| "act_node (HttpRequest i _) = Some i"
| "act_node (MonitorPass i _) = Some i"
| "act_node (PauseNode i) = Some i"
| "act_node (UnPauseNode i) = Some i"

definition node_may :: "'f act \<Rightarrow> 'f station list \<Rightarrow> bool" where
  "node_may a c = (case act_node a of
     None \<Rightarrow> False
   | Some i \<Rightarrow> i < length c \<and> up (c ! i) \<and>
       (case a of Turn _ _ _ \<Rightarrow> \<not> terminate (node (host_of (c ! i))) | _ \<Rightarrow> True))"

definition with_hosts :: "'f station list \<Rightarrow> 'f host list \<Rightarrow> 'f station list" where
  "with_hosts c hs = map2 (\<lambda>s h. s\<lparr>host_of := h\<rparr>) c hs"

fun process_step :: "'f::linordered_idom process_act \<Rightarrow> 'f station list \<Rightarrow> 'f station list py option" where
  "process_step (NodeAct a) c =
     (if node_may a c then map_option (\<lambda>r. bindE r (\<lambda>hs. Inr (with_hosts c hs))) (cluster_act a (map host_of c)) else None)"
| "process_step (Feed i) c =
     (if i < length c \<and> up (c ! i) then
        let s = c ! i; h = host_of s in
        case talker (node h) of
          [] \<Rightarrow> None
        | d # ds \<Rightarrow> Some (Inr (c[i := s\<lparr>host_of := h\<lparr>node := (node h)\<lparr>talker := ds\<rparr>\<rparr>,
            talking := talker_put (export_dict (heap h) d) (talking s)\<rparr>]))
      else None)"
| "process_step (TalkerTurn i w drops) c =
     (if i < length c then
        let s = c ! i; (sent, t) = talker_turn w (talking s); c' = c[i := s\<lparr>talking := t\<rparr>] in
        Some (Inr (case sent of None \<Rightarrow> c' | Some m \<Rightarrow> send_json i (my_id (node (host_of s))) m drops c'))
      else None)"
| "process_step (ListenerTurn j w i) c =
     (if i < length c \<and> j < length c then
        let s = c ! j; (readable, l) = listener_turn w (listening s); h = host_of s in
        if readable then
          (case incoming h ! i of
             [] \<Rightarrow> None
           | m # ms \<Rightarrow> Some (bindE (host_receive m (h\<lparr>incoming := (incoming h)[i := ms]\<rparr>)) (\<lambda>h.
               Inr (c[j := s\<lparr>host_of := h, listening := l\<rparr>]))))
        else Some (Inr (c[j := s\<lparr>listening := l\<rparr>]))
      else None)"
| "process_step (StopNode i) c =
     (if i < length c \<and> up (c ! i) then Some (Inr (c[i := station_stop (c ! i)])) else None)"
| "process_step (KillNode i) c =
     (if i < length c then Some (Inr (c[i := (c ! i)\<lparr>up := False\<rparr>])) else None)"

fun process_run :: "'f::linordered_idom process_act list \<Rightarrow> 'f station list \<Rightarrow> 'f station list py option" where
  "process_run [] c = Some (Inr c)"
| "process_run (a # as) c =
     (case process_step a c of
        None \<Rightarrow> None
      | Some (Inl e) \<Rightarrow> Some (Inl e)
      | Some (Inr c') \<Rightarrow> process_run as c')"

end
