(* ===== verification/NodeRefinement.thy ===== *)
theory NodeRefinement
  imports NodeProcesses
begin

text \<open>
  The cluster of \<open>NameServer.thy\<close>, where a message goes from the buffer of a node to its subscribers
  in one step, is what the nodes do with their talkers and listeners (\<open>NodeProcesses.thy\<close>): every run
  of the processes is a run of the cluster. A message is published when it enters the pipe of the
  talker. Who misses it is only known when the talker sends it, so the fates of the messages in the
  pipes are read off the rest of the run: the relation of the two states has them as an argument,
  and a step takes the fates after it to those before it.
\<close>

section \<open>The relation\<close>

text \<open>The messages of a pipe that reach \<open>j\<close>, given for each who will miss it.\<close>

definition fated :: "nat \<Rightarrow> ('m \<times> nat list) list \<Rightarrow> 'm list" where
  "fated j xs = map fst (filter (\<lambda>(m, drops). j \<notin> set drops) xs)"

lemma fated_simps [simp]:
  "fated j [] = []" "fated j ((m, drops) # xs) = (if j \<in> set drops then fated j xs else m # fated j xs)"
  "fated j (xs @ ys) = fated j xs @ fated j ys"
  by (simp_all add: fated_def)

definition in_flight :: "(nat \<Rightarrow> nat list list) \<Rightarrow> 'f station list \<Rightarrow> nat \<Rightarrow> 'f registry dict list list" where
  "in_flight ds s j =
     map (\<lambda>i. incoming (host_of (s ! j)) ! i @ fated j (zip (pipe (talking (s ! i))) (ds i))) [0..<length s]"

definition fates_ok :: "(nat \<Rightarrow> nat list list) \<Rightarrow> 'f station list \<Rightarrow> bool" where
  "fates_ok ds s \<longleftrightarrow> (\<forall>i < length s. length (ds i) = length (pipe (talking (s ! i))))"

text \<open>A host as the cluster sees it: its thread may not know yet that it shall end.\<close>

definition seen_as :: "bool \<Rightarrow> 'f registry dict list list \<Rightarrow> 'f host \<Rightarrow> 'f host" where
  "seen_as b inc h = h\<lparr>node := (node h)\<lparr>terminate := b\<rparr>, incoming := inc\<rparr>"

definition refines :: "(nat \<Rightarrow> nat list list) \<Rightarrow> 'f station list \<Rightarrow> 'f cluster \<Rightarrow> bool" where
  "refines ds s c \<longleftrightarrow> length c = length s \<and> fates_ok ds s \<and>
     (\<forall>j < length s. length (incoming (host_of (s ! j))) = length s \<and>
        (\<exists>b. (b \<longrightarrow> terminate (node (host_of (s ! j)))) \<and> c ! j = seen_as b (in_flight ds s j) (host_of (s ! j))))"

lemma length_in_flight [simp]: "length (in_flight ds s j) = length s"
  by (simp add: in_flight_def)

lemma seen_as_simps [simp]:
  "incoming (seen_as b inc h) = inc" "heap (seen_as b inc h) = heap h" "talker (node (seen_as b inc h)) = talker (node h)"
  "my_id (node (seen_as b inc h)) = my_id (node h)" "seen_as b inc (h\<lparr>incoming := inc'\<rparr>) = seen_as b inc h"
  "(seen_as b inc h)\<lparr>incoming := inc'\<rparr> = seen_as b inc' h"
  by (simp_all add: seen_as_def)

section \<open>A node's own steps\<close>

fun act_fun :: "'f::linordered_idom act \<Rightarrow> 'f host \<Rightarrow> 'f host py" where
  "act_fun (Turn i t0 t1) = host_turn t0 t1"
| "act_fun (Http i now req) = (\<lambda>h. Inr (snd (http now req h)))"
| "act_fun (HttpRequest i data) = (\<lambda>h. Inr (snd (request_endpoint data h)))"
| "act_fun (MonitorPass i now) = (\<lambda>h. Inr (monitor_clients now h))"
| "act_fun (PauseNode i) = (\<lambda>h. Inr (h\<lparr>node := pause (node h)\<rparr>))"
| "act_fun (UnPauseNode i) = (\<lambda>h. Inr (h\<lparr>node := un_pause (node h)\<rparr>))"
| "act_fun (Publish i drops) = Inr"
| "act_fun (Deliver i j) = Inr"

lemma node_act_at: "act_node a = Some i \<Longrightarrow> cluster_act a c = at_host i (act_fun a) c"
  by (cases a) auto

lemmas node_views = seen_as_def check_committed_entry_def check_role_def client_request_def pause_def un_pause_def
  set_current_role_def

lemma on_registry_seen:
  "snd (on_registry now req (seen_as b inc h)) = seen_as b inc (snd (on_registry now req h))"
  "incoming (snd (on_registry now req h)) = incoming h"
  "terminate (node (snd (on_registry now req h))) = terminate (node h)"
  by (auto simp: on_registry_def node_views split: sum.splits prod.splits)

lemma host_turn_seen:
  assumes "terminate (node h) = b"
  shows "host_turn t0 t1 (seen_as b inc h) = bindE (host_turn t0 t1 h) (\<lambda>h'. Inr (h'\<lparr>incoming := inc\<rparr>))"
proof -
  have "(node h)\<lparr>terminate := b\<rparr> = node h" using assms by simp
  then show ?thesis
    by (cases "raft_turn (length (heap h)) t0 t1 (node h)") (simp_all add: host_turn_def seen_as_def)
qed

lemma host_turn_incoming: "host_turn t0 t1 h = Inr h' \<Longrightarrow> incoming h' = incoming h"
  by (cases "raft_turn (length (heap h)) t0 t1 (node h)") (auto simp: host_turn_def)

lemma act_fun_seen:
  assumes "act_node a = Some i" "b \<longrightarrow> terminate (node h)" "case a of Turn _ _ _ \<Rightarrow> \<not> terminate (node h) | _ \<Rightarrow> True"
  shows "case act_fun a h of
     Inl e \<Rightarrow> act_fun a (seen_as b inc h) = Inl e
   | Inr h' \<Rightarrow> incoming h' = incoming h \<and>
       (\<exists>b'. (b' \<longrightarrow> terminate (node h')) \<and> act_fun a (seen_as b inc h) = Inr (seen_as b' inc h'))"
proof (cases a)
  case (Turn i t0 t1)
  then have b: "terminate (node h) = b" "\<not> b" using assms(2,3) by auto
  show ?thesis
  proof (cases "host_turn t0 t1 h")
    case (Inr h')
    have "h'\<lparr>incoming := inc\<rparr> = seen_as (terminate (node h')) inc h'" by (simp add: seen_as_def)
    with Inr show ?thesis
      using host_turn_seen [OF b(1), of t0 t1 inc] host_turn_incoming [OF Inr] by (auto simp: Turn)
  qed (use host_turn_seen [OF b(1), of t0 t1 inc] in \<open>simp add: Turn\<close>)
next
  case (Http i now req)
  then show ?thesis
    using assms(2) on_registry_seen [of now req] by (auto simp: http_def)
next
  case (MonitorPass i now)
  have "monitor_clients now (seen_as b inc h) = seen_as b inc (monitor_clients now h)"
    "incoming (monitor_clients now h) = incoming h" "terminate (node (monitor_clients now h)) = terminate (node h)"
    using on_registry_seen [of now Monitor]
    by (auto simp: monitor_clients_def check_committed_entry_def check_role_def seen_as_def split: sum.splits)
  with assms(2) show ?thesis by (auto simp: MonitorPass)
next
  case (HttpRequest i data)
  have "snd (request_endpoint data (seen_as b inc h)) = seen_as b inc (snd (request_endpoint data h))"
    "incoming (snd (request_endpoint data h)) = incoming h"
    "terminate (node (snd (request_endpoint data h))) = terminate (node h)"
    by (simp_all add: request_endpoint_def node_views)
  with assms(2) show ?thesis by (auto simp: HttpRequest)
next
  case (PauseNode i)
  have "(seen_as b inc h)\<lparr>node := pause (node (seen_as b inc h))\<rparr> = seen_as b inc (h\<lparr>node := pause (node h)\<rparr>)"
    "terminate (pause (node h)) = terminate (node h)"
    by (simp_all add: node_views)
  with assms(2) show ?thesis by (auto simp: PauseNode)
next
  case (UnPauseNode i)
  have "(seen_as b inc h)\<lparr>node := un_pause (node (seen_as b inc h))\<rparr> = seen_as b inc (h\<lparr>node := un_pause (node h)\<rparr>)"
    "terminate (un_pause (node h)) = terminate (node h)"
    by (simp_all add: node_views)
  with assms(2) show ?thesis by (auto simp: UnPauseNode)
qed (use assms(1) in simp_all)

lemma host_receive_seen:
  "host_receive m (seen_as b inc h) = bindE (host_receive m h) (\<lambda>h'. Inr (seen_as b inc h'))"
  by (cases "bindE (getitem m ''receiver'') opt_str"; cases "import_items m (heap h)")
    (simp_all add: host_receive_def seen_as_def)

lemma host_receive_same:
  "host_receive m h = Inr h' \<Longrightarrow> incoming h' = incoming h \<and> terminate (node h') = terminate (node h)"
  by (cases "bindE (getitem m ''receiver'') opt_str"; cases "import_items m (heap h)")
    (auto simp: host_receive_def split: if_splits)

lemma refinesI:
  assumes "length c = length s" "fates_ok ds s"
    and "\<And>j. j < length s \<Longrightarrow> length (incoming (host_of (s ! j))) = length s"
    and "\<And>j. j < length s \<Longrightarrow>
      \<exists>b. (b \<longrightarrow> terminate (node (host_of (s ! j)))) \<and> c ! j = seen_as b (in_flight ds s j) (host_of (s ! j))"
  shows "refines ds s c"
  using assms by (simp add: refines_def)

lemma refinesD:
  assumes "refines ds s c"
  shows "length c = length s" "fates_ok ds s"
    "j < length s \<Longrightarrow> length (incoming (host_of (s ! j))) = length s"
    "j < length s \<Longrightarrow>
      \<exists>b. (b \<longrightarrow> terminate (node (host_of (s ! j)))) \<and> c ! j = seen_as b (in_flight ds s j) (host_of (s ! j))"
  using assms by (simp_all add: refines_def)

text \<open>States that agree but for the queues of a node and its processes are refined alike.\<close>

lemma in_flight_cong:
  assumes "length s' = length s" "incoming (host_of (s' ! j)) = incoming (host_of (s ! j))"
    and "\<And>i. i < length s \<Longrightarrow> pipe (talking (s' ! i)) = pipe (talking (s ! i))"
  shows "in_flight ds s' j = in_flight ds s j"
  using assms by (simp add: in_flight_def)

lemma refines_update:
  assumes "refines ds s c" "i < length s" "pipe (talking x) = pipe (talking (s ! i))"
    and "incoming (host_of x) = incoming (host_of (s ! i))"
    and "\<exists>b. (b \<longrightarrow> terminate (node (host_of x))) \<and> h = seen_as b (in_flight ds s i) (host_of x)"
  shows "refines ds (s[i := x]) (c[i := h])"
proof (rule refinesI)
  have p: "pipe (talking (s[i := x] ! k)) = pipe (talking (s ! k))" if "k < length s" for k
    using assms(2,3) that by (cases "k = i") simp_all
  then have f: "in_flight ds (s[i := x]) j = in_flight ds s j" if "j < length s" for j
    using assms(2,4) that by (intro in_flight_cong) (cases "j = i"; simp)+
  show "fates_ok ds (s[i := x])" using refinesD(2) [OF assms(1)] p by (simp add: fates_ok_def)
  fix j assume j: "j < length (s[i := x])"
  then show "length (incoming (host_of (s[i := x] ! j))) = length (s[i := x])"
    using refinesD(3) [OF assms(1), of j] refinesD(3) [OF assms(1,2)] assms(2,4) by (cases "j = i") simp_all
  show "\<exists>b. (b \<longrightarrow> terminate (node (host_of (s[i := x] ! j)))) \<and>
      c[i := h] ! j = seen_as b (in_flight ds (s[i := x]) j) (host_of (s[i := x] ! j))"
    using j assms(2,5) refinesD(1) [OF assms(1)] refinesD(4) [OF assms(1), of j] f by (cases "j = i") simp_all
qed (use refinesD(1) [OF assms(1)] in simp)

lemma node_step:
  assumes "process_step (NodeAct a) s = Some r"
  obtains i where "act_node a = Some i" "i < length s"
    "case a of Turn _ _ _ \<Rightarrow> \<not> terminate (node (host_of (s ! i))) | _ \<Rightarrow> True"
    "r = bindE (act_fun a (host_of (s ! i))) (\<lambda>h'. Inr (s[i := (s ! i)\<lparr>host_of := h'\<rparr>]))"
proof -
  have may: "node_may a s" using assms by (simp split: if_splits)
  then obtain i where i: "act_node a = Some i" "i < length s"
      "case a of Turn _ _ _ \<Rightarrow> \<not> terminate (node (host_of (s ! i))) | _ \<Rightarrow> True"
    by (auto simp: node_may_def split: option.splits)
  have w: "with_hosts s ((map host_of s)[i := h']) = s[i := (s ! i)\<lparr>host_of := h'\<rparr>]" for h'
  proof (rule nth_equalityI)
    fix k assume "k < length (with_hosts s ((map host_of s)[i := h']))"
    then show "with_hosts s ((map host_of s)[i := h']) ! k = s[i := (s ! i)\<lparr>host_of := h'\<rparr>] ! k"
      by (cases "k = i") (simp_all add: with_hosts_def)
  qed (simp add: with_hosts_def)
  have "r = bindE (act_fun a (host_of (s ! i))) (\<lambda>h'. Inr (s[i := (s ! i)\<lparr>host_of := h'\<rparr>]))"
    using assms may i(2) by (cases "act_fun a (host_of (s ! i))") (auto simp: node_act_at [OF i(1)] at_host_def w)
  with i that show thesis by blast
qed

lemma node_act_refines:
  assumes "refines ds s c" "process_step (NodeAct a) s = Some r"
  shows "case r of
     Inl e \<Rightarrow> cluster_act a c = Some (Inl e)
   | Inr s' \<Rightarrow> \<exists>c'. cluster_act a c = Some (Inr c') \<and> refines ds s' c'"
proof -
  obtain i where i: "act_node a = Some i" "i < length s"
      "case a of Turn _ _ _ \<Rightarrow> \<not> terminate (node (host_of (s ! i))) | _ \<Rightarrow> True"
      "r = bindE (act_fun a (host_of (s ! i))) (\<lambda>h'. Inr (s[i := (s ! i)\<lparr>host_of := h'\<rparr>]))"
    by (rule node_step [OF assms(2)])
  note at = node_act_at [OF i(1)]
  let ?h = "host_of (s ! i)"
  obtain b where b: "b \<longrightarrow> terminate (node ?h)" "c ! i = seen_as b (in_flight ds s i) ?h"
    using refinesD(4) [OF assms(1) i(2)] by blast
  note seen = act_fun_seen [OF i(1) b(1) i(3), where inc = "in_flight ds s i"]
  show ?thesis
  proof (cases "act_fun a ?h")
    case (Inl e)
    with seen b(2) i(2,4) refinesD(1) [OF assms(1)] show ?thesis by (simp add: at at_host_def)
  next
    case (Inr h')
    obtain b' where b': "b' \<longrightarrow> terminate (node h')" "act_fun a (c ! i) = Inr (seen_as b' (in_flight ds s i) h')"
      and inc: "incoming h' = incoming ?h"
      using seen b(2) Inr by auto
    have "refines ds (s[i := (s ! i)\<lparr>host_of := h'\<rparr>]) (c[i := seen_as b' (in_flight ds s i) h'])"
      by (rule refines_update [OF assms(1) i(2)]) (use b'(1) inc in auto)
    with b'(2) i(2,4) refinesD(1) [OF assms(1)] Inr show ?thesis by (simp add: at at_host_def)
  qed
qed

section \<open>Steps of the processes\<close>

lemma feed_refines:
  assumes "process_step (Feed i) s = Some (Inr s')" "fates_ok ds' s'"
  defines "ds \<equiv> ds'(i := butlast (ds' i))"
  shows "fates_ok ds s \<and>
    (\<forall>c. refines ds s c \<longrightarrow> (\<exists>c'. cluster_act (Publish i (last (ds' i))) c = Some (Inr c') \<and> refines ds' s' c'))"
proof -
  have i: "i < length s" using assms(1) by (simp split: if_splits)
  let ?h = "host_of (s ! i)"
  obtain d q where t: "talker (node ?h) = d # q"
    using assms(1) by (auto simp: Let_def split: if_splits list.splits)
  define m where "m = export_dict (heap ?h) d"
  define x where "x = (s ! i)\<lparr>host_of := ?h\<lparr>node := (node ?h)\<lparr>talker := q\<rparr>\<rparr>, talking := talker_put m (talking (s ! i))\<rparr>"
  have s': "s' = s[i := x]"
    using assms(1) t by (simp add: Let_def x_def m_def split: if_splits)
  have pipes: "pipe (talking (s' ! k)) = pipe (talking (s ! k)) @ (if k = i then [m] else [])" if "k < length s" for k
    using that i by (cases "k = i") (simp_all add: s' x_def talker_put_def)
  have last: "ds' i = ds i @ [last (ds' i)]" "length (ds i) = length (pipe (talking (s ! i)))"
    using assms(2) i pipes [OF i] by (cases "ds' i" rule: rev_cases; force simp: ds_def fates_ok_def s')+
  have fates: "fates_ok ds s"
    using assms(2) pipes last by (auto simp: fates_ok_def ds_def s' split: if_splits)
  have fly: "in_flight ds' s' j = (in_flight ds s j)[i := in_flight ds s j ! i @ (if j \<in> set (last (ds' i)) then [] else [m])]"
    if j: "j < length s" for j
  proof (rule nth_equalityI)
    fix k assume "k < length (in_flight ds' s' j)"
    then have k: "k < length s" by (simp add: s')
    have inc: "incoming (host_of (s' ! j)) = incoming (host_of (s ! j))"
      using j i by (cases "j = i") (simp_all add: s' x_def)
    show "in_flight ds' s' j ! k
        = (in_flight ds s j)[i := in_flight ds s j ! i @ (if j \<in> set (last (ds' i)) then [] else [m])] ! k"
    proof (cases "k = i")
      case True
      have "zip (pipe (talking (s' ! i))) (ds i @ [last (ds' i)]) = zip (pipe (talking (s ! i))) (ds i) @ [(m, last (ds' i))]"
        using last(2) pipes [OF i] by simp
      from this [folded last(1)] True i inc show ?thesis
        by (simp add: in_flight_def s')
    next
      case False
      with k inc pipes [OF k] show ?thesis by (simp add: in_flight_def s' ds_def)
    qed
  qed (simp add: s')
  have "\<exists>c'. cluster_act (Publish i (last (ds' i))) c = Some (Inr c') \<and> refines ds' s' c'" if r: "refines ds s c" for c
  proof -
    note c = refinesD [OF r]
    obtain b where b: "b \<longrightarrow> terminate (node ?h)" "c ! i = seen_as b (in_flight ds s i) ?h"
      using c(4) [OF i] by blast
    define c' where "c' = publish_to i m (last (ds' i)) (c[i := (c ! i)\<lparr>node := (node (c ! i))\<lparr>talker := q\<rparr>\<rparr>])"
    have "cluster_act (Publish i (last (ds' i))) c = Some (Inr c')"
      using i c(1) t by (simp add: b(2) c'_def m_def Let_def)
    moreover have "refines ds' s' c'"
    proof (rule refinesI)
      fix j assume "j < length s'"
      then have j: "j < length s" by (simp add: s')
      show "length (incoming (host_of (s' ! j))) = length s'"
        using j c(3) [OF j] c(3) [OF i] i by (cases "j = i") (simp_all add: s' x_def)
      obtain e where e: "e \<longrightarrow> terminate (node (host_of (s ! j)))" "c ! j = seen_as e (in_flight ds s j) (host_of (s ! j))"
        using c(4) [OF j] by blast
      have "c' ! j = seen_as e (in_flight ds' s' j) (host_of (s' ! j))"
        using j i c(1) e(2) fly [OF j]
        by (cases "j = i") (auto simp: c'_def publish_to_def nth_enumerate_eq put_incoming_def seen_as_def s' x_def)
      moreover have "terminate (node (host_of (s' ! j))) = terminate (node (host_of (s ! j)))"
        using j i by (cases "j = i") (simp_all add: s' x_def)
      ultimately show "\<exists>b. (b \<longrightarrow> terminate (node (host_of (s' ! j)))) \<and> c' ! j = seen_as b (in_flight ds' s' j) (host_of (s' ! j))"
        using e(1) by blast
    qed (use c(1) assms(2) in \<open>simp_all add: c'_def publish_to_def s'\<close>)
    ultimately show ?thesis by blast
  qed
  with fates show ?thesis by blast
qed

lemma talker_turn_pipe:
  "talker_turn w t = (None, t') \<Longrightarrow> pipe t' = pipe t"
  "talker_turn w t = (Some m, t') \<Longrightarrow> pipe t = m # pipe t'"
  by (auto simp: talker_turn_def split: talker_pc.splits wake.splits if_splits list.splits)

lemma talker_turn_refines:
  assumes "process_step (TalkerTurn i w drops) s = Some (Inr s')" "fates_ok ds' s'"
  shows "\<exists>ds. fates_ok ds s \<and> (\<forall>c. refines ds s c \<longrightarrow> refines ds' s' c)"
proof -
  have i: "i < length s" using assms(1) by (simp split: if_splits)
  obtain out t where o: "talker_turn w (talking (s ! i)) = (out, t)" by fastforce
  let ?s1 = "s[i := (s ! i)\<lparr>talking := t\<rparr>]"
  show ?thesis
  proof (cases out)
    case None
    then have s': "s' = ?s1" using assms(1) i o by (simp add: Let_def)
    have p: "pipe t = pipe (talking (s ! i))" using talker_turn_pipe(1) o None by auto
    have "refines ds' s' c" if "refines ds' s c" for c
      using refines_update [OF that i, of "(s ! i)\<lparr>talking := t\<rparr>" "c ! i"] p refinesD(4) [OF that i] s' by simp
    moreover have "fates_ok ds' s" using assms(2) p i by (auto simp: s' fates_ok_def nth_list_update split: if_splits)
    ultimately show ?thesis by blast
  next
    case (Some m)
    let ?a = "my_id (node (host_of (s ! i)))"
    let ?missed = "\<lambda>j. j \<in> set drops \<or> ?a \<notin> set (subscribed (listening (?s1 ! j)))"
    have s': "s' = send_json i ?a m drops ?s1" using assms(1) i o Some by (simp add: Let_def)
    have p: "pipe (talking (s ! i)) = m # pipe t" using talker_turn_pipe(2) o Some by auto
    define ds where "ds = ds'(i := filter ?missed [0..<length s] # ds' i)"
    have at: "s' ! j = (if ?missed j then ?s1 ! j else (?s1 ! j)\<lparr>host_of := put_incoming i m (host_of (?s1 ! j))\<rparr>)"
      if "j < length s" for j
      using that by (simp add: s' send_json_def nth_enumerate_eq)
    have hosts: "host_of (?s1 ! j) = host_of (s ! j)" for j using i by (cases "j = i") simp_all
    have len: "length s' = length s" by (simp add: s' send_json_def)
    have pipes: "pipe (talking (s' ! k)) = (if k = i then pipe t else pipe (talking (s ! k)))" if "k < length s" for k
      using that at i by (cases "k = i") simp_all
    have fates: "fates_ok ds s"
      using assms(2) p pipes by (auto simp: fates_ok_def ds_def len split: if_splits)
    have "refines ds' s' c" if r: "refines ds s c" for c
    proof (rule refinesI)
      fix j assume "j < length s'"
      then have j: "j < length s" by (simp add: len)
      note inc = refinesD(3) [OF r j]
      show "length (incoming (host_of (s' ! j))) = length s'"
        using inc at [OF j] by (simp add: hosts len put_incoming_def)
      have fly: "in_flight ds' s' j = in_flight ds s j"
      proof (rule nth_equalityI)
        fix k assume "k < length (in_flight ds' s' j)"
        then have k: "k < length s" by (simp add: len)
        show "in_flight ds' s' j ! k = in_flight ds s j ! k"
          using at [OF j] j k i inc pipes [OF k] p
          by (cases "k = i") (auto simp: in_flight_def len hosts ds_def put_incoming_def)
      qed (simp add: len)
      have "seen_as b inc (host_of (s' ! j)) = seen_as b inc (host_of (s ! j))" for b inc
        using at [OF j] by (simp add: hosts put_incoming_def)
      moreover have "terminate (node (host_of (s' ! j))) = terminate (node (host_of (s ! j)))"
        using at [OF j] by (simp add: hosts put_incoming_def)
      ultimately show "\<exists>b. (b \<longrightarrow> terminate (node (host_of (s' ! j)))) \<and> c ! j = seen_as b (in_flight ds' s' j) (host_of (s' ! j))"
        using refinesD(4) [OF r j] by (simp add: fly)
    qed (use refinesD(1) [OF r] assms(2) in \<open>simp_all add: len\<close>)
    with fates show ?thesis by blast
  qed
qed

lemma listener_receive_refines:
  assumes "refines ds s c" "i < length s" "j < length s" "incoming (host_of (s ! j)) ! i = m # ms"
  defines "h \<equiv> (host_of (s ! j))\<lparr>incoming := (incoming (host_of (s ! j)))[i := ms]\<rparr>"
  shows "case host_receive m h of
     Inl e \<Rightarrow> cluster_act (Deliver i j) c = Some (Inl e)
   | Inr h' \<Rightarrow> \<exists>c'. cluster_act (Deliver i j) c = Some (Inr c') \<and>
       refines ds (s[j := (s ! j)\<lparr>host_of := h', listening := l\<rparr>]) c'"
proof -
  note c = refinesD [OF assms(1)]
  obtain b0 where b: "b0 \<longrightarrow> terminate (node (host_of (s ! j)))" "c ! j = seen_as b0 (in_flight ds s j) (host_of (s ! j))"
    using c(4) [OF assms(3)] by blast
  define q where "q = ms @ fated j (zip (pipe (talking (s ! i))) (ds i))"
  have head: "in_flight ds s j ! i = m # q" using assms(2,4) by (simp add: in_flight_def q_def)
  have act: "cluster_act (Deliver i j) c
      = Some (bindE (host_receive m h) (\<lambda>h'. Inr (c[j := seen_as b0 ((in_flight ds s j)[i := q]) h'])))"
    using assms(2,3) c(1) b(2) head host_receive_seen [of m b0 "(in_flight ds s j)[i := q]" h]
    by (cases "host_receive m h") (simp_all add: at_host_def h_def)
  show ?thesis
  proof (cases "host_receive m h")
    case (Inr h')
    let ?x = "(s ! j)\<lparr>host_of := h', listening := l\<rparr>"
    have h': "incoming h' = (incoming (host_of (s ! j)))[i := ms]" "terminate (node h') = terminate (node (host_of (s ! j)))"
      using host_receive_same [OF Inr] by (simp_all add: h_def)
    have p: "pipe (talking (s[j := ?x] ! k)) = pipe (talking (s ! k))" if "k < length s" for k
      using that assms(3) by (cases "k = j") simp_all
    have fly: "in_flight ds (s[j := ?x]) k = (if k = j then (in_flight ds s j)[i := q] else in_flight ds s k)"
      if "k < length s" for k
    proof (cases "k = j")
      case True
      have "in_flight ds (s[j := ?x]) j ! n = (in_flight ds s j)[i := q] ! n" if "n < length s" for n
        using that assms(2,3) p [OF that] h'(1) c(3) [OF assms(3)] by (cases "n = i") (simp_all add: in_flight_def q_def)
      with True show ?thesis by (auto intro!: nth_equalityI)
    next
      case False
      then show ?thesis using p that by (auto intro!: in_flight_cong)
    qed
    have "refines ds (s[j := ?x]) (c[j := seen_as b0 ((in_flight ds s j)[i := q]) h'])"
    proof (rule refinesI)
      show "fates_ok ds (s[j := ?x])" using c(2) p by (simp add: fates_ok_def)
      fix k assume "k < length (s[j := ?x])"
      then have k: "k < length s" by simp
      show "length (incoming (host_of (s[j := ?x] ! k))) = length (s[j := ?x])"
        using c(3) [OF k] c(3) [OF assms(3)] h'(1) k by (cases "k = j") simp_all
      show "\<exists>b. (b \<longrightarrow> terminate (node (host_of (s[j := ?x] ! k)))) \<and>
          c[j := seen_as b0 ((in_flight ds s j)[i := q]) h'] ! k = seen_as b (in_flight ds (s[j := ?x]) k) (host_of (s[j := ?x] ! k))"
      proof (cases "k = j")
        case True
        with k c(1) b(1) h'(2) fly [OF k] show ?thesis by (intro exI [of _ b0]) simp
      next
        case False
        with k c(1) c(4) [OF k] fly [OF k] show ?thesis by simp
      qed
    qed (use c(1) in simp)
    with act Inr show ?thesis by simp
  qed (use act in simp)
qed

section \<open>Runs\<close>

fun node_acts :: "'f process_act list \<Rightarrow> 'f act list" where
  "node_acts [] = []"
| "node_acts (NodeAct a # as) = a # node_acts as"
| "node_acts (_ # as) = node_acts as"

fun process_act_ok :: "'f process_act \<Rightarrow> bool" where
  "process_act_ok (NodeAct a) = act_ok a"
| "process_act_ok _ = True"

definition own_acts :: "'f act list \<Rightarrow> 'f act list" where
  "own_acts = filter (\<lambda>a. act_node a \<noteq> None)"

lemma own_acts_simps [simp]:
  "own_acts [] = []" "own_acts (as @ bs) = own_acts as @ own_acts bs"
  "own_acts (Publish i d # as) = own_acts as" "own_acts (Deliver i j # as) = own_acts as"
  "act_node a = Some i \<Longrightarrow> own_acts (a # as) = a # own_acts as"
  by (simp_all add: own_acts_def)

text \<open>A step of the processes: none, one or a whole list of steps of the cluster.\<close>

definition step_implemented ::
  "'f::linordered_idom process_act \<Rightarrow> (nat \<Rightarrow> nat list list) \<Rightarrow> 'f station list \<Rightarrow>
   (nat \<Rightarrow> nat list list) \<Rightarrow> 'f station list \<Rightarrow> bool" where
  "step_implemented a ds s ds' s' \<longleftrightarrow> (\<forall>c. refines ds s c \<longrightarrow> (\<exists>as c'. cluster_run as c = Some (Inr c') \<and>
     refines ds' s' c' \<and> own_acts as = node_acts [a] \<and> (process_act_ok a \<longrightarrow> list_all act_ok as)))"

lemma step_implemented_silent:
  "(\<And>c. refines ds s c \<Longrightarrow> refines ds' s' c) \<Longrightarrow> node_acts [a] = [] \<Longrightarrow> step_implemented a ds s ds' s'"
  by (force simp: step_implemented_def intro: exI [of _ "[]"])

lemma step_implemented_one:
  "(\<And>c. refines ds s c \<Longrightarrow> \<exists>c'. cluster_act x c = Some (Inr c') \<and> refines ds' s' c') \<Longrightarrow>
   own_acts [x] = node_acts [a] \<Longrightarrow> process_act_ok a \<longrightarrow> act_ok x \<Longrightarrow> step_implemented a ds s ds' s'"
  by (fastforce simp: step_implemented_def intro: exI [of _ "[x]"])

lemma refines_same_state:
  assumes "refines ds s c" "i < length s" "pipe (talking x) = pipe (talking (s ! i))"
    and "host_of x = host_of (s ! i) \<or> host_of x = (host_of (s ! i))\<lparr>node := raft_stop (node (host_of (s ! i)))\<rparr>"
  shows "refines ds (s[i := x]) c"
proof -
  obtain b where b: "b \<longrightarrow> terminate (node (host_of (s ! i)))" "c ! i = seen_as b (in_flight ds s i) (host_of (s ! i))"
    using refinesD(4) [OF assms(1,2)] by blast
  have "(b \<longrightarrow> terminate (node (host_of x))) \<and> c ! i = seen_as b (in_flight ds s i) (host_of x)"
    using assms(4) b by (auto simp: seen_as_def raft_stop_def)
  moreover have "incoming (host_of x) = incoming (host_of (s ! i))" using assms(4) by auto
  ultimately have "refines ds (s[i := x]) (c[i := c ! i])"
    by (intro refines_update [OF assms(1-3)]) blast+
  then show ?thesis by simp
qed

lemma fates_update:
  "pipe (talking x) = pipe (talking (s ! i)) \<Longrightarrow> fates_ok ds (s[i := x]) = fates_ok ds s"
  by (cases "i < length s") (auto simp: fates_ok_def nth_list_update)

lemma process_step_refines:
  assumes "process_step a s = Some (Inr s')" "fates_ok ds' s'"
  shows "\<exists>ds. fates_ok ds s \<and> step_implemented a ds s ds' s'"
proof (cases a)
  case (NodeAct x)
  obtain i where i: "act_node x = Some i" "i < length s"
      "Inr s' = bindE (act_fun x (host_of (s ! i))) (\<lambda>h'. Inr (s[i := (s ! i)\<lparr>host_of := h'\<rparr>]))"
    by (rule node_step [OF assms(1) [unfolded NodeAct]])
  then obtain h' where s': "s' = s[i := (s ! i)\<lparr>host_of := h'\<rparr>]" by (cases "act_fun x (host_of (s ! i))") auto
  have "step_implemented a ds' s ds' s'"
    using node_act_refines [OF _ assms(1) [unfolded NodeAct], of ds'] i(1)
    by (intro step_implemented_one [of _ _ x]) (auto simp: NodeAct)
  moreover have "fates_ok ds' s" using assms(2) by (simp add: s' fates_update)
  ultimately show ?thesis by blast
next
  case (Feed i)
  let ?ds = "ds'(i := butlast (ds' i))"
  note f = feed_refines [OF assms(1) [unfolded Feed] assms(2)]
  have "step_implemented a ?ds s ds' s'"
    using f by (intro step_implemented_one [of _ _ "Publish i (last (ds' i))"]) (auto simp: Feed)
  with f show ?thesis by blast
next
  case (TalkerTurn i w drops)
  then show ?thesis
    using talker_turn_refines [OF assms(1) [unfolded TalkerTurn] assms(2)]
    by (auto intro!: step_implemented_silent)
next
  case (ListenerTurn j w i)
  obtain readable l where l: "listener_turn w (listening (s ! j)) = (readable, l)" by fastforce
  have ij: "i < length s" "j < length s" using assms(1) by (auto simp: ListenerTurn split: if_splits)
  show ?thesis
  proof (cases readable)
    case True
    let ?h = "host_of (s ! j)"
    obtain m ms where m: "incoming ?h ! i = m # ms"
      using assms(1) l True ij by (auto simp: ListenerTurn Let_def split: list.splits)
    let ?h1 = "?h\<lparr>incoming := (incoming ?h)[i := ms]\<rparr>"
    obtain h' where h': "host_receive m ?h1 = Inr h'" "s' = s[j := (s ! j)\<lparr>host_of := h', listening := l\<rparr>]"
      using assms(1) l True ij m by (cases "host_receive m ?h1") (auto simp: ListenerTurn Let_def)
    have "step_implemented a ds' s ds' s'"
      using listener_receive_refines [OF _ ij m, of ds' _ l] h'
      by (intro step_implemented_one [of _ _ "Deliver i j"]) (auto simp: ListenerTurn)
    moreover have "fates_ok ds' s" using assms(2) by (simp add: h'(2) fates_update)
    ultimately show ?thesis by blast
  next
    case False
    then have s': "s' = s[j := (s ! j)\<lparr>listening := l\<rparr>]" using assms(1) l ij by (simp add: ListenerTurn Let_def)
    have "step_implemented a ds' s ds' s'"
      by (rule step_implemented_silent) (auto simp: ListenerTurn s' intro!: refines_same_state ij)
    moreover have "fates_ok ds' s" using assms(2) by (simp add: s' fates_update)
    ultimately show ?thesis by blast
  qed
next
  case (StopNode i)
  then have i: "i < length s" "s' = s[i := station_stop (s ! i)]" using assms(1) by (auto split: if_splits)
  have "step_implemented a ds' s ds' s'"
    by (rule step_implemented_silent) (auto simp: StopNode i station_stop_def talker_stop_def intro!: refines_same_state)
  moreover have "fates_ok ds' s" using assms(2) by (simp add: i(2) fates_update station_stop_def talker_stop_def)
  ultimately show ?thesis by blast
next
  case (KillNode i)
  then have i: "i < length s" "s' = s[i := (s ! i)\<lparr>up := False\<rparr>]" using assms(1) by (auto split: if_splits)
  have "step_implemented a ds' s ds' s'"
    by (rule step_implemented_silent) (auto simp: KillNode i intro!: refines_same_state)
  moreover have "fates_ok ds' s" using assms(2) by (simp add: i(2) fates_update)
  ultimately show ?thesis by blast
qed

lemma process_step_raises:
  assumes "process_step a s = Some (Inl e)" "refines ds s c"
  shows "\<exists>x. cluster_act x c = Some (Inl e) \<and> (process_act_ok a \<longrightarrow> act_ok x)"
proof (cases a)
  case (NodeAct x)
  then show ?thesis using node_act_refines [OF assms(2)] assms(1) by (intro exI [of _ x]) fastforce
next
  case (ListenerTurn j w i)
  obtain readable l where l: "listener_turn w (listening (s ! j)) = (readable, l)" by fastforce
  have ij: "i < length s" "j < length s" using assms(1) by (auto simp: ListenerTurn split: if_splits)
  let ?h = "host_of (s ! j)"
  obtain m ms where m: "incoming ?h ! i = m # ms"
    using assms(1) l ij by (auto simp: ListenerTurn Let_def split: list.splits if_splits)
  have "host_receive m (?h\<lparr>incoming := (incoming ?h)[i := ms]\<rparr>) = Inl e"
    using assms(1) l ij m
    by (cases "host_receive m (?h\<lparr>incoming := (incoming ?h)[i := ms]\<rparr>)") (auto simp: ListenerTurn Let_def split: if_splits)
  then show ?thesis
    using listener_receive_refines [OF assms(2) ij m, of l] by (intro exI [of _ "Deliver i j"]) simp
qed (use assms(1) in \<open>auto simp: Let_def split: if_splits list.splits prod.splits\<close>)

lemma own_acts_step: "node_acts (a # as) = node_acts [a] @ node_acts as"
  by (cases a) simp_all

lemma process_run_refines:
  assumes "process_run acts s = Some r"
  shows "\<exists>ds. fates_ok ds s \<and> (\<forall>c. refines ds s c \<longrightarrow> (\<exists>as rc. cluster_run as c = Some rc \<and>
     (list_all process_act_ok acts \<longrightarrow> list_all act_ok as) \<and>
     (case r of
        Inl e \<Rightarrow> rc = Inl e
      | Inr s' \<Rightarrow> own_acts as = node_acts acts \<and> (\<exists>c' ds'. rc = Inr c' \<and> refines ds' s' c'))))"
  using assms
proof (induction acts arbitrary: s)
  case Nil
  have "fates_ok (\<lambda>i. replicate (length (pipe (talking (s ! i)))) []) s" by (simp add: fates_ok_def)
  with Nil show ?case by (force intro: exI [of _ "[]"])
next
  case (Cons a acts)
  show ?case
  proof (cases "process_step a s")
    case None
    with Cons.prems show ?thesis by simp
  next
    case (Some r1)
    show ?thesis
    proof (cases r1)
      case (Inl e)
      have "fates_ok (\<lambda>i. replicate (length (pipe (talking (s ! i)))) []) s" by (simp add: fates_ok_def)
      moreover have "\<exists>as. cluster_run as c = Some (Inl e) \<and> (list_all process_act_ok (a # acts) \<longrightarrow> list_all act_ok as)"
        if c: "refines ds s c" for ds c
      proof -
        obtain x where "cluster_act x c = Some (Inl e)" "process_act_ok a \<longrightarrow> act_ok x"
          using process_step_raises [OF _ c] Some Inl by blast
        then show ?thesis by (intro exI [of _ "[x]"]) simp
      qed
      ultimately show ?thesis using Cons.prems Some Inl by fastforce
    next
      case (Inr s1)
      with Some Cons.prems have "process_run acts s1 = Some r" by simp
      from Cons.IH [OF this] obtain ds1 where ds1: "fates_ok ds1 s1"
          "\<And>c. refines ds1 s1 c \<Longrightarrow> \<exists>as rc. cluster_run as c = Some rc \<and>
             (list_all process_act_ok acts \<longrightarrow> list_all act_ok as) \<and>
             (case r of Inl e \<Rightarrow> rc = Inl e
              | Inr s' \<Rightarrow> own_acts as = node_acts acts \<and> (\<exists>c' ds'. rc = Inr c' \<and> refines ds' s' c'))"
        by blast
      obtain ds where ds: "fates_ok ds s" "step_implemented a ds s ds1 s1"
        using process_step_refines [OF _ ds1(1)] Some Inr by blast
      have "\<exists>as rc. cluster_run as c = Some rc \<and> (list_all process_act_ok (a # acts) \<longrightarrow> list_all act_ok as) \<and>
          (case r of Inl e \<Rightarrow> rc = Inl e
           | Inr s' \<Rightarrow> own_acts as = node_acts (a # acts) \<and> (\<exists>c' ds'. rc = Inr c' \<and> refines ds' s' c'))"
        if c: "refines ds s c" for c
      proof -
        obtain as1 c1 where c1: "cluster_run as1 c = Some (Inr c1)" "refines ds1 s1 c1"
            "own_acts as1 = node_acts [a]" "process_act_ok a \<longrightarrow> list_all act_ok as1"
          using ds(2) c by (auto simp: step_implemented_def)
        obtain as rc where rc: "cluster_run as c1 = Some rc" "list_all process_act_ok acts \<longrightarrow> list_all act_ok as"
            "case r of Inl e \<Rightarrow> rc = Inl e
             | Inr s' \<Rightarrow> own_acts as = node_acts acts \<and> (\<exists>c' ds'. rc = Inr c' \<and> refines ds' s' c')"
          using ds1(2) [OF c1(2)] by blast
        show ?thesis
          using c1 rc cluster_run_then [OF c1(1), of as] own_acts_step [of a acts]
          by (intro exI [of _ "as1 @ as"] exI [of _ rc]) (auto split: sum.splits)
      qed
      with ds(1) show ?thesis by blast
    qed
  qed
qed

section \<open>The processes of a cluster\<close>

definition stations_init :: "(string \<times> int) list \<Rightarrow> 'f station list" where
  "stations_init config = map station_init (cluster_init config)"

lemma init_refines:
  assumes "fates_ok ds (stations_init config :: 'f station list)"
  shows "refines ds (stations_init config :: 'f station list) (cluster_init config)"
proof (rule refinesI)
  fix j assume "j < length (stations_init config)"
  then have j: "j < length config" by (simp add: stations_init_def cluster_init_def)
  obtain me t where e: "config ! j = (me, t)" by fastforce
  have h: "host_of (stations_init config ! j) = host_init (map fst config) me t"
    using j e by (simp add: stations_init_def cluster_init_def station_init_def)
  have p: "pipe (talking (stations_init config ! k)) = []" if "k < length config" for k
    using that by (simp add: stations_init_def cluster_init_def station_init_def Talker_init_def)
  have len: "length (stations_init config) = length config"
    by (simp add: stations_init_def cluster_init_def)
  show "length (incoming (host_of (stations_init config ! j))) = length (stations_init config)"
    unfolding h len by (simp add: host_init_def)
  have fly: "in_flight ds (stations_init config) j = incoming (host_init (map fst config) me t)"
  proof (rule nth_equalityI)
    fix k assume "k < length (in_flight ds (stations_init config) j)"
    then have "k < length config" by (simp add: len)
    then show "in_flight ds (stations_init config) j ! k = incoming (host_init (map fst config) me t) ! k"
      by (simp add: in_flight_def len h p host_init_def)
  qed (simp add: len host_init_def)
  show "\<exists>b. (b \<longrightarrow> terminate (node (host_of (stations_init config ! j)))) \<and>
      cluster_init config ! j = seen_as b (in_flight ds (stations_init config) j) (host_of (stations_init config ! j))"
    unfolding h fly using j e
    by (intro exI [of _ False]) (simp add: cluster_init_def seen_as_def host_init_def raft_init_def)
qed (use assms in \<open>simp_all add: stations_init_def cluster_init_def\<close>)

definition same_host :: "'f host \<Rightarrow> 'f host \<Rightarrow> bool" where
  "same_host h h' \<longleftrightarrow> heap h' = heap h \<and> monitoring h' = monitoring h \<and>
     node h' = (node h)\<lparr>terminate := terminate (node h')\<rparr>"

lemma same_host_role: "same_host h h' \<Longrightarrow> check_role (node h') = check_role (node h)"
proof -
  assume "same_host h h'"
  then have e: "node h' = (node h)\<lparr>terminate := terminate (node h')\<rparr>" by (simp add: same_host_def)
  show "check_role (node h') = check_role (node h)" by (subst e) (simp add: check_role_def)
qed


text \<open>
  A run of one node: it campaigns, its listener has connected only after the request was sent, so the
  node never gets it, and then it is stopped with its vote still in the queue.
\<close>

definition late_listener :: "int process_act list" where
  "late_listener =
     [NodeAct (Turn 0 0 0), NodeAct (Turn 0 0 200000), TalkerTurn 0 Fails [], TalkerTurn 0 Goes [], TalkerTurn 0 Goes [],
      NodeAct (Turn 0 200000 200000), Feed 0, TalkerTurn 0 Goes [], ListenerTurn 0 Goes 0, ListenerTurn 0 Goes 0,
      ListenerTurn 0 Goes 0, Feed 0, StopNode 0, TalkerTurn 0 Goes []]"


end
