(* ===== verification/Deployment.thy ===== *)
theory Deployment
  imports NameServer Cformat
begin

text \<open>
  The start of a name server: \<open>main\<close> of \<open>namesvr/run_node.py\<close> and the part of the constructor of
  \<open>RaftNode\<close> that reads the address book (\<open>namesvr/raft/raft.py\<close>).

  A configuration is what \<open>json.load\<close> returned, a \<open>pyval\<close> without \<open>PEntry\<close> (arrays and numbers
  with a fraction, which no configuration of the program has, are not values of the model). The
  drawn election timeout is an argument, and so is \<open>load\<close>, the file that \<open>_load_config\<close> opens when
  the nodes are not a dictionary.
\<close>

section \<open>Python\<close>

text \<open>
  \<open>v[k]\<close>: a key that cannot be hashed is a \<open>TypeError\<close>, one that is no string is never in an object
  of JSON, and a string is indexed by integers.
\<close>

fun subscript :: "'c pyval \<Rightarrow> 'c pyval \<Rightarrow> 'c pyval py" where
  "subscript (PDict d) (PStr k) = getitem d k"
| "subscript (PDict d) (PDict k) = Inl TypeError"
| "subscript (PDict d) (PEntry k) = Inl TypeError"
| "subscript (PDict d) k = Inl KeyError"
| "subscript (PStr s) (PInt i) = bindE (py_get s i) (\<lambda>c. Inr (PStr [c]))"
| "subscript (PStr s) (PBool b) = bindE (py_get s (of_bool b)) (\<lambda>c. Inr (PStr [c]))"
| "subscript v k = Inl TypeError"

text \<open>
  \<open>int(x)\<close>: of a string the blanks around it are ignored; then a sign and digits, with single
  underscores between them.
\<close>

definition is_blank :: "char \<Rightarrow> bool" where
  "is_blank c \<longleftrightarrow> (of_char c :: nat) \<in> {9..13} \<union> {32}"

definition strip :: "string \<Rightarrow> string" where
  "strip s = rev (dropWhile is_blank (rev (dropWhile is_blank s)))"

fun int_digits :: "bool \<Rightarrow> nat \<Rightarrow> string \<Rightarrow> nat option" where
  "int_digits digit_before acc [] = (if digit_before then Some acc else None)"
| "int_digits digit_before acc (c # r) =
     (if is_digit c then int_digits True (10 * acc + digit_val c) r
      else if c = CHR ''_'' \<and> digit_before then int_digits False acc r
      else None)"

definition int_of_string :: "string \<Rightarrow> int py" where
  "int_of_string s =
     (let s = strip s;
          (negative, r) = (case s of [] \<Rightarrow> (False, [])
            | c # r \<Rightarrow> if c = CHR ''-'' then (True, r) else if c = CHR ''+'' then (False, r) else (False, s))
      in case int_digits False 0 r of
           None \<Rightarrow> Inl ValueError
         | Some n \<Rightarrow> Inr (if negative then - int n else int n))"

fun py_int :: "'c pyval \<Rightarrow> int py" where
  "py_int (PInt i) = Inr i"
| "py_int (PBool b) = Inr (of_bool b)"
| "py_int (PStr s) = int_of_string s"
| "py_int _ = Inl TypeError"

fun mapE :: "('a \<Rightarrow> 'b py) \<Rightarrow> 'a list \<Rightarrow> 'b list py" where
  "mapE f [] = Inr []"
| "mapE f (x # xs) = bindE (f x) (\<lambda>y. bindE (mapE f xs) (\<lambda>ys. Inr (y # ys)))"

section \<open>The address book\<close>

text \<open>\<open>v['ip'] + ':' + v['port']\<close>, evaluated from left to right.\<close>

definition node_address :: "'c pyval \<Rightarrow> string py" where
  "node_address v =
     bindE (bindE (subscript v (PStr ''ip'')) as_str) (\<lambda>ip.
     bindE (bindE (subscript v (PStr ''port'')) as_str) (\<lambda>port. Inr (ip @ '':'' @ port)))"

definition all_ids_of :: "'c dict \<Rightarrow> string list py" where
  "all_ids_of address_book =
     mapE (\<lambda>a. bindE (getitem address_book a) node_address) (filter (\<lambda>a. a \<noteq> ''leader'') (map fst address_book))"

definition RaftNode_init :: "('c pyval \<Rightarrow> 'c dict py) \<Rightarrow> 'c pyval \<Rightarrow> 'c pyval \<Rightarrow> int \<Rightarrow> 'f host py" where
  "RaftNode_init load config name timeout =
     bindE (case config of PDict d \<Rightarrow> Inr d | _ \<Rightarrow> load config) (\<lambda>address_book.
     bindE (all_ids_of address_book) (\<lambda>ids.
     bindE (bindE (subscript (PDict address_book) name) node_address) (\<lambda>me.
     Inr (host_init ids me timeout))))"

text \<open>
  \<open>main\<close>: the node it has started, if it came that far, and the port of its HTTP server.
\<close>

definition name_server_main ::
  "('c pyval \<Rightarrow> 'c dict py) \<Rightarrow> 'c pyval \<Rightarrow> int \<Rightarrow> 'f host option \<times> int py" where
  "name_server_main load config timeout =
     (case bindE (subscript config (PStr ''self'')) (\<lambda>self_name.
           bindE (subscript config (PStr ''nodes'')) (\<lambda>comm_dict.
           bindE (RaftNode_init load comm_dict self_name timeout) (\<lambda>started. Inr (self_name, comm_dict, started)))) of
        Inl e \<Rightarrow> (None, Inl e)
      | Inr (self_name, comm_dict, started) \<Rightarrow>
          (Some started,
           bindE (subscript comm_dict self_name) (\<lambda>v.
           bindE (bindE (subscript v (PStr ''port'')) py_int) (\<lambda>raft_port. Inr (raft_port + 1)))))"

section \<open>Decimal ports\<close>

lemma int_digits_of_digits: "list_all is_digit s \<Longrightarrow> d \<or> s \<noteq> [] \<Longrightarrow> int_digits d acc s = Some (digits_val acc s)"
  by (induction s arbitrary: d acc) (simp_all add: digits_val_def)

lemma digit_not_blank: "is_digit c \<Longrightarrow> \<not> is_blank c \<and> c \<noteq> CHR ''-'' \<and> c \<noteq> CHR ''+''"
  by (auto simp: is_digit_def is_blank_def)

lemma sign_not_blank: "\<not> is_blank (CHR ''-'')"
  by (simp add: is_blank_def)

lemma strip_id:
  assumes "s \<noteq> []" "\<not> is_blank (hd s)" "\<not> is_blank (last s)"
  shows "strip s = s"
proof -
  have "dropWhile is_blank s = s" "dropWhile is_blank (rev s) = rev s"
    using assms by (simp_all add: dropWhile_eq_self_iff hd_rev)
  then show ?thesis by (simp add: strip_def)
qed

lemma int_of_string_dec [simp]: "int_of_string (dec i) = Inr i"
proof -
  have d: "hd (dec_nat n) \<in> set (dec_nat n)" "last (dec_nat n) \<in> set (dec_nat n)" "dec_nat n \<noteq> []" for n
    using dec_nat_digits [of n] by auto
  have c: "is_digit (hd (dec_nat n))" "is_digit (last (dec_nat n))" for n
    using dec_nat_digits [of n] d [of n] by (auto simp: list_all_iff)
  have v: "int_digits False 0 (dec_nat n) = Some n" for n
    using dec_nat_digits [of n] by (simp add: int_digits_of_digits digits_val_dec_nat)
  have s: "strip (dec i) = dec i"
    using c d(3) by (intro strip_id) (auto simp: dec_def digit_not_blank sign_not_blank)
  show ?thesis
  proof (cases "i < 0")
    case True
    with s v show ?thesis by (simp add: int_of_string_def dec_def)
  next
    case False
    with s v [of "nat i"] c(1) [of "nat i"] d(3) [of "nat i"] show ?thesis
      by (cases "dec_nat (nat i)") (auto simp: int_of_string_def dec_def dest: digit_not_blank)
  qed
qed

lemma mapE_ok: "(\<And>x. x \<in> set xs \<Longrightarrow> f x = Inr (g x)) \<Longrightarrow> mapE f xs = Inr (map g xs)"
  by (induction xs) simp_all

section \<open>A deployment\<close>

text \<open>The configuration of the node \<open>self\<close>, and the addresses of all nodes.\<close>

definition address_book :: "(string \<times> string \<times> int) list \<Rightarrow> 'c dict" where
  "address_book = map (\<lambda>(name, ip, port). (name, PDict [(''ip'', PStr ip), (''port'', PStr (dec port))]))"

definition node_config :: "(string \<times> string \<times> int) list \<Rightarrow> string \<Rightarrow> 'c pyval" where
  "node_config peers self = PDict
     [(''self'', PStr self),
      (''nodes'', PDict (address_book peers))]"

definition addresses :: "(string \<times> string \<times> int) list \<Rightarrow> string list" where
  "addresses = map (\<lambda>(name, ip, port). ip @ '':'' @ dec port)"

lemma address_book_lookup:
  assumes "distinct (map fst peers)" "(name, ip, port) \<in> set peers"
  shows "map_of (address_book peers) name = Some (PDict [(''ip'', PStr ip), (''port'', PStr (dec port))])"
  using assms by (intro map_of_is_SomeI) (force simp: address_book_def o_def split_def)+

lemma address_book_keys: "map fst (address_book peers) = map fst peers"
  by (simp add: address_book_def o_def split_def)

lemma all_ids_of_deployment:
  assumes "distinct (map fst peers)" "''leader'' \<notin> set (map fst peers)"
  shows "all_ids_of (address_book peers) = Inr (addresses peers)"
proof -
  have keys: "filter (\<lambda>a. a \<noteq> ''leader'') (map fst peers) = map fst peers"
    using assms(2) by (auto intro!: filter_True)
  let ?g = "\<lambda>a. case map_of peers a of Some (ip, port) \<Rightarrow> ip @ '':'' @ dec port | None \<Rightarrow> []"
  have "bindE (getitem (address_book peers) a) node_address = Inr (?g a)" if a: "a \<in> set (map fst peers)" for a
  proof -
    obtain ip port where p: "(a, ip, port) \<in> set peers"
      using a by auto
    show ?thesis
      by (simp add: getitem_def node_address_def address_book_lookup [OF assms(1) p] map_of_is_SomeI [OF assms(1) p])
  qed
  then have "all_ids_of (address_book peers) = Inr (map ?g (map fst peers))"
    unfolding all_ids_of_def address_book_keys keys by (rule mapE_ok)
  also have "map ?g (map fst peers) = addresses peers"
    using map_of_is_SomeI [OF assms(1)] by (force simp: addresses_def)
  finally show ?thesis .
qed

lemma main_of_deployment:
  assumes "distinct (map fst peers)" "''leader'' \<notin> set (map fst peers)" "(name, ip, port) \<in> set peers"
  shows "name_server_main load (node_config peers name) timeout
    = (Some (host_init (addresses peers) (ip @ '':'' @ dec port) timeout), Inr (port + 1))"
  by (simp add: name_server_main_def node_config_def RaftNode_init_def node_address_def getitem_def
      all_ids_of_deployment [OF assms(1,2)] address_book_lookup [OF assms(1,3)])

text \<open>The main functions of all nodes, each on its own configuration and with the timeout it drew.\<close>

definition deploy ::
  "('c pyval \<Rightarrow> 'c dict py) \<Rightarrow> (string \<times> string \<times> int) list \<Rightarrow> int list \<Rightarrow> ('f host option \<times> int py) list" where
  "deploy load peers timeouts =
     map2 (\<lambda>(name, _) timeout. name_server_main load (node_config peers name) timeout) peers timeouts"

lemma deploy_starts:
  assumes "distinct (map fst peers)" "''leader'' \<notin> set (map fst peers)" "length timeouts = length peers"
  shows "deploy load peers timeouts
    = map2 (\<lambda>h (_, _, port). (Some h, Inr (port + 1))) (cluster_init (zip (addresses peers) timeouts)) peers"
proof (rule nth_equalityI)
  fix i assume "i < length (deploy load peers timeouts :: ('a host option \<times> _) list)"
  then have i: "i < length peers" using assms(3) by (simp add: deploy_def)
  obtain name ip port where p: "peers ! i = (name, ip, port)" by (cases "peers ! i")
  then have "(name, ip, port) \<in> set peers" using i by (metis nth_mem)
  from main_of_deployment [OF assms(1,2) this, of load "timeouts ! i"]
  show "deploy load peers timeouts ! i
      = map2 (\<lambda>h (_, _, port). (Some h, Inr (port + 1))) (cluster_init (zip (addresses peers) timeouts)) peers ! i"
    using i p assms(3) by (simp add: deploy_def cluster_init_def addresses_def)
qed (simp add: deploy_def cluster_init_def addresses_def)


text \<open>The configurations of the repository, \<open>config/node0.json\<close> to \<open>config/node2.json\<close>.\<close>

definition repository_peers :: "(string \<times> string \<times> int) list" where
  "repository_peers = [(''node0'', ''127.0.0.1'', 5585), (''node1'', ''127.0.0.1'', 5575), (''node2'', ''127.0.0.1'', 5565)]"


section \<open>Configurations that fail\<close>

text \<open>
  A node of the name \<open>leader\<close> starts, but it is not among the addresses: nobody listens to it.
\<close>

lemma node_named_leader:
  "name_server_main load (node_config ((''leader'', ip, port) # repository_peers) ''leader'') timeout
     = (Some (host_init (addresses repository_peers) (ip @ '':'' @ dec port) timeout), Inr (port + 1))"
  by (simp add: name_server_main_def node_config_def RaftNode_init_def node_address_def getitem_def all_ids_of_def
      repository_peers_def address_book_def addresses_def)

text \<open>
  A port that is no string is refused by the constructor; one that is no number only after the node
  has been started.
\<close>

lemma numeric_port:
  "name_server_main load (PDict [(''self'', PStr a), (''nodes'', PDict [(a, PDict [(''ip'', PStr ip), (''port'', PInt p)])])])
     timeout = (None, Inl TypeError)" if "a \<noteq> ''leader''"
  using that by (simp add: name_server_main_def RaftNode_init_def node_address_def getitem_def all_ids_of_def)

lemma port_not_a_number:
  assumes "a \<noteq> ''leader''" "int_of_string port = Inl ValueError"
  shows "name_server_main load
      (PDict [(''self'', PStr a), (''nodes'', PDict [(a, PDict [(''ip'', PStr ip), (''port'', PStr port)])])]) timeout
    = (Some (host_init [ip @ '':'' @ port] (ip @ '':'' @ port) timeout), Inl ValueError)"
  using assms by (simp add: name_server_main_def RaftNode_init_def node_address_def getitem_def all_ids_of_def)

end
