(* ===== verification/Launcher.thy ===== *)
theory Launcher
  imports NodeRefinement Deployment
begin

text \<open>
  The launcher of the cluster, \<open>namesvr/run_cluster.py\<close>, and what it leaves behind. The answers of the
  operating system are arguments: how each start ends, and which nodes have exited at the two polls
  of the \<open>finally\<close> block. The end of \<open>main\<close> is its first Ctrl+C; a second one during the cleanup is
  not modelled, nor is the launcher's own death by another signal, after which nothing is cleaned up.
\<close>

section \<open>The program\<close>

definition CONFIGS :: "string list" where
  "CONFIGS = [''config/node0.json'', ''config/node1.json'', ''config/node2.json'']"

datatype signal = SIGTERM | SIGKILL

text \<open>A node process: its configuration, whether it has ended, and the signals it was sent.\<close>

record child =
  child_config :: string
  exited :: bool
  signals :: "signal list"

definition Popen :: "string \<Rightarrow> child" where
  "Popen cfg = \<lparr>child_config = cfg, exited = False, signals = []\<rparr>"

text \<open>A start: the process runs, \<open>Popen\<close> raises, or Ctrl+C comes before the process is in the list.\<close>

datatype spawn = Spawned | SpawnRaises | CtrlC bool

datatype ending = KeyboardInterrupt | OSError

text \<open>The started processes, those that are not in the list, and how the \<open>try\<close> block ends.\<close>

fun start_all :: "(nat \<Rightarrow> spawn) \<Rightarrow> string list \<Rightarrow> child list \<Rightarrow> child list \<times> child list \<times> ending" where
  "start_all spawn [] procs = (procs, [], KeyboardInterrupt)"
| "start_all spawn (cfg # cfgs) procs =
     (case spawn (length procs) of
        Spawned \<Rightarrow> start_all spawn cfgs (procs @ [Popen cfg])
      | SpawnRaises \<Rightarrow> (procs, [], OSError)
      | CtrlC forked \<Rightarrow> (procs, if forked then [Popen cfg] else [], KeyboardInterrupt))"

definition poll :: "bool \<Rightarrow> child \<Rightarrow> child" where
  "poll has_exited p = p\<lparr>exited := exited p \<or> has_exited\<rparr>"

definition terminate_child :: "bool \<Rightarrow> child \<Rightarrow> child" where
  "terminate_child has_exited p =
     (let p = poll has_exited p in if exited p then p else p\<lparr>signals := signals p @ [SIGTERM]\<rparr>)"

text \<open>No process survives \<open>SIGKILL\<close>.\<close>

definition kill_child :: "bool \<Rightarrow> child \<Rightarrow> child" where
  "kill_child has_exited p =
     (let p = poll has_exited p in if exited p then p else p\<lparr>signals := signals p @ [SIGKILL], exited := True\<rparr>)"

definition cleanup :: "(nat \<Rightarrow> bool) \<Rightarrow> (nat \<Rightarrow> bool) \<Rightarrow> child list \<Rightarrow> child list" where
  "cleanup exits1 exits2 procs =
     map (\<lambda>(i, p). kill_child (exits2 i) p) (enumerate 0
       (map (\<lambda>(i, p). terminate_child (exits1 i) p) (enumerate 0 procs)))"

text \<open>\<open>main\<close>: the processes of the list, the others, and the exception that leaves it.\<close>

definition launcher_main ::
  "(nat \<Rightarrow> spawn) \<Rightarrow> (nat \<Rightarrow> bool) \<Rightarrow> (nat \<Rightarrow> bool) \<Rightarrow> child list \<times> child list \<times> ending option" where
  "launcher_main spawn exits1 exits2 =
     (case start_all spawn CONFIGS [] of
        (procs, others, ending) \<Rightarrow>
          (cleanup exits1 exits2 procs, others, if ending = KeyboardInterrupt then None else Some ending))"

text \<open>\<open>stream_output\<close>\<close>

definition stream_output :: "string list \<Rightarrow> string \<Rightarrow> string list" where
  "stream_output stdout prefix = map (\<lambda>line. ''['' @ prefix @ ''] '' @ strip line) stdout"

section \<open>The nodes it stops\<close>

lemma start_all_configs:
  "case start_all spawn cfgs procs of (ps, others, ending) \<Rightarrow>
     \<exists>k \<le> length cfgs. ps = procs @ map Popen (take k cfgs) \<and>
       (\<forall>i < k. spawn (length procs + i) = Spawned) \<and>
       (k < length cfgs \<longrightarrow> spawn (length procs + k) \<noteq> Spawned) \<and>
       (ending = OSError \<longleftrightarrow> k < length cfgs \<and> spawn (length procs + k) = SpawnRaises) \<and>
       others = (if k < length cfgs \<and> spawn (length procs + k) = CtrlC True then [Popen (cfgs ! k)] else [])"
proof (induction cfgs arbitrary: procs)
  case (Cons cfg cfgs)
  show ?case
  proof (cases "spawn (length procs)")
    case Spawned
    obtain ps others e where r: "start_all spawn cfgs (procs @ [Popen cfg]) = (ps, others, e)" by (metis prod_cases3)
    obtain k where k: "k \<le> length cfgs" "ps = (procs @ [Popen cfg]) @ map Popen (take k cfgs)"
        "\<forall>i < k. spawn (Suc (length procs) + i) = Spawned"
        "k < length cfgs \<longrightarrow> spawn (Suc (length procs) + k) \<noteq> Spawned"
        "e = OSError \<longleftrightarrow> k < length cfgs \<and> spawn (Suc (length procs) + k) = SpawnRaises"
        "others = (if k < length cfgs \<and> spawn (Suc (length procs) + k) = CtrlC True then [Popen (cfgs ! k)] else [])"
      using Cons.IH [where procs = "procs @ [Popen cfg]"] by (auto simp: r)
    have "spawn (length procs + i) = Spawned" if "i < Suc k" for i
      using k(3) Spawned that by (cases i) auto
    with k Spawned show ?thesis by (auto simp: r intro!: exI [of _ "Suc k"])
  qed (auto intro!: exI [of _ 0])
qed simp

lemma cleanup_nth:
  "i < length procs \<Longrightarrow> cleanup exits1 exits2 procs ! i = kill_child (exits2 i) (terminate_child (exits1 i) (procs ! i))"
  by (simp add: cleanup_def nth_enumerate_eq)

lemmas child_defs = kill_child_def terminate_child_def poll_def Popen_def

text \<open>
  C39. Whatever the starts and the nodes do, when \<open>main\<close> is left every process it has in its list has
  ended: it was sent \<open>SIGTERM\<close> if it was running, and \<open>SIGKILL\<close> if it was still running a second
  later. The list holds the nodes of the configurations in order, up to the first that did not
  start; a process misses it only when Ctrl+C comes between its start and the next statement.
\<close>

theorem launcher_stops_nodes:
  "case launcher_main spawn exits1 exits2 of (procs, others, raised) \<Rightarrow>
     \<exists>k \<le> 3. map child_config procs = take k CONFIGS \<and> length procs = k \<and>
       (\<forall>i < k. exited (procs ! i) \<and> signals (procs ! i) =
          (if exits1 i then [] else if exits2 i then [SIGTERM] else [SIGTERM, SIGKILL])) \<and>
       (k < 3 \<longrightarrow> spawn k \<noteq> Spawned) \<and> (raised = (if k < 3 \<and> spawn k = SpawnRaises then Some OSError else None)) \<and>
       map child_config others = (if k < 3 \<and> spawn k = CtrlC True then [CONFIGS ! k] else [])"
proof -
  obtain procs others e where r: "start_all spawn CONFIGS [] = (procs, others, e)" by (metis prod_cases3)
  have len: "length CONFIGS = 3" by (simp add: CONFIGS_def)
  obtain k where k: "k \<le> 3" "procs = map Popen (take k CONFIGS)" "k < 3 \<longrightarrow> spawn k \<noteq> Spawned"
      "e = OSError \<longleftrightarrow> k < 3 \<and> spawn k = SpawnRaises"
      "others = (if k < 3 \<and> spawn k = CtrlC True then [Popen (CONFIGS ! k)] else [])"
    using start_all_configs [where spawn = spawn and cfgs = CONFIGS and procs = "[]"] by (auto simp: r len)
  have n: "length procs = k" using k(1,2) len by simp
  have child: "exited (cleanup exits1 exits2 procs ! i) \<and> signals (cleanup exits1 exits2 procs ! i) =
      (if exits1 i then [] else if exits2 i then [SIGTERM] else [SIGTERM, SIGKILL]) \<and>
      child_config (cleanup exits1 exits2 procs ! i) = CONFIGS ! i" if "i < k" for i
    using that n k(1,2) len by (simp add: cleanup_nth child_defs Let_def)
  have "map child_config (cleanup exits1 exits2 procs) = take k CONFIGS"
    using child n k(1) len by (intro nth_equalityI) (simp_all add: cleanup_def)
  moreover have "length (cleanup exits1 exits2 procs) = k" using n by (simp add: cleanup_def)
  moreover have "(if e = KeyboardInterrupt then None else Some e) = (if k < 3 \<and> spawn k = SpawnRaises then Some OSError else None)"
    using k(4) by (cases e) auto
  ultimately show ?thesis
    using k child by (auto simp: launcher_main_def r Popen_def)
qed

text \<open>The second node cannot be started, and the first takes its time.\<close>

theorem launcher_stops_nodes_witness:
  "\<exists>k procs. launcher_main ((\<lambda>_. Spawned)(1 := SpawnRaises)) (\<lambda>_. False) (\<lambda>_. False) = (procs, [], Some OSError) \<and>
     length procs = k \<and> k = 1 \<and> signals (procs ! 0) = [SIGTERM, SIGKILL]"
proof -
  obtain procs others raised where r:
      "launcher_main ((\<lambda>_. Spawned)(1 := SpawnRaises)) (\<lambda>_. False) (\<lambda>_. False) = (procs, others, raised)"
    by (metis prod_cases3)
  have "procs \<noteq> [] \<and> length procs = 1 \<and> raised = Some OSError \<and> others = []"
    using r by (auto simp: launcher_main_def CONFIGS_def cleanup_def child_defs)
  then show ?thesis
    using launcher_stops_nodes [where spawn = "(\<lambda>_. Spawned)(1 := SpawnRaises)" and ?exits1.0 = "\<lambda>_. False" and ?exits2.0 = "\<lambda>_. False"] r by auto
qed

section \<open>The processes it leaves\<close>

text \<open>
  \<open>SIGTERM\<close> and \<open>SIGKILL\<close> end a node's process without \<open>node.stop()\<close> (\<open>KillNode\<close>), and only that one:
  its talker, with the socket, and its listener are processes of their own.
\<close>

definition left_running :: "'f station \<Rightarrow> bool" where
  "left_running s \<longleftrightarrow> talker_pc (talking s) \<notin> {TalkerEnded, TalkerRaised} \<and> \<not> talker_stop_event (talking s) \<and>
     listener_pc (listening s) = Polling \<and> \<not> listener_stop_event (listening s)"

fun interrupts :: "nat \<Rightarrow> 'f process_act \<Rightarrow> bool" where
  "interrupts i (TalkerTurn j w drops) = (j = i \<and> w = Interrupted)"
| "interrupts i (ListenerTurn j w k) = (j = i \<and> w = Interrupted)"
| "interrupts i _ = False"

lemma talker_turn_left:
  assumes "talker_turn w t = (sent, t')" "w \<noteq> Interrupted"
    "talker_pc t \<notin> {TalkerEnded, TalkerRaised}" "\<not> talker_stop_event t"
  shows "talker_pc t' \<notin> {TalkerEnded, TalkerRaised} \<and> \<not> talker_stop_event t'"
  using assms by (auto simp: talker_turn_def split: talker_pc.splits wake.splits if_splits list.splits)

lemma send_json_processes:
  "k < length c \<Longrightarrow> talking (send_json i a m drops c ! k) = talking (c ! k) \<and>
     listening (send_json i a m drops c ! k) = listening (c ! k) \<and> up (send_json i a m drops c ! k) = up (c ! k)"
  by (simp add: send_json_def nth_enumerate_eq)

text \<open>What a step leaves of the processes.\<close>

lemma own_step_processes:
  assumes "process_step (NodeAct x) s = Some (Inr s')"
  shows "length s' = length s" "i < length s \<Longrightarrow> talking (s' ! i) = talking (s ! i) \<and>
    listening (s' ! i) = listening (s ! i) \<and> up (s' ! i) = up (s ! i)"
proof -
  obtain k where k: "k < length s" "Inr s' = bindE (act_fun x (host_of (s ! k))) (\<lambda>h'. Inr (s[k := (s ! k)\<lparr>host_of := h'\<rparr>]))"
    by (rule node_step [OF assms])
  then obtain h' where s': "s' = s[k := (s ! k)\<lparr>host_of := h'\<rparr>]" by (cases "act_fun x (host_of (s ! k))") auto
  show "length s' = length s" by (simp add: s')
  show "i < length s \<Longrightarrow> talking (s' ! i) = talking (s ! i) \<and> listening (s' ! i) = listening (s ! i) \<and> up (s' ! i) = up (s ! i)"
    by (cases "k = i") (simp_all add: s')
qed

lemma talker_step_processes:
  assumes "process_step (TalkerTurn k w drops) s = Some (Inr s')" "talker_turn w (talking (s ! k)) = (sent, t)"
  shows "length s' = length s" "i < length s \<Longrightarrow> talking (s' ! i) = (if i = k then t else talking (s ! i)) \<and>
    listening (s' ! i) = listening (s ! i) \<and> up (s' ! i) = up (s ! i)"
proof -
  let ?s1 = "s[k := (s ! k)\<lparr>talking := t\<rparr>]"
  have s': "s' = (case sent of None \<Rightarrow> ?s1 | Some m \<Rightarrow> send_json k (my_id (node (host_of (s ! k)))) m drops ?s1)"
    using assms by (auto simp: Let_def split: if_splits)
  show "length s' = length s" by (simp add: s' send_json_def split: option.splits)
  assume i: "i < length s"
  have "talking (s' ! i) = talking (?s1 ! i) \<and> listening (s' ! i) = listening (?s1 ! i) \<and> up (s' ! i) = up (?s1 ! i)"
    using i by (simp add: s' send_json_processes split: option.splits)
  with i show "talking (s' ! i) = (if i = k then t else talking (s ! i)) \<and>
    listening (s' ! i) = listening (s ! i) \<and> up (s' ! i) = up (s ! i)" by (cases "i = k") simp_all
qed

lemma listener_step_processes:
  assumes "process_step (ListenerTurn j w k) s = Some (Inr s')" "listener_turn w (listening (s ! j)) = (readable, l)"
  shows "length s' = length s" "i < length s \<Longrightarrow> talking (s' ! i) = talking (s ! i) \<and>
    listening (s' ! i) = (if i = j then l else listening (s ! i)) \<and> up (s' ! i) = up (s ! i)"
proof -
  have "\<exists>h. s' = s[j := (s ! j)\<lparr>host_of := h, listening := l\<rparr>]"
  proof (cases readable)
    case True
    obtain m ms where m: "incoming (host_of (s ! j)) ! k = m # ms"
      using assms True by (auto simp: Let_def split: if_splits list.splits)
    with assms True show ?thesis
      by (cases "host_receive m ((host_of (s ! j))\<lparr>incoming := (incoming (host_of (s ! j)))[k := ms]\<rparr>)")
        (auto simp: Let_def split: if_splits)
  next
    case False
    with assms show ?thesis by (intro exI [of _ "host_of (s ! j)"]) (auto simp: Let_def split: if_splits)
  qed
  then obtain h where s': "s' = s[j := (s ! j)\<lparr>host_of := h, listening := l\<rparr>]" by blast
  show "length s' = length s" by (simp add: s')
  show "i < length s \<Longrightarrow> talking (s' ! i) = talking (s ! i) \<and>
    listening (s' ! i) = (if i = j then l else listening (s ! i)) \<and> up (s' ! i) = up (s ! i)"
    by (cases "i = j") (simp_all add: s')
qed

lemma process_step_length: "process_step a s = Some (Inr s') \<Longrightarrow> length s' = length s"
  by (cases a) (auto simp: own_step_processes talker_step_processes(1) [OF _ prod.collapse [symmetric]]
      listener_step_processes(1) [OF _ prod.collapse [symmetric]] Let_def
      simp del: process_step.simps(1,3,4) split: if_splits list.splits)

lemma process_step_left:
  assumes "process_step a s = Some (Inr s')" "i < length s" "\<not> up (s ! i)" "left_running (s ! i)" "\<not> interrupts i a"
  shows "\<not> up (s' ! i) \<and> left_running (s' ! i)"
proof (cases a)
  case (NodeAct x)
  then show ?thesis
    using own_step_processes(2) [OF assms(1) [unfolded NodeAct] assms(2)] assms(3,4) by (simp add: left_running_def)
next
  case (Feed k)
  then show ?thesis
    using assms by (cases "k = i") (auto simp: Let_def left_running_def talker_put_def split: if_splits list.splits)
next
  case (TalkerTurn k w drops)
  obtain sent t where t: "talker_turn w (talking (s ! k)) = (sent, t)" by fastforce
  show ?thesis
    using talker_step_processes(2) [OF assms(1) [unfolded TalkerTurn] t assms(2)] talker_turn_left [OF t] assms(3-5)
    by (auto simp: TalkerTurn left_running_def)
next
  case (ListenerTurn j w k)
  obtain readable l where l: "listener_turn w (listening (s ! j)) = (readable, l)" by fastforce
  then have "listening (s ! j) = l" if "j = i"
    using assms(4,5) that by (auto simp: ListenerTurn left_running_def listener_turn_def)
  then show ?thesis
    using listener_step_processes(2) [OF assms(1) [unfolded ListenerTurn] l assms(2)] assms(3,4)
    by (auto simp: left_running_def split: if_splits)
next
  case (StopNode k)
  with assms show ?thesis by (cases "k = i") (auto split: if_splits)
next
  case (KillNode k)
  with assms show ?thesis by (cases "k = i") (auto simp: left_running_def split: if_splits)
qed

lemma process_run_length: "process_run as s = Some (Inr s') \<Longrightarrow> length s' = length s"
  by (induction as arbitrary: s) (auto simp: process_step_length split: option.splits sum.splits)

lemma process_run_left:
  "process_run as s = Some (Inr s') \<Longrightarrow> i < length s \<Longrightarrow> \<not> up (s ! i) \<Longrightarrow> left_running (s ! i) \<Longrightarrow>
   \<forall>a \<in> set as. \<not> interrupts i a \<Longrightarrow> \<not> up (s' ! i) \<and> left_running (s' ! i)"
proof (induction as arbitrary: s)
  case (Cons a as)
  then obtain s1 where s1: "process_step a s = Some (Inr s1)" "process_run as s1 = Some (Inr s')"
    by (auto split: option.splits sum.splits)
  with process_step_left [OF s1(1)] process_step_length [OF s1(1)] Cons show ?case by simp
qed simp

lemma kill_all:
  "n \<le> length s \<Longrightarrow> \<exists>s1. process_run (map KillNode [0..<n] @ as) s = process_run as s1 \<and> length s1 = length s \<and>
     (\<forall>i < length s. talking (s1 ! i) = talking (s ! i) \<and> listening (s1 ! i) = listening (s ! i) \<and>
        (up (s1 ! i) \<longleftrightarrow> n \<le> i \<and> up (s ! i)))"
proof (induction n arbitrary: as)
  case (Suc n)
  from Suc.IH [of "KillNode n # as"] Suc.prems obtain s1 where s1:
      "process_run (map KillNode [0..<n] @ KillNode n # as) s = process_run (KillNode n # as) s1" "length s1 = length s"
      "\<forall>i < length s. talking (s1 ! i) = talking (s ! i) \<and> listening (s1 ! i) = listening (s ! i) \<and>
         (up (s1 ! i) \<longleftrightarrow> n \<le> i \<and> up (s ! i))"
    by auto
  let ?s2 = "s1[n := (s1 ! n)\<lparr>up := False\<rparr>]"
  have "talking (?s2 ! i) = talking (s ! i) \<and> listening (?s2 ! i) = listening (s ! i) \<and> (up (?s2 ! i) \<longleftrightarrow> Suc n \<le> i \<and> up (s ! i))"
    if "i < length s" for i
    using s1(2,3) that by (cases "i = n") (auto simp: nth_list_update)
  with s1(1,2) Suc.prems show ?case by (intro exI [of _ ?s2]) simp
qed (auto intro: exI [of _ s])

text \<open>
  C38. After the launcher has ended every node of a running cluster, their talkers and listeners go on: as
  long as no Ctrl+C reaches them, no step of any process ends them, so the sockets stay bound.
\<close>

theorem ended_nodes_leave_processes:
  assumes "\<forall>i < length s. left_running (s ! i)" "\<forall>a \<in> set as. \<forall>i. \<not> interrupts i a"
    and "process_run (map KillNode [0..<length s] @ as) s = Some (Inr s')"
  shows "length s' = length s \<and> (\<forall>i < length s. \<not> up (s' ! i) \<and> left_running (s' ! i))"
proof -
  obtain s1 where s1: "process_run as s1 = Some (Inr s')" "length s1 = length s"
      "\<forall>i < length s. talking (s1 ! i) = talking (s ! i) \<and> listening (s1 ! i) = listening (s ! i) \<and> \<not> up (s1 ! i)"
    using kill_all [of "length s" s as] assms(3) by auto
  then have "left_running (s1 ! i)" if "i < length s" for i using assms(1) that by (simp add: left_running_def)
  with s1 assms(2) process_run_left [OF s1(1)] process_run_length [OF s1(1)] show ?thesis by simp
qed

text \<open>Two nodes whose processes have come up, one of them with a request to be sent.\<close>

definition come_up :: "int process_act list" where
  "come_up = concat (map (\<lambda>i. [TalkerTurn i Goes [], TalkerTurn i Goes [], ListenerTurn i Goes 0, ListenerTurn i Goes 0,
     ListenerTurn i Goes 0, ListenerTurn i Goes 0]) [0, 1]) @
     [NodeAct (Turn 0 0 0), NodeAct (Turn 0 0 200000), NodeAct (Turn 0 200000 200000), Feed 0]"

lemma returned: "(case x of Some (Inr s) \<Rightarrow> P s | _ \<Rightarrow> False) \<Longrightarrow> \<exists>s. x = Some (Inr s) \<and> P s"
  by (auto split: option.splits sum.splits)

theorem ended_nodes_leave_processes_witness:
  "\<exists>s s'. process_run come_up (stations_init [(''a:1'', 100000), (''b:1'', 100000)]) = Some (Inr s) \<and>
     process_run (map KillNode [0..<length s] @ [TalkerTurn 0 Goes [], ListenerTurn 1 Goes 0]) s = Some (Inr s') \<and>
     \<not> up (s' ! 0) \<and> left_running (s' ! 0)"
proof -
  let ?as = "[TalkerTurn 0 Goes [], ListenerTurn 1 Goes 0] :: int process_act list"
  have "case process_run come_up (stations_init [(''a:1'', 100000), (''b:1'', 100000)]) of
      Some (Inr s) \<Rightarrow> length s = 2 \<and> list_all left_running s \<and>
        (case process_run (map KillNode [0..<2] @ ?as) s of Some (Inr s') \<Rightarrow> True | _ \<Rightarrow> False)
    | _ \<Rightarrow> False"
    by code_simp
  from returned [OF this] obtain s where
      s: "process_run come_up (stations_init [(''a:1'', 100000), (''b:1'', 100000)]) = Some (Inr s)"
        "length s = 2 \<and> list_all left_running s \<and>
        (case process_run (map KillNode [0..<2] @ ?as) s of Some (Inr s') \<Rightarrow> True | _ \<Rightarrow> False)"
    by blast
  then obtain s' where s': "process_run (map KillNode [0..<length s] @ ?as) s = Some (Inr s')"
    using returned by fastforce
  have "length s' = length s \<and> (\<forall>i < length s. \<not> up (s' ! i) \<and> left_running (s' ! i))"
    by (rule ended_nodes_leave_processes [OF _ _ s']) (use s(2) in \<open>auto simp: list_all_length\<close>)
  with s s' show ?thesis by auto
qed

end
