(* ===== verification/Spec2Isabelle.thy ===== *)
theory Spec2Isabelle
  imports SystemProgress ClientProgram KVServer KVConcurrent Shutdown Timer Sysutils EndpointThreads ServiceDiscovery Launcher
begin

text \<open>
  A verification development for DreamboatRPC, a remote procedure call library in C++ for Linux:
  a server with an epoll reactor and a pool of workers, a client with asynchronous calls, a
  key-value application, and a name server in Python, replicated by a variant of Raft. Paths are relative to \<open>src/\<close>.

  \<^bold>\<open>The program.\<close> A client program asks the name service for a server of the service it wants
  (\<open>client/ClientFactory.cc\<close>), connects, and calls through a proxy: \<open>CallRPCAsync\<close> takes a sequence
  number from \<open>Guid\<close>, registers a callback under it, and queues a message, which the client's own
  thread sends. In the server \<open>Reactor::Run\<close> polls; each event becomes a task that a worker of the
  \<open>ThreadPool\<close> runs through the \<open>EventHandlerManager\<close>. A connection is registered one-shot, so it must
  be armed again after every event; \<open>RpcServer::FileDescriptorEventDone\<close> does that, for input, or for
  input and output while results wait in the \<open>ReturnValuePipe\<close>. The result travels back as a packet
  of fixed size, the client's thread runs the callback of its sequence number and recycles it.
  Servers register with the name server and send it heartbeats, clients ask it for a server, over
  HTTP (\<open>ServiceReporter\<close>, \<open>ServiceDiscoverer\<close>, \<open>namesvr/run_node.py\<close>). Each name server serves the
  dictionary its \<open>RaftNode\<close> last committed and hands it back changed; the leader replicates it.

  \<^bold>\<open>Conventions.\<close> \<open>Prelude\<close> has faults as values: an access outside an object, a null dereference, a
  failed assertion and a call of \<open>exit\<close> are results, never approximated by a default. Buffers
  are byte lists with \<open>memcpy\<close> as checked reads and writes, \<open>int\<close> fields of packets are 32-bit words,
  object layouts are those of x86-64. \<open>Effects\<close> records every system call and log call in a trace
  and reads the kernel's interest list off it. Results of system calls are arguments of the
  operations. \<open>Interfaces\<close> states the contracts between components as locales
  (\<open>id_allocator\<close>, \<open>bounded_fifo\<close>, \<open>handler_table\<close>), interpreted in \<open>Guid\<close>, \<open>SafeQueue\<close> and
  \<open>EventHandler\<close>; \<open>KVServer\<close> has \<open>service_contract\<close>, what the server relies on in a service, with
  the key-value services as its interpretation. \<open>Registry\<close> has \<open>directory_service\<close>, what the clients
  rely on in a name server, with the registry and (in \<open>NameServer\<close>) a whole node as interpretations.

  \<^bold>\<open>Theories and code.\<close>
  \<^item> \<open>Guid\<close>: \<open>common/Guid.cc\<close>. The heap of free numbers; allocation as a multiset, heap order, the
    broken downward percolation.
  \<^item> \<open>RpcTypes\<close>, \<open>Serializer\<close>: \<open>common/RpcTypes.hh\<close>, \<open>common/RpcUtils\<close>, \<open>serialization/Serializer.cc\<close>.
    Records with their bytes; round trips of packets and parameters; the limits of the result buffer.
  \<^item> \<open>EventHandler\<close>: \<open>runtime/handlemodel\<close>. Virtual methods as a table, the routing table as the
    list the code has, with its laws as a map.
  \<^item> \<open>Poller\<close>, \<open>Reactor\<close>: \<open>runtime/iomodel\<close>. One task per event and its priority.
  \<^item> \<open>SafeQueue\<close>, \<open>ThreadPool\<close>: \<open>runtime/threadmodel\<close>. Workers as control points, interleaved at the
    lock and the condition variable; order of tasks, no lost wake-up.
  \<^item> \<open>RpcEventHandler\<close>, \<open>ServerTransport\<close>, \<open>NameService\<close>, \<open>RpcServer\<close>: \<open>server\<close>, \<open>transport\<close>,
    \<open>client/ServiceDiscoverer.cc\<close>. The handlers of the server with every early return, start-up.
  \<^item> \<open>ServerMachine\<close>: the running server as a step relation over all of these; one task per
    descriptor, no failing assertion, the complete list of faults, dead connections.
  \<^item> \<open>ClientTransport\<close>, \<open>CallbacksHandler\<close>, \<open>RpcClient\<close>: \<open>transport/ClientTransport.cc\<close>,
    \<open>client\<close>, \<open>common/RpcServiceBase.hh\<close>. The client object, its invariant over all runs of calls,
    writes and answers, its capacity.
  \<^item> \<open>ClientMachine\<close>: a client process at the granularity of its threads: callers, main loops and the
    allocator they share; no thread fails, numbers and callbacks are never shared or lost.
  \<^item> \<open>EndToEnd\<close>: one call across client and server. \<open>System\<close>: any number of clients and the server,
    interleaved over connections that deliver in order; nothing fails, calls are answered in order.
  \<^item> \<open>ServerProgress\<close>: between polls the server does finitely much and is never stuck.
    \<open>SystemProgress\<close>: from every state every call can still be answered. \<open>Shutdown\<close>: the destructors
    of the server.
  \<^item> \<open>KVService\<close>, \<open>Apps\<close>, \<open>ClientProgram\<close>: \<open>apps\<close>. The store refines a map; the two programs.
    \<open>KVConcurrent\<close>: the store at the granularity of its bucket locks, linearizable and free of
    deadlock. \<open>KVServer\<close>: the machine of the server with the store in it, a refinement of a map.
  \<^item> \<open>Registry\<close>: the endpoints and the monitor of \<open>namesvr/run_node.py\<close> on the dictionary of servers,
    an association list in insertion order; it refines a directory from addresses to servers, and a
    silent server goes offline and is removed.
    \<open>EndpointThreads\<close>: the same statement by statement, in threads without a lock.
  \<^item> \<open>RaftProtocol\<close>, \<open>Raft\<close>: \<open>namesvr/raft/protocol.py\<close> and \<open>raft.py\<close>. The messages and their
    dictionaries; the node with its locals, one turn of its loops at a time, with Python's negative
    indices and exceptions. \<open>RaftSafety\<close>: an invariant under which no turn raises. \<open>RaftCommit\<close>: which
    entries a leader commits, and that one silent node stops it.
  \<^item> \<open>NameServer\<close>: the nodes with their endpoints, the heap of dictionaries that the endpoints change
    in place, and the network of \<open>interface.py\<close>; no run raises, and one node is a directory.
    \<open>NameServerRuns\<close>: three runs in which the replication goes wrong.
  \<^item> \<open>NodeProcesses\<close>, \<open>NodeRefinement\<close>: the processes \<open>Talker\<close> and \<open>Listener\<close> of \<open>interface.py\<close> as control
    points and events. A talker is a queue; the nodes with these processes implement the cluster of
    \<open>NameServer\<close>, by a simulation that reads the fate of a message off the rest of the run.
  \<^item> \<open>Deployment\<close>, \<open>Launcher\<close>: the start of a node from its configuration (\<open>main\<close> of \<open>run_node.py\<close>) and
    \<open>run_cluster.py\<close>; what they start is the cluster of \<open>NameServer\<close>, and what the end leaves.
  \<^item> \<open>Replication\<close>, \<open>ClusterReplication\<close>, \<open>ClusterService\<close>: a settled cluster of any size, when no message
    is lost, serves requests made at the leader at any times as one registry and carries it to every
    node; the phases are the turns of the leader and the followers, the messages of one node read by
    all, and heartbeats in between.
  \<^item> \<open>ServiceDiscovery\<close>: the C++ client of the name server with the cluster: what is registered at
    the leader is discovered at every node.
  \<^item> \<open>Cformat\<close>, \<open>Logger\<close>, \<open>Timer\<close>, \<open>ArgsParser\<close>, \<open>Sysutils\<close>: \<open>common\<close>.

  \<^bold>\<open>Loops and fuel.\<close> The percolations of \<open>Guid\<close> and all loops over lists are total functions. Fuel
  bounds \<open>Timer::Tick\<close>, whose tasks may add timers (one round more than there are timers is
  enough when they do not), and the two loops of the client program, which need not end. \<open>Run\<close>,
  \<open>ThreadPool::Run\<close> and \<open>RpcClient::Main\<close> are given by their turns.

  \<^bold>\<open>Not modelled.\<close> In \<open>ServerMachine\<close> and \<open>System\<close> a handler of the server is one step: handlers of
  different descriptors touch different queues and routes, and what they share, the store, has its
  interleavings in \<open>KVConcurrent\<close>; those of the client are in \<open>ClientMachine\<close>. \<open>System\<close> assumes that a
  packet arrives whole and that sockets do not fail or close; the handlers' behaviour when they do is in
  the theories before it. Callbacks do not call the client again. Object lifetimes (the detached
  threads, the objects whose destructors only free memory), terminal output and floating point
  arithmetic are left out or parameters, as is the time of day. libcurl, jsoncpp and the generated
  protobuf code are parameters. \<open>ThreadPool::IsStop\<close> is declared
  and never defined; \<open>EventHandlerManager::CreateInstance\<close> is never called. The log calls right before
  an \<open>exit\<close> are not in the trace, since the process has no state after it. What is left of the C++
  code are declarations, includes and constructors that only store their arguments.

  In \<open>NameServer\<close> an endpoint, a pass of the monitor and a turn of the node's thread are one step each;
  the threads of the endpoints are interleaved in \<open>EndpointThreads\<close>, over one dictionary, without a
  commit of the replication between them. Times and loads are exact numbers, not Python's
  floats. Flask, \<open>json\<close> and ZeroMQ are the ways dictionaries are copied and a network that keeps the
  order of a publisher but may lose messages; a field of a message of a wrong type is an error when
  it is read. The schedules of \<open>ClusterService\<close> lose no message and let a request be replicated before
  the next is made; time passes between the requests, and a turn takes none. In
  \<open>NodeProcesses\<close> what a listener has put into its queue can be got at once, and an interrupt
  comes at the calls that wait, not inside the handling of a message. The script \<open>test_failures\<close>
  at the end of \<open>raft.py\<close> and the terminal output are left out.
\<close>

end
